(* ===== verification/Prelude.thy ===== *)
theory Prelude
  imports
    Main
    "HOL-Library.Word"
    "HOL-Library.List_Lexorder"
    "HOL-Library.Char_ord"
    "HOL-Library.Product_Lexorder"
begin

text \<open>
  What the component theories share: the collections of simplification rules, Rust's
  \<^verbatim>\<open>Result\<close> and its \<^verbatim>\<open>?\<close>, the documents of \<^verbatim>\<open>serde_json\<close> with the accessors the
  sources use of them, the string functions of the standard library on UTF-8 bytes, and
  the two interfaces that recur in the program: a pair of functions between an enum and
  its label on the wire (\<open>codec\<close>), and a store that keeps the last value written
  under each key (\<open>last_writer\<close>).
\<close>

named_theorems result_simps \<open>unfolding a chain of fallible calls\<close>
named_theorems json_simps \<open>reading a document\<close>
named_theorems codec_simps \<open>labels of the wire and their enums\<close>

section \<open>Results\<close>

text \<open>
  \<^verbatim>\<open>Result<A, E>\<close> is a sum with the error on the left; \<open>and_then\<close> is Rust's \<^verbatim>\<open>?\<close>
  (the rest of the function runs on \<^verbatim>\<open>Ok\<close>), \<open>ok_or\<close> turns an absent value into an error.
\<close>

fun and_then :: "'e + 'a \<Rightarrow> ('a \<Rightarrow> 'e + 'b) \<Rightarrow> 'e + 'b" where
  "and_then (Inl e) f = Inl e"
| "and_then (Inr x) f = f x"

fun ok_or :: "'e \<Rightarrow> 'a option \<Rightarrow> 'e + 'a" where
  "ok_or e None = Inl e"
| "ok_or e (Some x) = Inr x"

lemma and_then_Inr_iff [result_simps]:
  "and_then r f = Inr y \<longleftrightarrow> (\<exists>x. r = Inr x \<and> f x = Inr y)"
  by (cases r) auto

lemma and_then_Inl_iff [result_simps]:
  "and_then r f = Inl e \<longleftrightarrow> r = Inl e \<or> (\<exists>x. r = Inr x \<and> f x = Inl e)"
  by (cases r) auto

lemma ok_or_Inr_iff [result_simps]: "ok_or e x = Inr y \<longleftrightarrow> x = Some y"
  by (cases x) auto

lemma ok_or_Inl_iff [result_simps]: "ok_or e x = Inl e' \<longleftrightarrow> x = None \<and> e' = e"
  by (cases x) auto

text \<open>
  \<^verbatim>\<open>collect::<Result<Vec<_>, _>>()\<close>, or a loop that pushes and returns at the first
  error: every element is read, the first refusal is the answer.
\<close>

fun traverse :: "('a \<Rightarrow> 'e + 'b) \<Rightarrow> 'a list \<Rightarrow> 'e + 'b list" where
  "traverse f [] = Inr []"
| "traverse f (x # xs) = and_then (f x) (\<lambda>y. and_then (traverse f xs) (\<lambda>ys. Inr (y # ys)))"

lemma traverse_Inr_iff [result_simps]:
  "traverse f xs = Inr ys \<longleftrightarrow> list_all2 (\<lambda>x y. f x = Inr y) xs ys"
  by (induction xs arbitrary: ys) (auto simp: result_simps list_all2_Cons1)

lemma traverse_Inl_iff [result_simps]:
  "traverse f xs = Inl e \<longleftrightarrow>
     (\<exists>us x vs us'. xs = us @ x # vs \<and> traverse f us = Inr us' \<and> f x = Inl e)"
proof (induction xs)
  case Nil
  show ?case by simp
next
  case (Cons a xs)
  show ?case
  proof (cases "f a")
    case (Inl e')
    then show ?thesis
      by (auto simp: Cons_eq_append_conv list_all2_Cons1 traverse_Inr_iff)
  next
    case (Inr b)
    have "traverse f (a # xs) = Inl e \<longleftrightarrow> traverse f xs = Inl e"
      using Inr by (auto simp: and_then_Inl_iff)
    also have "\<dots> \<longleftrightarrow> (\<exists>us x vs us'. a # xs = us @ x # vs \<and> traverse f us = Inr us' \<and> f x = Inl e)"
      unfolding Cons.IH
      using Inr by (auto simp: Cons_eq_append_conv traverse_Inr_iff list_all2_Cons1) blast
    finally show ?thesis .
  qed
qed

lemma traverse_Inr_source:
  "traverse f xs = Inr ys \<Longrightarrow> y \<in> set ys \<Longrightarrow> \<exists>x \<in> set xs. f x = Inr y"
  by (induction xs arbitrary: ys) (auto simp: and_then_Inr_iff)

section \<open>JSON documents\<close>

text \<open>
  \<^verbatim>\<open>serde_json::Value\<close>. An object is the list of its members; a member that was set
  twice reads as the first entry, and \<open>jset\<close> is the assignment \<^verbatim>\<open>object["key"] = value\<close>.
  A number is an integer or, in \<open>JReal\<close>, the lexeme of anything else.
\<close>

datatype json =
    JNull
  | JBool bool
  | JNum int
  | JReal string
  | JStr string
  | JArr "json list"
  | JObj "(string \<times> json) list"

fun jget :: "json \<Rightarrow> string \<Rightarrow> json option" where
  "jget (JObj members) key = map_of members key"
| "jget _ _ = None"

fun jstr :: "json \<Rightarrow> string option" where
  "jstr (JStr s) = Some s"
| "jstr _ = None"

fun jarr :: "json \<Rightarrow> json list option" where
  "jarr (JArr xs) = Some xs"
| "jarr _ = None"

fun jobj :: "json \<Rightarrow> (string \<times> json) list option" where
  "jobj (JObj members) = Some members"
| "jobj _ = None"

fun jbool :: "json \<Rightarrow> bool option" where
  "jbool (JBool b) = Some b"
| "jbool _ = None"

fun ju64 :: "json \<Rightarrow> nat option" where
  "ju64 (JNum n) = (if 0 \<le> n \<and> n < 2 ^ 64 then Some (nat n) else None)"
| "ju64 _ = None"

fun jset :: "json \<Rightarrow> string \<Rightarrow> json \<Rightarrow> json" where
  "jset (JObj members) key v = JObj ((key, v) # filter (\<lambda>m. fst m \<noteq> key) members)"
| "jset j _ _ = j"

text \<open>
  \<^verbatim>\<open>Value::pointer\<close> for pointers whose tokens are member names (the only ones the
  sources use): the token list is the pointer split at its slashes.
\<close>

fun jpointer :: "json \<Rightarrow> string list \<Rightarrow> json option" where
  "jpointer j [] = Some j"
| "jpointer j (t # ts) = Option.bind (jget j t) (\<lambda>k. jpointer k ts)"

lemma jget_jset_same [simp, json_simps]: "jget (jset (JObj ms) k v) k = Some v"
  by simp

lemma jget_jset_other [simp, json_simps]:
  "k \<noteq> k' \<Longrightarrow> jget (jset j k' v) k = jget j k"
proof (cases j)
  case (JObj ms)
  assume "k \<noteq> k'"
  then have "map_of (filter (\<lambda>m. fst m \<noteq> k') ms) k = map_of ms k"
    by (induction ms) auto
  then show ?thesis using JObj \<open>k \<noteq> k'\<close> by simp
qed simp_all

section \<open>Strings\<close>

text \<open>
  A Rust string is its UTF-8 bytes, a HOL \<^typ>\<open>string\<close>. \<open>chars_count\<close> is
  \<^verbatim>\<open>s.chars().count()\<close>: the bytes that do not continue a code point.
\<close>

definition continues :: "char \<Rightarrow> bool" where
  "continues c \<longleftrightarrow> 128 \<le> (of_char c :: nat) \<and> (of_char c :: nat) < 192"

definition chars_count :: "string \<Rightarrow> nat" where
  "chars_count s = length (filter (\<lambda>c. \<not> continues c) s)"

lemma chars_count_le_length: "chars_count s \<le> length s"
  by (simp add: chars_count_def)

text \<open>
  \<^verbatim>\<open>trim\<close>: the byte width of the white-space code point at the head of a string (0 when
  there is none), following Unicode's \<^verbatim>\<open>White_Space\<close> property, and the string without the
  white space at both ends.
\<close>

definition byte_at :: "nat \<Rightarrow> string \<Rightarrow> nat" where
  "byte_at i s = (if i < length s then of_char (s ! i) else 256)"

definition ws_width :: "string \<Rightarrow> nat" where
  "ws_width s =
     (let a = byte_at 0 s; b = byte_at 1 s; c = byte_at 2 s in
      if 9 \<le> a \<and> a \<le> 13 \<or> a = 32 then 1
      else if a = 0xC2 \<and> (b = 0x85 \<or> b = 0xA0) then 2
      else if a = 0xE1 \<and> b = 0x9A \<and> c = 0x80
            \<or> a = 0xE2 \<and> b = 0x80 \<and> (0x80 \<le> c \<and> c \<le> 0x8A \<or> c = 0xA8 \<or> c = 0xA9 \<or> c = 0xAF)
            \<or> a = 0xE2 \<and> b = 0x81 \<and> c = 0x9F
            \<or> a = 0xE3 \<and> b = 0x80 \<and> c = 0x80 then 3
      else 0)"

definition ws_width_rev :: "string \<Rightarrow> nat" where
  "ws_width_rev r =
     (if ws_width (rev (take 1 r)) = 1 then 1
      else if ws_width (rev (take 2 r)) = 2 then 2
      else if ws_width (rev (take 3 r)) = 3 then 3
      else 0)"

fun trim_with :: "(string \<Rightarrow> nat) \<Rightarrow> string \<Rightarrow> string" where
  "trim_with w s = (if s = [] \<or> w s = 0 then s else trim_with w (drop (w s) s))"

declare trim_with.simps [simp del]

definition trim :: "string \<Rightarrow> string" where
  "trim s = rev (trim_with ws_width_rev (rev (trim_with ws_width s)))"

lemma ws_width_Nil [simp]: "ws_width [] = 0"
  by (simp add: ws_width_def byte_at_def)

lemma trim_with_done: "trim_with w s = [] \<or> w (trim_with w s) = 0"
proof (induction w s rule: trim_with.induct)
  case (1 w s)
  show ?case
  proof (cases "s = [] \<or> w s = 0")
    case True
    then show ?thesis by (auto simp: trim_with.simps [of w s])
  next
    case False
    then show ?thesis using 1 by (simp add: trim_with.simps [of w s])
  qed
qed

lemma trim_with_id: "w s = 0 \<Longrightarrow> trim_with w s = s"
  by (simp add: trim_with.simps)

definition graphic :: "char \<Rightarrow> bool" where
  "graphic c \<longleftrightarrow> 32 < (of_char c :: nat) \<and> (of_char c :: nat) < 127"

lemma trim_graphic:
  assumes "s \<noteq> []" and "graphic (hd s)" and "graphic (last s)"
  shows "trim s = s"
proof -
  have "ws_width s = 0"
    using assms(1,2) by (auto simp: ws_width_def byte_at_def graphic_def hd_conv_nth Let_def)
  moreover have "ws_width_rev (rev s) = 0"
  proof -
    obtain xs x where s: "s = xs @ [x]" using assms(1) by (cases s rule: rev_cases) auto
    have x: "graphic x" using assms(3) s by simp
    have one: "ws_width [x] \<noteq> 1"
      using x by (auto simp: ws_width_def byte_at_def graphic_def Let_def)
    have two: "ws_width [y, x] \<noteq> 2" for y
      using x by (auto simp: ws_width_def byte_at_def graphic_def Let_def)
    have three: "ws_width [z, y, x] \<noteq> 3" for y z
      using x by (auto simp: ws_width_def byte_at_def graphic_def Let_def)
    have none: "ws_width [x] \<noteq> 2" "ws_width [x] \<noteq> 3" "ws_width [y, x] \<noteq> 3" for y
      using x by (auto simp: ws_width_def byte_at_def graphic_def Let_def)
    show ?thesis
    proof (cases xs rule: rev_cases)
      case Nil
      then show ?thesis using one none by (simp add: ws_width_rev_def s)
    next
      case (snoc ys y)
      then show ?thesis
      proof (cases ys rule: rev_cases)
        case Nil
        then show ?thesis using snoc one two none by (simp add: ws_width_rev_def s)
      next
        case snoc2: (snoc zs z)
        then show ?thesis using snoc one two three by (simp add: ws_width_rev_def s)
      qed
    qed
  qed
  ultimately show ?thesis by (simp add: trim_def trim_with_id)
qed

text \<open>\<^verbatim>\<open>s.split(c)\<close>, \<^verbatim>\<open>parts.join(sep)\<close>, \<^verbatim>\<open>split_once\<close>, \<^verbatim>\<open>strip_prefix\<close> and ASCII case folding.\<close>

fun split_on :: "char \<Rightarrow> string \<Rightarrow> string list" where
  "split_on c [] = [[]]"
| "split_on c (x # xs) =
     (if x = c then [] # split_on c xs
      else (case split_on c xs of [] \<Rightarrow> [[x]] | p # ps \<Rightarrow> (x # p) # ps))"

fun join_with :: "string \<Rightarrow> string list \<Rightarrow> string" where
  "join_with sep [] = []"
| "join_with sep [x] = x"
| "join_with sep (x # y # ys) = x @ sep @ join_with sep (y # ys)"

fun split_once :: "char \<Rightarrow> string \<Rightarrow> (string \<times> string) option" where
  "split_once c [] = None"
| "split_once c (x # xs) =
     (if x = c then Some ([], xs)
      else map_option (\<lambda>(a, b). (x # a, b)) (split_once c xs))"

fun strip_prefix :: "string \<Rightarrow> string \<Rightarrow> string option" where
  "strip_prefix [] s = Some s"
| "strip_prefix (p # ps) [] = None"
| "strip_prefix (p # ps) (x # xs) = (if p = x then strip_prefix ps xs else None)"

definition ascii_lower :: "char \<Rightarrow> char" where
  "ascii_lower c =
     (let n = (of_char c :: nat) in if 65 \<le> n \<and> n \<le> 90 then char_of (n + 32) else c)"

definition eq_ignore_ascii_case :: "string \<Rightarrow> string \<Rightarrow> bool" where
  "eq_ignore_ascii_case a b \<longleftrightarrow> map ascii_lower a = map ascii_lower b"

definition strip_suffix :: "string \<Rightarrow> string \<Rightarrow> string option" where
  "strip_suffix suffix s = map_option rev (strip_prefix (rev suffix) (rev s))"

definition is_ascii_lowercase :: "char \<Rightarrow> bool" where
  "is_ascii_lowercase c \<longleftrightarrow> 97 \<le> (of_char c :: nat) \<and> (of_char c :: nat) \<le> 122"

definition is_ascii_digit :: "char \<Rightarrow> bool" where
  "is_ascii_digit c \<longleftrightarrow> 48 \<le> (of_char c :: nat) \<and> (of_char c :: nat) \<le> 57"

lemma split_on_not_Nil [simp]: "split_on c s \<noteq> []"
  by (cases s) (auto split: list.splits)

lemma strip_prefix_Some_iff: "strip_prefix p s = Some r \<longleftrightarrow> s = p @ r"
  by (induction p s rule: strip_prefix.induct) auto

lemma split_on_app: "split_on c (p @ c # s) = split_on c p @ split_on c s"
  by (induction p) (auto split: list.splits)

lemma join_split_on: "join_with [c] (split_on c s) = s"
proof (induction s)
  case (Cons x s)
  obtain p ps where p: "split_on c s = p # ps"
    by (cases "split_on c s") auto
  show ?case using Cons by (cases ps) (auto simp: p)
qed simp

lemma split_on_append:
  "c \<notin> set p \<Longrightarrow> split_on c (p @ c # s) = p # split_on c s"
  by (induction p) (auto split: list.splits)

lemma split_on_single: "c \<notin> set p \<Longrightarrow> split_on c p = [p]"
  by (induction p) (auto split: list.splits)

lemma split_on_join:
  assumes "ps \<noteq> []" and "\<forall>p \<in> set ps. c \<notin> set p"
  shows "split_on c (join_with [c] ps) = ps"
  using assms
proof (induction "[c]" ps rule: join_with.induct)
  case (3 x y ys)
  then show ?case by (simp add: split_on_append)
qed (auto simp: split_on_single)

lemma join_with_inj:
  assumes "join_with [c] ps = join_with [c] qs" and "ps \<noteq> []" and "qs \<noteq> []"
    and "\<forall>p \<in> set ps. c \<notin> set p" and "\<forall>q \<in> set qs. c \<notin> set q"
  shows "ps = qs"
  using assms split_on_join by metis

lemma split_once_Some_iff:
  "split_once c s = Some (a, b) \<longleftrightarrow> s = a @ c # b \<and> c \<notin> set a"
proof (induction s arbitrary: a)
  case (Cons x s)
  then show ?case by (cases a) auto
qed simp

section \<open>Numbers in text\<close>

text \<open>
  A number in decimal, and \<^verbatim>\<open>str::parse\<close> of an unsigned integer whose type holds \<open>limit\<close>
  values: an optional plus sign, then digits, and no overflow.
\<close>

definition digit_char :: "nat \<Rightarrow> char" where
  "digit_char d = char_of (48 + d)"

fun dec :: "nat \<Rightarrow> string" where
  "dec n = (if n < 10 then [digit_char n] else dec (n div 10) @ [digit_char (n mod 10)])"

declare dec.simps [simp del]

definition digit_value :: "char \<Rightarrow> nat" where
  "digit_value c = of_char c - 48"

definition digits_value :: "string \<Rightarrow> nat" where
  "digits_value s = foldl (\<lambda>n c. 10 * n + digit_value c) 0 s"

definition parse_uint :: "nat \<Rightarrow> string \<Rightarrow> nat option" where
  "parse_uint limit s =
     (let digits = (case strip_prefix ''+'' s of None \<Rightarrow> s | Some rest \<Rightarrow> rest) in
      if digits = [] \<or> \<not> list_all is_ascii_digit digits \<or> limit \<le> digits_value digits then None
      else Some (digits_value digits))"

lemma digit_char_byte [simp]: "d < 10 \<Longrightarrow> (of_char (digit_char d) :: nat) = 48 + d"
  by (simp add: digit_char_def)

lemma dec_digits: "list_all is_ascii_digit (dec n) \<and> dec n \<noteq> [] \<and> digits_value (dec n) = n"
proof (induction n rule: dec.induct)
  case (1 n)
  show ?case
  proof (cases "n < 10")
    case True
    then show ?thesis by (simp add: dec.simps [of n] is_ascii_digit_def digits_value_def digit_value_def)
  next
    case False
    then show ?thesis
      using 1 by (simp add: dec.simps [of n] is_ascii_digit_def digits_value_def digit_value_def)
  qed
qed

lemma parse_uint_digits:
  assumes "list_all is_ascii_digit s" and "s \<noteq> []" and "digits_value s < limit"
  shows "parse_uint limit s = Some (digits_value s)"
proof -
  have "strip_prefix ''+'' s = None"
    using assms(1,2) by (cases s) (auto simp: is_ascii_digit_def)
  then show ?thesis using assms by (simp add: parse_uint_def)
qed

lemma parse_uint_dec: "n < limit \<Longrightarrow> parse_uint limit (dec n) = Some n"
  using parse_uint_digits [of "dec n" limit] dec_digits [of n] by simp

section \<open>Interface: an enum and its label on the wire\<close>

text \<open>
  Every enum of the contract is written by an \<^verbatim>\<open>as_str\<close> and read by a \<^verbatim>\<open>parse\<close>. Both
  sides of the program rely on the two being inverse to each other.
\<close>

locale codec =
  fixes as_str :: "'a \<Rightarrow> string" and parse :: "string \<Rightarrow> 'a option"
  assumes parse_as_str: "parse (as_str x) = Some x"
    and as_str_parse: "parse s = Some x \<Longrightarrow> s = as_str x"
begin

lemma parse_Some_iff: "parse s = Some x \<longleftrightarrow> s = as_str x"
  using parse_as_str as_str_parse by auto

lemma parse_None_iff: "parse s = None \<longleftrightarrow> s \<notin> range as_str"
  using parse_as_str as_str_parse by (cases "parse s") auto

lemma as_str_inj: "as_str x = as_str y \<longleftrightarrow> x = y"
  by (metis option.inject parse_as_str)

end

section \<open>Interface: the last write under a key\<close>

text \<open>
  A store in which one write covers several keys with one value, and a read answers with
  the last write that covered its key. The store may refuse keys (\<open>admits\<close>), and which
  keys it refuses never changes; \<open>ok\<close> is what a write needs of the store it is made on.
  The facts proved here are used for the consent cache of a consumer and for the
  current-state view of the Gateway's journal alike, and it is by them that the two are
  seen to agree.
\<close>

text \<open>The value a history of writes leaves under a key, read off the history alone.\<close>

fun last_value :: "('w \<Rightarrow> 'k \<Rightarrow> bool) \<Rightarrow> ('w \<Rightarrow> 'v) \<Rightarrow> 'w list \<Rightarrow> 'k \<Rightarrow> 'v option" where
  "last_value covers val [] k = None"
| "last_value covers val (w # ws) k =
     (case last_value covers val ws k of
        None \<Rightarrow> if covers w k then Some (val w) else None
      | Some v \<Rightarrow> Some v)"

lemma last_value_append:
  "last_value covers val (us @ ws) k =
     (case last_value covers val ws k of
        None \<Rightarrow> last_value covers val us k
      | Some v \<Rightarrow> Some v)"
  by (induction us) (auto split: option.splits)

lemma last_value_None_iff:
  "last_value covers val ws k = None \<longleftrightarrow> (\<forall>w \<in> set ws. \<not> covers w k)"
  by (induction ws) (auto split: option.splits)

lemma last_value_Some_iff:
  "last_value covers val ws k = Some v \<longleftrightarrow>
     (\<exists>us w vs. ws = us @ w # vs \<and> covers w k \<and> val w = v \<and> (\<forall>w' \<in> set vs. \<not> covers w' k))"
proof (induction ws)
  case Nil
  show ?case by simp
next
  case (Cons a ws)
  show ?case
  proof (cases "last_value covers val ws k")
    case None
    then have none: "\<forall>w \<in> set ws. \<not> covers w k" by (simp add: last_value_None_iff)
    then have "(\<exists>us w vs. a # ws = us @ w # vs \<and> covers w k \<and> val w = v \<and> (\<forall>w' \<in> set vs. \<not> covers w' k))
        \<longleftrightarrow> covers a k \<and> val a = v"
      by (auto simp: Cons_eq_append_conv)
    then show ?thesis using None by simp
  next
    case (Some v')
    then obtain x where x: "x \<in> set ws" "covers x k"
      using last_value_None_iff [of covers val ws k] by auto
    have "(\<exists>us w vs. a # ws = us @ w # vs \<and> covers w k \<and> val w = v \<and> (\<forall>w' \<in> set vs. \<not> covers w' k))
        \<longleftrightarrow> (\<exists>us w vs. ws = us @ w # vs \<and> covers w k \<and> val w = v \<and> (\<forall>w' \<in> set vs. \<not> covers w' k))"
      using x by (auto simp: Cons_eq_append_conv)
    then show ?thesis using Some Cons.IH by simp
  qed
qed

lemma last_value_cong:
  "map f ws = map g ws' \<Longrightarrow>
    (\<And>w. covers w k = cov (f w)) \<Longrightarrow> (\<And>w. covers' w k' = cov (g w)) \<Longrightarrow>
    (\<And>w. val w = va (f w)) \<Longrightarrow> (\<And>w. val' w = va (g w)) \<Longrightarrow>
    last_value covers val ws k = last_value covers' val' ws' k'"
proof (induction ws arbitrary: ws')
  case (Cons w ws)
  then obtain w' ws'' where w': "ws' = w' # ws''" by (cases ws') auto
  with Cons.prems(1) have fg: "f w = g w'" and "map f ws = map g ws''" by simp_all
  with Cons have "last_value covers val ws k = last_value covers' val' ws'' k'" by blast
  moreover have "covers w k = covers' w' k'" "val w = val' w'"
    using fg Cons.prems(2-) by simp_all
  ultimately show ?case by (simp add: w' split: option.split)
qed simp

locale last_writer =
  fixes put :: "'w \<Rightarrow> 's \<Rightarrow> 's"
    and get :: "'s \<Rightarrow> 'k \<Rightarrow> 'v option"
    and covers :: "'w \<Rightarrow> 'k \<Rightarrow> bool"
    and val :: "'w \<Rightarrow> 'v"
    and admits :: "'s \<Rightarrow> 'k \<Rightarrow> bool"
    and ok :: "'s \<Rightarrow> 'w \<Rightarrow> bool"
  assumes get_put:
      "ok s w \<Longrightarrow> get (put w s) k = (if covers w k \<and> admits s k then Some (val w) else get s k)"
    and admits_put: "ok s w \<Longrightarrow> admits (put w s) k = admits s k"
begin

fun all_ok :: "'w list \<Rightarrow> 's \<Rightarrow> bool" where
  "all_ok [] s \<longleftrightarrow> True"
| "all_ok (w # ws) s \<longleftrightarrow> ok s w \<and> all_ok ws (put w s)"

lemma admits_writes: "all_ok ws s \<Longrightarrow> admits (fold put ws s) k = admits s k"
  by (induction ws arbitrary: s) (simp_all add: admits_put)

lemma get_writes:
  "all_ok ws s \<Longrightarrow> get (fold put ws s) k =
     (if admits s k
      then (case last_value covers val ws k of None \<Rightarrow> get s k | Some v \<Rightarrow> Some v)
      else get s k)"
  by (induction ws arbitrary: s) (simp_all add: get_put admits_put split: option.split)

lemma untouched:
  "all_ok ws s \<Longrightarrow> \<forall>w \<in> set ws. \<not> covers w k \<Longrightarrow> get (fold put ws s) k = get s k"
  using get_writes [of ws s k] last_value_None_iff [of covers val ws k] by simp

lemma never_admitted:
  "all_ok ws s \<Longrightarrow> \<not> admits s k \<Longrightarrow> get (fold put ws s) k = get s k"
  by (simp add: get_writes)

end

end
