(* ===== verification/Chars.thy ===== *)
theory Chars
  imports Prelude
begin

text \<open>
  Counting and cutting a UTF-8 string by code points: \<^verbatim>\<open>s.chars().count()\<close> of a
  concatenation and \<^verbatim>\<open>s.chars().take(n).collect()\<close>.
\<close>

lemma chars_count_append [simp]: "chars_count (s @ t) = chars_count s + chars_count t"
  by (simp add: chars_count_def)

lemma chars_count_Nil [simp]: "chars_count [] = 0"
  by (simp add: chars_count_def)

lemma chars_count_Cons: "chars_count (c # s) = (if continues c then 0 else 1) + chars_count s"
  by (simp add: chars_count_def)

lemma chars_count_newline [simp]: "chars_count (CHR 0x0A # s) = Suc (chars_count s)"
  by (simp add: chars_count_def continues_def)

text \<open>A byte that continues a code point goes with it; the next code point counts one.\<close>

fun take_chars :: "nat \<Rightarrow> string \<Rightarrow> string" where
  "take_chars n [] = []"
| "take_chars n (c # s) =
     (if continues c then c # take_chars n s
      else (case n of 0 \<Rightarrow> [] | Suc m \<Rightarrow> c # take_chars m s))"

lemma take_chars_short: "chars_count s \<le> n \<Longrightarrow> take_chars n s = s"
  by (induction n s rule: take_chars.induct) (auto simp: chars_count_Cons split: if_splits nat.splits)

lemma chars_count_take_chars: "chars_count (take_chars n s) \<le> n"
  by (induction n s rule: take_chars.induct) (auto simp: chars_count_Cons split: nat.splits)

lemma take_chars_prefix: "\<exists>rest. s = take_chars n s @ rest"
  by (induction n s rule: take_chars.induct) (auto split: nat.splits)

end
