(* ===== verification/Journals.thy ===== *)
theory Journals
  imports Prelude
begin

text \<open>
  Tables that only grow: the rows of a table in the order of their sequence, the newest row
  under each key (the views written \<^verbatim>\<open>ROW_NUMBER() OVER (PARTITION BY key ORDER BY sequence
  DESC) = 1\<close>), and the first occurrence of each entry of a history with repetitions
  (\<^verbatim>\<open>INSERT OR IGNORE\<close> on a unique column).
\<close>

definition increasing :: "('r \<Rightarrow> nat) \<Rightarrow> 'r list \<Rightarrow> bool" where
  "increasing number rs \<longleftrightarrow> sorted_wrt (\<lambda>r r'. number r < number r') rs"

lemma increasing_Nil [simp]: "increasing number []"
  by (simp add: increasing_def)

lemma increasing_append [simp]:
  "increasing number (rs @ [r]) \<longleftrightarrow> increasing number rs \<and> (\<forall>x \<in> set rs. number x < number r)"
  by (auto simp: increasing_def sorted_wrt_append)

definition newest :: "('r \<Rightarrow> 'k) \<Rightarrow> ('r \<Rightarrow> nat) \<Rightarrow> 'r list \<Rightarrow> 'r list" where
  "newest key number rs =
     filter (\<lambda>r. \<not> list_ex (\<lambda>r'. key r' = key r \<and> number r < number r') rs) rs"

lemma newest_append:
  assumes "increasing number (rs @ [r])"
  shows "newest key number (rs @ [r]) = filter (\<lambda>x. key x \<noteq> key r) (newest key number rs) @ [r]"
proof -
  have below: "number x < number r" if "x \<in> set rs" for x using assms that by simp
  then have "filter (\<lambda>x. \<not> list_ex (\<lambda>r'. key r' = key x \<and> number x < number r') (rs @ [r])) rs
      = filter (\<lambda>x. key x \<noteq> key r) (newest key number rs)"
    unfolding newest_def filter_filter by (intro filter_cong) auto
  moreover have "\<not> list_ex (\<lambda>r'. key r' = key r \<and> number r < number r') (rs @ [r])"
    using below by (fastforce simp: list_ex_iff)
  ultimately show ?thesis by (simp add: newest_def)
qed

lemma find_app: "List.find p (xs @ ys) = (case List.find p xs of None \<Rightarrow> List.find p ys | Some x \<Rightarrow> Some x)"
  by (induction xs) simp_all

lemma find_newest:
  "increasing number rs \<Longrightarrow>
     List.find (\<lambda>r. key r = k) (newest key number rs) = List.find (\<lambda>r. key r = k) (rev rs)"
proof (induction rs rule: rev_induct)
  case Nil
  show ?case by (simp add: newest_def)
next
  case (snoc r rs)
  have "List.find (\<lambda>x. key x = k) (filter (\<lambda>x. key x \<noteq> key r) xs)
      = (if key r = k then None else List.find (\<lambda>x. key x = k) xs)" for xs
    by (induction xs) auto
  with snoc show ?case
    by (auto simp: newest_append [OF snoc.prems] find_app split: option.split)
qed

fun keep_first :: "('a \<Rightarrow> 'k) \<Rightarrow> 'a list \<Rightarrow> 'a list" where
  "keep_first key [] = []"
| "keep_first key (x # xs) = x # filter (\<lambda>y. key y \<noteq> key x) (keep_first key xs)"

lemma keep_first_subset: "set (keep_first key xs) \<subseteq> set xs"
  by (induction xs) auto

lemma keys_keep_first [simp]: "key ` set (keep_first key xs) = key ` set xs"
proof (induction xs)
  case (Cons x xs)
  have "key ` {y \<in> set (keep_first key xs). key y \<noteq> key x} = key ` set (keep_first key xs) - {key x}" by auto
  with Cons show ?case by auto
qed simp

lemma distinct_keep_first: "distinct (map key (keep_first key xs))"
proof (induction xs)
  case (Cons x xs)
  then show ?case by (auto simp: distinct_map intro: inj_on_subset)
qed simp

lemma keep_first_append:
  "keep_first key (xs @ [y]) = keep_first key xs @ (if key y \<in> key ` set xs then [] else [y])"
  by (induction xs) auto

lemma keep_first_distinct: "distinct (map key xs) \<Longrightarrow> keep_first key xs = xs"
proof (induction xs)
  case (Cons x xs)
  then show ?case by (auto simp: filter_id_conv) (metis imageI)
qed simp

lemma keep_first_map:
  "inj_on (\<lambda>x. key (g x)) (set xs) \<Longrightarrow> keep_first key (map g xs) = map g (keep_first (\<lambda>x. x) xs)"
proof (induction xs)
  case (Cons x xs)
  have "key (g y) \<noteq> key (g x) \<longleftrightarrow> y \<noteq> x" if "y \<in> set (keep_first (\<lambda>x. x) xs)" for y
  proof -
    from that have "y \<in> set (x # xs)" using keep_first_subset [of "\<lambda>x. x" xs] by auto
    then show ?thesis using inj_onD [OF Cons.prems, of y x] by auto
  qed
  then have "filter (\<lambda>y. key (g y) \<noteq> key (g x)) (keep_first (\<lambda>x. x) xs) = filter (\<lambda>y. y \<noteq> x) (keep_first (\<lambda>x. x) xs)"
    by (intro filter_cong) simp_all
  then have "filter (\<lambda>y. key y \<noteq> key (g x)) (map g (keep_first (\<lambda>x. x) xs))
      = map g (filter (\<lambda>y. y \<noteq> x) (keep_first (\<lambda>x. x) xs))"
    by (simp add: filter_map comp_def)
  moreover have "inj_on (\<lambda>x. key (g x)) (set xs)" using Cons.prems by (rule inj_on_subset) auto
  ultimately show ?case using Cons.IH by simp
qed simp

end
