(* ===== verification/Identities.thy ===== *)
theory Identities
  imports Prelude
begin

text \<open>
  Who is not a contact: the operator and the bridges' own bots
  (\<^verbatim>\<open>consent-cache/src/owner.rs\<close>, \<^verbatim>\<open>consent-cache/src/bridge_bot.rs\<close>), and the operator
  as the Gateway holds them (\<^verbatim>\<open>companion-gateway/src/owner.rs\<close>). A \<^verbatim>\<open>BTreeSet<String>\<close> is a
  set of strings, listed in ascending byte order; the locks around the sets are not part
  of the model, every operation takes the value and returns the new one.
\<close>

section \<open>The operator, as a consumer recognises them\<close>

record owner =
  owner_matrix_id :: string
  owner_identities :: "string set"

definition owner_new :: "string \<Rightarrow> string list \<Rightarrow> owner" where
  "owner_new matrix_id ghosts =
     \<lparr>owner_matrix_id = matrix_id, owner_identities = insert matrix_id (set ghosts)\<rparr>"

definition is_owner :: "owner \<Rightarrow> string \<Rightarrow> bool" where
  "is_owner ow user_id \<longleftrightarrow> user_id \<in> owner_identities ow"

definition identities_listed :: "owner \<Rightarrow> string list" where
  "identities_listed ow = sorted_list_of_set (owner_identities ow)"

definition replace_identities :: "string list \<Rightarrow> owner \<Rightarrow> owner" where
  "replace_identities ghosts ow =
     ow\<lparr>owner_identities := insert (owner_matrix_id ow) (set ghosts)\<rparr>"

text \<open>
  What every constructed operator satisfies: the Matrix ID is one of the identities, and
  there are finitely many.
\<close>

definition owner_wf :: "owner \<Rightarrow> bool" where
  "owner_wf ow \<longleftrightarrow> finite (owner_identities ow) \<and> owner_matrix_id ow \<in> owner_identities ow"

lemma owner_wf_new [simp, intro]: "owner_wf (owner_new m gs)"
  by (simp add: owner_wf_def owner_new_def)

lemma owner_wf_replace [simp, intro]: "owner_wf (replace_identities gs ow)"
  by (simp add: owner_wf_def replace_identities_def)

lemma is_owner_new [simp]: "is_owner (owner_new m gs) u \<longleftrightarrow> u = m \<or> u \<in> set gs"
  by (simp add: is_owner_def owner_new_def)

lemma is_owner_replace [simp]:
  "is_owner (replace_identities gs ow) u \<longleftrightarrow> u = owner_matrix_id ow \<or> u \<in> set gs"
  by (simp add: is_owner_def replace_identities_def)

lemma replace_keeps_matrix_id [simp]:
  "owner_matrix_id (replace_identities gs ow) = owner_matrix_id ow"
  by (simp add: replace_identities_def)

lemma identities_listed_props:
  assumes "owner_wf ow"
  shows "sorted (identities_listed ow)" and "distinct (identities_listed ow)"
    and "u \<in> set (identities_listed ow) \<longleftrightarrow> is_owner ow u"
  using assms by (simp_all add: owner_wf_def identities_listed_def is_owner_def)

section \<open>The bridges' own bots\<close>

record bridge_bots =
  bot_ids :: "string set"

definition bots_new :: "string list \<Rightarrow> bridge_bots" where
  "bots_new ids = \<lparr>bot_ids = set ids\<rparr>"

definition bots_contains :: "bridge_bots \<Rightarrow> string \<Rightarrow> bool" where
  "bots_contains b user_id \<longleftrightarrow> user_id \<in> bot_ids b"

definition bots_listed :: "bridge_bots \<Rightarrow> string list" where
  "bots_listed b = sorted_list_of_set (bot_ids b)"

definition bots_is_empty :: "bridge_bots \<Rightarrow> bool" where
  "bots_is_empty b \<longleftrightarrow> bot_ids b = {}"

lemma bots_contains_new [simp]: "bots_contains (bots_new ids) u \<longleftrightarrow> u \<in> set ids"
  by (simp add: bots_contains_def bots_new_def)

lemma bots_is_empty_new [simp]: "bots_is_empty (bots_new ids) \<longleftrightarrow> ids = []"
  by (simp add: bots_is_empty_def bots_new_def)

section \<open>The operator, as the Gateway holds them\<close>

text \<open>
  The Gateway's set is configuration: ghosts are trimmed, blank entries dropped, and
  nothing replaces the set while the process runs.
\<close>

record gateway_owner =
  gowner_matrix_id :: string
  gowner_identities :: "string set"

definition gowner_new :: "string \<Rightarrow> string list \<Rightarrow> gateway_owner" where
  "gowner_new matrix_id ghosts =
     \<lparr>gowner_matrix_id = matrix_id,
      gowner_identities = insert matrix_id (set (filter (\<lambda>g. g \<noteq> []) (map trim ghosts)))\<rparr>"

definition gowner_is_owner :: "gateway_owner \<Rightarrow> string \<Rightarrow> bool" where
  "gowner_is_owner ow user_id \<longleftrightarrow> user_id \<in> gowner_identities ow"

definition gowner_listed :: "gateway_owner \<Rightarrow> string list" where
  "gowner_listed ow = sorted_list_of_set (gowner_identities ow)"

definition gowner_wf :: "gateway_owner \<Rightarrow> bool" where
  "gowner_wf ow \<longleftrightarrow> finite (gowner_identities ow) \<and> gowner_matrix_id ow \<in> gowner_identities ow"

lemma gowner_wf_new [simp, intro]: "gowner_wf (gowner_new m gs)"
  by (simp add: gowner_wf_def gowner_new_def)

lemma gowner_is_owner_new:
  "gowner_is_owner (gowner_new m gs) u \<longleftrightarrow> u = m \<or> (u \<noteq> [] \<and> u \<in> trim ` set gs)"
  by (auto simp: gowner_is_owner_def gowner_new_def)

lemma gowner_listed_set:
  "gowner_wf ow \<Longrightarrow> set (gowner_listed ow) = gowner_identities ow"
  by (simp add: gowner_wf_def gowner_listed_def)

text \<open>The list the Gateway serves as \<^verbatim>\<open>owner_identities\<close>, read back by a consumer, is the same set.\<close>

lemma owner_handed_over:
  assumes "gowner_wf ow"
  shows "is_owner (owner_new (gowner_matrix_id ow) (gowner_listed ow)) u \<longleftrightarrow> gowner_is_owner ow u"
  using assms by (auto simp: gowner_listed_set gowner_is_owner_def gowner_wf_def)

end
