(* ===== verification/Consent_Cache.thy ===== *)
theory Consent_Cache
  imports Identities
begin

text \<open>
  The consent cache every consumer labels a sender by (\<^verbatim>\<open>consent-cache/src/lib.rs\<close>): the
  parsing of a snapshot entry and of a decision, the refusal of what is not about a
  contact, and the precedence of a contact's own decision over the connection's default.
  The maps behind the lock are passed explicitly; the log lines are not modelled.
\<close>

section \<open>Vocabulary\<close>

datatype consent = Granted | Pending | Revoked

fun consent_as_str :: "consent \<Rightarrow> string" where
  "consent_as_str Granted = ''granted''"
| "consent_as_str Pending = ''pending''"
| "consent_as_str Revoked = ''revoked''"

fun reduces_publication :: "consent \<Rightarrow> bool" where
  "reduces_publication Revoked = True"
| "reduces_publication _ = False"

definition consent_from_label :: "string \<Rightarrow> consent" where
  "consent_from_label label =
     (if label = ''granted'' then Granted
      else if label = ''pending'' then Pending
      else if label = ''revoked'' then Revoked
      else Pending)"

lemma consent_from_as_str [simp]: "consent_from_label (consent_as_str c) = c"
  by (cases c) (simp_all add: consent_from_label_def)

lemma consent_from_label_cases:
  "consent_from_label l = Granted \<longleftrightarrow> l = ''granted''"
  "consent_from_label l = Revoked \<longleftrightarrow> l = ''revoked''"
  by (simp_all add: consent_from_label_def)

datatype consent_subject = Contact string | NetworkDefault

datatype unusable = NotAboutASender | NoConnection | Malformed

definition subject_parse :: "json \<Rightarrow> unusable + consent_subject" where
  "subject_parse subject =
     and_then (ok_or Malformed (Option.bind (jget subject ''type'') jstr)) (\<lambda>kind.
       if kind = ''contact'' then
         and_then (ok_or Malformed (Option.bind (jget subject ''id'') jstr)) (\<lambda>i. Inr (Contact i))
       else if kind = ''network'' then Inr NetworkDefault
       else Inl NotAboutASender)"

record consent_entry =
  entry_subject :: consent_subject
  entry_connection :: string
  entry_state :: consent

definition nonempty_str :: "json \<Rightarrow> string option" where
  "nonempty_str j = (case jstr j of Some s \<Rightarrow> if s = [] then None else Some s | None \<Rightarrow> None)"

definition entry_parse :: "json \<Rightarrow> unusable + consent_entry" where
  "entry_parse e =
     and_then (and_then (ok_or Malformed (jget e ''subject'')) subject_parse) (\<lambda>subject.
     and_then (ok_or NoConnection (Option.bind (jget e ''connection'') nonempty_str)) (\<lambda>connection.
     and_then (ok_or Malformed (Option.bind (jget e ''state'') jstr)) (\<lambda>state.
       Inr \<lparr>entry_subject = subject, entry_connection = connection,
            entry_state = consent_from_label state\<rparr>)))"

record consent_change =
  change_subject :: consent_subject
  change_new_state :: consent
  change_connections :: "string list"

definition change_parse :: "json \<Rightarrow> unusable + consent_change" where
  "change_parse event =
     and_then (ok_or Malformed (jget event ''data'')) (\<lambda>data.
     and_then (and_then (ok_or Malformed (jget data ''subject'')) subject_parse) (\<lambda>subject.
     and_then (ok_or Malformed (Option.bind (jget data ''new_state'') jstr)) (\<lambda>state.
     and_then (ok_or NoConnection
                (Option.bind (Option.bind (jget data ''scope'') (\<lambda>scope. jget scope ''connections''))
                   jarr)) (\<lambda>ids.
       let connections = List.map_filter nonempty_str ids in
       if connections = [] then Inl NoConnection
       else Inr \<lparr>change_subject = subject, change_new_state = consent_from_label state,
                 change_connections = connections\<rparr>))))"

definition change_entries :: "consent_change \<Rightarrow> consent_entry list" where
  "change_entries ch =
     map (\<lambda>connection. \<lparr>entry_subject = change_subject ch, entry_connection = connection,
                         entry_state = change_new_state ch\<rparr>) (change_connections ch)"

fun subject_label :: "consent_subject \<Rightarrow> string" where
  "subject_label (Contact i) = i"
| "subject_label NetworkDefault = ''<connection default>''"

section \<open>The cache\<close>

record states =
  contacts :: "string \<times> string \<rightharpoonup> consent"
  defaults :: "string \<rightharpoonup> consent"

record consent_cache =
  cache_states :: states
  cache_owner :: "owner option"
  cache_bots :: bridge_bots

definition states_default :: states where
  "states_default = \<lparr>contacts = Map.empty, defaults = Map.empty\<rparr>"

definition for_people_only :: "owner option \<Rightarrow> bridge_bots \<Rightarrow> consent_cache" where
  "for_people_only owner bots =
     \<lparr>cache_states = states_default, cache_owner = owner, cache_bots = bots\<rparr>"

definition not_a_person :: "consent_cache \<Rightarrow> string \<Rightarrow> string option" where
  "not_a_person c subject_id =
     (if (case cache_owner c of None \<Rightarrow> False | Some ow \<Rightarrow> is_owner ow subject_id)
      then Some ''the operator''
      else if bots_contains (cache_bots c) subject_id then Some ''a bridge's own bot''
      else None)"

definition cache_state :: "consent_cache \<Rightarrow> string \<Rightarrow> string \<Rightarrow> consent" where
  "cache_state c subject_id connection =
     (case contacts (cache_states c) (subject_id, connection) of
        Some s \<Rightarrow> s
      | None \<Rightarrow> (case defaults (cache_states c) connection of Some s \<Rightarrow> s | None \<Rightarrow> Pending))"

definition refuse :: "consent_cache \<Rightarrow> consent_entry \<Rightarrow> bool" where
  "refuse c e =
     (case entry_subject e of
        NetworkDefault \<Rightarrow> False
      | Contact i \<Rightarrow> (case not_a_person c i of None \<Rightarrow> False | Some who \<Rightarrow> True))"

fun insert_state :: "consent_entry \<Rightarrow> states \<Rightarrow> states" where
  "insert_state e st =
     (case entry_subject e of
        Contact i \<Rightarrow> st\<lparr>contacts := (contacts st)((i, entry_connection e) \<mapsto> entry_state e)\<rparr>
      | NetworkDefault \<Rightarrow> st\<lparr>defaults := (defaults st)(entry_connection e \<mapsto> entry_state e)\<rparr>)"

definition apply_entry :: "consent_entry \<Rightarrow> consent_cache \<Rightarrow> consent_cache" where
  "apply_entry e c =
     (if refuse c e then c else c\<lparr>cache_states := insert_state e (cache_states c)\<rparr>)"

definition apply_change :: "consent_change \<Rightarrow> consent_cache \<Rightarrow> consent_cache" where
  "apply_change ch c = fold apply_entry (change_entries ch) c"

record snapshot_doc =
  snap_entries :: "consent_entry list"
  snap_unusable :: "unusable list"
  snap_next :: nat

definition apply_snapshot :: "snapshot_doc \<Rightarrow> consent_cache \<Rightarrow> consent_cache" where
  "apply_snapshot sn c =
     fold apply_entry (snap_entries sn) (c\<lparr>cache_states := states_default\<rparr>)"

definition snapshot_empty :: snapshot_doc where
  "snapshot_empty = \<lparr>snap_entries = [], snap_unusable = [], snap_next = 1\<rparr>"

datatype snapshot_error = NoNextStreamSequence | NoEntriesArray

fun split_results :: "('e + 'a) list \<Rightarrow> 'a list \<times> 'e list" where
  "split_results [] = ([], [])"
| "split_results (Inr x # rs) = (let (xs, es) = split_results rs in (x # xs, es))"
| "split_results (Inl e # rs) = (let (xs, es) = split_results rs in (xs, e # es))"

definition snapshot_parse :: "json \<Rightarrow> snapshot_error + snapshot_doc" where
  "snapshot_parse document =
     and_then (ok_or NoNextStreamSequence (Option.bind (jget document ''next_stream_sequence'') ju64))
       (\<lambda>next. and_then (ok_or NoEntriesArray (Option.bind (jget document ''entries'') jarr))
       (\<lambda>entries. let (parsed, unusable) = split_results (map entry_parse entries) in
          Inr \<lparr>snap_entries = parsed, snap_unusable = unusable, snap_next = next\<rparr>))"

section \<open>What the parsers accept\<close>

lemma jstr_Some_iff [json_simps]: "jstr j = Some s \<longleftrightarrow> j = JStr s"
  by (cases j) auto

lemma nonempty_str_Some_iff [json_simps]: "nonempty_str j = Some s \<longleftrightarrow> j = JStr s \<and> s \<noteq> []"
  by (auto simp: nonempty_str_def json_simps split: option.splits)

lemma subject_parse_Inr_iff:
  "subject_parse j = Inr s \<longleftrightarrow>
     jget j ''type'' = Some (JStr ''contact'') \<and> (\<exists>i. jget j ''id'' = Some (JStr i) \<and> s = Contact i)
   \<or> jget j ''type'' = Some (JStr ''network'') \<and> s = NetworkDefault"
proof (cases "Option.bind (jget j ''type'') jstr")
  case None
  then have "\<not> (\<exists>k. jget j ''type'' = Some (JStr k))" by auto
  then show ?thesis using None by (simp add: subject_parse_def)
next
  case (Some k)
  then have k: "jget j ''type'' = Some (JStr k)"
    by (simp add: bind_eq_Some_conv json_simps)
  consider (contact) "k = ''contact''" | (network) "k = ''network''"
    | (other) "k \<noteq> ''contact''" "k \<noteq> ''network''" by blast
  then show ?thesis
    by cases (auto simp: subject_parse_def k result_simps json_simps bind_eq_Some_conv)
qed

lemma subject_parse_persona:
  assumes "jget j ''type'' = Some (JStr k)" and "k \<noteq> ''contact''" and "k \<noteq> ''network''"
  shows "subject_parse j = Inl NotAboutASender"
  using assms by (simp add: subject_parse_def)

lemma subject_parse_not_NoConnection: "subject_parse j \<noteq> Inl NoConnection"
  by (auto simp: subject_parse_def result_simps split: if_splits)

lemma entry_parse_Inr_iff:
  "entry_parse j = Inr e \<longleftrightarrow>
     (\<exists>sj st. jget j ''subject'' = Some sj \<and> subject_parse sj = Inr (entry_subject e)
        \<and> jget j ''connection'' = Some (JStr (entry_connection e)) \<and> entry_connection e \<noteq> []
        \<and> jget j ''state'' = Some (JStr st) \<and> entry_state e = consent_from_label st)"
  by (cases e) (auto simp: entry_parse_def result_simps json_simps bind_eq_Some_conv)

lemma change_parse_Inr_iff:
  "change_parse j = Inr ch \<longleftrightarrow>
     (\<exists>data sj st scope ids. jget j ''data'' = Some data \<and> jget data ''subject'' = Some sj
        \<and> subject_parse sj = Inr (change_subject ch)
        \<and> jget data ''new_state'' = Some (JStr st) \<and> change_new_state ch = consent_from_label st
        \<and> jget data ''scope'' = Some scope \<and> jget scope ''connections'' = Some (JArr ids)
        \<and> change_connections ch = List.map_filter nonempty_str ids \<and> change_connections ch \<noteq> [])"
proof -
  have jarr: "\<And>v xs. jarr v = Some xs \<longleftrightarrow> v = JArr xs"
    subgoal for v xs by (cases v) auto
    done
  show ?thesis
    by (cases ch)
       (auto simp: change_parse_def result_simps json_simps bind_eq_Some_conv jarr Let_def
             split: if_splits)
qed

lemma change_parse_connections_nonempty:
  "change_parse j = Inr ch \<Longrightarrow> change_connections ch \<noteq> [] \<and> [] \<notin> set (change_connections ch)"
proof -
  assume ok: "change_parse j = Inr ch"
  have "\<And>ids. [] \<notin> set (List.map_filter nonempty_str ids)"
    by (auto simp: List.map_filter_def nonempty_str_def split: option.splits if_splits)
  then show ?thesis using ok by (auto simp: change_parse_Inr_iff)
qed

lemma split_results_append:
  "split_results (rs @ ts) =
     (fst (split_results rs) @ fst (split_results ts), snd (split_results rs) @ snd (split_results ts))"
  by (induction rs rule: split_results.induct) (auto simp: case_prod_unfold Let_def)

lemma split_results_length:
  "length (fst (split_results rs)) + length (snd (split_results rs)) = length rs"
  by (induction rs rule: split_results.induct) (auto simp: case_prod_unfold Let_def)

lemma split_results_fst: "fst (split_results rs) = [x. Inr x \<leftarrow> rs]"
  by (induction rs rule: split_results.induct) (auto simp: case_prod_unfold Let_def)

lemma split_results_snd: "snd (split_results rs) = [e. Inl e \<leftarrow> rs]"
  by (induction rs rule: split_results.induct) (auto simp: case_prod_unfold Let_def)

section \<open>The cache as a last-writer store\<close>

text \<open>
  A key is a subject on a connection. A decision writes its state under one key per
  scoped connection, and the cache admits every key but those of the operator and of the
  bots. An entry of a snapshot is a decision scoped to its one connection.
\<close>

definition entry_change :: "consent_entry \<Rightarrow> consent_change" where
  "entry_change e =
     \<lparr>change_subject = entry_subject e, change_new_state = entry_state e,
      change_connections = [entry_connection e]\<rparr>"

fun change_covers :: "consent_change \<Rightarrow> consent_subject \<times> string \<Rightarrow> bool" where
  "change_covers ch (s, connection) \<longleftrightarrow>
     s = change_subject ch \<and> connection \<in> set (change_connections ch)"

fun cache_get :: "consent_cache \<Rightarrow> consent_subject \<times> string \<Rightarrow> consent option" where
  "cache_get c (Contact i, connection) = contacts (cache_states c) (i, connection)"
| "cache_get c (NetworkDefault, connection) = defaults (cache_states c) connection"

fun cache_admits :: "consent_cache \<Rightarrow> consent_subject \<times> string \<Rightarrow> bool" where
  "cache_admits c (Contact i, connection) \<longleftrightarrow> not_a_person c i = None"
| "cache_admits c (NetworkDefault, connection) \<longleftrightarrow> True"

lemma not_a_person_states [simp]: "not_a_person (c\<lparr>cache_states := s\<rparr>) i = not_a_person c i"
  by (simp add: not_a_person_def)

lemma not_a_person_apply_entry [simp]: "not_a_person (apply_entry e c) i = not_a_person c i"
  by (simp add: apply_entry_def)

lemma refuse_iff: "refuse c e \<longleftrightarrow> \<not> cache_admits c (entry_subject e, entry_connection e)"
  by (cases "entry_subject e") (auto simp: refuse_def split: option.splits)

lemma cache_get_insert_state:
  "cache_get (c\<lparr>cache_states := insert_state e (cache_states c)\<rparr>) (s, connection) =
     (if (s, connection) = (entry_subject e, entry_connection e) then Some (entry_state e)
      else cache_get c (s, connection))"
  by (cases s; cases "entry_subject e") auto

lemma cache_get_apply_entry:
  "cache_get (apply_entry e c) k =
     (if k = (entry_subject e, entry_connection e) \<and> cache_admits c k then Some (entry_state e)
      else cache_get c k)"
  by (cases k) (auto simp: apply_entry_def refuse_iff cache_get_insert_state simp del: insert_state.simps)

lemma cache_admits_apply_entry [simp]: "cache_admits (apply_entry e c) k = cache_admits c k"
  by (cases k; cases "fst k") auto

declare cache_get.simps [simp del] cache_admits.simps [simp del] insert_state.simps [simp del]

lemma apply_change_Cons:
  "apply_change (ch\<lparr>change_connections := c # cs\<rparr>) = apply_change (ch\<lparr>change_connections := cs\<rparr>)
     \<circ> apply_entry \<lparr>entry_subject = change_subject ch, entry_connection = c,
                    entry_state = change_new_state ch\<rparr>"
  by (auto simp: apply_change_def change_entries_def)

lemma apply_change_laws:
  "cache_get (apply_change ch c) k =
     (if change_covers ch k \<and> cache_admits c k then Some (change_new_state ch) else cache_get c k)
   \<and> cache_admits (apply_change ch c) k = cache_admits c k
   \<and> not_a_person (apply_change ch c) i = not_a_person c i"
proof (induction "change_connections ch" arbitrary: ch c)
  case Nil
  then show ?case by (cases k) (simp add: apply_change_def change_entries_def)
next
  case (Cons x xs)
  let ?ch = "ch\<lparr>change_connections := xs\<rparr>"
  let ?e = "\<lparr>entry_subject = change_subject ch, entry_connection = x, entry_state = change_new_state ch\<rparr>"
  have "ch = ch\<lparr>change_connections := x # xs\<rparr>" using Cons.hyps(2) by simp
  then have step: "apply_change ch c = apply_change ?ch (apply_entry ?e c)"
    by (metis apply_change_Cons comp_apply)
  have cov: "change_covers ch k \<longleftrightarrow> change_covers ?ch k \<or> k = (change_subject ch, x)"
    using Cons.hyps(2) [symmetric] by (cases k) auto
  have IH: "cache_get (apply_change ?ch c') k =
       (if change_covers ?ch k \<and> cache_admits c' k then Some (change_new_state ?ch) else cache_get c' k)
     \<and> cache_admits (apply_change ?ch c') k = cache_admits c' k
     \<and> not_a_person (apply_change ?ch c') i = not_a_person c' i" for c'
    by (rule Cons.hyps(1)) simp
  show ?case
    unfolding step IH [THEN conjunct1] IH [THEN conjunct2, THEN conjunct1]
      IH [THEN conjunct2, THEN conjunct2] cov cache_admits_apply_entry cache_get_apply_entry
    by auto
qed

lemmas cache_get_apply = apply_change_laws [THEN conjunct1]
  and cache_admits_apply [simp] = apply_change_laws [THEN conjunct2, THEN conjunct1]
  and not_a_person_apply [simp] = apply_change_laws [THEN conjunct2, THEN conjunct2]

interpretation cache: last_writer apply_change cache_get change_covers change_new_state
  cache_admits "\<lambda>_ _. True"
  by unfold_locales (simp_all add: cache_get_apply)

lemma cache_all_ok [simp]: "cache.all_ok ws c"
  by (induction ws arbitrary: c) simp_all

lemma apply_entry_change: "apply_entry e = apply_change (entry_change e)"
  by (cases e) (auto simp: apply_change_def change_entries_def entry_change_def)

lemma apply_entries_fold: "fold apply_entry es c = fold apply_change (map entry_change es) c"
  by (induction es arbitrary: c) (simp_all add: apply_entry_change)

lemma cache_state_get:
  "cache_state c i connection =
     (case cache_get c (Contact i, connection) of
        Some s \<Rightarrow> s
      | None \<Rightarrow> (case cache_get c (NetworkDefault, connection) of Some s \<Rightarrow> s | None \<Rightarrow> Pending))"
  by (simp add: cache_state_def cache_get.simps split: option.split)

lemma cache_get_cleared [simp]: "cache_get (c\<lparr>cache_states := states_default\<rparr>) k = None"
  by (cases k; cases "fst k") (auto simp: states_default_def cache_get.simps)

lemma cache_admits_cleared [simp]: "cache_admits (c\<lparr>cache_states := st\<rparr>) k = cache_admits c k"
  by (cases k; cases "fst k") (auto simp: cache_admits.simps)

lemma not_a_person_fold [simp]: "not_a_person (fold apply_change ws c) i = not_a_person c i"
  by (induction ws arbitrary: c) auto

section \<open>Properties\<close>

text \<open>The label a history of decisions gives a sender, computed from the history alone.\<close>

definition label_of :: "(string \<Rightarrow> bool) \<Rightarrow> consent_change list \<Rightarrow> string \<Rightarrow> string \<Rightarrow> consent" where
  "label_of person ws i connection =
     (case (if person i then last_value change_covers change_new_state ws (Contact i, connection)
            else None) of
        Some s \<Rightarrow> s
      | None \<Rightarrow>
          (case last_value change_covers change_new_state ws (NetworkDefault, connection) of
             Some s \<Rightarrow> s
           | None \<Rightarrow> Pending))"

lemma cache_state_fold:
  "cache_state (fold apply_change ws (c\<lparr>cache_states := states_default\<rparr>)) i connection =
     label_of (\<lambda>i. not_a_person c i = None) ws i connection"
  by (simp add: cache_state_get cache.get_writes label_of_def cache_admits.simps split: option.split)

lemma cache_state_history:
  "cache_state (fold apply_change chs (apply_snapshot sn c)) i connection =
     label_of (\<lambda>i. not_a_person c i = None) (map entry_change (snap_entries sn) @ chs) i connection"
  unfolding apply_snapshot_def apply_entries_fold
  using cache_state_fold [of "map entry_change (snap_entries sn) @ chs" c i connection] by simp

text \<open>
  A consumer that applies a snapshot and then a run of decisions labels a sender by
  the last decision about the sender on that connection, else by the last default of the
  connection, else \<open>Pending\<close>, whatever the cache held before; a decision about the
  operator or a bot counts for nothing.
\<close>

theorem cache_state_of_history:
  "cache_state (fold apply_change chs (apply_snapshot sn c)) i connection =
     label_of (\<lambda>i. not_a_person c i = None) (map entry_change (snap_entries sn) @ chs) i connection"
  by (rule cache_state_history)

text \<open>
  A decision changes the label of a sender only on the connections it is scoped to:
  two connections of one network are two perimeters.
\<close>

theorem decision_stays_on_its_connections:
  assumes "connection \<notin> set (change_connections ch)"
  shows "cache_state (apply_change ch c) i connection = cache_state c i connection"
  using assms by (simp add: cache_state_get cache_get_apply split: option.split)

theorem decision_stays_on_its_connections_witness:
  "cache_state (apply_change
       \<lparr>change_subject = Contact ''@a'', change_new_state = Revoked, change_connections = [''wa'']\<rparr>
       (for_people_only None (bots_new []))) ''@a'' ''wa-work'' = Pending"
proof -
  have "''wa-work'' \<notin> set (change_connections
      \<lparr>change_subject = Contact ''@a'', change_new_state = Revoked, change_connections = [''wa'']\<rparr>)"
    by simp
  from decision_stays_on_its_connections [OF this, of "for_people_only None (bots_new [])" "''@a''"]
  show ?thesis by (simp add: cache_state_def for_people_only_def states_default_def)
qed

text \<open>The operations a consumer runs on its cache.\<close>

datatype cache_op = ApplyChange consent_change | ApplySnapshot snapshot_doc

fun run_cache_op :: "cache_op \<Rightarrow> consent_cache \<Rightarrow> consent_cache" where
  "run_cache_op (ApplyChange ch) c = apply_change ch c"
| "run_cache_op (ApplySnapshot sn) c = apply_snapshot sn c"

definition people_only :: "consent_cache \<Rightarrow> bool" where
  "people_only c \<longleftrightarrow> (\<forall>k. \<not> cache_admits c k \<longrightarrow> cache_get c k = None)"

lemma people_only_fold: "people_only c \<Longrightarrow> people_only (fold apply_change ws c)"
  by (simp add: people_only_def cache.get_writes cache.admits_writes)

lemma people_only_cleared: "people_only (c\<lparr>cache_states := states_default\<rparr>)"
  by (simp add: people_only_def)

lemma run_cache_op_people_only: "people_only c \<Longrightarrow> people_only (run_cache_op op c)"
  using people_only_fold [of c "[_]"]
  by (cases op) (simp_all add: apply_snapshot_def apply_entries_fold people_only_fold people_only_cleared)

lemma run_cache_op_not_a_person [simp]: "not_a_person (run_cache_op op c) i = not_a_person c i"
  by (cases op) (simp_all add: apply_snapshot_def apply_entries_fold)

text \<open>
  Whatever runs on a fresh cache, no state is ever held under an identity of the
  operator or a bot: their rows are refused entry, from a snapshot and from the stream.
\<close>

theorem nobody_but_people_enters:
  assumes "not_a_person (for_people_only ow bots) i \<noteq> None"
  shows "contacts (cache_states (fold run_cache_op ops (for_people_only ow bots))) (i, connection) = None"
proof -
  let ?c = "fold run_cache_op ops (for_people_only ow bots)"
  have inv: "people_only (fold run_cache_op ops c) \<and> not_a_person (fold run_cache_op ops c) i = not_a_person c i"
    if "people_only c" for c
    using that by (induction ops arbitrary: c) (simp_all add: run_cache_op_people_only)
  have "people_only (for_people_only ow bots)"
    using people_only_cleared [of "for_people_only ow bots"] by (simp add: for_people_only_def)
  from inv [OF this] assms have "people_only ?c" and "not_a_person ?c i \<noteq> None" by simp_all
  then have "cache_get ?c (Contact i, connection) = None"
    by (simp add: people_only_def cache_admits.simps)
  then show ?thesis by (simp add: cache_get.simps)
qed

theorem nobody_but_people_enters_witness:
  "contacts (cache_states (fold run_cache_op
      [ApplyChange \<lparr>change_subject = Contact ''@michel:x'', change_new_state = Revoked,
                    change_connections = [''whatsapp'']\<rparr>]
      (for_people_only (Some (owner_new ''@michel:x'' [])) (bots_new []))))
    (''@michel:x'', ''whatsapp'') = None"
proof -
  have "not_a_person (for_people_only (Some (owner_new ''@michel:x'' [])) (bots_new [])) ''@michel:x'' \<noteq> None"
    by (simp add: not_a_person_def for_people_only_def)
  from nobody_but_people_enters [OF this] show ?thesis .
qed

text \<open>
  The precedence of one sender on one connection, as a single read: a contact's own
  decision wins over the default, the default answers for a contact nobody decided
  about, and with neither the answer is \<open>Pending\<close>; the operator and the bots have no
  decision of their own, so for them only the default can answer.
\<close>

theorem label_after_decision:
  "cache_state (apply_change ch c) i connection =
     (if connection \<notin> set (change_connections ch) then cache_state c i connection
      else case change_subject ch of
        Contact j \<Rightarrow>
          if j = i \<and> not_a_person c i = None then change_new_state ch else cache_state c i connection
      | NetworkDefault \<Rightarrow>
          (case contacts (cache_states c) (i, connection) of
             Some s \<Rightarrow> s
           | None \<Rightarrow> change_new_state ch))"
proof -
  have put: "cache_get (apply_change ch c) (s, connection) =
      (if s = change_subject ch \<and> connection \<in> set (change_connections ch) \<and> cache_admits c (s, connection)
       then Some (change_new_state ch) else cache_get c (s, connection))" for s
    by (simp add: cache_get_apply)
  have own: "contacts (cache_states c) (i, connection) = cache_get c (Contact i, connection)"
    by (simp add: cache_get.simps)
  show ?thesis
    by (cases "change_subject ch")
       (auto simp: cache_state_get put own cache_admits.simps split: option.split)
qed

text \<open>
  Reading a snapshot document: it is refused when it names no stream position or has
  no entries, and otherwise every entry is either applied or reported with its reason,
  in the order served.
\<close>

theorem snapshot_parse_accounts_for_every_entry:
  "snapshot_parse document =
     (case Option.bind (jget document ''next_stream_sequence'') ju64 of
        None \<Rightarrow> Inl NoNextStreamSequence
      | Some n \<Rightarrow>
          (case Option.bind (jget document ''entries'') jarr of
             None \<Rightarrow> Inl NoEntriesArray
           | Some es \<Rightarrow>
               Inr \<lparr>snap_entries = [x. Inr x \<leftarrow> map entry_parse es],
                    snap_unusable = [w. Inl w \<leftarrow> map entry_parse es],
                    snap_next = n\<rparr>))
   \<and> (\<forall>es. length [x. Inr x \<leftarrow> map entry_parse es] + length [w. Inl w \<leftarrow> map entry_parse es]
            = length es)"
proof -
  have "length [x. Inr x \<leftarrow> map entry_parse es] + length [w. Inl w \<leftarrow> map entry_parse es] = length es"
    for es
    using split_results_length [of "map entry_parse es"]
    by (simp only: split_results_fst split_results_snd length_map)
  moreover have "(let (parsed, unusable) = split_results rs in Inr \<lparr>snap_entries = parsed,
        snap_unusable = unusable, snap_next = n\<rparr>) = (Inr \<lparr>snap_entries = [x. Inr x \<leftarrow> rs],
        snap_unusable = [w. Inl w \<leftarrow> rs], snap_next = n\<rparr> :: snapshot_error + snapshot_doc)" for rs n
    by (simp add: Let_def case_prod_unfold split_results_fst split_results_snd)
  ultimately show ?thesis
    by (simp add: snapshot_parse_def split: option.split)
qed

text \<open>
  What an entry may be refused for: a subject that is neither a contact nor a
  network is \<open>NotAboutASender\<close> whatever else the entry carries, and only an entry whose
  subject can be labelled is ever counted as naming no connection.
\<close>

theorem entry_refusals:
  "(entry_parse e = Inl NotAboutASender \<longleftrightarrow>
     (\<exists>sj k. jget e ''subject'' = Some sj \<and> jget sj ''type'' = Some (JStr k)
        \<and> k \<noteq> ''contact'' \<and> k \<noteq> ''network''))
 \<and> (entry_parse e = Inl NoConnection \<longleftrightarrow>
     (\<exists>sj s. jget e ''subject'' = Some sj \<and> subject_parse sj = Inr s
        \<and> \<not> (\<exists>c. c \<noteq> [] \<and> jget e ''connection'' = Some (JStr c))))"
proof -
  have sub: "subject_parse sj = Inl NotAboutASender \<longleftrightarrow>
      (\<exists>k. jget sj ''type'' = Some (JStr k) \<and> k \<noteq> ''contact'' \<and> k \<noteq> ''network'')" for sj
    by (auto simp: subject_parse_def result_simps json_simps bind_eq_Some_conv split: if_splits)
  have conn: "Option.bind x nonempty_str = None \<longleftrightarrow> \<not> (\<exists>c. c \<noteq> [] \<and> x = Some (JStr c))" for x
    by (cases x; cases "the x") (auto simp: nonempty_str_def)
  have "entry_parse e = Inl NotAboutASender \<longleftrightarrow>
     (\<exists>sj k. jget e ''subject'' = Some sj \<and> jget sj ''type'' = Some (JStr k)
        \<and> k \<noteq> ''contact'' \<and> k \<noteq> ''network'')"
    by (auto simp: entry_parse_def result_simps sub)
  moreover have "entry_parse e = Inl NoConnection \<longleftrightarrow>
     (\<exists>sj s. jget e ''subject'' = Some sj \<and> subject_parse sj = Inr s
        \<and> \<not> (\<exists>c. c \<noteq> [] \<and> jget e ''connection'' = Some (JStr c)))"
    by (auto simp: entry_parse_def result_simps conn subject_parse_not_NoConnection)
  ultimately show ?thesis by blast
qed

end
