(* ===== verification/Networks.thy ===== *)
theory Networks
  imports Prelude "HOL-Library.Multiset"
begin

text \<open>
  The contract's networks and how the Sensor attributes an observed event, and a subject,
  to one of them (\<^verbatim>\<open>companion-gateway/src/consent.rs\<close>, \<^verbatim>\<open>sensor/src/network.rs\<close>). The
  two components each declare the enum; the model has it once.
\<close>

section \<open>The enum, as the Gateway reads and writes it\<close>

datatype network = Whatsapp | Telegram | Signal | Discord | Sms | Matrix | Email

definition all_networks :: "network list" where
  "all_networks = [Whatsapp, Telegram, Signal, Discord, Sms, Matrix, Email]"

fun network_as_str :: "network \<Rightarrow> string" where
  "network_as_str Whatsapp = ''whatsapp''"
| "network_as_str Telegram = ''telegram''"
| "network_as_str Signal = ''signal''"
| "network_as_str Discord = ''discord''"
| "network_as_str Sms = ''sms''"
| "network_as_str Matrix = ''matrix''"
| "network_as_str Email = ''email''"

definition network_parse :: "string \<Rightarrow> network option" where
  "network_parse value = List.find (\<lambda>n. network_as_str n = value) all_networks"

lemma all_networks_complete [simp]: "n \<in> set all_networks"
  by (cases n) (simp_all add: all_networks_def)

interpretation network: codec network_as_str network_parse
proof unfold_locales
  fix x :: network
  show "network_parse (network_as_str x) = Some x"
    by (cases x) (simp_all add: network_parse_def all_networks_def)
next
  fix s x
  assume "network_parse s = Some x"
  then show "s = network_as_str x"
    by (auto simp: network_parse_def find_Some_iff)
qed

lemmas [codec_simps] = network.parse_as_str network.as_str_inj

section \<open>The Sensor's attribution\<close>

definition from_bridge_id :: "string \<Rightarrow> network option" where
  "from_bridge_id i =
     (if i = ''whatsapp'' then Some Whatsapp
      else if i = ''telegram'' then Some Telegram
      else if i = ''signal'' then Some Signal
      else if i = ''discord'' then Some Discord
      else if i = ''sms'' then Some Sms
      else if i = ''gmessages'' \<or> i = ''gmessages-sms'' \<or> i = ''gmessages-rcs'' then Some Sms
      else if i = ''discordgo'' then Some Discord
      else None)"

definition from_ghost_localpart :: "string \<Rightarrow> network option" where
  "from_ghost_localpart localpart =
     Option.bind (split_once (CHR ''_'') localpart) (\<lambda>(prefix, _). from_bridge_id prefix)"

definition from_contract_value :: "string \<Rightarrow> network option" where
  "from_contract_value value =
     (if value = ''whatsapp'' then Some Whatsapp
      else if value = ''telegram'' then Some Telegram
      else if value = ''signal'' then Some Signal
      else if value = ''discord'' then Some Discord
      else if value = ''sms'' then Some Sms
      else if value = ''matrix'' then Some Matrix
      else if value = ''email'' then Some Email
      else None)"

fun find_map :: "('a \<Rightarrow> 'b option) \<Rightarrow> 'a list \<Rightarrow> 'b option" where
  "find_map f [] = None"
| "find_map f (x # xs) = (case f x of Some y \<Rightarrow> Some y | None \<Rightarrow> find_map f xs)"

definition network_resolve :: "json list \<Rightarrow> string \<Rightarrow> network option" where
  "network_resolve bridge_contents sender_localpart =
     (let ids = List.map_filter
                  (\<lambda>content. Option.bind (jpointer content [''protocol'', ''id'']) jstr) bridge_contents;
          bridged = (case find_map from_bridge_id ids of
                       Some n \<Rightarrow> Some n
                     | None \<Rightarrow> from_ghost_localpart sender_localpart)
      in case bridged of
           Some n \<Rightarrow> Some n
         | None \<Rightarrow> if bridge_contents = [] then Some Matrix else None)"

datatype subject_network_answer =
    One network
  | Ambiguous "network list"
  | Unattributable

fun push_distinct :: "'a list \<Rightarrow> 'a list \<Rightarrow> 'a list" where
  "push_distinct seen [] = seen"
| "push_distinct seen (x # xs) =
     (if x \<in> set seen then push_distinct seen xs else push_distinct (seen @ [x]) xs)"

definition subject_network :: "string \<Rightarrow> network list \<Rightarrow> subject_network_answer" where
  "subject_network localpart shared_room_networks =
     (case from_ghost_localpart localpart of
        Some n \<Rightarrow> One n
      | None \<Rightarrow>
          if Matrix \<in> set shared_room_networks then One Matrix
          else
            (case push_distinct [] shared_room_networks of
               [] \<Rightarrow> Unattributable
             | [only] \<Rightarrow> One only
             | several \<Rightarrow> Ambiguous (sort_key network_as_str several)))"

definition ghost_network_identifier :: "network \<Rightarrow> string \<Rightarrow> string option" where
  "ghost_network_identifier n localpart =
     Option.bind (split_once (CHR ''_'') localpart) (\<lambda>(prefix, identifier).
       if from_bridge_id prefix \<noteq> Some n \<or> identifier = [] then None
       else if (n = Whatsapp \<or> n = Sms) \<and> list_all is_ascii_digit identifier
       then Some (CHR ''+'' # identifier)
       else Some identifier)"

section \<open>Lemmas\<close>

lemma push_distinct_set [simp]: "set (push_distinct seen xs) = set seen \<union> set xs"
  by (induction seen xs rule: push_distinct.induct) auto

lemma push_distinct_distinct: "distinct seen \<Longrightarrow> distinct (push_distinct seen xs)"
  by (induction seen xs rule: push_distinct.induct) auto

lemma sort_key_by_set:
  fixes f :: "'a \<Rightarrow> 'b :: linorder"
  assumes "inj f" and "distinct xs" and "distinct ys" and "set xs = set ys"
  shows "sort_key f xs = sort_key f ys"
proof (rule sort_key_eq_sort_key)
  show "mset xs = mset ys"
    using assms by (simp add: set_eq_iff_mset_eq_distinct)
  show "inj_on f (set xs)"
    using assms(1) by (rule inj_on_subset) simp
qed

lemma inj_network_as_str: "inj network_as_str"
  by (simp add: inj_def codec_simps)

lemma from_ghost_localpart_Some_iff:
  "from_ghost_localpart l = Some n \<longleftrightarrow>
     (\<exists>prefix rest. l = prefix @ CHR ''_'' # rest \<and> CHR ''_'' \<notin> set prefix
        \<and> from_bridge_id prefix = Some n)"
  by (auto simp: from_ghost_localpart_def bind_eq_Some_conv split_once_Some_iff)

section \<open>Properties\<close>

text \<open>
  The Sensor's reader of a contract \<^verbatim>\<open>network\<close> value and the Gateway's are one
  function, and both are exactly inverse to the label the other side writes.
\<close>

theorem sensor_and_gateway_read_one_network:
  "from_contract_value = network_parse
   \<and> (\<forall>v n. from_contract_value v = Some n \<longleftrightarrow> v = network_as_str n)"
proof -
  have "from_contract_value v = network_parse v" for v
    by (simp add: from_contract_value_def network_parse_def all_networks_def eq_commute [of v])
  then show ?thesis using network.parse_Some_iff by auto
qed

text \<open>
  Whose network a subject is on never depends on the order of the rooms they share
  with the Sensor, nor on how often a network occurs among them.
\<close>

theorem subject_network_ignores_room_order:
  assumes "set rooms = set rooms'"
  shows "subject_network localpart rooms = subject_network localpart rooms'"
proof -
  let ?d = "push_distinct [] rooms" and ?d' = "push_distinct [] rooms'"
  have d: "distinct ?d" "distinct ?d'" "set ?d = set ?d'"
    using assms by (simp_all add: push_distinct_distinct)
  then have len: "length ?d = length ?d'" by (metis distinct_card)
  have sorted: "sort_key network_as_str ?d = sort_key network_as_str ?d'"
    using inj_network_as_str d by (rule sort_key_by_set)
  show ?thesis
  proof (cases ?d)
    case Nil
    with len have "?d' = []" by simp
    with Nil assms show ?thesis by (simp add: subject_network_def split: option.split)
  next
    case (Cons x xs)
    show ?thesis
    proof (cases xs)
      case Nil
      with Cons len d(3) have "?d' = [x]" by (cases ?d') auto
      with Cons Nil assms show ?thesis by (simp add: subject_network_def split: option.split)
    next
      case (Cons y ys)
      with \<open>?d = x # xs\<close> len obtain x' y' ys' where "?d' = x' # y' # ys'"
        by (cases ?d'; cases "tl ?d'") auto
      with Cons \<open>?d = x # xs\<close> sorted assms show ?thesis
        by (simp add: subject_network_def split: option.split)
    qed
  qed
qed

theorem subject_network_ignores_room_order_witness:
  "subject_network ''alice'' [Telegram, Signal, Telegram] = subject_network ''alice'' [Signal, Telegram]
   \<and> subject_network ''alice'' [Signal, Telegram] = Ambiguous [Signal, Telegram]"
proof -
  have "set [Telegram, Signal, Telegram] = set [Signal, Telegram]" by auto
  from subject_network_ignores_room_order [OF this]
  have "subject_network ''alice'' [Telegram, Signal, Telegram] = subject_network ''alice'' [Signal, Telegram]" .
  moreover have "subject_network ''alice'' [Signal, Telegram] = Ambiguous [Signal, Telegram]"
    by code_simp
  ultimately show ?thesis by simp
qed

lemma from_bridge_id_not_matrix: "from_bridge_id i \<noteq> Some Matrix"
  by (simp add: from_bridge_id_def)

lemma find_map_from_bridge_id_not_matrix: "find_map from_bridge_id xs \<noteq> Some Matrix"
  by (induction xs) (auto simp: from_bridge_id_not_matrix split: option.split)

lemma from_ghost_localpart_not_matrix: "from_ghost_localpart l \<noteq> Some Matrix"
  by (auto simp: from_ghost_localpart_Some_iff from_bridge_id_not_matrix)

text \<open>
  A room nothing bridged is native Matrix traffic, a room some bridge marked is never
  called Matrix, and a room whose markers name nothing known is attributed by the
  sender's ghost prefix or not at all.
\<close>

theorem resolve_matrix_iff_unbridged:
  "network_resolve contents localpart = Some Matrix \<longleftrightarrow>
     contents = [] \<and> from_ghost_localpart localpart = None"
  using find_map_from_bridge_id_not_matrix from_ghost_localpart_not_matrix
  by (auto simp: network_resolve_def Let_def List.map_filter_simps split: option.splits)

text \<open>
  A ghost's own localpart decides: a subject who is a ghost is on the network of the
  ghost whatever rooms they share, and a native identifier is only ever derived on the
  network the ghost belongs to.
\<close>

theorem ghost_decides:
  assumes "from_ghost_localpart localpart = Some n"
  shows "subject_network localpart rooms = One n
    \<and> (\<forall>m i. ghost_network_identifier m localpart = Some i \<longrightarrow> m = n)"
  using assms
  by (auto simp: subject_network_def ghost_network_identifier_def from_ghost_localpart_def
        bind_eq_Some_conv split: if_splits)

theorem ghost_decides_witness:
  "subject_network ''whatsapp_33612345678'' [Matrix, Signal] = One Whatsapp
   \<and> ghost_network_identifier Whatsapp ''whatsapp_33612345678'' = Some ''+33612345678''"
proof -
  have g: "from_ghost_localpart ''whatsapp_33612345678'' = Some Whatsapp" by code_simp
  have "ghost_network_identifier Whatsapp ''whatsapp_33612345678'' = Some ''+33612345678''"
    by code_simp
  with ghost_decides [OF g, of "[Matrix, Signal]"] show ?thesis by simp
qed

end
