(* ===== verification/Connections.thy ===== *)
theory Connections
  imports Networks
begin

text \<open>
  The registry of connections: how the Gateway builds it from the environment, refuses
  one that is ambiguous, and answers from it (\<^verbatim>\<open>companion-gateway/src/connections.rs\<close>), and
  how the Sensor reads the one it is handed and looks a room up in it
  (\<^verbatim>\<open>sensor/src/connection.rs\<close>).
\<close>

section \<open>The Gateway's registry\<close>

text \<open>Of a bridge's configuration the registry reads three fields.\<close>

record bridge_config =
  bridge_id :: string
  bridge_network :: string
  bot_user_id :: "string option"

record connection =
  conn_id :: string
  conn_kind :: string
  conn_label :: string
  conn_bridge_id :: "string option"
  conn_bridge_bot :: "string option"

text \<open>The contract's kinds, in the order of \<^verbatim>\<open>kind.schema.json\<close>.\<close>

definition kinds :: "string list" where
  "kinds = [''whatsapp'', ''telegram'', ''signal'', ''discord'', ''sms'', ''matrix'', ''email'',
            ''calendar'']"

definition carried_by :: "string \<Rightarrow> string \<Rightarrow> string \<Rightarrow> bridge_config option \<Rightarrow> connection" where
  "carried_by i kind label bridge =
     \<lparr>conn_id = i, conn_kind = kind, conn_label = label,
      conn_bridge_id = map_option bridge_id bridge,
      conn_bridge_bot = Option.bind bridge bot_user_id\<rparr>"

datatype unresolved =
    UnknownId string
  | NoneOfKind string
  | SeveralOfKind string "string list"

datatype config_error =
    UnknownKind string string
  | InvalidId string
  | NamedTwice string
  | NotNamedAfterBridge nat string string
  | BridgeNamesNoBot nat string string string
  | EntryHasNoKind string

definition id_is_valid :: "string \<Rightarrow> bool" where
  "id_is_valid i =
     (case i of
        [] \<Rightarrow> False
      | first # rest \<Rightarrow>
          (is_ascii_lowercase first \<or> is_ascii_digit first) \<and> length i \<le> 64
          \<and> list_all (\<lambda>c. is_ascii_lowercase c \<or> is_ascii_digit c \<or> c = CHR ''-'') rest)"

fun derive_connections :: "connection list \<Rightarrow> bridge_config list \<Rightarrow> connection list" where
  "derive_connections known [] = known"
| "derive_connections known (b # bs) =
     (if list_ex (\<lambda>k. conn_kind k = bridge_network b) known then derive_connections known bs
      else derive_connections
             (known @ [carried_by (bridge_network b) (bridge_network b) (bridge_id b) (Some b)]) bs)"

definition derived_from_bridges :: "bridge_config list \<Rightarrow> connection list" where
  "derived_from_bridges bridges = derive_connections [] bridges"

text \<open>\<^verbatim>\<open>entry.splitn(3, '=')\<close>: the head, and the two optional parts after it.\<close>

definition splitn3 :: "string \<Rightarrow> string \<times> string option \<times> string option" where
  "splitn3 entry =
     (case split_once (CHR ''='') entry of
        None \<Rightarrow> (entry, None, None)
      | Some (a, r) \<Rightarrow>
          (case split_once (CHR ''='') r of
             None \<Rightarrow> (a, Some r, None)
           | Some (b, c) \<Rightarrow> (a, Some b, Some c)))"

definition nonblank :: "string option \<Rightarrow> string option" where
  "nonblank part =
     (case part of
        None \<Rightarrow> None
      | Some s \<Rightarrow> if trim s = [] then None else Some (trim s))"

definition transport_of :: "bridge_config list \<Rightarrow> string \<Rightarrow> string \<Rightarrow> bridge_config option" where
  "transport_of bridges i kind =
     (case List.find (\<lambda>b. bridge_id b = i) bridges of
        Some b \<Rightarrow> Some b
      | None \<Rightarrow>
          (case filter (\<lambda>b. bridge_network b = kind) bridges of
             [only] \<Rightarrow> Some only
           | _ \<Rightarrow> None))"

definition parse_entry :: "bridge_config list \<Rightarrow> string \<Rightarrow> config_error + connection" where
  "parse_entry bridges entry =
     (let (head, kind_part, label_part) = splitn3 entry; i = trim head in
      and_then (ok_or (EntryHasNoKind entry) (nonblank kind_part)) (\<lambda>kind.
        let label = (case nonblank label_part of Some l \<Rightarrow> l | None \<Rightarrow> i) in
        Inr (carried_by i kind label (transport_of bridges i kind))))"

definition parse_declared :: "string \<Rightarrow> bridge_config list \<Rightarrow> config_error + connection list" where
  "parse_declared declared bridges =
     traverse (parse_entry bridges)
       (filter (\<lambda>e. e \<noteq> []) (map trim (split_on (CHR '','') declared)))"

definition check_shape :: "connection \<Rightarrow> config_error option" where
  "check_shape c =
     (if conn_kind c \<notin> set kinds then Some (UnknownKind (conn_id c) (conn_kind c))
      else if \<not> id_is_valid (conn_id c) then Some (InvalidId (conn_id c))
      else None)"

fun first_repeat :: "'a list \<Rightarrow> 'a list \<Rightarrow> 'a option" where
  "first_repeat seen [] = None"
| "first_repeat seen (x # xs) =
     (if x \<in> set seen then Some x else first_repeat (x # seen) xs)"

definition of_kind :: "connection list \<Rightarrow> string \<Rightarrow> connection list" where
  "of_kind r kind = filter (\<lambda>c. conn_kind c = kind) r"

definition check_named_after_bridge ::
  "bridge_config list \<Rightarrow> connection list \<Rightarrow> connection \<Rightarrow> config_error option" where
  "check_named_after_bridge bridges r c =
     (if conn_bridge_id c \<noteq> None then None
      else
        let n = length (of_kind r (conn_kind c)) in
        if n > 1 \<and> list_ex (\<lambda>b. bridge_network b = conn_kind c) bridges
        then Some (NotNamedAfterBridge n (conn_kind c) (conn_id c))
        else None)"

definition check_bot :: "connection list \<Rightarrow> connection \<Rightarrow> config_error option" where
  "check_bot r c =
     (case conn_bridge_id c of
        None \<Rightarrow> None
      | Some b \<Rightarrow>
          let n = length (of_kind r (conn_kind c)) in
          if n > 1 \<and> conn_bridge_bot c = None
          then Some (BridgeNamesNoBot n (conn_kind c) b (conn_id c))
          else None)"

definition with_native_matrix :: "string \<Rightarrow> connection list \<Rightarrow> connection list" where
  "with_native_matrix homeserver_name r =
     (if list_ex (\<lambda>c. conn_kind c = ''matrix'') r then r
      else r @ [carried_by ''matrix'' ''matrix'' homeserver_name None])"

definition refuse_with :: "config_error option \<Rightarrow> config_error + unit" where
  "refuse_with e = (case e of None \<Rightarrow> Inr () | Some err \<Rightarrow> Inl err)"

definition from_config ::
  "string option \<Rightarrow> bridge_config list \<Rightarrow> string \<Rightarrow> config_error + connection list" where
  "from_config declared bridges homeserver_name =
     and_then (case nonblank declared of
                 None \<Rightarrow> Inr (derived_from_bridges bridges)
               | Some d \<Rightarrow> parse_declared d bridges) (\<lambda>base.
     let r = with_native_matrix homeserver_name base in
     and_then (refuse_with (find_map check_shape r)) (\<lambda>_.
     and_then (refuse_with (map_option NamedTwice (first_repeat [] (map conn_id r)))) (\<lambda>_.
     and_then (refuse_with (find_map (check_named_after_bridge bridges r) r)) (\<lambda>_.
     and_then (refuse_with (find_map (check_bot r) r)) (\<lambda>_.
       Inr r)))))"

definition registry_get :: "connection list \<Rightarrow> string \<Rightarrow> connection option" where
  "registry_get r i = List.find (\<lambda>c. conn_id c = i) r"

definition only_of_kind :: "connection list \<Rightarrow> string \<Rightarrow> connection option" where
  "only_of_kind r kind = (case of_kind r kind of [only] \<Rightarrow> Some only | _ \<Rightarrow> None)"

definition registry_resolve ::
  "connection list \<Rightarrow> string option \<Rightarrow> string \<Rightarrow> unresolved + connection" where
  "registry_resolve r carried kind =
     (case nonblank carried of
        Some i \<Rightarrow> ok_or (UnknownId i) (registry_get r i)
      | None \<Rightarrow>
          (case of_kind r kind of
             [only] \<Rightarrow> Inr only
           | [] \<Rightarrow> Inl (NoneOfKind kind)
           | several \<Rightarrow> Inl (SeveralOfKind kind (map conn_id several))))"

definition uncovered_bridges :: "connection list \<Rightarrow> bridge_config list \<Rightarrow> bridge_config list" where
  "uncovered_bridges r bridges =
     filter (\<lambda>b. \<not> list_ex (\<lambda>c. conn_bridge_id c = Some (bridge_id b)) r) bridges"

section \<open>The Sensor's registry\<close>

record sensor_connection =
  sc_id :: string
  sc_kind :: string
  sc_bridge_bot :: "string option"

record sensor_registry =
  sr_connections :: "sensor_connection list"
  sr_handed_over :: bool

datatype resolution =
    Resolved string
  | UnknownBot string

definition implicit_registry :: sensor_registry where
  "implicit_registry =
     \<lparr>sr_connections =
        map (\<lambda>n. \<lparr>sc_id = network_as_str n, sc_kind = network_as_str n, sc_bridge_bot = None\<rparr>)
          all_networks,
      sr_handed_over = False\<rparr>"

definition read_connection :: "json \<Rightarrow> sensor_connection option" where
  "read_connection e =
     Option.bind (Option.bind (jget e ''id'') jstr) (\<lambda>i.
     Option.bind (Option.bind (jget e ''kind'') jstr) (\<lambda>kind.
       Some \<lparr>sc_id = i, sc_kind = kind,
             sc_bridge_bot = Option.bind (jget e ''bridge_bot'') jstr\<rparr>))"

definition registry_from_snapshot :: "json \<Rightarrow> sensor_registry" where
  "registry_from_snapshot document =
     (case Option.bind (jget document ''connections'') jarr of
        None \<Rightarrow> implicit_registry
      | Some entries \<Rightarrow>
          \<lparr>sr_connections = List.map_filter read_connection entries, sr_handed_over = True\<rparr>)"

definition sensor_resolve :: "sensor_registry \<Rightarrow> string option \<Rightarrow> network \<Rightarrow> resolution" where
  "sensor_resolve r bridge_bot n =
     (case (case bridge_bot of
              None \<Rightarrow> None
            | Some b \<Rightarrow> List.find (\<lambda>c. sc_bridge_bot c = Some b) (sr_connections r)) of
        Some c \<Rightarrow> Resolved (sc_id c)
      | None \<Rightarrow>
          (case filter (\<lambda>c. sc_kind c = network_as_str n) (sr_connections r) of
             [only] \<Rightarrow>
               (case (sc_bridge_bot only, bridge_bot) of
                  (Some named, Some _) \<Rightarrow>
                    UnknownBot (''the only connection of this kind, '' @ sc_id only @ '', is '' @ named
                      @ [CHR 0x27] @ ''s and this room was built by another bot'')
                | _ \<Rightarrow> Resolved (sc_id only))
           | [] \<Rightarrow> UnknownBot ''no connection of this kind is registered''
           | _ \<Rightarrow> UnknownBot (''several connections of this kind are registered and none names ''
                    @ ''this room'' @ [CHR 0x27] @ ''s bridge bot'')))"

section \<open>Lemmas\<close>

lemma find_map_None_iff: "find_map f xs = None \<longleftrightarrow> (\<forall>x \<in> set xs. f x = None)"
  by (induction xs) (auto split: option.splits)

lemma first_repeat_None_iff:
  "first_repeat seen xs = None \<longleftrightarrow> distinct xs \<and> set xs \<inter> set seen = {}"
  by (induction seen xs rule: first_repeat.induct) auto

lemma refuse_with_Inr_iff [result_simps]: "refuse_with e = Inr u \<longleftrightarrow> e = None"
  by (cases e) (simp_all add: refuse_with_def)

lemma from_config_Inr:
  assumes "from_config declared bridges hs = Inr r"
  shows "\<forall>c \<in> set r. conn_kind c \<in> set kinds \<and> id_is_valid (conn_id c)"
    and "distinct (map conn_id r)"
    and "\<forall>c \<in> set r. check_named_after_bridge bridges r c = None"
    and "\<forall>c \<in> set r. check_bot r c = None"
    and "\<exists>c \<in> set r. conn_kind c = ''matrix''"
proof -
  from assms obtain base where r: "r = with_native_matrix hs base"
    and shape: "find_map check_shape r = None"
    and dup: "first_repeat [] (map conn_id r) = None"
    and named: "find_map (check_named_after_bridge bridges r) r = None"
    and bots: "find_map (check_bot r) r = None"
    by (auto simp: from_config_def Let_def result_simps)
  show "\<forall>c \<in> set r. conn_kind c \<in> set kinds \<and> id_is_valid (conn_id c)"
    using shape by (auto simp: find_map_None_iff check_shape_def split: if_splits)
  show "distinct (map conn_id r)" using dup by (simp add: first_repeat_None_iff)
  show "\<forall>c \<in> set r. check_named_after_bridge bridges r c = None"
    using named by (simp add: find_map_None_iff)
  show "\<forall>c \<in> set r. check_bot r c = None"
    using bots by (simp add: find_map_None_iff)
  show "\<exists>c \<in> set r. conn_kind c = ''matrix''"
    by (auto simp: r with_native_matrix_def list_ex_iff carried_by_def split: if_splits)
qed

lemma registry_get_iff:
  assumes "distinct (map conn_id r)"
  shows "registry_get r i = Some c \<longleftrightarrow> c \<in> set r \<and> conn_id c = i"
proof
  assume "registry_get r i = Some c"
  then show "c \<in> set r \<and> conn_id c = i"
    by (auto simp: registry_get_def find_Some_iff)
next
  assume c: "c \<in> set r \<and> conn_id c = i"
  then obtain c' where c': "registry_get r i = Some c'"
    by (cases "registry_get r i") (auto simp: registry_get_def find_None_iff)
  then have "c' \<in> set r \<and> conn_id c' = i"
    by (auto simp: registry_get_def find_Some_iff)
  with c assms have "c' = c" by (auto dest: inj_onD simp: distinct_map)
  with c' show "registry_get r i = Some c" by simp
qed

text \<open>What the Gateway serves of a connection is what the Sensor keeps of it.\<close>

definition served_connection :: "connection \<Rightarrow> json" where
  "served_connection c =
     JObj ([(''id'', JStr (conn_id c)), (''kind'', JStr (conn_kind c)), (''label'', JStr (conn_label c))]
       @ (case conn_bridge_id c of None \<Rightarrow> [] | Some b \<Rightarrow> [(''bridge_id'', JStr b)])
       @ (case conn_bridge_bot c of None \<Rightarrow> [] | Some b \<Rightarrow> [(''bridge_bot'', JStr b)]))"

definition handed_connection :: "connection \<Rightarrow> sensor_connection" where
  "handed_connection c =
     \<lparr>sc_id = conn_id c, sc_kind = conn_kind c, sc_bridge_bot = conn_bridge_bot c\<rparr>"

lemma read_served_connection: "read_connection (served_connection c) = Some (handed_connection c)"
  by (cases "conn_bridge_id c"; cases "conn_bridge_bot c")
     (simp_all add: read_connection_def served_connection_def handed_connection_def)

lemma map_filter_read_served:
  "List.map_filter read_connection (map served_connection r) = map handed_connection r"
  by (induction r) (simp_all add: List.map_filter_simps read_served_connection)

section \<open>Properties\<close>

text \<open>
  A registry the Gateway accepts names every connection once, by a valid id of a kind
  the contract knows, holds the native Matrix connection, and where a kind that some
  bridge carries has several connections each of them names a bridge and a bot.
\<close>

theorem accepted_registry_is_well_formed:
  assumes "from_config declared bridges homeserver_name = Inr r"
  shows "distinct (map conn_id r)
    \<and> (\<forall>c \<in> set r. id_is_valid (conn_id c) \<and> conn_kind c \<in> set kinds)
    \<and> (\<exists>c \<in> set r. conn_kind c = ''matrix'')
    \<and> (\<forall>c \<in> set r. length (of_kind r (conn_kind c)) > 1
         \<and> (\<exists>b \<in> set bridges. bridge_network b = conn_kind c)
         \<longrightarrow> conn_bridge_id c \<noteq> None \<and> conn_bridge_bot c \<noteq> None)"
proof -
  have "conn_bridge_id c \<noteq> None \<and> conn_bridge_bot c \<noteq> None"
    if "c \<in> set r" and "length (of_kind r (conn_kind c)) > 1"
      and "\<exists>b \<in> set bridges. bridge_network b = conn_kind c" for c
  proof -
    have "check_named_after_bridge bridges r c = None" and "check_bot r c = None"
      using from_config_Inr(3,4) [OF assms] that(1) by blast+
    then show ?thesis using that(2,3)
      by (auto simp: check_named_after_bridge_def check_bot_def Let_def list_ex_iff
          split: if_splits option.splits)
  qed
  then show ?thesis using from_config_Inr(1,2,5) [OF assms] by blast
qed

theorem accepted_registry_is_well_formed_witness:
  "from_config None [\<lparr>bridge_id = ''mautrix-signal'', bridge_network = ''signal'',
                     bot_user_id = Some ''@signalbot:x''\<rparr>] ''x''
     = Inr [\<lparr>conn_id = ''signal'', conn_kind = ''signal'', conn_label = ''mautrix-signal'',
             conn_bridge_id = Some ''mautrix-signal'', conn_bridge_bot = Some ''@signalbot:x''\<rparr>,
            \<lparr>conn_id = ''matrix'', conn_kind = ''matrix'', conn_label = ''x'',
             conn_bridge_id = None, conn_bridge_bot = None\<rparr>]
   \<and> distinct (map conn_id [\<lparr>conn_id = ''signal'', conn_kind = ''signal'', conn_label = ''mautrix-signal'',
             conn_bridge_id = Some ''mautrix-signal'', conn_bridge_bot = Some ''@signalbot:x''\<rparr>,
            \<lparr>conn_id = ''matrix'', conn_kind = ''matrix'', conn_label = ''x'',
             conn_bridge_id = None, conn_bridge_bot = None\<rparr>])"
proof -
  have ok: "from_config None [\<lparr>bridge_id = ''mautrix-signal'', bridge_network = ''signal'',
                     bot_user_id = Some ''@signalbot:x''\<rparr>] ''x''
     = Inr [\<lparr>conn_id = ''signal'', conn_kind = ''signal'', conn_label = ''mautrix-signal'',
             conn_bridge_id = Some ''mautrix-signal'', conn_bridge_bot = Some ''@signalbot:x''\<rparr>,
            \<lparr>conn_id = ''matrix'', conn_kind = ''matrix'', conn_label = ''x'',
             conn_bridge_id = None, conn_bridge_bot = None\<rparr>]"
    by code_simp
  show ?thesis using ok accepted_registry_is_well_formed [OF ok] by blast
qed

text \<open>
  The one resolver of the registry is a lookup and never a guess: an id that was
  carried is answered by the connection of that id or refused, and without one the answer
  is the only connection of the kind, or a refusal that says why there is none.
\<close>

theorem registry_resolve_never_guesses:
  "registry_resolve r carried kind =
     (case nonblank carried of
        Some i \<Rightarrow>
          (if i \<in> set (map conn_id r)
           then Inr (the (List.find (\<lambda>c. conn_id c = i) r)) else Inl (UnknownId i))
      | None \<Rightarrow>
          (if length (of_kind r kind) = 1 then Inr (hd (of_kind r kind))
           else if of_kind r kind = [] then Inl (NoneOfKind kind)
           else Inl (SeveralOfKind kind (map conn_id (of_kind r kind)))))"
proof -
  have "ok_or (UnknownId i) (registry_get r i) =
      (if i \<in> set (map conn_id r)
       then Inr (the (List.find (\<lambda>c. conn_id c = i) r)) else Inl (UnknownId i))" for i
  proof (cases "registry_get r i")
    case None
    then have "i \<notin> set (map conn_id r)" by (auto simp: registry_get_def find_None_iff)
    with None show ?thesis by simp
  next
    case (Some c)
    then have "c \<in> set r \<and> conn_id c = i" by (auto simp: registry_get_def find_Some_iff)
    with Some show ?thesis by (auto simp: registry_get_def)
  qed
  then show ?thesis
    by (auto simp: registry_resolve_def split: option.split list.split)
qed

text \<open>
  The Sensor never stamps a bridged room with a perimeter another bot answers for:
  the connection it resolves names this room's bot, or names no bot, is the only one of
  its kind, and no connection names this bot.
\<close>

theorem sensor_never_borrows_a_perimeter:
  assumes "sensor_resolve r (Some b) n = Resolved i"
  shows "\<exists>c \<in> set (sr_connections r). sc_id c = i
    \<and> (sc_bridge_bot c = Some b
       \<or> (sc_bridge_bot c = None
          \<and> filter (\<lambda>c. sc_kind c = network_as_str n) (sr_connections r) = [c]
          \<and> (\<forall>d \<in> set (sr_connections r). sc_bridge_bot d \<noteq> Some b)))"
proof (cases "List.find (\<lambda>c. sc_bridge_bot c = Some b) (sr_connections r)")
  case (Some c)
  with assms have "c \<in> set (sr_connections r) \<and> sc_bridge_bot c = Some b \<and> sc_id c = i"
    by (auto simp: sensor_resolve_def find_Some_iff)
  then show ?thesis by blast
next
  case None
  then have nobody: "\<forall>d \<in> set (sr_connections r). sc_bridge_bot d \<noteq> Some b"
    by (simp add: find_None_iff)
  from assms None obtain c where c: "filter (\<lambda>c. sc_kind c = network_as_str n) (sr_connections r) = [c]"
    and "sc_bridge_bot c = None" "sc_id c = i"
    by (auto simp: sensor_resolve_def split: list.splits option.splits)
  moreover have "c \<in> set (sr_connections r)"
    using c by (metis filter_eq_ConsD in_set_conv_decomp)
  ultimately show ?thesis using nobody by blast
qed

theorem sensor_never_borrows_a_perimeter_witness:
  "sensor_resolve implicit_registry (Some ''@whatsappbot:x'') Whatsapp = Resolved ''whatsapp''
   \<and> (\<exists>c \<in> set (sr_connections implicit_registry). sc_id c = ''whatsapp'')"
proof -
  have r: "sensor_resolve implicit_registry (Some ''@whatsappbot:x'') Whatsapp = Resolved ''whatsapp''"
    by code_simp
  from sensor_never_borrows_a_perimeter [OF r] r show ?thesis by blast
qed

text \<open>
  A room built by the bot a connection names resolves, at the Sensor, to that
  connection, on every registry the Gateway serves in which no other connection names
  the same bot.
\<close>

theorem sensor_finds_the_connection_of_a_bot:
  assumes "c \<in> set r" and "conn_bridge_bot c = Some b"
    and "\<forall>d \<in> set r. conn_bridge_bot d = Some b \<longrightarrow> conn_id d = conn_id c"
  shows "sensor_resolve (registry_from_snapshot (JObj [(''connections'', JArr (map served_connection r))]))
           (Some b) n = Resolved (conn_id c)"
proof -
  let ?sr = "registry_from_snapshot (JObj [(''connections'', JArr (map served_connection r))])"
  have sr: "sr_connections ?sr = map handed_connection r"
    by (simp add: registry_from_snapshot_def map_filter_read_served)
  obtain d where d: "List.find (\<lambda>c. sc_bridge_bot c = Some b) (sr_connections ?sr) = Some d"
    using assms(1,2)
    by (cases "List.find (\<lambda>c. sc_bridge_bot c = Some b) (sr_connections ?sr)")
       (auto simp: sr find_None_iff handed_connection_def)
  then have "d \<in> set (sr_connections ?sr) \<and> sc_bridge_bot d = Some b"
    by (auto simp: find_Some_iff)
  then have "sc_id d = conn_id c" using assms(3) by (auto simp: sr handed_connection_def)
  with d show ?thesis by (simp add: sensor_resolve_def)
qed

theorem sensor_finds_the_connection_of_a_bot_witness:
  "sensor_resolve (registry_from_snapshot (JObj [(''connections'', JArr (map served_connection
       [carried_by ''signal'' ''signal'' ''s''
          (Some \<lparr>bridge_id = ''s'', bridge_network = ''signal'', bot_user_id = Some ''@signalbot:x''\<rparr>),
        carried_by ''matrix'' ''matrix'' ''x'' None]))]))
     (Some ''@signalbot:x'') Signal = Resolved ''signal''"
proof -
  let ?b = "\<lparr>bridge_id = ''s'', bridge_network = ''signal'', bot_user_id = Some ''@signalbot:x''\<rparr>"
  let ?r = "[carried_by ''signal'' ''signal'' ''s'' (Some ?b), carried_by ''matrix'' ''matrix'' ''x'' None]"
  have "sensor_resolve (registry_from_snapshot (JObj [(''connections'', JArr (map served_connection ?r))]))
     (Some ''@signalbot:x'') Signal = Resolved (conn_id (hd ?r))"
    by (rule sensor_finds_the_connection_of_a_bot) (auto simp: carried_by_def)
  then show ?thesis by (simp add: carried_by_def)
qed

text \<open>
  The check that refuses two connections of one kind the Sensor cannot tell apart
  has a gap: with a single bridge of the kind, a second declared connection is given the
  same bridge, the registry is accepted, and no room of that bridge ever resolves to it.
\<close>

theorem two_connections_on_one_bridge_are_accepted:
  "\<exists>r. from_config (Some ''wa-a=whatsapp,wa-b=whatsapp'')
          [\<lparr>bridge_id = ''wa-a'', bridge_network = ''whatsapp'', bot_user_id = Some ''@bot:x''\<rparr>] ''x'' = Inr r
     \<and> map conn_id (of_kind r ''whatsapp'') = [''wa-a'', ''wa-b'']
     \<and> map conn_bridge_bot (of_kind r ''whatsapp'') = [Some ''@bot:x'', Some ''@bot:x'']
     \<and> (\<forall>b. sensor_resolve (registry_from_snapshot
              (JObj [(''connections'', JArr (map served_connection r))])) b Whatsapp \<noteq> Resolved ''wa-b'')"
proof -
  let ?b = "\<lparr>bridge_id = ''wa-a'', bridge_network = ''whatsapp'', bot_user_id = Some ''@bot:x''\<rparr>"
  let ?r = "[carried_by ''wa-a'' ''whatsapp'' ''wa-a'' (Some ?b),
             carried_by ''wa-b'' ''whatsapp'' ''wa-b'' (Some ?b),
             carried_by ''matrix'' ''matrix'' ''x'' None]"
  have ok: "from_config (Some ''wa-a=whatsapp,wa-b=whatsapp'') [?b] ''x'' = Inr ?r" by code_simp
  have "sensor_resolve (registry_from_snapshot (JObj [(''connections'', JArr (map served_connection ?r))]))
          b Whatsapp \<noteq> Resolved ''wa-b''" for b
    by (cases b)
       (auto simp: sensor_resolve_def registry_from_snapshot_def List.map_filter_simps
          read_served_connection handed_connection_def carried_by_def)
  then show ?thesis using ok
    by (intro exI [of _ ?r]) (simp add: of_kind_def carried_by_def)
qed

end
