(* ===== verification/Decisions.thy ===== *)
theory Decisions
  imports Consent_Cache Connections
begin

text \<open>
  A consent decision as the Gateway writes it (\<^verbatim>\<open>companion-gateway/src/consent.rs\<close>): its
  vocabulary, the reading and validation of a request body against the registry, the
  refusal of a decision about the owner, the deterministic event id, the envelope, and
  the precedence on reads. SHA-256 and the clock are parameters: \<open>digest\<close> gives the bytes
  of a string's digest, and an instant is the text the clock rendered.
\<close>

section \<open>Vocabulary\<close>

datatype gstate = SGranted | SPending | SRevoked

fun gstate_as_str :: "gstate \<Rightarrow> string" where
  "gstate_as_str SGranted = ''granted''"
| "gstate_as_str SPending = ''pending''"
| "gstate_as_str SRevoked = ''revoked''"

definition gstate_parse :: "string \<Rightarrow> gstate option" where
  "gstate_parse v =
     (if v = ''granted'' then Some SGranted
      else if v = ''pending'' then Some SPending
      else if v = ''revoked'' then Some SRevoked
      else None)"

interpretation gstate: codec gstate_as_str gstate_parse
proof unfold_locales
  show "gstate_parse (gstate_as_str x) = Some x" for x
    by (cases x) (simp_all add: gstate_parse_def)
  show "s = gstate_as_str x" if "gstate_parse s = Some x" for s x
    using that by (auto simp: gstate_parse_def split: if_splits)
qed

datatype old_state = Unset | Was gstate

fun old_state_as_str :: "old_state \<Rightarrow> string" where
  "old_state_as_str Unset = ''unset''"
| "old_state_as_str (Was s) = gstate_as_str s"

definition old_state_parse :: "string \<Rightarrow> old_state option" where
  "old_state_parse v =
     (if v = ''unset'' then Some Unset else map_option Was (gstate_parse v))"

lemma gstate_as_str_not_unset: "gstate_as_str s \<noteq> ''unset''"
  by (cases s) simp_all

interpretation old_state: codec old_state_as_str old_state_parse
proof unfold_locales
  show "old_state_parse (old_state_as_str x) = Some x" for x
    by (cases x) (simp_all add: old_state_parse_def gstate.parse_as_str gstate_as_str_not_unset)
  show "s = old_state_as_str x" if "old_state_parse s = Some x" for s x
    using that by (auto simp: old_state_parse_def gstate.parse_Some_iff split: if_splits)
qed

datatype subject_type = ContactSubject | NetworkSubject | PersonaSubject

fun subject_type_as_str :: "subject_type \<Rightarrow> string" where
  "subject_type_as_str ContactSubject = ''contact''"
| "subject_type_as_str NetworkSubject = ''network''"
| "subject_type_as_str PersonaSubject = ''persona''"

definition subject_type_parse :: "string \<Rightarrow> subject_type option" where
  "subject_type_parse v =
     (if v = ''contact'' then Some ContactSubject
      else if v = ''network'' then Some NetworkSubject
      else if v = ''persona'' then Some PersonaSubject
      else None)"

interpretation subject_type: codec subject_type_as_str subject_type_parse
proof unfold_locales
  show "subject_type_parse (subject_type_as_str x) = Some x" for x
    by (cases x) (simp_all add: subject_type_parse_def)
  show "s = subject_type_as_str x" if "subject_type_parse s = Some x" for s x
    using that by (auto simp: subject_type_parse_def split: if_splits)
qed

lemmas [codec_simps] =
  gstate.parse_as_str gstate.as_str_inj old_state.parse_as_str old_state.as_str_inj
  subject_type.parse_as_str subject_type.as_str_inj

record subject =
  subject_kind :: subject_type
  subject_id :: string

record decision =
  d_subject :: subject
  d_new_state :: gstate
  d_connections :: "string list"
  d_networks :: "network list"
  d_reason :: "string option"

datatype invalid =
    MalformedField string
  | UnsupportedSubjectType string
  | UnknownValue string string
  | ScopeContradictsSubject string "string list"
  | ScopeNeedsConnections string "string list"
  | ScopeMembersDisagree "string list" "string list"
  | SubjectIsTheOwner string

fun invalid_code :: "invalid \<Rightarrow> string" where
  "invalid_code (MalformedField _) = ''malformed_request''"
| "invalid_code (UnsupportedSubjectType _) = ''unsupported_subject_type''"
| "invalid_code (UnknownValue _ _) = ''unknown_value''"
| "invalid_code (ScopeContradictsSubject _ _) = ''scope_contradicts_subject''"
| "invalid_code (ScopeNeedsConnections _ _) = ''malformed_request''"
| "invalid_code (ScopeMembersDisagree _ _) = ''malformed_request''"
| "invalid_code (SubjectIsTheOwner _) = ''subject_is_the_owner''"

fun invalid_status :: "invalid \<Rightarrow> nat" where
  "invalid_status (SubjectIsTheOwner _) = 409"
| "invalid_status _ = 400"

section \<open>Reading a request\<close>

definition body_string :: "json \<Rightarrow> string list \<Rightarrow> invalid + string" where
  "body_string body path =
     ok_or (MalformedField (join_with ''.'' path)) (Option.bind (jpointer body path) jstr)"

fun distinct_strings :: "invalid \<Rightarrow> string list \<Rightarrow> json list \<Rightarrow> invalid + string list" where
  "distinct_strings err values [] = Inr values"
| "distinct_strings err values (e # es) =
     and_then (ok_or err (jstr e)) (\<lambda>v.
       distinct_strings err (if v \<in> set values then values else values @ [v]) es)"

definition scope_strings :: "json \<Rightarrow> string \<Rightarrow> invalid + string list option" where
  "scope_strings body member =
     (let err = MalformedField (''scope.'' @ member) in
      case jpointer body [''scope'', member] of
        None \<Rightarrow> Inr None
      | Some value \<Rightarrow>
          and_then (ok_or err (jarr value)) (\<lambda>entries.
          and_then (distinct_strings err [] entries) (\<lambda>values.
            if values = [] then Inl err else Inr (Some values))))"

definition network_of_value :: "string \<Rightarrow> invalid + network" where
  "network_of_value v = ok_or (UnknownValue ''scope.networks'' v) (network_parse v)"

definition declared_networks :: "json \<Rightarrow> invalid + network list option" where
  "declared_networks body =
     and_then (scope_strings body ''networks'') (\<lambda>vs.
       case vs of
         None \<Rightarrow> Inr None
       | Some values \<Rightarrow> and_then (traverse network_of_value values) (\<lambda>ns. Inr (Some ns)))"

definition single_connection :: "connection list \<Rightarrow> network \<Rightarrow> invalid + string" where
  "single_connection r n =
     (case registry_resolve r None (network_as_str n) of
        Inr c \<Rightarrow> Inr (conn_id c)
      | Inl _ \<Rightarrow> Inl (ScopeNeedsConnections (network_as_str n)
                        (map conn_id (of_kind r (network_as_str n)))))"

definition known_connection :: "connection list \<Rightarrow> string \<Rightarrow> invalid + string" where
  "known_connection r i =
     (case registry_get r i of None \<Rightarrow> Inl (UnknownValue ''scope.connections'' i) | Some _ \<Rightarrow> Inr i)"

definition scope_connections ::
  "json \<Rightarrow> connection list \<Rightarrow> network list option \<Rightarrow> invalid + string list" where
  "scope_connections body r declared =
     and_then (scope_strings body ''connections'') (\<lambda>ids.
       case ids of
         Some ids \<Rightarrow> traverse (known_connection r) ids
       | None \<Rightarrow>
           and_then (ok_or (MalformedField ''scope.connections'') declared)
             (traverse (single_connection r)))"

definition kind_network :: "connection list \<Rightarrow> string \<Rightarrow> invalid + network" where
  "kind_network r i =
     ok_or (UnknownValue ''scope.connections'' i)
       (network_parse (case registry_get r i of None \<Rightarrow> [] | Some c \<Rightarrow> conn_kind c))"

definition parse_scope :: "json \<Rightarrow> connection list \<Rightarrow> invalid + (string list \<times> network list)" where
  "parse_scope body r =
     and_then (declared_networks body) (\<lambda>declared.
     and_then (scope_connections body r declared) (\<lambda>ids.
       let connections = sort ids in
       and_then (traverse (kind_network r) connections) (\<lambda>kinds_read.
         let networks = sort_key network_as_str (push_distinct [] kinds_read) in
         case declared of
           None \<Rightarrow> Inr (connections, networks)
         | Some ds \<Rightarrow>
             let ds' = remdups_adj (sort_key network_as_str ds) in
             if ds' \<noteq> networks
             then Inl (ScopeMembersDisagree (map network_as_str ds') connections)
             else Inr (connections, networks))))"

definition check_network_subject :: "subject_type \<Rightarrow> string \<Rightarrow> network list \<Rightarrow> invalid + unit" where
  "check_network_subject kind i networks =
     (if kind = NetworkSubject then
        and_then (ok_or (UnknownValue ''subject.id'' i) (network_parse i)) (\<lambda>n.
          if networks \<noteq> [n]
          then Inl (ScopeContradictsSubject i (map network_as_str networks)) else Inr ())
      else Inr ())"

definition read_reason :: "json \<Rightarrow> invalid + string option" where
  "read_reason body =
     (case jget body ''reason'' of
        None \<Rightarrow> Inr None
      | Some JNull \<Rightarrow> Inr None
      | Some (JStr s) \<Rightarrow>
          if chars_count s \<le> 1024 then Inr (Some s) else Inl (MalformedField ''reason'')
      | Some _ \<Rightarrow> Inl (MalformedField ''reason''))"

definition decision_parse :: "json \<Rightarrow> connection list \<Rightarrow> invalid + decision" where
  "decision_parse body r =
     and_then (body_string body [''subject'', ''type'']) (\<lambda>k.
     and_then (ok_or (UnknownValue ''subject.type'' k) (subject_type_parse k)) (\<lambda>kind.
     and_then (body_string body [''subject'', ''id'']) (\<lambda>i.
     and_then (if i = [] \<or> chars_count i > 256 then Inl (MalformedField ''subject.id'') else Inr ())
       (\<lambda>_.
     and_then (body_string body [''new_state'']) (\<lambda>s.
     and_then (ok_or (UnknownValue ''new_state'' s) (gstate_parse s)) (\<lambda>new_state.
     and_then (parse_scope body r) (\<lambda>(connections, networks).
     and_then (check_network_subject kind i networks) (\<lambda>_.
     and_then (read_reason body) (\<lambda>reason.
       Inr \<lparr>d_subject = \<lparr>subject_kind = kind, subject_id = i\<rparr>, d_new_state = new_state,
            d_connections = connections, d_networks = networks, d_reason = reason\<rparr>)))))))))"

definition refuse_if_owner :: "decision \<Rightarrow> gateway_owner \<Rightarrow> invalid + unit" where
  "refuse_if_owner d ow =
     (if subject_kind (d_subject d) = ContactSubject \<and> gowner_is_owner ow (subject_id (d_subject d))
      then Inl (SubjectIsTheOwner (subject_id (d_subject d))) else Inr ())"

definition scope_key :: "decision \<Rightarrow> string" where
  "scope_key d = join_with '','' (d_connections d)"

section \<open>A recorded decision, its id and its envelope\<close>

record recorded =
  r_decision :: decision
  r_old_state :: old_state
  r_occurred_at :: string
  r_actor :: string

definition hex_digit :: "nat \<Rightarrow> char" where
  "hex_digit n = char_of (if n < 10 then 48 + n else 87 + n)"

definition hex_byte :: "8 word \<Rightarrow> string" where
  "hex_byte b = [hex_digit (unat b div 16), hex_digit (unat b mod 16)]"

definition event_key :: "recorded \<Rightarrow> string" where
  "event_key r =
     subject_type_as_str (subject_kind (d_subject (r_decision r))) @ '':'' @
     subject_id (d_subject (r_decision r)) @ '':'' @
     gstate_as_str (d_new_state (r_decision r)) @ '':'' @
     scope_key (r_decision r) @ '':'' @
     r_occurred_at r"

definition event_id :: "(string \<Rightarrow> 8 word list) \<Rightarrow> recorded \<Rightarrow> string" where
  "event_id digest r = concat (map hex_byte (digest (event_key r)))"

definition consent_changed_type :: string where
  "consent_changed_type = ''fr.linagora.twalk.consent.state.changed.v1''"

definition bus_subject :: "string \<Rightarrow> string option" where
  "bus_subject event_type =
     map_option (\<lambda>rest. ''twalk.'' @ rest) (strip_prefix ''fr.linagora.twalk.'' event_type)"

definition envelope :: "(string \<Rightarrow> 8 word list) \<Rightarrow> recorded \<Rightarrow> string \<Rightarrow> string \<Rightarrow> json" where
  "envelope digest r domain produced_at =
     (let d = r_decision r;
          data = JObj
            [(''subject'', JObj [(''type'', JStr (subject_type_as_str (subject_kind (d_subject d)))),
                                 (''id'', JStr (subject_id (d_subject d)))]),
             (''old_state'', JStr (old_state_as_str (r_old_state r))),
             (''new_state'', JStr (gstate_as_str (d_new_state d))),
             (''scope'', JObj [(''connections'', JArr (map JStr (d_connections d))),
                               (''networks'', JArr (map (JStr \<circ> network_as_str) (d_networks d)))]),
             (''occurred_at'', JStr (r_occurred_at r)),
             (''actor'', JStr (r_actor r))];
          data = (case d_reason d of None \<Rightarrow> data | Some reason \<Rightarrow> jset data ''reason'' (JStr reason));
          event = JObj
            [(''specversion'', JStr ''1.0''),
             (''id'', JStr (event_id digest r)),
             (''source'', JStr (''gateway://'' @ domain @ ''/consent'')),
             (''type'', JStr consent_changed_type),
             (''time'', JStr produced_at),
             (''subject'', JStr (subject_id (d_subject d))),
             (''datacontenttype'', JStr ''application/json''),
             (''dataschema'', JStr (''https://schemas.twalk.dev/cloudevents/v1/''
                @ ''consent.state.changed.schema.json'')),
             (''data'', data)]
      in case d_networks d of
           [only] \<Rightarrow> jset event ''network'' (JStr (network_as_str only))
         | _ \<Rightarrow> event)"

section \<open>Precedence on reads\<close>

record effective =
  eff_state :: gstate
  eff_decided_by :: "subject option"

definition effective_resolve ::
  "string \<Rightarrow> network \<Rightarrow> gstate option \<Rightarrow> gstate option \<Rightarrow> effective" where
  "effective_resolve contact n contact_state default_state =
     (case contact_state of
        Some s \<Rightarrow> \<lparr>eff_state = s,
                   eff_decided_by = Some \<lparr>subject_kind = ContactSubject, subject_id = contact\<rparr>\<rparr>
      | None \<Rightarrow>
          (case default_state of
             Some s \<Rightarrow> \<lparr>eff_state = s,
                        eff_decided_by = Some \<lparr>subject_kind = NetworkSubject,
                                              subject_id = network_as_str n\<rparr>\<rparr>
           | None \<Rightarrow> \<lparr>eff_state = SPending, eff_decided_by = None\<rparr>))"

section \<open>Lemmas on the scope\<close>

lemma distinct_strings_spec:
  "distinct_strings err acc es = Inr vs \<Longrightarrow>
     set vs = set acc \<union> {s. JStr s \<in> set es} \<and> (distinct acc \<longrightarrow> distinct vs)
     \<and> (\<forall>e \<in> set es. \<exists>s. e = JStr s)"
proof (induction es arbitrary: acc)
  case (Cons e es)
  then obtain s where e: "e = JStr s"
    and rest: "distinct_strings err (if s \<in> set acc then acc else acc @ [s]) es = Inr vs"
    by (auto simp: and_then_Inr_iff ok_or_Inr_iff jstr_Some_iff)
  from Cons.IH [OF rest] show ?case by (auto simp: e split: if_splits)
qed simp

lemmas distinct_strings_Inr = distinct_strings_spec [THEN conjunct1]
  distinct_strings_spec [THEN conjunct2, THEN conjunct1, rule_format]
  distinct_strings_spec [THEN conjunct2, THEN conjunct2]

lemma distinct_strings_ok:
  "\<forall>e \<in> set es. \<exists>s. e = JStr s \<Longrightarrow> \<exists>vs. distinct_strings err acc es = Inr vs"
  by (induction es arbitrary: acc) auto

lemma scope_strings_Some:
  assumes "scope_strings body m = Inr (Some vs)"
  shows "vs \<noteq> []" and "distinct vs"
  using assms distinct_strings_Inr(2) [of "MalformedField (''scope.'' @ m)" "[]" _ vs]
  by (auto simp: scope_strings_def Let_def result_simps split: option.splits if_splits)

lemma traverse_set:
  "traverse f xs = Inr ys \<Longrightarrow> y \<in> set ys \<longleftrightarrow> (\<exists>x \<in> set xs. f x = Inr y)"
  by (induction xs arbitrary: ys) (auto simp: and_then_Inr_iff)

lemma traverse_total: "\<forall>x \<in> set xs. \<exists>y. f x = Inr y \<Longrightarrow> \<exists>ys. traverse f xs = Inr ys"
  by (induction xs) auto

lemma traverse_Inr_each: "traverse f xs = Inr ys \<Longrightarrow> x \<in> set xs \<Longrightarrow> \<exists>y \<in> set ys. f x = Inr y"
  by (auto simp: traverse_Inr_iff in_set_conv_nth list_all2_conv_all_nth)

lemma traverse_distinct:
  assumes "traverse f xs = Inr ys" and "distinct xs"
    and "\<And>x x' y. x \<in> set xs \<Longrightarrow> x' \<in> set xs \<Longrightarrow> f x = Inr y \<Longrightarrow> f x' = Inr y \<Longrightarrow> x = x'"
  shows "distinct ys"
proof -
  have all2: "list_all2 (\<lambda>x y. f x = Inr y) xs ys" using assms(1) by (simp add: traverse_Inr_iff)
  show ?thesis
    unfolding distinct_conv_nth
  proof (intro allI impI)
    fix i j
    assume "i < length ys" "j < length ys" "i \<noteq> j"
    moreover have "length xs = length ys" using all2 by (rule list_all2_lengthD)
    ultimately have "xs ! i \<noteq> xs ! j" "f (xs ! i) = Inr (ys ! i)" "f (xs ! j) = Inr (ys ! j)"
      "xs ! i \<in> set xs" "xs ! j \<in> set xs"
      using assms(2) all2 by (simp_all add: nth_eq_iff_index_eq list_all2_conv_all_nth)
    then show "ys ! i \<noteq> ys ! j" using assms(3) by metis
  qed
qed

lemma known_connection_Inr [result_simps]:
  "known_connection r i = Inr j \<longleftrightarrow> j = i \<and> registry_get r i \<noteq> None"
  by (auto simp: known_connection_def split: option.splits)

lemma single_connection_Inr:
  "single_connection r n = Inr i \<longleftrightarrow> (\<exists>c. of_kind r (network_as_str n) = [c] \<and> conn_id c = i)"
  by (auto simp: single_connection_def registry_resolve_def nonblank_def split: list.splits)

lemma single_connection_known:
  assumes "single_connection r n = Inr i"
  shows "registry_get r i \<noteq> None"
proof -
  obtain c where c: "of_kind r (network_as_str n) = [c]" "conn_id c = i"
    using assms by (auto simp: single_connection_Inr)
  then have "c \<in> set (of_kind r (network_as_str n))" by simp
  then have "c \<in> set r" by (simp add: of_kind_def)
  then show ?thesis using c(2) by (auto simp: registry_get_def find_None_iff)
qed

lemma single_connection_inj:
  assumes "distinct (map conn_id r)" and "single_connection r n = Inr i"
    and "single_connection r m = Inr i"
  shows "n = m"
proof -
  obtain c d where c: "of_kind r (network_as_str n) = [c]" "conn_id c = i"
    and d: "of_kind r (network_as_str m) = [d]" "conn_id d = i"
    using assms(2,3) by (auto simp: single_connection_Inr)
  have "c \<in> set (of_kind r (network_as_str n))" "d \<in> set (of_kind r (network_as_str m))"
    using c d by simp_all
  then have in_r: "c \<in> set r" "d \<in> set r"
    and k: "conn_kind c = network_as_str n" "conn_kind d = network_as_str m"
    by (simp_all add: of_kind_def)
  with assms(1) c(2) d(2) have "c = d" by (auto dest: inj_onD simp: distinct_map)
  with k show ?thesis by (simp add: codec_simps)
qed

lemma declared_networks_distinct:
  assumes "declared_networks body = Inr (Some ns)"
  shows "ns \<noteq> []" and "distinct ns"
proof -
  obtain vs where vs: "scope_strings body ''networks'' = Inr (Some vs)"
    and ns: "traverse network_of_value vs = Inr ns"
    using assms by (auto simp: declared_networks_def result_simps split: option.splits)
  show "distinct ns"
    using ns scope_strings_Some(2) [OF vs]
    by (rule traverse_distinct) (auto simp: network_of_value_def result_simps network.parse_Some_iff)
  show "ns \<noteq> []"
    using ns scope_strings_Some(1) [OF vs] by (auto simp: traverse_Inr_iff)
qed

lemma scope_connections_Inr:
  assumes "distinct (map conn_id r)"
    and "declared_networks body = Inr declared" and "scope_connections body r declared = Inr ids"
  shows "ids \<noteq> []" and "distinct ids" and "\<forall>i \<in> set ids. registry_get r i \<noteq> None"
proof -
  obtain given where given: "scope_strings body ''connections'' = Inr given"
    using assms(3) by (auto simp: scope_connections_def result_simps)
  show "ids \<noteq> []" "distinct ids" "\<forall>i \<in> set ids. registry_get r i \<noteq> None"
  proof (atomize (full), cases given)
    case (Some vs)
    have t: "traverse (known_connection r) vs = Inr ids"
      using assms(3) given Some by (simp add: scope_connections_def)
    have "distinct ids"
      using t scope_strings_Some(2) [OF given [unfolded Some]]
      by (rule traverse_distinct) (auto simp: result_simps)
    moreover have "ids \<noteq> []"
      using t scope_strings_Some(1) [OF given [unfolded Some]] by (auto simp: traverse_Inr_iff)
    moreover have "\<forall>i \<in> set ids. registry_get r i \<noteq> None"
      using traverse_set [OF t] by (auto simp: known_connection_Inr)
    ultimately show "ids \<noteq> [] \<and> distinct ids \<and> (\<forall>i \<in> set ids. registry_get r i \<noteq> None)" by blast
  next
    case None
    obtain ns where ns: "declared = Some ns" and t: "traverse (single_connection r) ns = Inr ids"
      using assms(3) given None by (auto simp: scope_connections_def result_simps)
    have "distinct ids"
      using t declared_networks_distinct(2) [OF assms(2) [unfolded ns]]
      by (rule traverse_distinct) (rule single_connection_inj [OF assms(1)])
    moreover have "ids \<noteq> []"
      using t declared_networks_distinct(1) [OF assms(2) [unfolded ns]] by (auto simp: traverse_Inr_iff)
    moreover have "\<forall>i \<in> set ids. registry_get r i \<noteq> None"
      using traverse_set [OF t] single_connection_known by blast
    ultimately show "ids \<noteq> [] \<and> distinct ids \<and> (\<forall>i \<in> set ids. registry_get r i \<noteq> None)" by blast
  qed
qed

text \<open>What a well-formed scope is: the invariant of every decision the parser lets through.\<close>

definition scope_wf :: "connection list \<Rightarrow> string list \<Rightarrow> network list \<Rightarrow> bool" where
  "scope_wf r connections networks \<longleftrightarrow>
     connections \<noteq> [] \<and> sorted connections \<and> distinct connections
     \<and> sorted (map network_as_str networks) \<and> distinct networks
     \<and> (\<forall>i \<in> set connections. \<exists>n \<in> set networks. kind_network r i = Inr n)
     \<and> (\<forall>n \<in> set networks. \<exists>i \<in> set connections. kind_network r i = Inr n)"

lemma parse_scope_wf:
  assumes "distinct (map conn_id r)" and "parse_scope body r = Inr (connections, networks)"
  shows "scope_wf r connections networks"
proof -
  obtain declared ids kinds_read where d: "declared_networks body = Inr declared"
    and ids: "scope_connections body r declared = Inr ids"
    and conns: "connections = sort ids"
    and k: "traverse (kind_network r) connections = Inr kinds_read"
    and n: "networks = sort_key network_as_str (push_distinct [] kinds_read)"
    using assms(2)
    by (auto simp: parse_scope_def result_simps Let_def split: option.splits if_splits)
  note ids_ok = scope_connections_Inr [OF assms(1) d ids]
  then have "sort ids \<noteq> []" by (metis set_empty set_sort)
  with ids_ok show ?thesis
    using traverse_set [OF k] traverse_Inr_each [OF k]
    by (auto simp: scope_wf_def conns n push_distinct_distinct)
qed

lemma kind_network_Inr_iff:
  "kind_network r i = Inr n \<longleftrightarrow> (\<exists>c. registry_get r i = Some c \<and> conn_kind c = network_as_str n)"
proof -
  have "network_parse [] \<noteq> Some n" by (cases n) (simp_all add: network.parse_Some_iff)
  then show ?thesis
    by (auto simp: kind_network_def result_simps network.parse_Some_iff split: option.splits)
qed

lemma decision_parse_Inr:
  assumes "decision_parse body r = Inr d"
  shows "parse_scope body r = Inr (d_connections d, d_networks d)"
    and "subject_id (d_subject d) \<noteq> []" and "chars_count (subject_id (d_subject d)) \<le> 256"
    and "check_network_subject (subject_kind (d_subject d)) (subject_id (d_subject d)) (d_networks d) = Inr ()"
    and "read_reason body = Inr (d_reason d)"
  using assms by (auto simp: decision_parse_def result_simps split: if_splits)

section \<open>Lemmas on the natural key\<close>

definition same_natural_key :: "recorded \<Rightarrow> recorded \<Rightarrow> bool" where
  "same_natural_key a b \<longleftrightarrow>
     d_subject (r_decision a) = d_subject (r_decision b)
     \<and> d_new_state (r_decision a) = d_new_state (r_decision b)
     \<and> d_connections (r_decision a) = d_connections (r_decision b)
     \<and> r_occurred_at a = r_occurred_at b"

text \<open>
  What the key needs of its parts: a scope of valid connection ids, and an instant with
  the two colons of RFC 3339 in UTC.
\<close>

definition key_parts_ok :: "recorded \<Rightarrow> bool" where
  "key_parts_ok r \<longleftrightarrow>
     d_connections (r_decision r) \<noteq> []
     \<and> (\<forall>i \<in> set (d_connections (r_decision r)). id_is_valid i)
     \<and> length (split_on (CHR '':'') (r_occurred_at r)) = 3"

lemma valid_id_chars:
  assumes "id_is_valid i"
  shows "CHR '':'' \<notin> set i" and "CHR '','' \<notin> set i"
  using assms
  by (auto simp: id_is_valid_def list_all_iff is_ascii_lowercase_def is_ascii_digit_def
      split: list.splits)

lemma set_join_with: "set (join_with sep ps) \<subseteq> set sep \<union> \<Union> (set ` set ps)"
  by (induction sep ps rule: join_with.induct) auto

lemma scope_key_no_colon:
  assumes "\<forall>i \<in> set (d_connections d). id_is_valid i"
  shows "CHR '':'' \<notin> set (scope_key d)"
  using assms set_join_with [of "'',''" "d_connections d"] valid_id_chars(1)
  by (auto simp: scope_key_def)

lemma no_colon_labels:
  "CHR '':'' \<notin> set (subject_type_as_str k)" "CHR '':'' \<notin> set (gstate_as_str s)"
  by (cases k; simp) (cases s; simp)

lemma split_event_key:
  assumes "key_parts_ok r"
  shows "split_on (CHR '':'') (event_key r) =
    subject_type_as_str (subject_kind (d_subject (r_decision r)))
    # split_on (CHR '':'') (subject_id (d_subject (r_decision r)))
    @ [gstate_as_str (d_new_state (r_decision r)), scope_key (r_decision r)]
    @ split_on (CHR '':'') (r_occurred_at r)"
  using assms
  by (simp add: event_key_def split_on_app split_on_single no_colon_labels scope_key_no_colon key_parts_ok_def)

lemma event_key_inj:
  assumes "key_parts_ok a" and "key_parts_ok b" and "event_key a = event_key b"
  shows "same_natural_key a b"
proof -
  let ?c = "CHR '':''"
  let ?ia = "subject_id (d_subject (r_decision a))" and ?ib = "subject_id (d_subject (r_decision b))"
  have "split_on ?c (event_key a) = split_on ?c (event_key b)" using assms(3) by simp
  then have kind: "subject_type_as_str (subject_kind (d_subject (r_decision a)))
        = subject_type_as_str (subject_kind (d_subject (r_decision b)))"
    and rest: "split_on ?c ?ia @ [gstate_as_str (d_new_state (r_decision a)), scope_key (r_decision a)]
        @ split_on ?c (r_occurred_at a)
      = split_on ?c ?ib @ [gstate_as_str (d_new_state (r_decision b)), scope_key (r_decision b)]
        @ split_on ?c (r_occurred_at b)"
    using assms(1,2) by (simp_all add: split_event_key)
  have "length (split_on ?c (r_occurred_at a)) = length (split_on ?c (r_occurred_at b))"
    using assms(1,2) by (simp add: key_parts_ok_def)
  with rest have ids: "split_on ?c ?ia = split_on ?c ?ib"
    and st: "gstate_as_str (d_new_state (r_decision a)) = gstate_as_str (d_new_state (r_decision b))"
    and sc: "scope_key (r_decision a) = scope_key (r_decision b)"
    and occ: "split_on ?c (r_occurred_at a) = split_on ?c (r_occurred_at b)"
    by (simp_all add: append_eq_append_conv)
  have "?ia = ?ib" and "r_occurred_at a = r_occurred_at b"
    using ids occ join_split_on by metis+
  moreover have "d_connections (r_decision a) = d_connections (r_decision b)"
  proof (rule join_with_inj [of "CHR '',''"])
    show "join_with [CHR '',''] (d_connections (r_decision a))
        = join_with [CHR '',''] (d_connections (r_decision b))"
      using sc by (simp add: scope_key_def)
  qed (use assms(1,2) valid_id_chars(2) in \<open>auto simp: key_parts_ok_def\<close>)
  ultimately show ?thesis
    using kind st by (simp add: same_natural_key_def codec_simps)
qed

lemma event_key_cong: "same_natural_key a b \<Longrightarrow> event_key a = event_key b"
  by (simp add: same_natural_key_def event_key_def scope_key_def)

lemma hex_digit_inj: "n < 16 \<Longrightarrow> m < 16 \<Longrightarrow> hex_digit n = hex_digit m \<longleftrightarrow> n = m"
  by (auto simp: hex_digit_def split: if_splits)

lemma hex_byte_inj: "hex_byte a = hex_byte b \<longleftrightarrow> a = b"
proof
  assume "hex_byte a = hex_byte b"
  moreover have "unat x div 16 < 16" for x :: "8 word"
  proof -
    have "unat x < 2 ^ LENGTH(8)" by (rule unsigned_less)
    then show ?thesis by simp
  qed
  ultimately have "unat a div 16 = unat b div 16" "unat a mod 16 = unat b mod 16"
    by (simp_all add: hex_byte_def hex_digit_inj)
  then have "unat a = unat b" by (metis div_mod_decomp)
  then show "a = b" by (simp add: word_unat_eq_iff)
qed simp

lemma hex_bytes_inj: "concat (map hex_byte xs) = concat (map hex_byte ys) \<longleftrightarrow> xs = ys"
proof (induction xs arbitrary: ys)
  case Nil
  show ?case by (cases ys) (simp_all add: hex_byte_def)
next
  case (Cons x xs)
  show ?case
  proof (cases ys)
    case Nil
    then show ?thesis by (simp add: hex_byte_def)
  next
    case (Cons y zs)
    have "hex_byte x @ u = hex_byte y @ v \<longleftrightarrow> hex_byte x = hex_byte y \<and> u = v" for u v
      by (simp add: hex_byte_def)
    then show ?thesis using Cons.IH Cons by (simp add: hex_byte_inj)
  qed
qed

section \<open>Properties\<close>

text \<open>
  Every decision the write API lets through is about a non-empty scope of registered
  connections, listed once each in ascending order with exactly the networks they are of,
  names a subject of 1 to 256 characters, and where it is about a network is scoped to
  that network and nothing else.
\<close>

theorem parsed_decision_is_well_formed:
  assumes "distinct (map conn_id r)" and "decision_parse body r = Inr d"
  shows "scope_wf r (d_connections d) (d_networks d)
    \<and> (\<forall>i \<in> set (d_connections d). registry_get r i \<noteq> None)
    \<and> subject_id (d_subject d) \<noteq> [] \<and> chars_count (subject_id (d_subject d)) \<le> 256
    \<and> (subject_kind (d_subject d) = NetworkSubject \<longrightarrow>
         (\<exists>n. d_networks d = [n] \<and> subject_id (d_subject d) = network_as_str n))"
proof -
  have wf: "scope_wf r (d_connections d) (d_networks d)"
    using parse_scope_wf [OF assms(1) decision_parse_Inr(1) [OF assms(2)]] .
  then have "\<forall>i \<in> set (d_connections d). registry_get r i \<noteq> None"
    by (auto simp: scope_wf_def kind_network_Inr_iff)
  moreover have "\<exists>n. d_networks d = [n] \<and> subject_id (d_subject d) = network_as_str n"
    if "subject_kind (d_subject d) = NetworkSubject"
    using decision_parse_Inr(4) [OF assms(2)] that
    by (auto simp: check_network_subject_def result_simps network.parse_Some_iff split: if_splits)
  ultimately show ?thesis using wf decision_parse_Inr(2,3) [OF assms(2)] by blast
qed

definition sample_registry :: "connection list" where
  "sample_registry =
     [carried_by ''whatsapp'' ''whatsapp'' ''WhatsApp'' None, carried_by ''wa-work'' ''whatsapp'' ''Work'' None,
      carried_by ''signal'' ''signal'' ''Signal'' None, carried_by ''matrix'' ''matrix'' ''x'' None]"

definition sample_request :: "json list \<Rightarrow> json" where
  "sample_request conns =
     JObj [(''subject'', JObj [(''type'', JStr ''contact''), (''id'', JStr ''@alice:x'')]),
           (''new_state'', JStr ''granted''),
           (''scope'', JObj [(''connections'', JArr conns)])]"

theorem parsed_decision_is_well_formed_witness:
  "scope_wf sample_registry [''signal'', ''wa-work''] [Signal, Whatsapp]"
proof -
  have r: "distinct (map conn_id sample_registry)" by code_simp
  have d: "decision_parse (sample_request [JStr ''wa-work'', JStr ''signal'']) sample_registry =
      Inr \<lparr>d_subject = \<lparr>subject_kind = ContactSubject, subject_id = ''@alice:x''\<rparr>,
           d_new_state = SGranted, d_connections = [''signal'', ''wa-work''],
           d_networks = [Signal, Whatsapp], d_reason = None\<rparr>"
    by code_simp
  from parsed_decision_is_well_formed [OF r d] show ?thesis by simp
qed

definition request_scoped_to :: "string \<Rightarrow> string \<Rightarrow> string \<Rightarrow> json \<Rightarrow> string list \<Rightarrow> json" where
  "request_scoped_to kind i state reason conns =
     JObj [(''subject'', JObj [(''type'', JStr kind), (''id'', JStr i)]),
           (''new_state'', JStr state),
           (''scope'', JObj [(''connections'', JArr (map JStr conns))]),
           (''reason'', reason)]"

lemma sort_set_eq:
  "distinct xs \<Longrightarrow> distinct ys \<Longrightarrow> set xs = set ys \<Longrightarrow> sort xs = sort (ys :: string list)"
  by (metis sorted_list_of_set_sort_remdups distinct_remdups_id)

lemma parse_scope_of_request:
  assumes "set conns = set conns'"
    and "parse_scope (request_scoped_to kind i state reason conns) r = Inr p"
  shows "parse_scope (request_scoped_to kind i state reason conns') r = Inr p"
proof -
  let ?b = "request_scoped_to kind i state reason conns"
  let ?b' = "request_scoped_to kind i state reason conns'"
  let ?err = "MalformedField (''scope.'' @ ''connections'')"
  have no_nets: "declared_networks b = Inr None" if "b \<in> {?b, ?b'}" for b
    using that by (auto simp: declared_networks_def scope_strings_def request_scoped_to_def)
  have strings: "distinct_strings ?err [] (map JStr cs) = Inr vs \<Longrightarrow> set vs = set cs \<and> distinct vs" for cs vs
    by (drule distinct_strings_spec) (auto simp: image_iff)
  obtain vs where vs: "distinct_strings ?err [] (map JStr conns) = Inr vs"
    using distinct_strings_ok by fastforce
  obtain vs' where vs': "distinct_strings ?err [] (map JStr conns') = Inr vs'"
    using distinct_strings_ok by fastforce
  have same: "set vs = set vs'" "distinct vs" "distinct vs'"
    using strings [OF vs] strings [OF vs'] assms(1) by auto
  have known: "scope_connections b r None = Inr ids \<longleftrightarrow> ids = ws \<and> ws \<noteq> [] \<and> (\<forall>i \<in> set ws. registry_get r i \<noteq> None)"
    if "b = request_scoped_to kind i state reason cs"
      and "distinct_strings ?err [] (map JStr cs) = Inr ws" for b cs ws ids
  proof -
    have "traverse (known_connection r) ws = Inr ids \<longleftrightarrow> ids = ws \<and> (\<forall>i \<in> set ws. registry_get r i \<noteq> None)"
      by (induction ws arbitrary: ids) (auto simp: and_then_Inr_iff known_connection_Inr)
    then show ?thesis using that
      by (auto simp: scope_connections_def scope_strings_def request_scoped_to_def)
  qed
  obtain ids where "scope_connections ?b r None = Inr ids"
    using assms(2) no_nets by (auto simp: parse_scope_def result_simps)
  then have ok: "vs \<noteq> [] \<and> (\<forall>i \<in> set vs. registry_get r i \<noteq> None)"
    using known [OF refl vs] by blast
  then have ok': "vs' \<noteq> [] \<and> (\<forall>i \<in> set vs'. registry_get r i \<noteq> None)"
    using same(1) by (metis set_empty)
  have "scope_connections ?b r None = Inr vs" using known [OF refl vs, of vs] ok by blast
  moreover have "scope_connections ?b' r None = Inr vs'" using known [OF refl vs', of vs'] ok' by blast
  moreover have "sort vs = sort vs'" using same by (intro sort_set_eq)
  ultimately show ?thesis using assms(2) no_nets by (simp add: parse_scope_def)
qed

text \<open>
  Two spellings of one scope are one decision: a request is read the same whatever
  the order of its connections and however often one is repeated.
\<close>

theorem scope_spelling_is_irrelevant:
  assumes "set conns = set conns'"
  shows "decision_parse (request_scoped_to kind i state reason conns) r = Inr d
     \<longleftrightarrow> decision_parse (request_scoped_to kind i state reason conns') r = Inr d"
proof -
  have half: "decision_parse (request_scoped_to kind i state reason cs') r = Inr d"
    if eq: "set cs = set cs'" and ok: "decision_parse (request_scoped_to kind i state reason cs) r = Inr d"
    for cs cs'
  proof -
    let ?b = "request_scoped_to kind i state reason cs"
    let ?b' = "request_scoped_to kind i state reason cs'"
    have "parse_scope ?b' r = parse_scope ?b r"
      using parse_scope_of_request [OF eq] decision_parse_Inr(1) [OF ok] by simp
    moreover have "body_string ?b' path = body_string ?b path"
      if "path \<in> {[''subject'', ''type''], [''subject'', ''id''], [''new_state'']}" for path
      using that by (auto simp: body_string_def request_scoped_to_def)
    moreover have "read_reason ?b' = read_reason ?b"
      by (simp add: read_reason_def request_scoped_to_def)
    ultimately have "decision_parse ?b' r = decision_parse ?b r"
      unfolding decision_parse_def by simp
    then show ?thesis using ok by simp
  qed
  show ?thesis using half assms by metis
qed

theorem scope_spelling_is_irrelevant_witness:
  "\<exists>d. decision_parse (request_scoped_to ''contact'' ''@a:x'' ''revoked'' JNull
         [''wa-work'', ''signal'', ''wa-work'']) sample_registry = Inr d
     \<and> decision_parse (request_scoped_to ''contact'' ''@a:x'' ''revoked'' JNull
         [''signal'', ''wa-work'']) sample_registry = Inr d"
proof -
  let ?d = "\<lparr>d_subject = \<lparr>subject_kind = ContactSubject, subject_id = ''@a:x''\<rparr>,
           d_new_state = SRevoked, d_connections = [''signal'', ''wa-work''],
           d_networks = [Signal, Whatsapp], d_reason = None\<rparr>"
  have "set [''wa-work'', ''signal'', ''wa-work''] = set [''signal'', ''wa-work'']" by auto
  note eq = scope_spelling_is_irrelevant [OF this, of "''contact''" "''@a:x''" "''revoked''" JNull
      sample_registry ?d]
  have "decision_parse (request_scoped_to ''contact'' ''@a:x'' ''revoked'' JNull
         [''signal'', ''wa-work'']) sample_registry = Inr ?d"
    by code_simp
  with eq show ?thesis by blast
qed

text \<open>
  The event id is the natural key's: two recorded decisions over valid scopes have
  the same id exactly when subject, new state, scope and instant agree, as long as the
  digest does not collide on the two keys, although a subject id may itself hold the
  colons the key is joined by.
\<close>

theorem event_id_identifies_the_decision:
  assumes "key_parts_ok a" and "key_parts_ok b"
    and "digest (event_key a) = digest (event_key b) \<longrightarrow> event_key a = event_key b"
  shows "event_id digest a = event_id digest b \<longleftrightarrow> same_natural_key a b"
  unfolding event_id_def hex_bytes_inj
  using event_key_inj [OF assms(1,2)] event_key_cong [of a b] assms(3)
  by metis

definition sample_recorded :: "string \<Rightarrow> gstate \<Rightarrow> recorded" where
  "sample_recorded i s =
     \<lparr>r_decision = \<lparr>d_subject = \<lparr>subject_kind = ContactSubject, subject_id = i\<rparr>,
           d_new_state = s, d_connections = [''signal''], d_networks = [Signal], d_reason = None\<rparr>,
      r_old_state = Unset, r_occurred_at = ''2026-01-01T10:00:00.5Z'', r_actor = ''@me:x''\<rparr>"

theorem event_id_identifies_the_decision_witness:
  "event_id (map (\<lambda>c. of_char c)) (sample_recorded ''@a:x:granted'' SGranted)
     \<noteq> event_id (map (\<lambda>c. of_char c)) (sample_recorded ''@a:x'' SGranted)"
proof -
  have a: "key_parts_ok (sample_recorded ''@a:x:granted'' SGranted)"
    and b: "key_parts_ok (sample_recorded ''@a:x'' SGranted)"
    by code_simp+
  have c: "map (\<lambda>c. of_char c :: 8 word) (event_key (sample_recorded ''@a:x:granted'' SGranted))
        \<noteq> map (\<lambda>c. of_char c) (event_key (sample_recorded ''@a:x'' SGranted))"
    by code_simp
  from c have "event_id (map (\<lambda>c. of_char c)) (sample_recorded ''@a:x:granted'' SGranted)
       = event_id (map (\<lambda>c. of_char c)) (sample_recorded ''@a:x'' SGranted)
     \<longleftrightarrow> same_natural_key (sample_recorded ''@a:x:granted'' SGranted) (sample_recorded ''@a:x'' SGranted)"
    by (intro event_id_identifies_the_decision [OF a b]) blast
  then show ?thesis by (simp add: same_natural_key_def sample_recorded_def)
qed

fun consent_of_gstate :: "gstate \<Rightarrow> consent" where
  "consent_of_gstate SGranted = Granted"
| "consent_of_gstate SPending = Pending"
| "consent_of_gstate SRevoked = Revoked"

lemma consent_from_gstate_label [simp]: "consent_from_label (gstate_as_str s) = consent_of_gstate s"
  by (cases s) (simp_all add: consent_from_label_def)

fun cache_subject :: "subject \<Rightarrow> consent_subject option" where
  "cache_subject s =
     (case subject_kind s of
        ContactSubject \<Rightarrow> Some (Contact (subject_id s))
      | NetworkSubject \<Rightarrow> Some NetworkDefault
      | PersonaSubject \<Rightarrow> None)"

lemma envelope_data:
  "\<exists>data. jget (envelope digest r domain at) ''data'' = Some data
     \<and> jget data ''subject'' = Some (JObj
          [(''type'', JStr (subject_type_as_str (subject_kind (d_subject (r_decision r))))),
           (''id'', JStr (subject_id (d_subject (r_decision r))))])
     \<and> jget data ''new_state'' = Some (JStr (gstate_as_str (d_new_state (r_decision r))))
     \<and> jget data ''scope'' = Some (JObj
          [(''connections'', JArr (map JStr (d_connections (r_decision r)))),
           (''networks'', JArr (map (JStr \<circ> network_as_str) (d_networks (r_decision r))))])"
  by (cases "d_reason (r_decision r)")
     (auto simp: envelope_def Let_def jget_jset_other simp del: jset.simps split: list.split)

lemma map_filter_nonempty_strs:
  "[] \<notin> set ids \<Longrightarrow> List.map_filter nonempty_str (map JStr ids) = ids"
  by (induction ids) (auto simp: List.map_filter_simps nonempty_str_def)

lemma envelope_read_back:
  assumes "d_connections (r_decision r) \<noteq> []" and "[] \<notin> set (d_connections (r_decision r))"
  shows "change_parse (envelope digest r domain at) =
    (case cache_subject (d_subject (r_decision r)) of
       None \<Rightarrow> Inl NotAboutASender
     | Some s \<Rightarrow> Inr \<lparr>change_subject = s,
                      change_new_state = consent_of_gstate (d_new_state (r_decision r)),
                      change_connections = d_connections (r_decision r)\<rparr>)"
proof -
  obtain data where "jget (envelope digest r domain at) ''data'' = Some data"
    and "jget data ''subject'' = Some (JObj
          [(''type'', JStr (subject_type_as_str (subject_kind (d_subject (r_decision r))))),
           (''id'', JStr (subject_id (d_subject (r_decision r))))])"
    and "jget data ''new_state'' = Some (JStr (gstate_as_str (d_new_state (r_decision r))))"
    and "jget data ''scope'' = Some (JObj
          [(''connections'', JArr (map JStr (d_connections (r_decision r)))),
           (''networks'', JArr (map (JStr \<circ> network_as_str) (d_networks (r_decision r))))])"
    using envelope_data by blast
  then have parts: "change_parse (envelope digest r domain at) =
      and_then (subject_parse (JObj
          [(''type'', JStr (subject_type_as_str (subject_kind (d_subject (r_decision r))))),
           (''id'', JStr (subject_id (d_subject (r_decision r))))]))
        (\<lambda>s. Inr \<lparr>change_subject = s,
            change_new_state = consent_of_gstate (d_new_state (r_decision r)),
            change_connections = d_connections (r_decision r)\<rparr>)"
    unfolding change_parse_def using assms by (simp add: map_filter_nonempty_strs)
  show ?thesis
    unfolding parts
    by (cases "subject_kind (d_subject (r_decision r))") (simp_all add: subject_parse_def)
qed

text \<open>
  What the Gateway publishes is what a consumer reads: the cache's parser gives back
  the subject, the state and the scope of the decision, and refuses a persona's as not
  about a sender.
\<close>

theorem published_decision_is_read_back:
  assumes "d_connections (r_decision r) \<noteq> []" and "[] \<notin> set (d_connections (r_decision r))"
  shows "change_parse (envelope digest r domain at) =
    (case cache_subject (d_subject (r_decision r)) of
       None \<Rightarrow> Inl NotAboutASender
     | Some s \<Rightarrow> Inr \<lparr>change_subject = s,
                      change_new_state = consent_of_gstate (d_new_state (r_decision r)),
                      change_connections = d_connections (r_decision r)\<rparr>)"
  by (rule envelope_read_back [OF assms])

theorem published_decision_is_read_back_witness:
  "change_parse (envelope (map of_char) (sample_recorded ''@a:x'' SRevoked) ''d'' ''t'') =
     Inr \<lparr>change_subject = Contact ''@a:x'', change_new_state = Revoked,
          change_connections = [''signal'']\<rparr>"
proof -
  have "d_connections (r_decision (sample_recorded ''@a:x'' SRevoked)) \<noteq> []"
    and "[] \<notin> set (d_connections (r_decision (sample_recorded ''@a:x'' SRevoked)))"
    by (simp_all add: sample_recorded_def)
  from published_decision_is_read_back [OF this, of "map of_char" "''d''" "''t''"]
  show ?thesis by (simp add: sample_recorded_def)
qed

end
