(* ===== verification/Consent_Store.thy ===== *)
theory Consent_Store
  imports Decisions "HOL-Library.AList" "HOL-Library.Code_Target_Nat"
begin

text \<open>
  The Gateway's decision journal and the projections it is read through
  (\<^verbatim>\<open>companion-gateway/src/store.rs\<close>). The tables are lists of rows in insertion order and
  the views are functions of them, one per \<^verbatim>\<open>CREATE VIEW\<close>, so a read never disagrees with
  the journal. SQLite itself is outside the program: what the code relies on of it is the
  documented meaning of the statements, and the numbers its \<^verbatim>\<open>AUTOINCREMENT\<close> hands out are
  the parameter \<open>rowids\<close>. A statement that violates a constraint leaves the tables as they
  were.
\<close>

section \<open>Tables\<close>

record journal_row =
  row_sequence :: nat
  row_event_id :: string
  row_recorded :: recorded
  row_scope_key :: string
  row_envelope :: json
  row_published_at :: "string option"
  row_stream :: "nat option"

record store =
  journal :: "journal_row list"
  sqlite_sequence :: nat
  registered :: "(string \<times> string) list"
  store_owner :: gateway_owner

abbreviation row_subject :: "journal_row \<Rightarrow> subject" where
  "row_subject r \<equiv> d_subject (r_decision (row_recorded r))"

abbreviation row_state :: "journal_row \<Rightarrow> gstate" where
  "row_state r \<equiv> d_new_state (r_decision (row_recorded r))"

abbreviation row_connections :: "journal_row \<Rightarrow> string list" where
  "row_connections r \<equiv> d_connections (r_decision (row_recorded r))"

text \<open>
  What SQLite's \<^verbatim>\<open>AUTOINCREMENT\<close> does with the stored counter: the rowid it gives an insert,
  and the counter an insert leaves behind that \<^verbatim>\<open>ON CONFLICT DO NOTHING\<close> ignored. The first is
  larger than every rowid ever used, the second may be larger than it was: the
  documentation promises increasing rowids and allows gaps.
\<close>

record rowids =
  allocate :: "nat \<Rightarrow> nat"
  after_ignored :: "nat \<Rightarrow> nat"

definition autoincrement :: "rowids \<Rightarrow> bool" where
  "autoincrement sq \<longleftrightarrow> (\<forall>n. n < allocate sq n \<and> n \<le> after_ignored sq n)"

text \<open>What the bundled SQLite does: an ignored insert uses the number up.\<close>

definition bundled_sqlite :: rowids where
  "bundled_sqlite = \<lparr>allocate = Suc, after_ignored = Suc\<rparr>"

lemma autoincrement_bundled [simp]: "autoincrement bundled_sqlite"
  by (simp add: autoincrement_def bundled_sqlite_def)

datatype store_error =
    OwnerRefused invalid
  | ConstraintViolated
  | UnreadableRow

section \<open>Views\<close>

text \<open>
  A row joined with each connection of its scope, and of those the latest per subject and
  connection (\<^verbatim>\<open>ROW_NUMBER() OVER (PARTITION BY .. ORDER BY sequence DESC) = 1\<close>).
\<close>

definition scope_rows :: "(string \<rightharpoonup> string) \<Rightarrow> journal_row list \<Rightarrow> (journal_row \<times> string) list" where
  "scope_rows registry rs =
     [(r, c). r \<leftarrow> rs, c \<leftarrow> row_connections r, registry c \<noteq> None]"

definition latest :: "(journal_row \<times> string) list \<Rightarrow> (journal_row \<times> string) list" where
  "latest xs =
     filter (\<lambda>(r, c). \<not> list_ex (\<lambda>(r', c'). row_subject r' = row_subject r \<and> c' = c
                                        \<and> row_sequence r < row_sequence r') xs) xs"

definition consent_state_view :: "store \<Rightarrow> (journal_row \<times> string) list" where
  "consent_state_view st = latest (scope_rows (map_of (registered st)) (journal st))"

definition horizon :: "store \<Rightarrow> nat" where
  "horizon st =
     (case map row_sequence (filter (\<lambda>r. row_stream r = None) (journal st)) of
        s # ss \<Rightarrow> Min (set (s # ss)) - 1
      | [] \<Rightarrow> (case map row_sequence (journal st) of [] \<Rightarrow> 0 | s # ss \<Rightarrow> Max (set (s # ss))))"

definition consent_snapshot_view :: "store \<Rightarrow> (journal_row \<times> string) list" where
  "consent_snapshot_view st =
     latest (scope_rows (map_of (registered st))
       (filter (\<lambda>r. row_sequence r \<le> horizon st) (journal st)))"

record entry =
  e_subject :: subject
  e_connection :: string
  e_network :: network
  e_state :: gstate
  e_decided_at :: string
  e_decision_sequence :: nat

definition entry_of :: "store \<Rightarrow> journal_row \<times> string \<Rightarrow> store_error + entry" where
  "entry_of st = (\<lambda>(r, c).
     and_then (ok_or UnreadableRow (Option.bind (map_of (registered st) c) network_parse)) (\<lambda>n.
       Inr \<lparr>e_subject = row_subject r, e_connection = c, e_network = n, e_state = row_state r,
            e_decided_at = r_occurred_at (row_recorded r), e_decision_sequence = row_sequence r\<rparr>))"

text \<open>\<^verbatim>\<open>ORDER BY subject_type, subject_id, connection\<close>.\<close>

definition view_order :: "journal_row \<times> string \<Rightarrow> string \<times> string \<times> string" where
  "view_order = (\<lambda>(r, c).
     (subject_type_as_str (subject_kind (row_subject r)), subject_id (row_subject r), c))"

definition about_owner :: "store \<Rightarrow> journal_row \<times> string \<Rightarrow> bool" where
  "about_owner st = (\<lambda>(r, c). subject_kind (row_subject r) = ContactSubject
      \<and> gowner_is_owner (store_owner st) (subject_id (row_subject r)))"

section \<open>Operations\<close>

definition previous_state :: "store \<Rightarrow> subject \<Rightarrow> string list \<Rightarrow> old_state" where
  "previous_state st s conns =
     (case filter (\<lambda>(r, c). row_subject r = s \<and> c \<in> set conns) (consent_state_view st) of
        [] \<Rightarrow> Unset
      | x # xs \<Rightarrow>
          Was (row_state (fst (fold (\<lambda>y best. if row_sequence (fst best) < row_sequence (fst y)
                                             then y else best) xs x))))"

record committed =
  c_sequence :: nat
  c_event_id :: string
  c_recorded :: recorded
  c_replayed :: bool

definition store_record ::
  "rowids \<Rightarrow> (string \<Rightarrow> 8 word list) \<Rightarrow> decision \<Rightarrow> string \<Rightarrow> string \<Rightarrow> string \<Rightarrow> string
    \<Rightarrow> store \<Rightarrow> (store_error + committed) \<times> store" where
  "store_record sq digest d actor occurred_at domain produced_at st =
     (case refuse_if_owner d (store_owner st) of
        Inl invalid \<Rightarrow> (Inl (OwnerRefused invalid), st)
      | Inr _ \<Rightarrow>
          let rec = \<lparr>r_decision = d, r_old_state = previous_state st (d_subject d) (d_connections d),
                     r_occurred_at = occurred_at, r_actor = actor\<rparr>;
              eid = event_id digest rec
          in case List.find (\<lambda>r. row_event_id r = eid) (journal st) of
               Some known \<Rightarrow>
                 (Inr \<lparr>c_sequence = row_sequence known, c_event_id = eid,
                       c_recorded = rec\<lparr>r_old_state := r_old_state (row_recorded known)\<rparr>,
                       c_replayed = True\<rparr>,
                  st\<lparr>sqlite_sequence := after_ignored sq (sqlite_sequence st)\<rparr>)
             | None \<Rightarrow>
                 if distinct (d_connections d) \<and> (\<forall>c \<in> set (d_connections d). map_of (registered st) c \<noteq> None)
                 then
                   let s = allocate sq (sqlite_sequence st);
                       row = \<lparr>row_sequence = s, row_event_id = eid, row_recorded = rec,
                              row_scope_key = scope_key d, row_envelope = envelope digest rec domain produced_at,
                              row_published_at = None, row_stream = None\<rparr>
                   in (Inr \<lparr>c_sequence = s, c_event_id = eid, c_recorded = rec, c_replayed = False\<rparr>,
                       st\<lparr>journal := journal st @ [row], sqlite_sequence := s\<rparr>)
                 else (Inl ConstraintViolated, st))"

definition state_rows :: "store \<Rightarrow> (journal_row \<times> string \<Rightarrow> bool) \<Rightarrow> store_error + entry list" where
  "state_rows st p = traverse (entry_of st) (sort_key view_order (filter p (consent_state_view st)))"

definition entries :: "store \<Rightarrow> store_error + entry list" where
  "entries st = state_rows st (\<lambda>x. \<not> about_owner st x)"

definition owner_entries :: "store \<Rightarrow> store_error + entry list" where
  "owner_entries st = state_rows st (about_owner st)"

datatype snapshot_refusal = TooLarge nat | StoreFailed store_error

record snapshot =
  sn_entries :: "entry list"
  sn_decision_sequence :: nat
  sn_stream_sequence :: nat

fun read_capped ::
  "(journal_row \<times> string \<Rightarrow> store_error + entry) \<Rightarrow> nat \<Rightarrow> nat \<Rightarrow> (journal_row \<times> string) list
    \<Rightarrow> snapshot_refusal + entry list" where
  "read_capped read max_entries n [] = Inr []"
| "read_capped read max_entries n (x # xs) =
     (if n = max_entries then Inl (TooLarge max_entries)
      else case read x of
             Inl e \<Rightarrow> Inl (StoreFailed e)
           | Inr e \<Rightarrow> and_then (read_capped read max_entries (Suc n) xs) (\<lambda>es. Inr (e # es)))"

definition horizon_position :: "store \<Rightarrow> nat" where
  "horizon_position st =
     (case List.find (\<lambda>r. row_sequence r = horizon st) (journal st) of
        None \<Rightarrow> 0
      | Some r \<Rightarrow> (case row_stream r of None \<Rightarrow> 0 | Some n \<Rightarrow> n))"

definition store_snapshot :: "store \<Rightarrow> nat \<Rightarrow> snapshot_refusal + snapshot" where
  "store_snapshot st max_entries =
     and_then (read_capped (entry_of st) max_entries 0
        (take (Suc max_entries)
          (sort_key view_order (filter (\<lambda>x. \<not> about_owner st x) (consent_snapshot_view st)))))
       (\<lambda>es. Inr \<lparr>sn_entries = es, sn_decision_sequence = horizon st,
                  sn_stream_sequence = horizon_position st\<rparr>)"

definition state_of_subject :: "store \<Rightarrow> subject \<Rightarrow> string \<Rightarrow> gstate option" where
  "state_of_subject st s connection =
     map_option (row_state \<circ> fst)
       (List.find (\<lambda>(r, c). row_subject r = s \<and> c = connection) (consent_state_view st))"

definition store_effective :: "store \<Rightarrow> string \<Rightarrow> string \<Rightarrow> network \<Rightarrow> effective" where
  "store_effective st contact connection n =
     (if gowner_is_owner (store_owner st) contact then effective_resolve contact n None None
      else effective_resolve contact n
             (state_of_subject st \<lparr>subject_kind = ContactSubject, subject_id = contact\<rparr> connection)
             (state_of_subject st \<lparr>subject_kind = NetworkSubject, subject_id = network_as_str n\<rparr>
                connection))"

definition unpublished :: "store \<Rightarrow> nat \<Rightarrow> journal_row list" where
  "unpublished st limit =
     take limit (sort_key row_sequence (filter (\<lambda>r. row_published_at r = None) (journal st)))"

definition unpublished_count :: "store \<Rightarrow> nat" where
  "unpublished_count st = length (filter (\<lambda>r. row_published_at r = None) (journal st))"

definition mark_row :: "nat \<Rightarrow> string \<Rightarrow> nat \<Rightarrow> journal_row \<Rightarrow> journal_row" where
  "mark_row s at n r =
     (if row_sequence r = s \<and> row_published_at r = None
      then r\<lparr>row_published_at := Some at, row_stream := Some (min n (2 ^ 63 - 1))\<rparr> else r)"

definition mark_published :: "nat \<Rightarrow> string \<Rightarrow> nat \<Rightarrow> store \<Rightarrow> store" where
  "mark_published s at n st = st\<lparr>journal := map (mark_row s at n) (journal st)\<rparr>"

definition record_connections :: "connection list \<Rightarrow> store \<Rightarrow> string list \<times> store" where
  "record_connections cs st =
     (let known = fold (\<lambda>c m. AList.update (conn_id c) (conn_kind c) m) cs (registered st)
      in (filter (\<lambda>i. \<not> list_ex (\<lambda>c. conn_id c = i) cs) (sort (map fst known)),
          st\<lparr>registered := known\<rparr>))"

definition store_open :: "gateway_owner \<Rightarrow> store" where
  "store_open ow =
     \<lparr>journal = [], sqlite_sequence = 0, registered = [], store_owner = ow\<rparr>"

section \<open>The views as functions of the journal\<close>

lemma filter_maximal:
  fixes f :: "'a \<Rightarrow> nat"
  assumes "sorted_wrt (\<lambda>x y. f x < f y) ys"
  shows "filter (\<lambda>x. \<not> list_ex (\<lambda>y. f x < f y) ys) ys = (if ys = [] then [] else [last ys])"
  using assms
proof (induction ys rule: rev_induct)
  case (snoc z ys)
  have "filter (\<lambda>x. \<not> list_ex (\<lambda>y. f x < f y) (ys @ [z])) ys = []"
    using snoc.prems by (auto simp: sorted_wrt_append filter_empty_conv)
  moreover have "\<not> list_ex (\<lambda>y. f z < f y) (ys @ [z])"
    using snoc.prems by (fastforce simp: sorted_wrt_append list_ex_iff)
  ultimately show ?case by simp
qed simp

definition row_covers :: "journal_row \<Rightarrow> subject \<times> string \<Rightarrow> bool" where
  "row_covers r = (\<lambda>(s, c). row_subject r = s \<and> c \<in> set (row_connections r))"

abbreviation about_key :: "subject \<times> string \<Rightarrow> journal_row \<times> string \<Rightarrow> bool" where
  "about_key k \<equiv> (\<lambda>(r, c). row_subject r = fst k \<and> c = snd k)"

definition in_order :: "journal_row list \<Rightarrow> bool" where
  "in_order rs \<longleftrightarrow> sorted_wrt (\<lambda>r r'. row_sequence r < row_sequence r') rs
     \<and> (\<forall>r \<in> set rs. distinct (row_connections r))"

lemma in_order_filter [simp]: "in_order rs \<Longrightarrow> in_order (filter p rs)"
  by (auto simp: in_order_def sorted_wrt_filter)

lemma in_order_sequence_inj:
  "in_order rs \<Longrightarrow> r \<in> set rs \<Longrightarrow> r' \<in> set rs \<Longrightarrow> row_sequence r = row_sequence r' \<Longrightarrow> r = r'"
  by (induction rs) (auto simp: in_order_def)

lemma in_order_last:
  "in_order (rs @ [r]) \<longleftrightarrow> in_order rs \<and> distinct (row_connections r)
     \<and> (\<forall>r' \<in> set rs. row_sequence r' < row_sequence r)"
  by (auto simp: in_order_def sorted_wrt_append)

lemma filter_one_connection:
  "distinct cs \<Longrightarrow> concat (map (\<lambda>c'. if c' = c then [(r, c')] else []) cs) = (if c \<in> set cs then [(r, c)] else [])"
  by (induction cs) auto

lemma scope_rows_about:
  assumes "\<forall>r \<in> set rs. distinct (row_connections r)" and "registry c \<noteq> None"
  shows "filter (about_key (s, c)) (scope_rows registry rs) =
     map (\<lambda>r. (r, c)) (filter (\<lambda>r. row_covers r (s, c)) rs)"
  using assms(1)
proof (induction rs)
  case Nil
  show ?case by (simp add: scope_rows_def)
next
  case (Cons r rs)
  have "filter (about_key (s, c)) (concat (map (\<lambda>c'. if registry c' \<noteq> None then [(r, c')] else []) cs))
      = (if row_subject r = s \<and> c \<in> set cs then [(r, c)] else [])" if "distinct cs" for cs
    using that assms(2) by (induction cs) auto
  from this [of "row_connections r"] Cons show ?case
    by (simp add: scope_rows_def row_covers_def)
qed

lemma latest_about:
  "filter (about_key k) (latest xs) =
     filter (\<lambda>x. \<not> list_ex (\<lambda>y. row_sequence (fst x) < row_sequence (fst y)) (filter (about_key k) xs))
       (filter (about_key k) xs)"
  unfolding latest_def filter_filter
  by (rule filter_cong) (auto simp: list_ex_iff)

text \<open>
  The one row a view keeps for a subject on a connection is the last one that covers it.
\<close>

lemma view_about:
  assumes "in_order rs" and "registry c \<noteq> None"
  shows "filter (about_key (s, c)) (latest (scope_rows registry rs)) =
     (case filter (\<lambda>r. row_covers r (s, c)) rs of [] \<Rightarrow> [] | x # xs \<Rightarrow> [(last (x # xs), c)])"
proof -
  let ?ys = "filter (\<lambda>r. row_covers r (s, c)) rs"
  have about: "filter (about_key (s, c)) (scope_rows registry rs) = map (\<lambda>r. (r, c)) ?ys"
    using assms unfolding in_order_def by (intro scope_rows_about) auto
  have "sorted_wrt (\<lambda>x y. row_sequence (fst x) < row_sequence (fst y)) (map (\<lambda>r. (r, c)) ?ys)"
    using in_order_filter [OF assms(1)] by (simp add: sorted_wrt_map in_order_def)
  from filter_maximal [OF this] show ?thesis
    unfolding latest_about about by (auto simp: last_map split: list.split)
qed

lemma last_value_filter:
  "last_value covers val ws k =
     (case filter (\<lambda>w. covers w k) ws of [] \<Rightarrow> None | x # xs \<Rightarrow> Some (val (last (x # xs))))"
  by (induction ws) (auto split: list.split option.split)

lemma find_filter: "List.find p xs = (case filter p xs of [] \<Rightarrow> None | x # _ \<Rightarrow> Some x)"
  by (induction xs) auto

lemma view_set:
  assumes "in_order rs"
  shows "(r, c) \<in> set (latest (scope_rows registry rs)) \<longleftrightarrow>
     registry c \<noteq> None \<and> r \<in> set rs \<and> c \<in> set (row_connections r)
     \<and> (\<forall>r' \<in> set rs. row_covers r' (row_subject r, c) \<longrightarrow> row_sequence r' \<le> row_sequence r)"
  by (auto simp: latest_def scope_rows_def list_ex_iff row_covers_def not_less split: if_splits)

lemma distinct_if_filter_one: "(\<And>k. length (filter (\<lambda>k'. k' = k) ks) \<le> 1) \<Longrightarrow> distinct ks"
proof (induction ks)
  case (Cons a ks)
  have "length (filter (\<lambda>k'. k' = k) ks) \<le> 1" for k
    using Cons.prems [of k] by (auto split: if_splits)
  moreover have "filter (\<lambda>k'. k' = a) ks = []"
    using Cons.prems [of a] by (auto simp: filter_empty_conv split: if_splits)
  ultimately show ?case using Cons.IH by (auto simp: filter_empty_conv)
qed simp

lemma view_distinct:
  assumes "in_order rs"
  shows "distinct (map (\<lambda>(r, c). (row_subject r, c)) (latest (scope_rows registry rs)))"
proof -
  let ?v = "latest (scope_rows registry rs)"
  have "length (filter (\<lambda>k'. k' = k) (map (\<lambda>(r, c). (row_subject r, c)) ?v)) \<le> 1" for k
  proof -
    have about: "filter (\<lambda>k'. k' = k) (map (\<lambda>(r, c). (row_subject r, c)) ?v)
        = map (\<lambda>(r, c). (row_subject r, c)) (filter (about_key k) ?v)"
      by (auto simp: filter_map comp_def case_prod_unfold prod_eq_iff intro!: arg_cong2 [of _ _ _ _ map] filter_cong)
    show ?thesis
    proof (cases "registry (snd k)")
      case None
      then have "filter (about_key k) ?v = []"
        using view_set [OF assms, of _ _ registry] by (auto simp: filter_empty_conv)
      then show ?thesis by (simp add: about)
    next
      case (Some n)
      then show ?thesis
        using view_about [OF assms, of registry "snd k" "fst k"] by (simp add: about split: list.split)
    qed
  qed
  then show ?thesis by (intro distinct_if_filter_one)
qed

section \<open>Well-formed stores\<close>

definition row_ok :: "(string \<Rightarrow> 8 word list) \<Rightarrow> store \<Rightarrow> journal_row \<Rightarrow> bool" where
  "row_ok digest st r \<longleftrightarrow>
     0 < row_sequence r \<and> row_sequence r \<le> sqlite_sequence st
     \<and> row_event_id r = event_id digest (row_recorded r)
     \<and> (\<exists>domain at. row_envelope r = envelope digest (row_recorded r) domain at)
     \<and> (\<forall>c \<in> set (row_connections r). map_of (registered st) c \<noteq> None)
     \<and> refuse_if_owner (r_decision (row_recorded r)) (store_owner st) = Inr ()
     \<and> (row_published_at r = None \<longleftrightarrow> row_stream r = None)"

definition store_wf :: "(string \<Rightarrow> 8 word list) \<Rightarrow> store \<Rightarrow> bool" where
  "store_wf digest st \<longleftrightarrow>
     in_order (journal st) \<and> distinct (map row_event_id (journal st))
     \<and> (\<forall>r \<in> set (journal st). row_ok digest st r)"

lemma store_wf_open: "store_wf digest (store_open ow)"
  by (simp add: store_wf_def store_open_def in_order_def)

lemma event_id_cong: "same_natural_key a b \<Longrightarrow> event_id digest a = event_id digest b"
  by (simp add: event_id_def event_key_cong)

lemma find_event_None:
  "List.find (\<lambda>r. row_event_id r = eid) rs = None \<longleftrightarrow> eid \<notin> row_event_id ` set rs"
  by (auto simp: find_None_iff)

lemma row_ok_grow:
  "row_ok digest st r \<Longrightarrow> sqlite_sequence st \<le> sqlite_sequence st' \<Longrightarrow> store_owner st' = store_owner st \<Longrightarrow>
   (\<forall>c. map_of (registered st) c \<noteq> None \<longrightarrow> map_of (registered st') c \<noteq> None) \<Longrightarrow> row_ok digest st' r"
  by (auto simp: row_ok_def)

lemma store_record_grows:
  assumes "autoincrement sq"
  shows "let st' = snd (store_record sq digest d actor at domain produced st) in
     (\<exists>new. journal st' = journal st @ new) \<and> sqlite_sequence st \<le> sqlite_sequence st'
     \<and> registered st' = registered st \<and> store_owner st' = store_owner st"
  using assms
  by (auto simp: store_record_def Let_def autoincrement_def less_imp_le split: sum.split option.split)

lemma store_record_wf:
  assumes "store_wf digest st" and "autoincrement sq"
  shows "store_wf digest (snd (store_record sq digest d actor at domain produced st))"
proof (cases "refuse_if_owner d (store_owner st)")
  case (Inl i)
  then show ?thesis using assms by (simp add: store_record_def)
next
  case (Inr u)
  let ?rec = "\<lparr>r_decision = d, r_old_state = previous_state st (d_subject d) (d_connections d),
                     r_occurred_at = at, r_actor = actor\<rparr>"
  let ?eid = "event_id digest ?rec"
  show ?thesis
  proof (cases "List.find (\<lambda>r. row_event_id r = ?eid) (journal st)")
    case (Some known)
    have "store_wf digest (st\<lparr>sqlite_sequence := after_ignored sq (sqlite_sequence st)\<rparr>)"
      using assms by (auto simp: store_wf_def autoincrement_def intro: row_ok_grow)
    then show ?thesis using Inr Some by (simp add: store_record_def Let_def)
  next
    case None
    let ?s = "allocate sq (sqlite_sequence st)"
    let ?row = "\<lparr>row_sequence = ?s, row_event_id = ?eid, row_recorded = ?rec,
                  row_scope_key = scope_key d, row_envelope = envelope digest ?rec domain produced,
                  row_published_at = None, row_stream = None\<rparr>"
    let ?st = "st\<lparr>journal := journal st @ [?row], sqlite_sequence := ?s\<rparr>"
    have lt: "sqlite_sequence st < ?s" using assms(2) by (simp add: autoincrement_def)
    show ?thesis
    proof (cases "distinct (d_connections d) \<and> (\<forall>c \<in> set (d_connections d). map_of (registered st) c \<noteq> None)")
      case True
      have "row_ok digest ?st ?row" using True Inr lt unfolding row_ok_def by simp blast
      moreover have "row_ok digest ?st r" if "r \<in> set (journal st)" for r
        by (rule row_ok_grow [of digest st]) (use assms(1) that lt in \<open>simp_all add: store_wf_def\<close>)
      moreover have "in_order (journal st @ [?row])"
        unfolding in_order_last
        using assms(1) True lt by (auto simp: store_wf_def row_ok_def dest: le_less_trans)
      ultimately have "store_wf digest ?st"
        using assms(1) None by (auto simp: store_wf_def find_event_None)
      then show ?thesis using Inr None True by (simp add: store_record_def Let_def)
    next
      case False
      then show ?thesis using assms(1) Inr None by (auto simp: store_record_def Let_def)
    qed
  qed
qed

lemma mark_row_fields [simp]:
  "row_sequence (mark_row s at n r) = row_sequence r"
  "row_event_id (mark_row s at n r) = row_event_id r"
  "row_recorded (mark_row s at n r) = row_recorded r"
  "row_envelope (mark_row s at n r) = row_envelope r"
  by (simp_all add: mark_row_def)

lemma row_ok_mark: "row_ok digest st r \<Longrightarrow> row_ok digest st (mark_row s at n r)"
  by (simp add: row_ok_def) (simp add: mark_row_def)

lemma row_ok_journal [simp]: "row_ok digest (st\<lparr>journal := rs\<rparr>) r = row_ok digest st r"
  by (simp add: row_ok_def)

lemma in_order_mark [simp]: "in_order (map (mark_row s at n) rs) = in_order rs"
  by (simp add: in_order_def sorted_wrt_map)

lemma mark_published_wf:
  "store_wf digest st \<Longrightarrow> store_wf digest (mark_published s at n st)"
  by (simp add: store_wf_def mark_published_def comp_def row_ok_mark)

lemma fold_update_known:
  "map_of m c \<noteq> None \<Longrightarrow> map_of (fold (\<lambda>c m. AList.update (conn_id c) (conn_kind c) m) cs m) c \<noteq> None"
proof (induction cs arbitrary: m)
  case (Cons x cs)
  then show ?case by (simp add: update_conv')
qed simp

lemma record_connections_wf:
  "store_wf digest st \<Longrightarrow> store_wf digest (snd (record_connections cs st))"
proof -
  assume wf: "store_wf digest st"
  have "row_ok digest (snd (record_connections cs st)) r" if "r \<in> set (journal st)" for r
    by (rule row_ok_grow [of digest st])
      (use wf that in \<open>simp_all add: store_wf_def record_connections_def Let_def fold_update_known\<close>)
  then show ?thesis using wf by (simp add: store_wf_def record_connections_def Let_def)
qed

text \<open>The operations that change the store.\<close>

datatype store_op =
    Record decision string string string string
  | MarkPublished nat string nat
  | RecordConnections "connection list"

fun run_store_op :: "rowids \<Rightarrow> (string \<Rightarrow> 8 word list) \<Rightarrow> store_op \<Rightarrow> store \<Rightarrow> store" where
  "run_store_op sq digest (Record d actor at domain produced) st =
     snd (store_record sq digest d actor at domain produced st)"
| "run_store_op sq digest (MarkPublished s at n) st = mark_published s at n st"
| "run_store_op sq digest (RecordConnections cs) st = snd (record_connections cs st)"

lemma run_store_op_wf:
  "autoincrement sq \<Longrightarrow> store_wf digest st \<Longrightarrow> store_wf digest (run_store_op sq digest p st)"
  by (cases p) (simp_all add: store_record_wf mark_published_wf record_connections_wf)

lemma run_store_ops_wf:
  "autoincrement sq \<Longrightarrow> store_wf digest st \<Longrightarrow> store_wf digest (fold (run_store_op sq digest) ps st)"
  by (induction ps arbitrary: st) (simp_all add: run_store_op_wf)

lemma store_wf_in_order: "store_wf digest st \<Longrightarrow> in_order (journal st)"
  by (simp add: store_wf_def)

lemma store_wf_row: "store_wf digest st \<Longrightarrow> r \<in> set (journal st) \<Longrightarrow> row_ok digest st r"
  by (simp add: store_wf_def)

section \<open>What the current state answers\<close>

lemma state_of_subject_last:
  assumes "in_order (journal st)" and "map_of (registered st) c \<noteq> None"
  shows "state_of_subject st s c = last_value row_covers row_state (journal st) (s, c)"
  using view_about [of "journal st" "map_of (registered st)" c s] assms
  by (auto simp: state_of_subject_def find_filter last_value_filter consent_state_view_def split: list.splits)

lemma state_of_subject_unregistered:
  "map_of (registered st) c = None \<Longrightarrow> state_of_subject st s c = None"
  by (auto simp: state_of_subject_def consent_state_view_def latest_def scope_rows_def find_None_iff split: if_splits)

text \<open>A decision recorded for the first time, as the writes of a last-writer store.\<close>

record submission =
  w_decision :: decision
  w_actor :: string
  w_occurred_at :: string
  w_domain :: string
  w_produced_at :: string

definition write_result :: "rowids \<Rightarrow> (string \<Rightarrow> 8 word list) \<Rightarrow> submission \<Rightarrow> store \<Rightarrow> (store_error + committed) \<times> store" where
  "write_result sq digest w st =
     store_record sq digest (w_decision w) (w_actor w) (w_occurred_at w) (w_domain w) (w_produced_at w) st"

definition newly_recorded :: "rowids \<Rightarrow> (string \<Rightarrow> 8 word list) \<Rightarrow> store \<Rightarrow> submission \<Rightarrow> bool" where
  "newly_recorded sq digest st w \<longleftrightarrow>
     autoincrement sq \<and> store_wf digest st
     \<and> (case fst (write_result sq digest w st) of Inl e \<Rightarrow> False | Inr c \<Rightarrow> \<not> c_replayed c)"

fun write_covers :: "submission \<Rightarrow> subject \<times> string \<Rightarrow> bool" where
  "write_covers w (s, c) \<longleftrightarrow> s = d_subject (w_decision w) \<and> c \<in> set (d_connections (w_decision w))"

fun store_get :: "store \<Rightarrow> subject \<times> string \<Rightarrow> gstate option" where
  "store_get st (s, c) = state_of_subject st s c"

definition store_admits :: "store \<Rightarrow> subject \<times> string \<Rightarrow> bool" where
  "store_admits st k \<longleftrightarrow> map_of (registered st) (snd k) \<noteq> None"

lemma newly_recorded_row:
  assumes "newly_recorded sq digest st w"
  obtains row where "journal (snd (write_result sq digest w st)) = journal st @ [row]"
    and "r_decision (row_recorded row) = w_decision w"
    and "registered (snd (write_result sq digest w st)) = registered st"
    and "store_wf digest (snd (write_result sq digest w st))"
proof -
  have wf: "store_wf digest (snd (write_result sq digest w st))"
    using assms by (simp add: newly_recorded_def write_result_def store_record_wf)
  show thesis
    using assms that [OF _ _ _ wf]
    by (auto simp: newly_recorded_def write_result_def store_record_def Let_def
             split: sum.splits option.splits if_splits)
qed

interpretation journal: last_writer "\<lambda>w st. snd (write_result sq digest w st)" store_get write_covers
  "\<lambda>w. d_new_state (w_decision w)" store_admits "newly_recorded sq digest"
  for sq digest
proof unfold_locales
  fix st w k
  assume new: "newly_recorded sq digest st w"
  let ?st = "snd (write_result sq digest w st)"
  obtain row where row: "journal ?st = journal st @ [row]" "r_decision (row_recorded row) = w_decision w"
    and reg: "registered ?st = registered st" and wf: "store_wf digest ?st"
    using newly_recorded_row [OF new] by blast
  have wf0: "store_wf digest st" using new by (simp add: newly_recorded_def)
  show "store_admits ?st k = store_admits st k" by (simp add: store_admits_def reg)
  show "store_get ?st k = (if write_covers w k \<and> store_admits st k then Some (d_new_state (w_decision w))
      else store_get st k)"
  proof (cases k, cases "map_of (registered st) (snd k)")
    case (Pair s c)
    case None
    then show ?thesis
      using Pair by (simp add: store_admits_def state_of_subject_unregistered reg)
  next
    case (Pair s c)
    case (Some n)
    then have regs: "map_of (registered st) c \<noteq> None" "map_of (registered ?st) c \<noteq> None"
      using Pair reg by simp_all
    have "state_of_subject ?st s c = last_value row_covers row_state (journal ?st) (s, c)"
      by (rule state_of_subject_last [OF store_wf_in_order [OF wf] regs(2)])
    moreover have "state_of_subject st s c = last_value row_covers row_state (journal st) (s, c)"
      by (rule state_of_subject_last [OF store_wf_in_order [OF wf0] regs(1)])
    ultimately show ?thesis
      using Pair row regs by (auto simp: last_value_append row_covers_def store_admits_def)
  qed
qed

lemma in_order_le_last: "in_order rs \<Longrightarrow> r \<in> set rs \<Longrightarrow> row_sequence r \<le> row_sequence (last rs)"
  by (induction rs rule: rev_induct) (auto simp: in_order_last less_imp_le)

lemma fold_greatest:
  fixes f :: "'a \<Rightarrow> nat"
  shows "(let b = fold (\<lambda>y best. if f best < f y then y else best) ys y
          in b \<in> set (y # ys) \<and> (\<forall>z \<in> set (y # ys). f z \<le> f b))"
  by (induction ys arbitrary: y) (fastforce simp: Let_def)+

lemma previous_state_last:
  assumes "in_order (journal st)" and "\<forall>c \<in> set conns. map_of (registered st) c \<noteq> None"
  shows "previous_state st s conns =
     (case last_value (\<lambda>r cs. row_subject r = s \<and> (\<exists>c \<in> set cs. c \<in> set (row_connections r)))
             row_state (journal st) conns of
        None \<Rightarrow> Unset
      | Some state \<Rightarrow> Was state)"
proof -
  let ?cov = "\<lambda>r cs. row_subject r = s \<and> (\<exists>c \<in> set cs. c \<in> set (row_connections r))"
  let ?p = "\<lambda>(r, c). row_subject r = s \<and> c \<in> set conns"
  let ?view = "consent_state_view st"
  have view: "(r, c) \<in> set ?view \<longleftrightarrow>
      map_of (registered st) c \<noteq> None \<and> r \<in> set (journal st) \<and> c \<in> set (row_connections r)
      \<and> (\<forall>r' \<in> set (journal st). row_covers r' (row_subject r, c) \<longrightarrow> row_sequence r' \<le> row_sequence r)"
    for r c
    unfolding consent_state_view_def by (rule view_set [OF assms(1)])
  show ?thesis
  proof (cases "filter (\<lambda>r. ?cov r conns) (journal st)")
    case Nil
    then have "filter ?p ?view = []" by (auto simp: filter_empty_conv view)
    then show ?thesis using Nil by (simp add: previous_state_def last_value_filter)
  next
    case (Cons a as)
    obtain x where x_def: "x = last (a # as)" by blast
    have "x \<in> set (filter (\<lambda>r. ?cov r conns) (journal st))"
      unfolding Cons x_def by (rule last_in_set) simp
    then have x: "x \<in> set (journal st)" "?cov x conns" by simp_all
    have top: "row_sequence r \<le> row_sequence x" if "r \<in> set (journal st)" "?cov r conns" for r
    proof -
      have "in_order (a # as)" using in_order_filter [OF assms(1), of "\<lambda>r. ?cov r conns"] Cons by simp
      moreover have "r \<in> set (a # as)" using that unfolding Cons [symmetric] by simp
      ultimately show ?thesis unfolding x_def by (rule in_order_le_last)
    qed
    obtain c where c: "c \<in> set conns" "c \<in> set (row_connections x)" using x(2) by blast
    have inview: "(x, c) \<in> set (filter ?p ?view)"
      using x c assms(2) by (auto simp: view row_covers_def intro!: top)
    then obtain y ys where ys: "filter ?p ?view = y # ys" by (cases "filter ?p ?view") auto
    let ?b = "fold (\<lambda>y best. if row_sequence (fst best) < row_sequence (fst y) then y else best) ys y"
    have b: "?b \<in> set (y # ys)" "\<forall>z \<in> set (y # ys). row_sequence (fst z) \<le> row_sequence (fst ?b)"
      using fold_greatest [of "\<lambda>z. row_sequence (fst z)" ys y, unfolded Let_def] by blast+
    have bj: "fst ?b \<in> set (journal st)" "?cov (fst ?b) conns"
      using b(1) unfolding ys [symmetric] by (auto simp: view)
    have "row_sequence x \<le> row_sequence (fst ?b)" using b(2) inview unfolding ys by force
    with top [OF bj] have "fst ?b = x" by (intro in_order_sequence_inj [OF assms(1) bj(1) x(1)]) simp
    then show ?thesis using Cons ys by (simp add: previous_state_def last_value_filter x_def)
  qed
qed

section \<open>Reading entries\<close>

definition kinds_ok :: "store \<Rightarrow> bool" where
  "kinds_ok st \<longleftrightarrow> (\<forall>(c, k) \<in> set (registered st). network_parse k \<noteq> None)"

lemma entry_of_Inr_iff:
  "entry_of st (r, c) = Inr e \<longleftrightarrow>
     Option.bind (map_of (registered st) c) network_parse = Some (e_network e)
     \<and> e_subject e = row_subject r \<and> e_connection e = c \<and> e_state e = row_state r
     \<and> e_decided_at e = r_occurred_at (row_recorded r) \<and> e_decision_sequence e = row_sequence r"
  by (cases e) (auto simp: entry_of_def result_simps)

lemma entry_of_total:
  assumes "kinds_ok st" and "map_of (registered st) c \<noteq> None"
  shows "\<exists>e. entry_of st (r, c) = Inr e"
proof -
  obtain k where k: "map_of (registered st) c = Some k" using assms(2) by blast
  then obtain n where "network_parse k = Some n"
    using assms(1) map_of_SomeD [OF k] by (auto simp: kinds_ok_def)
  then show ?thesis by (simp add: entry_of_def k)
qed

lemma view_registered:
  "(r, c) \<in> set (latest (scope_rows registry rs)) \<Longrightarrow> registry c \<noteq> None \<and> r \<in> set rs"
  by (auto simp: latest_def scope_rows_def split: if_splits)

lemma view_readable:
  assumes "kinds_ok st" and "x \<in> set (consent_state_view st) \<or> x \<in> set (consent_snapshot_view st)"
  shows "\<exists>e. entry_of st x = Inr e"
  using assms view_registered [of "fst x" "snd x"] entry_of_total [OF assms(1), of "snd x" "fst x"]
  by (auto simp: consent_state_view_def consent_snapshot_view_def)

lemma read_capped_Inr_iff:
  "n \<le> m \<Longrightarrow> read_capped read m n xs = Inr es \<longleftrightarrow> length xs + n \<le> m \<and> list_all2 (\<lambda>x e. read x = Inr e) xs es"
proof (induction xs arbitrary: n es)
  case (Cons x xs)
  show ?case
  proof (cases "n = m")
    case True
    then show ?thesis by simp
  next
    case False
    then have "Suc n \<le> m" using Cons.prems by simp
    from Cons.IH [OF this] show ?thesis
      using False by (cases "read x") (auto simp: result_simps list_all2_Cons1)
  qed
qed auto

lemma read_capped_too_large:
  assumes "\<forall>x \<in> set xs. \<exists>e. read x = Inr e" and "n \<le> m" and "m < length xs + n"
  shows "read_capped read m n xs = Inl (TooLarge m)"
  using assms
proof (induction xs arbitrary: n)
  case (Cons x xs)
  then obtain e where e: "read x = Inr e" by auto
  show ?case
  proof (cases "n = m")
    case False
    then have "read_capped read m (Suc n) xs = Inl (TooLarge m)" using Cons by simp
    then show ?thesis using False e by simp
  qed simp
qed simp

abbreviation served_rows :: "store \<Rightarrow> (journal_row \<times> string) list" where
  "served_rows st \<equiv> sort_key view_order (filter (\<lambda>x. \<not> about_owner st x) (consent_snapshot_view st))"

lemma store_snapshot_Inr_iff:
  "store_snapshot st m = Inr sn \<longleftrightarrow>
     length (served_rows st) \<le> m
     \<and> list_all2 (\<lambda>x e. entry_of st x = Inr e) (served_rows st) (sn_entries sn)
     \<and> sn_decision_sequence sn = horizon st \<and> sn_stream_sequence sn = horizon_position st"
proof -
  have "length (take (Suc m) xs) + 0 \<le> m \<longleftrightarrow> length xs \<le> m" for xs :: "'a list" by auto
  then have "read_capped (entry_of st) m 0 (take (Suc m) (served_rows st)) = Inr es \<longleftrightarrow>
      length (served_rows st) \<le> m \<and> list_all2 (\<lambda>x e. entry_of st x = Inr e) (served_rows st) es" for es
    by (subst read_capped_Inr_iff) auto
  then show ?thesis
    by (cases sn) (auto simp: store_snapshot_def result_simps)
qed

lemma sort_key_filter_set: "x \<in> set (sort_key f (filter p xs)) \<longleftrightarrow> x \<in> set xs \<and> p x"
  by simp

lemma list_all2_entry:
  "list_all2 (\<lambda>x e. entry_of st x = Inr e) xs es \<Longrightarrow> e \<in> set es \<Longrightarrow>
     \<exists>r c. (r, c) \<in> set xs \<and> entry_of st (r, c) = Inr e"
  by (auto simp: in_set_conv_nth list_all2_conv_all_nth) (metis surj_pair)

text \<open>An entry about an identity of the owner.\<close>

definition entry_about_owner :: "store \<Rightarrow> entry \<Rightarrow> bool" where
  "entry_about_owner st e \<longleftrightarrow> subject_kind (e_subject e) = ContactSubject
      \<and> gowner_is_owner (store_owner st) (subject_id (e_subject e))"

lemma entry_about_owner_row:
  "entry_of st x = Inr e \<Longrightarrow> entry_about_owner st e = about_owner st x"
  by (cases x) (simp add: entry_of_Inr_iff entry_about_owner_def about_owner_def)

lemma entries_not_owner:
  assumes "list_all2 (\<lambda>x e. entry_of st x = Inr e) (sort_key view_order (filter (\<lambda>x. p x) xs)) es"
  shows "e \<in> set es \<Longrightarrow> \<exists>x. p x \<and> entry_of st x = Inr e"
  using list_all2_entry [OF assms, of e] by auto

text \<open>What the row keeps of its publication, and what a later journal may add to it.\<close>

definition unmarked :: "journal_row \<Rightarrow> journal_row" where
  "unmarked r = r\<lparr>row_published_at := None, row_stream := None\<rparr>"

definition row_kept :: "journal_row \<Rightarrow> journal_row \<Rightarrow> bool" where
  "row_kept r r' \<longleftrightarrow> unmarked r' = unmarked r \<and> (row_published_at r \<noteq> None \<longrightarrow> r' = r)"

definition journal_kept :: "journal_row list \<Rightarrow> journal_row list \<Rightarrow> bool" where
  "journal_kept rs rs' \<longleftrightarrow>
     length rs \<le> length rs' \<and> list_all2 row_kept rs (take (length rs) rs')"

lemma row_kept_refl [simp]: "row_kept r r"
  by (simp add: row_kept_def)

lemma journal_kept_append [simp]: "journal_kept rs (rs @ new)"
  by (simp add: journal_kept_def list_all2_refl)

lemma journal_kept_refl [simp]: "journal_kept rs rs"
  using journal_kept_append [of rs "[]"] by simp

lemma journal_kept_trans:
  assumes "journal_kept rs rs'" and "journal_kept rs' rs''"
  shows "journal_kept rs rs''"
proof -
  have "row_kept (rs ! i) (rs'' ! i)" if "i < length rs" for i
  proof -
    have "row_kept (rs ! i) (rs' ! i)" "row_kept (rs' ! i) (rs'' ! i)"
      using assms that by (auto simp: journal_kept_def list_all2_conv_all_nth)
    then show ?thesis by (auto simp: row_kept_def)
  qed
  then show ?thesis using assms by (auto simp: journal_kept_def list_all2_conv_all_nth)
qed

lemma journal_kept_mark [simp]: "journal_kept rs (map (mark_row s at n) rs)"
  by (auto simp: journal_kept_def list_all2_conv_all_nth row_kept_def unmarked_def mark_row_def)

lemma run_store_op_kept: "journal_kept (journal st) (journal (run_store_op sq digest p st))"
proof (cases p)
  case (Record d actor at domain produced)
  then show ?thesis
    by (auto simp: store_record_def Let_def split: sum.split option.split)
qed (simp_all add: mark_published_def record_connections_def Let_def)

lemma journal_kept_run: "journal_kept (journal st) (journal (fold (run_store_op sq digest) ps st))"
  by (induction ps arbitrary: st) (simp, metis fold_simps(2) journal_kept_trans run_store_op_kept)

lemma kept_row: "journal_kept rs rs' \<Longrightarrow> r \<in> set rs \<Longrightarrow> \<exists>r' \<in> set rs'. unmarked r' = unmarked r"
  by (auto simp: journal_kept_def row_kept_def list_all2_conv_all_nth in_set_conv_nth)
     (metis less_le_trans nth_mem)

lemma unmarked_fields:
  "row_event_id (unmarked r) = row_event_id r \<and> row_sequence (unmarked r) = row_sequence r
   \<and> row_recorded (unmarked r) = row_recorded r \<and> row_envelope (unmarked r) = row_envelope r"
  by (simp add: unmarked_def)

lemma store_owner_run_op:
  "autoincrement sq \<Longrightarrow> store_owner (run_store_op sq digest p st) = store_owner st"
  using store_record_grows [of sq digest]
  by (cases p) (simp_all add: Let_def mark_published_def record_connections_def)

lemma store_owner_run:
  "autoincrement sq \<Longrightarrow> store_owner (fold (run_store_op sq digest) ps st) = store_owner st"
  by (induction ps arbitrary: st) (simp_all add: store_owner_run_op)

lemma find_distinct:
  "distinct (map f xs) \<Longrightarrow> x \<in> set xs \<Longrightarrow> List.find (\<lambda>y. f y = f x) xs = Some x"
  by (induction xs) force+

lemma store_record_known:
  assumes "store_record sq digest d actor at domain produced st = (Inr c, st')"
  shows "(\<exists>r \<in> set (journal st'). row_event_id r = c_event_id c \<and> row_sequence r = c_sequence c
            \<and> r_old_state (row_recorded r) = r_old_state (c_recorded c))
     \<and> (\<forall>old who. c_event_id c = event_id digest \<lparr>r_decision = d, r_old_state = old,
            r_occurred_at = at, r_actor = who\<rparr>)
     \<and> refuse_if_owner d (store_owner st) = Inr ()"
proof -
  have key: "event_id digest \<lparr>r_decision = d, r_old_state = old, r_occurred_at = at, r_actor = who\<rparr>
      = event_id digest \<lparr>r_decision = d, r_old_state = old', r_occurred_at = at, r_actor = who'\<rparr>"
    for old who old' who'
    by (rule event_id_cong) (simp add: same_natural_key_def)
  show ?thesis
    using assms
    by (auto simp: store_record_def Let_def find_Some_iff intro!: key
             split: sum.splits option.splits if_splits)
qed

text \<open>A store with two decisions and a refused one, for the concrete instances below.\<close>

definition sample_decision :: "string \<Rightarrow> gstate \<Rightarrow> string list \<Rightarrow> decision" where
  "sample_decision i s cs =
     \<lparr>d_subject = \<lparr>subject_kind = ContactSubject, subject_id = i\<rparr>, d_new_state = s,
      d_connections = cs, d_networks = [Whatsapp], d_reason = None\<rparr>"

abbreviation noon :: string where
  "noon \<equiv> ''2026-01-01T12:00:00Z''"

abbreviation one_pm :: string where
  "one_pm \<equiv> ''2026-01-01T13:00:00Z''"

definition sample_ops :: "store_op list" where
  "sample_ops =
     [RecordConnections sample_registry,
      Record (sample_decision ''@a:x'' SGranted [''wa-work'', ''whatsapp'']) ''@me:x'' noon ''d'' noon,
      Record (sample_decision ''@me:x'' SGranted [''whatsapp'']) ''@me:x'' noon ''d'' noon,
      Record (sample_decision ''@a:x'' SRevoked [''whatsapp'']) ''@me:x'' one_pm ''d'' one_pm]"

abbreviation sample_digest :: "string \<Rightarrow> 8 word list" where
  "sample_digest \<equiv> (\<lambda>key. [of_nat (length key)])"

definition sample_store :: store where
  "sample_store =
     fold (run_store_op bundled_sqlite sample_digest) sample_ops (store_open (gowner_new ''@me:x'' []))"

lemma sample_store_wf: "store_wf sample_digest sample_store"
  unfolding sample_store_def by (intro run_store_ops_wf store_wf_open autoincrement_bundled)

lemma outcome_cases: "(case fst p of Inl e \<Rightarrow> False | Inr c \<Rightarrow> P c) \<Longrightarrow> \<exists>c st. p = (Inr c, st) \<and> P c"
  by (cases p; cases "fst p") auto

section \<open>Properties\<close>

text \<open>
  The journal is append-only: whatever the store is asked to do, every row it held
  is still there, at its place, with what was recorded; only an unpublished row may be
  given its publication instant and its stream position, and once it has them they never
  change.
\<close>

theorem journal_is_append_only:
  "journal_kept (journal st) (journal (fold (run_store_op sq digest) ps st))"
  by (rule journal_kept_run)

text \<open>
  C38. A decision delivered twice is recorded once: whoever repeats it, and whatever the store was
  asked between, the second call answers as a replay with the sequence, the event id and the
  previous state of the first, and writes no row. The event id is read off the decision and
  its instant, so a change of the actor, the domain or the instant of production does not make a
  second decision of it.
\<close>

theorem replayed_decision_is_recorded_once:
  assumes "store_wf digest st" and "autoincrement sq"
    and "store_record sq digest d actor at domain produced st = (Inr c, st1)"
    and "st2 = fold (run_store_op sq digest) ps st1"
  shows "\<exists>c'. fst (store_record sq digest d actor' at domain' produced' st2) = Inr c'
     \<and> c_replayed c' \<and> c_sequence c' = c_sequence c \<and> c_event_id c' = c_event_id c
     \<and> r_old_state (c_recorded c') = r_old_state (c_recorded c)
     \<and> journal (snd (store_record sq digest d actor' at domain' produced' st2)) = journal st2"
proof -
  have st1: "st1 = run_store_op sq digest (Record d actor at domain produced) st" using assms(3) by simp
  have wf: "store_wf digest st2"
    unfolding assms(4) st1 by (intro run_store_ops_wf run_store_op_wf assms)
  have owner: "store_owner st2 = store_owner st"
    unfolding assms(4) st1 by (simp only: store_owner_run [OF assms(2)] store_owner_run_op [OF assms(2)])
  obtain r where r: "r \<in> set (journal st1)" "row_event_id r = c_event_id c"
      "row_sequence r = c_sequence c" "r_old_state (row_recorded r) = r_old_state (c_recorded c)"
    and eid: "\<And>old who. c_event_id c = event_id digest \<lparr>r_decision = d, r_old_state = old,
        r_occurred_at = at, r_actor = who\<rparr>"
    and not_owner: "refuse_if_owner d (store_owner st) = Inr ()"
    using store_record_known [OF assms(3)] by blast
  obtain r' where r': "r' \<in> set (journal st2)" "unmarked r' = unmarked r"
    using kept_row [OF journal_kept_run [of st1 sq digest ps] r(1)] assms(4) by blast
  have fields: "row_event_id r' = c_event_id c" "row_sequence r' = c_sequence c"
      "r_old_state (row_recorded r') = r_old_state (c_recorded c)"
    using r r'(2) by (metis unmarked_fields)+
  have "List.find (\<lambda>x. row_event_id x = c_event_id c) (journal st2) = Some r'"
    using find_distinct [of row_event_id "journal st2" r'] wf r'(1) fields(1) by (simp add: store_wf_def)
  then show ?thesis
    using fields not_owner by (simp add: store_record_def Let_def owner flip: eid)
qed

theorem replayed_decision_is_recorded_once_witness:
  "\<exists>c'. fst (store_record bundled_sqlite sample_digest (sample_decision ''@bob:x'' SGranted [''whatsapp''])
       ''@you:x'' noon ''d'' one_pm (mark_published 1 one_pm 9 (snd (store_record bundled_sqlite sample_digest
           (sample_decision ''@bob:x'' SGranted [''whatsapp'']) ''@me:x'' noon ''d'' noon sample_store)))) = Inr c'
     \<and> c_replayed c' \<and> c_sequence c' = 3"
proof -
  let ?result = "store_record bundled_sqlite sample_digest (sample_decision ''@bob:x'' SGranted [''whatsapp''])
       ''@me:x'' noon ''d'' noon sample_store"
  have three: "(case fst ?result of Inl e \<Rightarrow> False | Inr c \<Rightarrow> c_sequence c = 3)" by code_simp
  obtain c st' where c: "?result = (Inr c, st')" "c_sequence c = 3"
    using outcome_cases [OF three] by blast
  have "mark_published 1 one_pm 9 st'
      = fold (run_store_op bundled_sqlite sample_digest) [MarkPublished 1 one_pm 9] st'" by simp
  from replayed_decision_is_recorded_once [OF sample_store_wf autoincrement_bundled c(1) this,
      of "''@you:x''" "''d''" one_pm]
  show ?thesis using c by auto
qed

text \<open>
  C3. In every store the Gateway can reach, the state of a subject on a registered
  connection is the last decision of the journal whose scope holds that connection; a
  revocation is a state of its own and a subject nobody decided about has none.
\<close>

theorem current_state_is_the_last_decision:
  assumes "autoincrement sq"
  shows "state_of_subject (fold (run_store_op sq digest) ps (store_open ow)) s c =
     (let st = fold (run_store_op sq digest) ps (store_open ow)
      in if map_of (registered st) c = None then None
         else last_value row_covers row_state (journal st) (s, c))"
  using state_of_subject_last [OF store_wf_in_order [OF run_store_ops_wf [OF assms store_wf_open]]]
    state_of_subject_unregistered
  by (auto simp: Let_def)

theorem current_state_is_the_last_decision_witness:
  "state_of_subject sample_store \<lparr>subject_kind = ContactSubject, subject_id = ''@a:x''\<rparr> ''whatsapp'' = Some SRevoked
 \<and> state_of_subject sample_store \<lparr>subject_kind = ContactSubject, subject_id = ''@a:x''\<rparr> ''wa-work'' = Some SGranted"
  unfolding sample_store_def current_state_is_the_last_decision [OF autoincrement_bundled]
  by code_simp

text \<open>
  The transition the journal records is the true one: the previous state of a new
  row is the last state of the subject on any connection of its scope, and \<open>Unset\<close> when
  there is none.
\<close>

theorem recorded_transition_starts_where_the_last_one_ended:
  assumes "store_wf digest st" and "autoincrement sq"
    and "store_record sq digest d actor at domain produced st = (Inr c, st')" and "\<not> c_replayed c"
  shows "r_old_state (c_recorded c) =
     (case last_value (\<lambda>r cs. row_subject r = d_subject d \<and> (\<exists>x \<in> set cs. x \<in> set (row_connections r)))
             row_state (journal st) (d_connections d) of
        None \<Rightarrow> Unset
      | Some state \<Rightarrow> Was state)"
proof -
  have "\<forall>x \<in> set (d_connections d). map_of (registered st) x \<noteq> None"
    and "r_old_state (c_recorded c) = previous_state st (d_subject d) (d_connections d)"
    using assms(3,4) by (auto simp: store_record_def Let_def split: sum.splits option.splits if_splits)
  then show ?thesis
    using previous_state_last [OF store_wf_in_order [OF assms(1)], of "d_connections d" "d_subject d"] by simp
qed

theorem recorded_transition_starts_where_the_last_one_ended_witness:
  "\<exists>c. fst (store_record bundled_sqlite sample_digest (sample_decision ''@a:x'' SPending [''signal'', ''whatsapp''])
       ''@me:x'' one_pm ''d'' one_pm sample_store) = Inr c \<and> r_old_state (c_recorded c) = Was SRevoked"
proof -
  let ?result = "store_record bundled_sqlite sample_digest (sample_decision ''@a:x'' SPending [''signal'', ''whatsapp''])
       ''@me:x'' one_pm ''d'' one_pm sample_store"
  have fresh: "(case fst ?result of Inl e \<Rightarrow> False | Inr c \<Rightarrow> \<not> c_replayed c)" by code_simp
  obtain c st' where c: "?result = (Inr c, st')" "\<not> c_replayed c"
    using outcome_cases [OF fresh] by blast
  have "r_old_state (c_recorded c) = Was SRevoked"
    unfolding recorded_transition_starts_where_the_last_one_ended
      [OF sample_store_wf autoincrement_bundled c]
    by code_simp
  then show ?thesis using c by simp
qed

text \<open>
  No row about an identity of the owner ever enters the journal: the writer refuses
  the decision and leaves the store as it was.
\<close>

theorem owner_never_enters_the_journal:
  assumes "autoincrement sq"
    and "r \<in> set (journal (fold (run_store_op sq digest) ps (store_open ow)))"
    and "subject_kind (row_subject r) = ContactSubject"
  shows "\<not> gowner_is_owner ow (subject_id (row_subject r))"
proof -
  have "store_owner (fold (run_store_op sq digest) ps (store_open ow)) = ow"
    unfolding store_owner_run [OF assms(1)] by (simp add: store_open_def)
  then show ?thesis
    using store_wf_row [OF run_store_ops_wf [OF assms(1) store_wf_open] assms(2)] assms(3)
    by (auto simp: row_ok_def refuse_if_owner_def split: if_splits)
qed

theorem owner_never_enters_the_journal_witness:
  "\<not> gowner_is_owner (gowner_new ''@me:x'' []) (subject_id (row_subject (hd (journal sample_store))))"
proof -
  have "hd (journal sample_store) \<in> set (journal sample_store)"
    and "subject_kind (row_subject (hd (journal sample_store))) = ContactSubject"
    by code_simp+
  from owner_never_enters_the_journal [OF autoincrement_bundled this [unfolded sample_store_def]]
  show ?thesis unfolding sample_store_def .
qed

text \<open>
  Whatever the journal holds, no read serves a row about the owner: neither the
  entries, nor the snapshot, nor the precedence, which answers \<open>pending\<close> decided by
  nobody; and the operator's own report holds nothing else.
\<close>

theorem owner_is_never_served:
  "(\<forall>es. entries st = Inr es \<longrightarrow> (\<forall>e \<in> set es. \<not> entry_about_owner st e))
   \<and> (\<forall>es. owner_entries st = Inr es \<longrightarrow> (\<forall>e \<in> set es. entry_about_owner st e))
   \<and> (\<forall>m sn. store_snapshot st m = Inr sn \<longrightarrow> (\<forall>e \<in> set (sn_entries sn). \<not> entry_about_owner st e))
   \<and> (gowner_is_owner (store_owner st) i \<longrightarrow>
        store_effective st i c n = \<lparr>eff_state = SPending, eff_decided_by = None\<rparr>)"
proof (intro conjI allI impI ballI)
  fix es e
  assume "entries st = Inr es" "e \<in> set es"
  then show "\<not> entry_about_owner st e"
    by (auto simp: entries_def state_rows_def traverse_Inr_iff entry_about_owner_row dest: entries_not_owner)
next
  fix es e
  assume "owner_entries st = Inr es" "e \<in> set es"
  then show "entry_about_owner st e"
    by (auto simp: owner_entries_def state_rows_def traverse_Inr_iff entry_about_owner_row dest: entries_not_owner)
next
  fix m sn e
  assume "store_snapshot st m = Inr sn" "e \<in> set (sn_entries sn)"
  then show "\<not> entry_about_owner st e"
    by (auto simp: store_snapshot_Inr_iff entry_about_owner_row dest: entries_not_owner)
next
  assume "gowner_is_owner (store_owner st) i"
  then show "store_effective st i c n = \<lparr>eff_state = SPending, eff_decided_by = None\<rparr>"
    by (simp add: store_effective_def effective_resolve_def)
qed

theorem owner_is_never_served_witness:
  "store_effective sample_store ''@me:x'' ''whatsapp'' Whatsapp = \<lparr>eff_state = SPending, eff_decided_by = None\<rparr>"
proof -
  have "gowner_is_owner (store_owner sample_store) ''@me:x''" by code_simp
  with owner_is_never_served [of sample_store "''@me:x''" "''whatsapp''" Whatsapp] show ?thesis by blast
qed

text \<open>
  A snapshot is whole or refused: over the cap it is \<open>TooLarge\<close>, and otherwise it
  serves exactly one entry per row of the view that is not about the owner.
\<close>

theorem snapshot_is_whole_or_refused:
  assumes "kinds_ok st"
  shows "case store_snapshot st m of
      Inl refusal \<Rightarrow> refusal = TooLarge m \<and> m < length (served_rows st)
    | Inr sn \<Rightarrow> length (served_rows st) \<le> m
        \<and> list_all2 (\<lambda>x e. entry_of st x = Inr e) (served_rows st) (sn_entries sn)"
proof -
  have ok: "\<forall>x \<in> set (served_rows st). \<exists>e. entry_of st x = Inr e"
    using view_readable [OF assms] by auto
  show ?thesis
  proof (cases "store_snapshot st m")
    case (Inr sn)
    then show ?thesis using store_snapshot_Inr_iff [of st m sn] by simp
  next
    case (Inl refusal)
    have large: "m < length (served_rows st)"
    proof (rule ccontr)
      assume "\<not> m < length (served_rows st)"
      obtain es where "traverse (entry_of st) (served_rows st) = Inr es"
        using traverse_total ok by blast
      with \<open>\<not> _\<close> have "store_snapshot st m = Inr \<lparr>sn_entries = es, sn_decision_sequence = horizon st,
          sn_stream_sequence = horizon_position st\<rparr>"
        by (simp add: store_snapshot_Inr_iff traverse_Inr_iff)
      with Inl show False by simp
    qed
    have "\<forall>x \<in> set (take (Suc m) (served_rows st)). \<exists>e. entry_of st x = Inr e"
      using ok in_set_takeD by metis
    moreover have "m < length (take (Suc m) (served_rows st)) + 0" using large by simp
    ultimately have "read_capped (entry_of st) m 0 (take (Suc m) (served_rows st)) = Inl (TooLarge m)"
      by (intro read_capped_too_large) auto
    then show ?thesis using Inl large by (auto simp: store_snapshot_def)
  qed
qed

theorem snapshot_is_whole_or_refused_witness:
  "store_snapshot (mark_published 2 noon 10 (mark_published 1 noon 9 sample_store)) 1 = Inl (TooLarge 1)"
proof -
  let ?st = "mark_published 2 noon 10 (mark_published 1 noon 9 sample_store)"
  have "kinds_ok ?st" by code_simp
  moreover have "length (served_rows ?st) = 2" unfolding length_sort by code_simp
  ultimately show ?thesis
    using snapshot_is_whole_or_refused [of ?st 1] by (auto split: sum.splits)
qed

end
