(* ===== verification/Outbox.thy ===== *)
theory Outbox
  imports Consent_Store
begin

text \<open>
  The transactional outbox (\<^verbatim>\<open>companion-gateway/src/outbox.rs\<close>): a decision is committed, then
  published, then marked published, and the loop drains what waits oldest first, stopping
  at the first failure. The bus is outside the program: its state is a type variable, its
  publication a function that may answer with the sequence of the stored message or not
  answer at all, and \<open>jetstream\<close> says what the code relies on. The loop's sleeping and
  waking, the metrics and the log lines are not modelled; the clock is a function of the
  row it stamps.
\<close>

section \<open>The writer\<close>

record outbox =
  ob_domain :: string
  ob_owner :: gateway_owner

datatype refused = RefusedInvalid invalid | RefusedStore store_error

definition outbox_record ::
  "rowids \<Rightarrow> (string \<Rightarrow> 8 word list) \<Rightarrow> outbox \<Rightarrow> string \<Rightarrow> decision \<Rightarrow> store
    \<Rightarrow> (refused + committed) \<times> store" where
  "outbox_record sq digest ob now d st =
     (case refuse_if_owner d (ob_owner ob) of
        Inl invalid \<Rightarrow> (Inl (RefusedInvalid invalid), st)
      | Inr _ \<Rightarrow>
          (case store_record sq digest d (gowner_matrix_id (ob_owner ob)) now (ob_domain ob) now st of
             (Inl e, st') \<Rightarrow> (Inl (RefusedStore e), st')
           | (Inr c, st') \<Rightarrow> (Inr c, st')))"

section \<open>The bus\<close>

record message =
  m_sequence :: nat
  m_subject :: string
  m_id :: string
  m_payload :: json

type_synonym 'b publish = "string \<Rightarrow> string \<Rightarrow> json \<Rightarrow> 'b \<Rightarrow> nat option \<times> 'b"

text \<open>
  What JetStream does with a publication, of what the code relies on: it stores the
  message under a sequence larger than every other, or stores nothing (it was not
  reached, or it knows the message id), and an acknowledgement names the sequence of a
  stored message with that id. An unanswered publication may have been stored.
\<close>

definition stored_or_not :: "string \<Rightarrow> string \<Rightarrow> json \<Rightarrow> message list \<Rightarrow> message list \<Rightarrow> bool" where
  "stored_or_not subject i payload ms ms' \<longleftrightarrow>
     ms' = ms \<or> (\<exists>n. ms' = ms @ [\<lparr>m_sequence = n, m_subject = subject, m_id = i, m_payload = payload\<rparr>]
        \<and> 0 < n \<and> n < 2 ^ 63 \<and> (\<forall>m \<in> set ms. m_sequence m < n))"

definition jetstream :: "'b publish \<Rightarrow> ('b \<Rightarrow> message list) \<Rightarrow> bool" where
  "jetstream publish messages \<longleftrightarrow>
     (\<forall>subject i payload b.
        stored_or_not subject i payload (messages b) (messages (snd (publish subject i payload b)))
        \<and> (\<forall>n. fst (publish subject i payload b) = Some n \<longrightarrow>
             (\<exists>m \<in> set (messages (snd (publish subject i payload b))). m_sequence m = n \<and> m_id m = i)))"

section \<open>Draining\<close>

record waiting_row =
  u_sequence :: nat
  u_event_id :: string
  u_envelope :: json

definition waiting_of :: "journal_row \<Rightarrow> waiting_row" where
  "waiting_of r = \<lparr>u_sequence = row_sequence r, u_event_id = row_event_id r, u_envelope = row_envelope r\<rparr>"

fun drain_rows ::
  "'b publish \<Rightarrow> (nat \<Rightarrow> string \<Rightarrow> nat \<Rightarrow> 's \<Rightarrow> 's) \<Rightarrow> (nat \<Rightarrow> string) \<Rightarrow> string
    \<Rightarrow> waiting_row list \<Rightarrow> 's \<times> 'b \<Rightarrow> bool \<times> 's \<times> 'b" where
  "drain_rows publish mark now subject [] (s, b) = (True, s, b)"
| "drain_rows publish mark now subject (u # us) (s, b) =
     (case publish subject (u_event_id u) (u_envelope u) b of
        (None, b') \<Rightarrow> (False, s, b')
      | (Some n, b') \<Rightarrow>
          drain_rows publish mark now subject us (mark (u_sequence u) (now (u_sequence u)) n s, b'))"

definition drain_batch :: nat where
  "drain_batch = 256"

definition consent_subject_name :: string where
  "consent_subject_name = ''twalk.consent.state.changed.v1''"

lemma consent_subject_name: "bus_subject consent_changed_type = Some consent_subject_name"
  by code_simp

definition drain :: "'b publish \<Rightarrow> (nat \<Rightarrow> string) \<Rightarrow> store \<times> 'b \<Rightarrow> bool \<times> store \<times> 'b" where
  "drain publish now = (\<lambda>(st, b).
     drain_rows publish mark_published now consent_subject_name
       (map waiting_of (unpublished st drain_batch)) (st, b))"

section \<open>What every outbox promises\<close>

text \<open>
  The decisions and the bridge transitions are drained by the same loop. It needs of a
  table that marking the oldest waiting row takes that row, and no other, off the list.
\<close>

locale outbox_table =
  fixes pending :: "'s \<Rightarrow> waiting_row list"
    and mark :: "nat \<Rightarrow> string \<Rightarrow> nat \<Rightarrow> 's \<Rightarrow> 's"
    and ok :: "'s \<Rightarrow> bool"
  assumes pending_mark: "ok s \<Longrightarrow> pending s = u # us \<Longrightarrow> pending (mark (u_sequence u) at n s) = us"
    and ok_mark: "ok s \<Longrightarrow> ok (mark i at n s)"
begin

lemma drain_rows_prefix:
  assumes "ok s" and "pending s = rows @ rest" and "drain_rows publish mark now subject rows (s, b) = (finished, s', b')"
  shows "ok s' \<and> (\<exists>us vs. rows = us @ vs \<and> pending s' = vs @ rest \<and> (finished \<longleftrightarrow> vs = []))"
  using assms
proof (induction rows arbitrary: s b)
  case (Cons u rows)
  obtain ack b1 where p: "publish subject (u_event_id u) (u_envelope u) b = (ack, b1)" by fastforce
  show ?case
  proof (cases ack)
    case None
    then have "\<not> finished" "s' = s" using Cons.prems(3) p by simp_all
    then show ?thesis
      using Cons.prems(1,2) by (intro conjI exI [of _ "[]"] exI [of _ "u # rows"]) simp_all
  next
    case (Some n)
    let ?s = "mark (u_sequence u) (now (u_sequence u)) n s"
    have "ok ?s" "pending ?s = rows @ rest"
      using Cons.prems by (simp_all add: ok_mark pending_mark)
    moreover have "drain_rows publish mark now subject rows (?s, b1) = (finished, s', b')"
      using Cons.prems(3) p Some by simp
    ultimately obtain us vs where "ok s'" "rows = us @ vs" "pending s' = vs @ rest" "finished \<longleftrightarrow> vs = []"
      using Cons.IH by blast
    then show ?thesis by (intro conjI exI [of _ "u # us"] exI [of _ vs]) simp_all
  qed
qed simp

lemma drain_rows_acked:
  assumes "\<forall>i payload b. fst (publish subject i payload b) \<noteq> None"
  shows "fst (drain_rows publish mark now subject rows (s, b))"
proof (induction rows arbitrary: s b)
  case (Cons u rows)
  show ?case
    using assms [rule_format, of "u_event_id u" "u_envelope u" b] Cons
    by (auto split: prod.split option.split)
qed simp

end

lemma in_order_sorted: "in_order rs \<Longrightarrow> sort_key row_sequence rs = rs"
proof -
  assume "in_order rs"
  then have "sorted (map row_sequence rs)"
    by (auto simp: in_order_def sorted_map less_imp_le elim!: sorted_wrt_mono_rel [rotated])
  then show ?thesis by (rule sort_key_id_if_sorted)
qed

definition pending_decisions :: "store \<Rightarrow> waiting_row list" where
  "pending_decisions st = map waiting_of (filter (\<lambda>r. row_published_at r = None) (journal st))"

lemma unpublished_pending:
  "in_order (journal st) \<Longrightarrow> map waiting_of (unpublished st n) = take n (pending_decisions st)"
  by (simp add: unpublished_def pending_decisions_def in_order_sorted take_map)

lemma filter_mark_head:
  fixes number :: "'r \<Rightarrow> nat"
  assumes "sorted_wrt (\<lambda>r r'. number r < number r') rs" and "filter p rs = r # rest"
    and "\<And>x. mark x = (if number x = number r \<and> p x then marked x else x)" and "\<not> p (marked r)"
  shows "filter p (map mark rs) = rest"
  using assms(1,2)
proof (induction rs)
  case (Cons a rs)
  show ?case
  proof (cases "p a")
    case True
    then have a: "a = r" "rest = filter p rs" using Cons.prems(2) by simp_all
    have "map mark rs = rs" using Cons.prems(1) a(1) by (intro map_idI) (auto simp: assms(3))
    moreover have "mark a = marked r" using True a(1) by (simp add: assms(3))
    ultimately show ?thesis using a(2) assms(4) by simp
  next
    case False
    then show ?thesis using Cons by (simp add: assms(3))
  qed
qed simp

lemma filter_pending_mark:
  assumes "in_order rs" and "filter (\<lambda>r. row_published_at r = None) rs = r # rest"
  shows "filter (\<lambda>r. row_published_at r = None) (map (mark_row (row_sequence r) at n) rs) = rest"
  by (rule filter_mark_head [where number = row_sequence, OF _ assms(2)])
     (use assms(1) in \<open>auto simp: in_order_def mark_row_def\<close>)

interpretation consent_table: outbox_table pending_decisions mark_published "\<lambda>st. in_order (journal st)"
proof unfold_locales
  fix st :: store and u us at n
  assume ord: "in_order (journal st)" and pending: "pending_decisions st = u # us"
  then obtain r rest where r: "filter (\<lambda>r. row_published_at r = None) (journal st) = r # rest"
    "u = waiting_of r" "us = map waiting_of rest"
    by (auto simp: pending_decisions_def)
  then show "pending_decisions (mark_published (u_sequence u) at n st) = us"
    using filter_pending_mark [OF ord r(1), of at n]
    by (simp add: pending_decisions_def mark_published_def waiting_of_def)
next
  fix st :: store and i at n
  assume "in_order (journal st)"
  then show "in_order (journal (mark_published i at n st))" by (simp add: mark_published_def)
qed

section \<open>The world a decision is announced in\<close>

text \<open>
  A store and the stream beside it. The Gateway records, registers connections, has the
  oldest waiting row stored by the bus, and marks it at the position of a message stored
  under its id; other programs publish in between. A crash between two steps is the end
  of a sequence of steps, so nothing is said of it apart.
\<close>

definition consent_message :: "message \<Rightarrow> bool" where
  "consent_message m \<longleftrightarrow> m_subject m = consent_subject_name"

definition scoped_row :: "(string \<times> string) list \<Rightarrow> journal_row \<Rightarrow> bool" where
  "scoped_row registry r \<longleftrightarrow>
     row_connections r \<noteq> [] \<and> [] \<notin> set (row_connections r)
     \<and> (subject_kind (row_subject r) = NetworkSubject \<longrightarrow>
          (\<forall>c \<in> set (row_connections r). map_of registry c = Some (subject_id (row_subject r))))"

definition recordable :: "(string \<times> string) list \<Rightarrow> decision \<Rightarrow> bool" where
  "recordable registry d \<longleftrightarrow>
     d_connections d \<noteq> [] \<and> [] \<notin> set (d_connections d)
     \<and> (subject_kind (d_subject d) = NetworkSubject \<longrightarrow>
          (\<forall>c \<in> set (d_connections d). map_of registry c = Some (subject_id (d_subject d))))"

definition kinds_kept :: "connection list \<Rightarrow> store \<Rightarrow> bool" where
  "kinds_kept cs st \<longleftrightarrow>
     (\<forall>c k. map_of (registered st) c = Some k \<longrightarrow>
        map_of (registered (snd (record_connections cs st))) c = Some k)
     \<and> kinds_ok (snd (record_connections cs st))"

inductive world_step :: "rowids \<Rightarrow> (string \<Rightarrow> 8 word list) \<Rightarrow> store \<times> message list \<Rightarrow> store \<times> message list \<Rightarrow> bool"
  for sq digest where
  Recorded: "recordable (registered st) d \<Longrightarrow>
     world_step sq digest (st, ms) (snd (store_record sq digest d actor at domain produced st), ms)"
| Registered: "kinds_kept cs st \<Longrightarrow> world_step sq digest (st, ms) (snd (record_connections cs st), ms)"
| Announced: "pending_decisions st = u # us \<Longrightarrow>
     stored_or_not consent_subject_name (u_event_id u) (u_envelope u) ms ms' \<Longrightarrow>
     world_step sq digest (st, ms) (st, ms')"
| Marked: "pending_decisions st = u # us \<Longrightarrow> m \<in> set ms \<Longrightarrow> m_id m = u_event_id u \<Longrightarrow>
     world_step sq digest (st, ms) (mark_published (u_sequence u) at (m_sequence m) st, ms)"
| Elsewhere: "subject \<noteq> consent_subject_name \<Longrightarrow> i \<notin> range (event_id digest) \<Longrightarrow>
     stored_or_not subject i payload ms ms' \<Longrightarrow> world_step sq digest (st, ms) (st, ms')"

inductive_cases world_step_cases [consumes 1, case_names Recorded Registered Announced Marked Elsewhere]:
  "world_step sq digest (st, ms) w'"

definition world_open :: "gateway_owner \<Rightarrow> store \<times> message list" where
  "world_open ow = (store_open ow, [])"

definition reachable :: "rowids \<Rightarrow> (string \<Rightarrow> 8 word list) \<Rightarrow> gateway_owner \<Rightarrow> store \<times> message list \<Rightarrow> bool" where
  "reachable sq digest ow w \<longleftrightarrow> (world_step sq digest)\<^sup>*\<^sup>* (world_open ow) w"

text \<open>The bus holds, of the decisions, what the journal announced, in the journal's order.\<close>

definition announces :: "message \<Rightarrow> journal_row \<Rightarrow> bool" where
  "announces m r \<longleftrightarrow> consent_message m \<and> m_id m = row_event_id r \<and> m_payload m = row_envelope r"

definition stream_wf :: "message list \<Rightarrow> bool" where
  "stream_wf ms \<longleftrightarrow> sorted_wrt (\<lambda>m m'. m_sequence m < m_sequence m') ms
     \<and> (\<forall>m \<in> set ms. 0 < m_sequence m \<and> m_sequence m < 2 ^ 63)"

definition known :: "journal_row list \<Rightarrow> message list \<Rightarrow> bool" where
  "known rs ms \<longleftrightarrow> (\<forall>m \<in> set ms. consent_message m \<longrightarrow> (\<exists>r \<in> set rs. announces m r))"

definition positioned :: "journal_row list \<Rightarrow> message list \<Rightarrow> bool" where
  "positioned rs ms \<longleftrightarrow>
     (\<forall>r \<in> set rs. \<forall>n. row_stream r = Some n \<longrightarrow> (\<exists>m \<in> set ms. m_sequence m = n \<and> announces m r))"

definition in_turn :: "journal_row list \<Rightarrow> message list \<Rightarrow> bool" where
  "in_turn rs ms \<longleftrightarrow>
     (\<forall>m \<in> set ms. \<forall>r \<in> set rs. announces m r \<longrightarrow>
        (\<forall>r' \<in> set rs. row_sequence r' < row_sequence r \<longrightarrow> row_stream r' \<noteq> None))"

definition same_order :: "journal_row list \<Rightarrow> message list \<Rightarrow> bool" where
  "same_order rs ms \<longleftrightarrow>
     (\<forall>m \<in> set ms. \<forall>m' \<in> set ms. \<forall>r \<in> set rs. \<forall>r' \<in> set rs.
        announces m r \<longrightarrow> announces m' r' \<longrightarrow> m_sequence m < m_sequence m' \<longrightarrow>
        row_sequence r \<le> row_sequence r')"

definition follows :: "journal_row list \<Rightarrow> message list \<Rightarrow> bool" where
  "follows rs ms \<longleftrightarrow> known rs ms \<and> positioned rs ms \<and> in_turn rs ms \<and> same_order rs ms"

definition world_wf :: "(string \<Rightarrow> 8 word list) \<Rightarrow> store \<times> message list \<Rightarrow> bool" where
  "world_wf digest = (\<lambda>(st, ms).
     store_wf digest st \<and> kinds_ok st \<and> stream_wf ms
     \<and> (\<forall>r \<in> set (journal st). scoped_row (registered st) r)
     \<and> (\<forall>m \<in> set ms. m_id m \<in> range (event_id digest) \<longrightarrow> consent_message m)
     \<and> follows (journal st) ms)"

lemma world_wf_open: "world_wf digest (world_open ow)"
  by (simp add: world_wf_def world_open_def store_wf_open)
     (simp add: store_open_def kinds_ok_def stream_wf_def follows_def known_def positioned_def
        in_turn_def same_order_def)

lemma pending_head:
  assumes "store_wf digest st" and "pending_decisions st = u # us"
  obtains r where "r \<in> set (journal st)" "u = waiting_of r" "row_stream r = None"
    and "\<And>r'. r' \<in> set (journal st) \<Longrightarrow> row_sequence r' < row_sequence r \<Longrightarrow> row_stream r' \<noteq> None"
proof -
  obtain r rest where r: "filter (\<lambda>r. row_published_at r = None) (journal st) = r # rest" "u = waiting_of r"
    using assms(2) by (auto simp: pending_decisions_def)
  have ok: "row_published_at x = None \<longleftrightarrow> row_stream x = None" if "x \<in> set (journal st)" for x
    using store_wf_row [OF assms(1) that] by (simp add: row_ok_def)
  have in_rest: "r \<in> set (journal st)" "row_published_at r = None"
    using arg_cong [OF r(1), of set] by auto
  have "in_order (r # rest)"
    using in_order_filter [OF store_wf_in_order [OF assms(1)], of "\<lambda>r. row_published_at r = None"] r(1) by simp
  then have first: "row_sequence r \<le> row_sequence x" if "x \<in> set (journal st)" "row_published_at x = None" for x
    using that arg_cong [OF r(1), of set] by (fastforce simp: in_order_def)
  show thesis
  proof (rule that [OF in_rest(1) r(2)])
    show "row_stream r = None" using in_rest ok by blast
    fix x
    assume x: "x \<in> set (journal st)" "row_sequence x < row_sequence r"
    then show "row_stream x \<noteq> None" using first [of x] ok [of x] by force
  qed
qed

lemma store_record_shape:
  assumes "store_wf digest st" and "autoincrement sq"
  obtains "journal (snd (store_record sq digest d actor at domain produced st)) = journal st"
  | row where "journal (snd (store_record sq digest d actor at domain produced st)) = journal st @ [row]"
      "row_stream row = None" "r_decision (row_recorded row) = d"
      "row_event_id row \<notin> row_event_id ` set (journal st)"
      "\<And>r. r \<in> set (journal st) \<Longrightarrow> row_sequence r < row_sequence row"
      "sqlite_sequence st < row_sequence row"
proof -
  have wf: "store_wf digest (snd (store_record sq digest d actor at domain produced st))"
    by (rule store_record_wf [OF assms])
  have "journal (snd (store_record sq digest d actor at domain produced st)) = journal st
    \<or> (\<exists>row. journal (snd (store_record sq digest d actor at domain produced st)) = journal st @ [row]
        \<and> row_stream row = None \<and> r_decision (row_recorded row) = d \<and> sqlite_sequence st < row_sequence row)"
    using assms(2) by (auto simp: store_record_def Let_def autoincrement_def split: sum.split option.split)
  then show thesis
  proof
    assume "journal (snd (store_record sq digest d actor at domain produced st)) = journal st"
    then show thesis by (rule that(1))
  next
    assume "\<exists>row. journal (snd (store_record sq digest d actor at domain produced st)) = journal st @ [row]
        \<and> row_stream row = None \<and> r_decision (row_recorded row) = d \<and> sqlite_sequence st < row_sequence row"
    then obtain row where row: "journal (snd (store_record sq digest d actor at domain produced st)) = journal st @ [row]"
      "row_stream row = None" "r_decision (row_recorded row) = d" "sqlite_sequence st < row_sequence row" by blast
    then show thesis
      using wf by (intro that(2) [OF row(1-3) _ _ row(4)]) (auto simp: store_wf_def in_order_last)
  qed
qed

lemma follows_new_row:
  assumes f: "follows rs ms" and none: "row_stream row = None" and new: "row_event_id row \<notin> row_event_id ` set rs"
    and last: "\<And>r. r \<in> set rs \<Longrightarrow> row_sequence r < row_sequence row"
  shows "follows (rs @ [row]) ms"
proof -
  have unheard: "\<not> announces m row" if stored: "m \<in> set ms" for m
  proof
    assume m: "announces m row"
    then have "consent_message m" by (simp add: announces_def)
    then obtain r where "r \<in> set rs" "announces m r"
      using f stored unfolding follows_def known_def by blast
    with m new show False by (auto simp: announces_def image_iff)
  qed
  have "known (rs @ [row]) ms" using f by (auto simp: follows_def known_def)
  moreover have "positioned (rs @ [row]) ms" using f none by (auto simp: follows_def positioned_def)
  moreover have "in_turn (rs @ [row]) ms"
    unfolding in_turn_def
  proof (intro ballI impI)
    fix m r r'
    assume a: "m \<in> set ms" "r \<in> set (rs @ [row])" "announces m r" "r' \<in> set (rs @ [row])"
      "row_sequence r' < row_sequence r"
    then have "r \<in> set rs" using unheard by auto
    then have "r' \<in> set rs" using a(4,5) last [of r] by auto
    then show "row_stream r' \<noteq> None" using f a \<open>r \<in> set rs\<close> unfolding follows_def in_turn_def by blast
  qed
  moreover have "same_order (rs @ [row]) ms"
    unfolding same_order_def
  proof (intro ballI impI)
    fix m m' r r'
    assume a: "m \<in> set ms" "m' \<in> set ms" "r \<in> set (rs @ [row])" "r' \<in> set (rs @ [row])"
      "announces m r" "announces m' r'" "m_sequence m < m_sequence m'"
    then have "r \<in> set rs" "r' \<in> set rs" using unheard by auto
    then show "row_sequence r \<le> row_sequence r'" using f a unfolding follows_def same_order_def by blast
  qed
  ultimately show ?thesis by (simp add: follows_def)
qed

lemma follows_new_message:
  assumes f: "follows rs ms" and ord: "in_order rs" and ids: "distinct (map row_event_id rs)"
    and m: "announces m r" "r \<in> set rs" "\<And>x. x \<in> set ms \<Longrightarrow> m_sequence x < m_sequence m"
    and turn: "row_stream r = None"
      "\<And>r'. r' \<in> set rs \<Longrightarrow> row_sequence r' < row_sequence r \<Longrightarrow> row_stream r' \<noteq> None"
  shows "follows rs (ms @ [m])"
proof -
  have only: "x = r" if "announces m x" "x \<in> set rs" for x
    using that m(1,2) ids by (auto simp: announces_def distinct_map dest: inj_onD)
  have before: "row_sequence x \<le> row_sequence r" if "announces y x" "y \<in> set ms" "x \<in> set rs" for x y
  proof (rule ccontr)
    assume "\<not> row_sequence x \<le> row_sequence r"
    then have "row_stream r \<noteq> None" using f that m(2) by (auto simp: follows_def in_turn_def)
    then show False using turn(1) by simp
  qed
  have "known rs (ms @ [m])" using f m(1,2) by (auto simp: follows_def known_def)
  moreover have "positioned rs (ms @ [m])" using f by (fastforce simp: follows_def positioned_def)
  moreover have "in_turn rs (ms @ [m])"
    using f turn(2) only by (auto simp: follows_def in_turn_def)
  moreover have "same_order rs (ms @ [m])"
    using f before only m(3) by (fastforce simp: follows_def same_order_def dest: less_asym)
  ultimately show ?thesis by (simp add: follows_def)
qed

lemma follows_foreign:
  assumes "follows rs ms" and "\<not> consent_message m"
  shows "follows rs (ms @ [m])"
proof -
  have no: "\<not> announces m r" for r using assms(2) by (simp add: announces_def)
  have "known rs (ms @ [m])" using assms by (auto simp: follows_def known_def)
  moreover have "positioned rs (ms @ [m])" using assms(1) by (fastforce simp: follows_def positioned_def)
  moreover have "in_turn rs (ms @ [m])" using assms(1) no by (auto simp: follows_def in_turn_def)
  moreover have "same_order rs (ms @ [m])" using assms(1) no by (auto simp: follows_def same_order_def)
  ultimately show ?thesis by (simp add: follows_def)
qed

lemma announces_mark [simp]: "announces m (mark_row s at n r) = announces m r"
  by (simp add: announces_def)

lemma follows_mark:
  assumes f: "follows rs ms" and ord: "in_order rs" and r: "r \<in> set rs"
    and m: "m \<in> set ms" "announces m r" "m_sequence m < 2 ^ 63"
  shows "follows (map (mark_row (row_sequence r) at (m_sequence m)) rs) ms"
proof -
  let ?mark = "mark_row (row_sequence r) at (m_sequence m)"
  have stream: "row_stream (?mark x) = Some n \<Longrightarrow> row_stream x = Some n \<or> x = r \<and> n = m_sequence m"
    if "x \<in> set rs" for x n
    using that m(3) in_order_sequence_inj [OF ord that r] by (auto simp: mark_row_def min_def split: if_splits)
  have kept: "row_stream x \<noteq> None \<Longrightarrow> row_stream (?mark x) \<noteq> None" for x
    by (simp add: mark_row_def)
  have "positioned (map ?mark rs) ms"
    using f m(1,2) stream by (fastforce simp: follows_def positioned_def)
  moreover have "in_turn (map ?mark rs) ms"
    using f kept by (fastforce simp: follows_def in_turn_def)
  ultimately show ?thesis
    using f by (simp add: follows_def known_def same_order_def)
qed

lemma stream_wf_stored:
  assumes "stream_wf ms" and "stored_or_not subject i payload ms ms'"
  shows "stream_wf ms'"
  using assms by (auto simp: stream_wf_def stored_or_not_def sorted_wrt_append)

lemma world_wf_announced:
  assumes wf: "world_wf digest (st, ms)" and pending: "pending_decisions st = u # us"
    and stored: "stored_or_not consent_subject_name (u_event_id u) (u_envelope u) ms ms'"
  shows "world_wf digest (st, ms')"
proof -
  have st: "store_wf digest st" using wf by (simp add: world_wf_def)
  obtain r where r: "r \<in> set (journal st)" "u = waiting_of r" "row_stream r = None"
    and before: "\<And>r'. r' \<in> set (journal st) \<Longrightarrow> row_sequence r' < row_sequence r \<Longrightarrow> row_stream r' \<noteq> None"
    using pending_head [OF st pending] by blast
  show ?thesis
  proof (cases "ms' = ms")
    case False
    then obtain n where ms': "ms' = ms @ [\<lparr>m_sequence = n, m_subject = consent_subject_name,
          m_id = u_event_id u, m_payload = u_envelope u\<rparr>]"
      and n: "\<forall>m \<in> set ms. m_sequence m < n"
      using stored by (auto simp: stored_or_not_def)
    have "follows (journal st) ms'"
      unfolding ms'
      by (rule follows_new_message [OF _ _ _ _ r(1) _ r(3) before])
        (use wf st n r(2) in \<open>auto simp: world_wf_def store_wf_def announces_def consent_message_def waiting_of_def\<close>)
    then show ?thesis
      using wf stream_wf_stored [OF _ stored] by (auto simp: world_wf_def ms' consent_message_def)
  qed (use wf in simp)
qed

lemma world_wf_elsewhere:
  assumes wf: "world_wf digest (st, ms)" and "subject \<noteq> consent_subject_name" and "i \<notin> range (event_id digest)"
    and stored: "stored_or_not subject i payload ms ms'"
  shows "world_wf digest (st, ms')"
proof (cases "ms' = ms")
  case False
  then obtain n where ms': "ms' = ms @ [\<lparr>m_sequence = n, m_subject = subject, m_id = i, m_payload = payload\<rparr>]"
    using stored by (auto simp: stored_or_not_def)
  have "follows (journal st) ms'"
    unfolding ms' by (rule follows_foreign) (use wf assms(2) in \<open>simp_all add: world_wf_def consent_message_def\<close>)
  then show ?thesis
    using wf assms(3) stream_wf_stored [OF _ stored] by (auto simp: world_wf_def ms')
qed (use wf in simp)

lemma world_wf_marked:
  assumes wf: "world_wf digest (st, ms)" and pending: "pending_decisions st = u # us"
    and m: "m \<in> set ms" "m_id m = u_event_id u"
  shows "world_wf digest (mark_published (u_sequence u) at (m_sequence m) st, ms)"
proof -
  have st: "store_wf digest st" using wf by (simp add: world_wf_def)
  obtain r where r: "r \<in> set (journal st)" "u = waiting_of r"
    using pending_head [OF st pending] by blast
  have "m_id m \<in> range (event_id digest)"
    using store_wf_row [OF st r(1)] m(2) r(2) by (simp add: row_ok_def waiting_of_def)
  then have "consent_message m" using wf m(1) by (auto simp: world_wf_def)
  then obtain r' where r': "r' \<in> set (journal st)" "announces m r'"
    using wf m(1) by (auto simp: world_wf_def follows_def known_def)
  then have "r' = r"
    using m(2) r st by (auto simp: announces_def waiting_of_def store_wf_def distinct_map dest: inj_onD)
  with r' have ann: "announces m r" by simp
  have "m_sequence m < 2 ^ 63" using wf m(1) by (auto simp: world_wf_def stream_wf_def)
  then have "follows (map (mark_row (row_sequence r) at (m_sequence m)) (journal st)) ms"
    using wf st by (intro follows_mark [OF _ _ r(1) m(1) ann]) (simp_all add: world_wf_def store_wf_def)
  then show ?thesis
    using wf r(2) mark_published_wf [OF st]
    by (auto simp: world_wf_def mark_published_def waiting_of_def kinds_ok_def scoped_row_def)
qed

lemma world_wf_recorded:
  assumes wf: "world_wf digest (st, ms)" and sq: "autoincrement sq" and d: "recordable (registered st) d"
  shows "world_wf digest (snd (store_record sq digest d actor at domain produced st), ms)"
proof -
  have st: "store_wf digest st" using wf by (simp add: world_wf_def)
  let ?st = "snd (store_record sq digest d actor at domain produced st)"
  have reg: "registered ?st = registered st" and st': "store_wf digest ?st"
    using store_record_grows [OF sq, of digest d actor at domain produced st] store_record_wf [OF st sq]
    by (simp_all add: Let_def)
  show ?thesis
  proof (rule store_record_shape [OF st sq, of d actor at domain produced])
    assume "journal ?st = journal st"
    then show ?thesis using wf reg st' by (simp add: world_wf_def kinds_ok_def)
  next
    fix row
    assume row: "journal ?st = journal st @ [row]" "row_stream row = None" "r_decision (row_recorded row) = d"
      "row_event_id row \<notin> row_event_id ` set (journal st)"
      "\<And>r. r \<in> set (journal st) \<Longrightarrow> row_sequence r < row_sequence row"
    have "follows (journal ?st) ms"
      unfolding row(1) by (rule follows_new_row) (use wf row in \<open>simp_all add: world_wf_def\<close>)
    moreover have "scoped_row (registered st) row"
      using d row(3) by (simp add: scoped_row_def recordable_def)
    ultimately show ?thesis using wf reg st' row(1) by (simp add: world_wf_def kinds_ok_def)
  qed
qed

lemma world_wf_registered:
  assumes wf: "world_wf digest (st, ms)" and kept: "kinds_kept cs st"
  shows "world_wf digest (snd (record_connections cs st), ms)"
proof -
  have "journal (snd (record_connections cs st)) = journal st"
    by (simp add: record_connections_def Let_def)
  moreover have "scoped_row (registered (snd (record_connections cs st))) r"
    if "scoped_row (registered st) r" for r
    using that kept by (simp add: scoped_row_def kinds_kept_def)
  ultimately show ?thesis
    using wf kept record_connections_wf [of digest st cs] by (simp add: world_wf_def kinds_kept_def)
qed

lemma world_step_wf:
  assumes "world_step sq digest w w'" and "autoincrement sq" and "world_wf digest w"
  shows "world_wf digest w'"
  using assms(1)
proof (cases rule: world_step.cases)
  case (Recorded st d ms actor at domain produced)
  then show ?thesis using assms(2,3) world_wf_recorded by blast
next
  case (Registered cs st ms)
  then show ?thesis using assms(3) world_wf_registered by blast
next
  case (Announced st u us ms ms')
  then show ?thesis using assms(3) world_wf_announced by blast
next
  case (Marked st u us m ms at)
  then show ?thesis using assms(3) world_wf_marked by blast
next
  case (Elsewhere subject i payload ms ms' st)
  then show ?thesis using assms(3) world_wf_elsewhere by blast
qed

lemma world_steps_wf:
  "(world_step sq digest)\<^sup>*\<^sup>* w w' \<Longrightarrow> autoincrement sq \<Longrightarrow> world_wf digest w \<Longrightarrow> world_wf digest w'"
  by (induction rule: rtranclp_induct) (blast intro: world_step_wf)+

lemma reachable_wf: "reachable sq digest ow w \<Longrightarrow> autoincrement sq \<Longrightarrow> world_wf digest w"
  unfolding reachable_def by (rule world_steps_wf [OF _ _ world_wf_open])

section \<open>A drain is a run of the world\<close>

lemma drain_rows_steps:
  assumes js: "jetstream publish messages"
    and "in_order (journal st)" and "pending_decisions st = rows @ rest"
  shows "(world_step sq digest)\<^sup>*\<^sup>* (st, messages b)
     (let (_, st', b') = drain_rows publish mark_published now consent_subject_name rows (st, b)
      in (st', messages b'))"
  using assms(2,3)
proof (induction rows arbitrary: st b)
  case (Cons u rows)
  obtain ack b1 where p: "publish consent_subject_name (u_event_id u) (u_envelope u) b = (ack, b1)"
    by fastforce
  have stored: "stored_or_not consent_subject_name (u_event_id u) (u_envelope u) (messages b) (messages b1)"
    using js p by (simp add: jetstream_def) (metis snd_conv)
  have announced: "world_step sq digest (st, messages b) (st, messages b1)"
    using Cons.prems(2) stored by (simp add: world_step.Announced)
  show ?case
  proof (cases ack)
    case None
    then show ?thesis using announced p by (simp add: r_into_rtranclp)
  next
    case (Some n)
    obtain m where m: "m \<in> set (messages b1)" "m_sequence m = n" "m_id m = u_event_id u"
      using js p Some by (simp add: jetstream_def) (metis fst_conv snd_conv)
    let ?st = "mark_published (u_sequence u) (now (u_sequence u)) n st"
    have marked: "world_step sq digest (st, messages b1) (?st, messages b1)"
      using world_step.Marked [of st u "rows @ rest" m "messages b1"] Cons.prems(2) m by simp
    have "in_order (journal ?st)" "pending_decisions ?st = rows @ rest"
      using Cons.prems consent_table.ok_mark consent_table.pending_mark by (auto simp del: pending_decisions_def)
    from Cons.IH [OF this] announced marked show ?thesis
      using p Some by (simp add: converse_rtranclp_into_rtranclp)
  qed
qed simp

section \<open>A bus to run on\<close>

definition memory_bus :: "message list publish" where
  "memory_bus subject i payload ms =
     (case List.find (\<lambda>m. m_id m = i) ms of
        Some m \<Rightarrow> (Some (m_sequence m), ms)
      | None \<Rightarrow>
          let n = Suc (fold max (map m_sequence ms) 0) in
          if n < 2 ^ 63
          then (Some n, ms @ [\<lparr>m_sequence = n, m_subject = subject, m_id = i, m_payload = payload\<rparr>])
          else (None, ms))"

lemma fold_max_ge: "(a::nat) \<le> fold max xs a \<and> (\<forall>x \<in> set xs. x \<le> fold max xs a)"
  by (induction xs arbitrary: a) (auto, (metis max.bounded_iff le_trans)+)

lemma jetstream_memory_bus: "jetstream memory_bus (\<lambda>ms. ms)"
proof -
  have "m_sequence m \<le> fold max (map m_sequence ms) 0" if "m \<in> set ms" for m ms
    using that fold_max_ge [of 0 "map m_sequence ms"] by auto
  then show ?thesis
    by (auto simp: jetstream_def memory_bus_def stored_or_not_def Let_def less_Suc_eq_le find_Some_iff
             split: option.split)
qed

lemma drain_reachable:
  assumes "jetstream publish messages" and "reachable sq digest ow (st, messages b)" and "autoincrement sq"
    and "drain publish now (st, b) = (finished, st', b')"
  shows "reachable sq digest ow (st', messages b')"
proof -
  have ord: "in_order (journal st)"
    using reachable_wf [OF assms(2,3)] by (simp add: world_wf_def store_wf_def)
  have "drain_rows publish mark_published now consent_subject_name (take drain_batch (pending_decisions st)) (st, b)
      = (finished, st', b')"
    using assms(4) by (simp add: drain_def unpublished_pending [OF ord])
  then have "(world_step sq digest)\<^sup>*\<^sup>* (st, messages b) (st', messages b')"
    using drain_rows_steps [OF assms(1) ord, of "take drain_batch (pending_decisions st)"
        "drop drain_batch (pending_decisions st)" sq digest b now] by simp
  then show ?thesis using assms(2) by (simp add: reachable_def rtranclp_trans)
qed

text \<open>The sample store, before and after one sweep.\<close>

lemma sample_reachable:
  "reachable bundled_sqlite sample_digest (gowner_new ''@me:x'' []) (sample_store, [])"
proof -
  let ?st0 = "store_open (gowner_new ''@me:x'' [])"
  let ?st1 = "run_store_op bundled_sqlite sample_digest (sample_ops ! 0) ?st0"
  let ?st2 = "run_store_op bundled_sqlite sample_digest (sample_ops ! 1) ?st1"
  let ?st3 = "run_store_op bundled_sqlite sample_digest (sample_ops ! 2) ?st2"
  have store: "sample_store = run_store_op bundled_sqlite sample_digest (sample_ops ! 3) ?st3"
    by (simp add: sample_store_def sample_ops_def)
  have kept: "kinds_kept sample_registry ?st0"
  proof -
    have "kinds_ok (snd (record_connections sample_registry ?st0))" by code_simp
    then show ?thesis by (simp add: kinds_kept_def store_open_def)
  qed
  have rec: "recordable registry (sample_decision i s cs)" if "cs \<noteq> []" "[] \<notin> set cs" for registry i s cs
    using that by (simp add: recordable_def sample_decision_def)
  have 1: "world_step bundled_sqlite sample_digest (?st0, []) (?st1, [])"
    using world_step.Registered [OF kept] by (simp add: sample_ops_def)
  have 2: "world_step bundled_sqlite sample_digest (?st1, []) (?st2, [])"
    and 3: "world_step bundled_sqlite sample_digest (?st2, []) (?st3, [])"
    and 4: "world_step bundled_sqlite sample_digest (?st3, []) (sample_store, [])"
    unfolding store by (simp_all add: sample_ops_def world_step.Recorded rec del: record_connections_def)
  show ?thesis
    unfolding reachable_def world_open_def
    using r_into_rtranclp [of "world_step bundled_sqlite sample_digest", OF 1] 2 3 4
    by (blast intro: rtranclp.rtrancl_into_rtrancl)
qed

definition sample_world :: "store \<times> message list" where
  "sample_world = snd (drain memory_bus (\<lambda>_. noon) (sample_store, []))"

lemma sample_world_reachable:
  "reachable bundled_sqlite sample_digest (gowner_new ''@me:x'' []) (fst sample_world, snd sample_world)"
proof -
  obtain finished st' b' where d: "drain memory_bus (\<lambda>_. noon) (sample_store, []) = (finished, st', b')"
    using prod_cases3 by blast
  from drain_reachable [OF jetstream_memory_bus sample_reachable autoincrement_bundled d]
  show ?thesis by (simp add: sample_world_def d)
qed

section \<open>Properties\<close>

text \<open>
  C2. What the bus carries is the journal, in the journal's order: every decision on it
  is a committed row under that row's id, two of them follow each other as their rows do,
  the rows with a position are a prefix of the journal, and the position of a row is
  where the bus stored it.
\<close>

theorem bus_follows_the_journal:
  assumes "reachable sq digest ow (st, ms)" and "autoincrement sq"
  shows "(\<forall>m \<in> set ms. consent_message m \<longrightarrow> (\<exists>r \<in> set (journal st). announces m r))
    \<and> (\<forall>m \<in> set ms. \<forall>m' \<in> set ms. \<forall>r \<in> set (journal st). \<forall>r' \<in> set (journal st).
         announces m r \<and> announces m' r' \<and> m_sequence m < m_sequence m' \<longrightarrow> row_sequence r \<le> row_sequence r')
    \<and> (\<forall>r \<in> set (journal st). \<forall>n. row_stream r = Some n \<longrightarrow>
         (\<exists>m \<in> set ms. m_sequence m = n \<and> announces m r)
         \<and> (\<forall>r' \<in> set (journal st). row_sequence r' < row_sequence r \<longrightarrow> row_stream r' \<noteq> None))"
proof -
  have f: "follows (journal st) ms" using reachable_wf [OF assms] by (simp add: world_wf_def)
  then have "known (journal st) ms" "same_order (journal st) ms" "positioned (journal st) ms"
    "in_turn (journal st) ms"
    by (simp_all add: follows_def)
  then show ?thesis unfolding known_def same_order_def positioned_def in_turn_def by blast
qed

theorem bus_follows_the_journal_witness:
  "length (snd sample_world) = 2
   \<and> list_all (\<lambda>m. list_ex (announces m) (journal (fst sample_world))) (snd sample_world)"
proof -
  have "length (snd sample_world) = 2" by code_simp
  moreover have "list_all consent_message (snd sample_world)" by code_simp
  ultimately show ?thesis
    using bus_follows_the_journal [OF sample_world_reachable autoincrement_bundled]
    by (simp add: list_all_iff list_ex_iff)
qed

text \<open>
  One drain publishes the oldest waiting decisions, at most a batch of them, in
  order, and stops at the first the bus did not acknowledge: what waits afterwards is
  what waited, less a prefix.
\<close>

theorem drain_takes_the_oldest_first:
  assumes "reachable sq digest ow (st, ms)" and "autoincrement sq"
    and "drain publish now (st, b) = (finished, st', b')"
  shows "\<exists>us vs. take drain_batch (pending_decisions st) = us @ vs
     \<and> pending_decisions st' = vs @ drop drain_batch (pending_decisions st)
     \<and> (finished \<longleftrightarrow> vs = [])"
proof -
  have ord: "in_order (journal st)"
    using reachable_wf [OF assms(1,2)] by (simp add: world_wf_def store_wf_def)
  have "drain_rows publish mark_published now consent_subject_name (take drain_batch (pending_decisions st)) (st, b)
      = (finished, st', b')"
    using assms(3) by (simp add: drain_def unpublished_pending [OF ord])
  from consent_table.drain_rows_prefix [OF ord _ this] show ?thesis by simp
qed

theorem drain_takes_the_oldest_first_witness:
  "\<exists>us vs. pending_decisions sample_store = us @ vs \<and> vs = pending_decisions (fst sample_world)"
proof -
  obtain finished st' b' where d: "drain memory_bus (\<lambda>_. noon) (sample_store, []) = (finished, st', b')"
    using prod_cases3 by blast
  have "length (pending_decisions sample_store) = 2" by code_simp
  with drain_takes_the_oldest_first [OF sample_reachable autoincrement_bundled d]
  show ?thesis by (simp add: sample_world_def d drain_batch_def)
qed

text \<open>
  C8. The drain loop is a run of the steps the guarantees are stated over, whatever the
  bus does with each publication: an unanswered one leaves the row waiting.
\<close>

theorem drain_refines_the_world:
  assumes "jetstream publish messages" and "reachable sq digest ow (st, messages b)" and "autoincrement sq"
    and "drain publish now (st, b) = (finished, st', b')"
  shows "reachable sq digest ow (st', messages b')"
  by (rule drain_reachable [OF assms])

theorem drain_refines_the_world_witness:
  "reachable bundled_sqlite sample_digest (gowner_new ''@me:x'' [])
     (let (_, st', ms) = drain memory_bus (\<lambda>_. noon) (sample_store, []) in (st', ms))"
proof -
  obtain finished st' b' where d: "drain memory_bus (\<lambda>_. noon) (sample_store, []) = (finished, st', b')"
    using prod_cases3 by blast
  from drain_refines_the_world [OF jetstream_memory_bus sample_reachable autoincrement_bundled d]
  show ?thesis by (simp add: d)
qed

text \<open>
  C9. While the bus answers, the outbox empties: each sweep takes a batch, so a backlog
  of \<open>n\<close> decisions is gone after \<open>n / 256\<close> sweeps.
\<close>

theorem outbox_empties_when_the_bus_answers:
  assumes "\<forall>subject i payload b. fst (publish subject i payload b) \<noteq> None"
    and "reachable sq digest ow (st, ms)" and "autoincrement sq"
  shows "pending_decisions (fst (((\<lambda>w. snd (drain publish now w)) ^^ k) (st, b)))
     = drop (k * drain_batch) (pending_decisions st)"
proof -
  have sweep: "in_order (journal (fst (snd (drain publish now w))))
      \<and> pending_decisions (fst (snd (drain publish now w))) = drop drain_batch (pending_decisions (fst w))"
    if ord: "in_order (journal (fst w))" for w
  proof -
    obtain st b finished st' b' where w: "w = (st, b)" and d: "drain publish now (st, b) = (finished, st', b')"
      by (metis prod_cases3 surj_pair)
    let ?rows = "take drain_batch (pending_decisions st)"
    have r: "drain_rows publish mark_published now consent_subject_name ?rows (st, b) = (finished, st', b')"
      using d ord by (simp add: drain_def w unpublished_pending)
    moreover have "finished"
      using consent_table.drain_rows_acked [of publish consent_subject_name now ?rows st b] assms(1) r
      by simp
    ultimately show ?thesis
      using consent_table.drain_rows_prefix [of st ?rows "drop drain_batch (pending_decisions st)"] ord w d
      by fastforce
  qed
  have "in_order (journal st)"
    using reachable_wf [OF assms(2,3)] by (simp add: world_wf_def store_wf_def)
  then have "in_order (journal (fst (((\<lambda>w. snd (drain publish now w)) ^^ k) (st, b))))
     \<and> pending_decisions (fst (((\<lambda>w. snd (drain publish now w)) ^^ k) (st, b)))
       = drop (k * drain_batch) (pending_decisions st)"
    by (induction k) (simp_all add: sweep)
  then show ?thesis by blast
qed

definition always_acked :: "message list publish" where
  "always_acked subject i payload ms =
     (Some (Suc (length ms)),
      ms @ [\<lparr>m_sequence = Suc (length ms), m_subject = subject, m_id = i, m_payload = payload\<rparr>])"

theorem outbox_empties_when_the_bus_answers_witness:
  "pending_decisions (fst (((\<lambda>w. snd (drain always_acked (\<lambda>_. noon) w)) ^^ 1) (sample_store, []))) = []"
proof -
  have answers: "\<forall>subject i payload b. fst (always_acked subject i payload b) \<noteq> None"
    by (simp add: always_acked_def)
  have "length (pending_decisions sample_store) = 2" by code_simp
  with outbox_empties_when_the_bus_answers
    [OF answers sample_reachable autoincrement_bundled, where now = "\<lambda>_. noon" and k = 1 and b = "[]"]
  show ?thesis by (simp add: drain_batch_def)
qed

text \<open>
  A refused decision changes nothing, and a decision about the owner is refused as
  the caller's mistake, before the journal is asked.
\<close>

theorem refused_decision_changes_nothing:
  "(case outbox_record sq digest ob now d st of
      (Inl _, st') \<Rightarrow> st' = st
    | (Inr c, st') \<Rightarrow> refuse_if_owner d (ob_owner ob) = Inr ())
   \<and> (subject_kind (d_subject d) = ContactSubject \<and> gowner_is_owner (ob_owner ob) (subject_id (d_subject d))
      \<longleftrightarrow> fst (outbox_record sq digest ob now d st)
            = Inl (RefusedInvalid (SubjectIsTheOwner (subject_id (d_subject d)))))"
  by (auto simp: outbox_record_def store_record_def refuse_if_owner_def Let_def
           split: sum.split option.split prod.split if_splits)

end
