(* ===== verification/Handoff.thy ===== *)
theory Handoff
  imports Outbox
begin

text \<open>
  The hand-off of the consent state to a consumer: the snapshot route of the Gateway
  (\<^verbatim>\<open>companion-gateway/src/consent_snapshot.rs\<close>), the reading of its document
  (\<^verbatim>\<open>sensor/src/consent.rs\<close>) and the consumers that follow the stream from the position it
  names (\<^verbatim>\<open>sensor/src/main.rs\<close>, \<^verbatim>\<open>collector/src/consent.rs\<close>). The hash of the service token
  is a parameter; the HTTP client, the retries, the acknowledgements and the prose of an
  error's detail are not modelled.
\<close>

section \<open>The snapshot route\<close>

record snapshots =
  service_token_sha256 :: "8 word list"
  max_entries :: nat

definition snapshots_new :: "(string \<Rightarrow> 8 word list) \<Rightarrow> string \<Rightarrow> nat \<Rightarrow> snapshots" where
  "snapshots_new digest service_token cap =
     \<lparr>service_token_sha256 = digest service_token, max_entries = cap\<rparr>"

definition bearer :: "string option \<Rightarrow> string option" where
  "bearer authorization =
     Option.bind authorization (\<lambda>value.
     Option.bind (split_once (CHR '' '') value) (\<lambda>(scheme, credential).
       if eq_ignore_ascii_case scheme ''bearer'' \<and> trim credential \<noteq> [] then Some (trim credential)
       else None))"

definition constant_time_eq :: "8 word list \<Rightarrow> 8 word list \<Rightarrow> bool" where
  "constant_time_eq left right \<longleftrightarrow>
     fold (\<lambda>(l, r) difference. Bit_Operations.or difference (Bit_Operations.xor l r)) (zip left right) 0 = 0"

definition authenticates :: "(string \<Rightarrow> 8 word list) \<Rightarrow> snapshots \<Rightarrow> string option \<Rightarrow> bool" where
  "authenticates digest sn authorization =
     (case bearer authorization of
        None \<Rightarrow> False
      | Some presented \<Rightarrow> constant_time_eq (digest presented) (service_token_sha256 sn))"

definition entry_json :: "entry \<Rightarrow> json" where
  "entry_json e = JObj
     [(''subject'', JObj [(''type'', JStr (subject_type_as_str (subject_kind (e_subject e)))),
                          (''id'', JStr (subject_id (e_subject e)))]),
      (''connection'', JStr (e_connection e)),
      (''network'', JStr (network_as_str (e_network e))),
      (''state'', JStr (gstate_as_str (e_state e))),
      (''decided_at'', JStr (e_decided_at e)),
      (''decision_sequence'', JNum (int (e_decision_sequence e)))]"

definition snapshot_json :: "snapshot \<Rightarrow> gateway_owner \<Rightarrow> connection list \<Rightarrow> json" where
  "snapshot_json sn ow connections = JObj
     [(''stream'', JStr ''twalk''),
      (''subject'', JStr consent_subject_name),
      (''stream_sequence'', JNum (int (sn_stream_sequence sn))),
      (''next_stream_sequence'', JNum (int (sn_stream_sequence sn + 1))),
      (''decision_sequence'', JNum (int (sn_decision_sequence sn))),
      (''owner_identities'', JArr (map JStr (gowner_listed ow))),
      (''connections'', JArr (map served_connection connections)),
      (''entries'', JArr (map entry_json (sn_entries sn)))]"

datatype response = Served json | ApiError nat string

definition consent_snapshot ::
  "(string \<Rightarrow> 8 word list) \<Rightarrow> snapshots option \<Rightarrow> string option \<Rightarrow> store option \<Rightarrow> connection list
    \<Rightarrow> response" where
  "consent_snapshot digest configured authorization consent connections =
     (case configured of
        None \<Rightarrow> ApiError 503 ''service_token_not_configured''
      | Some sn \<Rightarrow>
          if \<not> authenticates digest sn authorization then ApiError 401 ''unauthenticated''
          else
            (case consent of
               None \<Rightarrow> ApiError 503 ''consent_not_configured''
             | Some st \<Rightarrow>
                 (case store_snapshot st (max_entries sn) of
                    Inr s \<Rightarrow> Served (snapshot_json s (store_owner st) connections)
                  | Inl (TooLarge _) \<Rightarrow> ApiError 500 ''snapshot_too_large''
                  | Inl (StoreFailed _) \<Rightarrow> ApiError 500 ''store_unavailable'')))"

section \<open>The consumer\<close>

record handed_snapshot =
  handed_state :: snapshot_doc
  handed_connections :: "sensor_registry option"

definition consent_snapshot_parse :: "json \<Rightarrow> snapshot_error + handed_snapshot" where
  "consent_snapshot_parse document =
     and_then (snapshot_parse document) (\<lambda>state.
       Inr \<lparr>handed_state = state, handed_connections = Some (registry_from_snapshot document)\<rparr>)"

definition consume :: "message \<Rightarrow> consent_cache \<Rightarrow> consent_cache" where
  "consume m c = (case change_parse (m_payload m) of Inl _ \<Rightarrow> c | Inr change \<Rightarrow> apply_change change c)"

text \<open>What the bus delivers to a consumer of the consent subject that starts at a sequence.\<close>

definition delivered_from :: "nat \<Rightarrow> message list \<Rightarrow> message list" where
  "delivered_from start ms = filter (\<lambda>m. consent_message m \<and> start \<le> m_sequence m) ms"

text \<open>
  The collector's consumer is made anew at each start; the Sensor's is durable, so the
  bus resumes it after its acknowledged floor when it has one, and what lies before the
  snapshot's position is skipped.
\<close>

definition run_collector :: "nat \<Rightarrow> message list \<Rightarrow> consent_cache \<Rightarrow> consent_cache" where
  "run_collector start ms c = fold consume (delivered_from start ms) c"

definition run_sensor :: "nat option \<Rightarrow> nat \<Rightarrow> message list \<Rightarrow> consent_cache \<Rightarrow> consent_cache" where
  "run_sensor floor start ms c =
     fold (\<lambda>m c. if m_sequence m < start then c else consume m c)
       (delivered_from (case floor of None \<Rightarrow> start | Some f \<Rightarrow> Suc f) ms) c"

section \<open>Rows, entries and changes\<close>

definition row_change :: "journal_row \<Rightarrow> consent_change option" where
  "row_change r =
     map_option (\<lambda>s. \<lparr>change_subject = s, change_new_state = consent_of_gstate (row_state r),
                      change_connections = row_connections r\<rparr>)
       (cache_subject (row_subject r))"

text \<open>Whether a row decides for a sender's key of the cache.\<close>

definition row_reaches :: "journal_row \<Rightarrow> consent_subject \<times> string \<Rightarrow> bool" where
  "row_reaches r = (\<lambda>(s, c). cache_subject (row_subject r) = Some s \<and> c \<in> set (row_connections r))"

lemma last_value_row_changes:
  "last_value change_covers change_new_state (List.map_filter row_change rs) k =
     map_option consent_of_gstate (last_value row_reaches row_state rs k)"
proof (induction rs)
  case (Cons r rs)
  then show ?case
    by (cases k) (auto simp: List.map_filter_simps row_change_def row_reaches_def split: option.split)
qed (simp add: List.map_filter_simps)

lemma change_of_message:
  assumes "announces m r" and "row_ok digest st r" and "scoped_row registry r"
  shows "change_parse (m_payload m) =
     (case row_change r of None \<Rightarrow> Inl NotAboutASender | Some ch \<Rightarrow> Inr ch)"
  using assms envelope_read_back [of "row_recorded r"]
  by (auto simp: announces_def row_ok_def scoped_row_def row_change_def split: option.split)

lemma consume_message:
  assumes "announces m r" and "row_ok digest st r" and "scoped_row registry r"
  shows "consume m c = (case row_change r of None \<Rightarrow> c | Some ch \<Rightarrow> apply_change ch c)"
  by (simp add: consume_def change_of_message [OF assms] split: option.split)

lemma fold_consume:
  assumes "list_all2 announces ms rs" and "\<And>r. r \<in> set rs \<Longrightarrow> row_ok digest st r \<and> scoped_row registry r"
  shows "fold consume ms c = fold apply_change (List.map_filter row_change rs) c"
  using assms
proof (induction arbitrary: c rule: list_all2_induct)
  case (Cons m ms r rs)
  have "consume m c = (case row_change r of None \<Rightarrow> c | Some ch \<Rightarrow> apply_change ch c)"
    using Cons.hyps(1) Cons.prems by (intro consume_message) auto
  then show ?case
    using Cons.IH Cons.prems by (cases "row_change r") (simp_all add: List.map_filter_simps)
qed (simp add: List.map_filter_simps)

text \<open>The last of the rows in order, wherever they stand in a list that repeats some.\<close>

lemma last_value_greatest:
  assumes "sorted_wrt (\<lambda>r r'. row_sequence r \<le> row_sequence r') xs"
    and "\<And>r r'. r \<in> set xs \<Longrightarrow> r' \<in> set xs \<Longrightarrow> row_sequence r = row_sequence r' \<Longrightarrow> r = r'"
    and "x \<in> set xs" and "covers x k" and "\<And>y. y \<in> set xs \<Longrightarrow> covers y k \<Longrightarrow> row_sequence y \<le> row_sequence x"
  shows "last_value covers val xs k = Some (val x)"
  using assms
proof (induction xs)
  case (Cons a xs)
  show ?case
  proof (cases "\<exists>y \<in> set xs. covers y k \<and> row_sequence y = row_sequence x")
    case True
    then obtain y where y: "y \<in> set xs" "covers y k" "row_sequence y = row_sequence x" by blast
    then have "y = x" using Cons.prems(2,3) by auto
    with y have "last_value covers val xs k = Some (val x)"
      using Cons.prems by (intro Cons.IH) auto
    then show ?thesis by simp
  next
    case False
    then have x: "x = a" using Cons.prems(3,4) by auto
    have "\<not> covers y k" if "y \<in> set xs" for y
      using False that Cons.prems(1) Cons.prems(5) [of y] x by (auto simp: order_antisym)
    then have "last_value covers val xs k = None" by (simp add: last_value_None_iff)
    then show ?thesis using Cons.prems(4) x by simp
  qed
qed simp

section \<open>What the snapshot stands for\<close>

abbreviation upto_horizon :: "nat \<Rightarrow> journal_row list \<Rightarrow> journal_row list" where
  "upto_horizon h rs \<equiv> filter (\<lambda>r. row_sequence r \<le> h) rs"

lemma horizon_positioned:
  assumes "store_wf digest st" and "r \<in> set (journal st)" and "row_sequence r \<le> horizon st"
  shows "row_stream r \<noteq> None"
proof
  assume none: "row_stream r = None"
  let ?un = "filter (\<lambda>r. row_stream r = None) (journal st)"
  have r: "r \<in> set ?un" using assms(2) none by simp
  then have "map row_sequence ?un \<noteq> []" by (metis empty_iff list.set(1) map_is_Nil_conv)
  then obtain s ss where ss: "map row_sequence ?un = s # ss" by (meson neq_Nil_conv)
  have "row_sequence r \<in> set (s # ss)" using r unfolding ss [symmetric] set_map by (rule imageI)
  then have "Min (set (s # ss)) \<le> row_sequence r" by (intro Min_le) auto
  moreover have "horizon st = Min (set (s # ss)) - 1" by (simp add: horizon_def ss)
  moreover have "0 < row_sequence r" using store_wf_row [OF assms(1,2)] by (simp add: row_ok_def)
  ultimately show False using assms(3) by linarith
qed

lemma horizon_le_sequence: "store_wf digest st \<Longrightarrow> horizon st \<le> sqlite_sequence st"
proof -
  assume wf: "store_wf digest st"
  have le: "row_sequence r \<le> sqlite_sequence st" if "r \<in> set (journal st)" for r
    using store_wf_row [OF wf that] by (simp add: row_ok_def)
  show ?thesis
  proof (cases "map row_sequence (filter (\<lambda>r. row_stream r = None) (journal st))")
    case Nil
    show ?thesis
    proof (cases "map row_sequence (journal st)")
      case (Cons s ss)
      have "Max (set (s # ss)) \<in> set (s # ss)" by (intro Max_in) auto
      then have "Max (set (s # ss)) \<le> sqlite_sequence st" using le unfolding Cons [symmetric] by auto
      then show ?thesis using Nil Cons by (simp add: horizon_def)
    qed (simp add: horizon_def Nil)
  next
    case (Cons s ss)
    have "Min (set (s # ss)) \<in> set (s # ss)" by (intro Min_in) auto
    then have "Min (set (s # ss)) \<le> sqlite_sequence st"
      using le unfolding Cons [symmetric] by auto
    then show ?thesis using Cons by (simp add: horizon_def)
  qed
qed

lemma upto_horizon_kept_step:
  assumes "world_step sq digest (st, ms) (st', ms')" and "autoincrement sq" and "store_wf digest st"
    and "h \<le> sqlite_sequence st" and "\<And>r. r \<in> set (upto_horizon h (journal st)) \<Longrightarrow> row_stream r \<noteq> None"
  shows "upto_horizon h (journal st') = upto_horizon h (journal st) \<and> h \<le> sqlite_sequence st'"
  using assms(1)
proof (cases rule: world_step_cases)
  case (Recorded d actor at domain produced)
  have "upto_horizon h (journal st') = upto_horizon h (journal st)"
    by (rule store_record_shape [OF assms(3,2), of d actor at domain produced])
      (use Recorded assms(4) in auto)
  then show ?thesis
    using store_record_grows [OF assms(2), of digest d actor at domain produced st] Recorded assms(4)
    by (simp add: Let_def)
next
  case (Marked u us m at)
  let ?mark = "mark_row (u_sequence u) at (m_sequence m)"
  have "?mark r = r" if "r \<in> set (upto_horizon h (journal st))" for r
  proof -
    have "row_published_at r \<noteq> None"
      using assms(5) [OF that] that store_wf_row [OF assms(3)] by (auto simp: row_ok_def)
    then show ?thesis by (auto simp: mark_row_def)
  qed
  then have "map ?mark (upto_horizon h (journal st)) = upto_horizon h (journal st)"
    by (intro map_idI) simp
  moreover have "upto_horizon h (map ?mark (journal st)) = map ?mark (upto_horizon h (journal st))"
    by (simp add: filter_map comp_def)
  ultimately show ?thesis using Marked assms(4) by (simp add: mark_published_def)
qed (use assms(4) in \<open>simp_all add: record_connections_def Let_def\<close>)

lemma upto_horizon_kept:
  assumes "(world_step sq digest)\<^sup>*\<^sup>* (st, ms) (st', ms')" and "autoincrement sq" and "world_wf digest (st, ms)"
    and "h \<le> sqlite_sequence st" and "\<And>r. r \<in> set (upto_horizon h (journal st)) \<Longrightarrow> row_stream r \<noteq> None"
  shows "upto_horizon h (journal st') = upto_horizon h (journal st)"
proof -
  have "world_wf digest w \<and> h \<le> sqlite_sequence (fst w)
      \<and> upto_horizon h (journal (fst w)) = upto_horizon h (journal st)"
    if "(world_step sq digest)\<^sup>*\<^sup>* (st, ms) w" for w
    using that
  proof (induction rule: rtranclp_induct)
    case base
    show ?case using assms(3,4) by simp
  next
    case (step w w')
    obtain sta msa stb msb where w: "w = (sta, msa)" "w' = (stb, msb)" by (metis surj_pair)
    have wf: "store_wf digest sta" using step.IH w by (simp add: world_wf_def)
    have same: "upto_horizon h (journal sta) = upto_horizon h (journal st)" "h \<le> sqlite_sequence sta"
      using step.IH w by simp_all
    have "upto_horizon h (journal stb) = upto_horizon h (journal sta) \<and> h \<le> sqlite_sequence stb"
      by (rule upto_horizon_kept_step [OF _ assms(2) wf same(2)])
        (use step.hyps(2) w in simp, unfold same(1), rule assms(5))
    then show ?case using step w world_step_wf [OF step.hyps(2) assms(2)] by simp
  qed
  from this [OF assms(1)] show ?thesis by simp
qed

lemma greatest_row:
  assumes "\<exists>r \<in> set rs. P r"
  obtains x where "x \<in> set rs" "P x" "\<And>y. y \<in> set rs \<Longrightarrow> P y \<Longrightarrow> row_sequence y \<le> row_sequence x"
proof -
  let ?S = "{r \<in> set rs. P r}"
  have "finite ?S" "?S \<noteq> {}" using assms by auto
  then have "Max (row_sequence ` ?S) \<in> row_sequence ` ?S" by (intro Max_in) auto
  then obtain x where "x \<in> ?S" "row_sequence x = Max (row_sequence ` ?S)" by auto
  moreover from this have "\<forall>y \<in> ?S. row_sequence y \<le> row_sequence x" using \<open>finite ?S\<close> by auto
  ultimately have "x \<in> ?S" "\<forall>y \<in> ?S. row_sequence y \<le> row_sequence x" by blast+
  then show thesis by (intro that) auto
qed

lemma in_order_weak: "in_order rs \<Longrightarrow> sorted_wrt (\<lambda>r r'. row_sequence r \<le> row_sequence r') rs"
  by (auto simp: in_order_def less_imp_le elim!: sorted_wrt_mono_rel [rotated])

text \<open>A run of rows that starts over in the journal's past ends where the journal does.\<close>

lemma replay_agrees:
  assumes A: "in_order A" and R: "in_order R" "set R \<subseteq> set A"
    and D: "sorted_wrt (\<lambda>r r'. row_sequence r \<le> row_sequence r') D" "set D \<subseteq> set A"
    and all: "set A \<subseteq> set R \<union> set D"
    and later: "set A \<subseteq> set D \<or> (\<forall>x \<in> set R. \<forall>y \<in> set D. row_sequence x \<le> row_sequence y)"
  shows "last_value covers val (R @ D) k = last_value covers val A k"
proof (cases "\<exists>r \<in> set A. covers r k")
  case False
  then show ?thesis
    using R(2) D(2) last_value_None_iff [of covers val A k] last_value_None_iff [of covers val "R @ D" k] by auto
next
  case True
  have inj: "r = r'" if "r \<in> set A" "r' \<in> set A" "row_sequence r = row_sequence r'" for r r'
    using in_order_sequence_inj [OF A that] .
  obtain x where x: "x \<in> set A" "covers x k" and top: "\<And>y. y \<in> set A \<Longrightarrow> covers y k \<Longrightarrow> row_sequence y \<le> row_sequence x"
    using greatest_row [OF True] by blast
  have A_last: "last_value covers val A k = Some (val x)"
    by (rule last_value_greatest [where covers = covers and x = x and k = k]) (use in_order_weak [OF A] inj x top in auto)
  show ?thesis
  proof (cases "\<exists>y \<in> set D. covers y k")
    case True
    then obtain y where y: "y \<in> set D" "covers y k" by blast
    have "x \<in> set D"
    proof (rule ccontr)
      assume "x \<notin> set D"
      then have "x \<in> set R" using all x(1) by auto
      with later y x(1) \<open>x \<notin> set D\<close> have "row_sequence x \<le> row_sequence y" by auto
      with top [of y] y D(2) have "row_sequence x = row_sequence y" by (auto simp: subset_iff)
      then have "x = y" using inj x(1) y(1) D(2) by auto
      then show False using y \<open>x \<notin> set D\<close> by simp
    qed
    then have "last_value covers val D k = Some (val x)"
      by (intro last_value_greatest [where covers = covers and x = x and k = k]) (use inj D x top in auto)
    then show ?thesis by (simp add: last_value_append A_last)
  next
    case False
    then have none: "last_value covers val D k = None" by (auto simp: last_value_None_iff)
    have "x \<in> set R" using False all x by auto
    then have "last_value covers val R k = Some (val x)"
      by (intro last_value_greatest [where covers = covers and x = x and k = k])
        (use in_order_weak [OF R(1)] inj R(2) x top in auto)
    then show ?thesis by (simp add: last_value_append none A_last)
  qed
qed

section \<open>The document read back\<close>

lemma entry_parse_entry_json:
  assumes "e_connection e \<noteq> []"
  shows "entry_parse (entry_json e) =
     (case cache_subject (e_subject e) of
        None \<Rightarrow> Inl NotAboutASender
      | Some s \<Rightarrow> Inr \<lparr>entry_subject = s, entry_connection = e_connection e,
                       entry_state = consent_of_gstate (e_state e)\<rparr>)"
  using assms
  by (cases "subject_kind (e_subject e)")
     (simp_all add: entry_parse_def entry_json_def subject_parse_def nonempty_str_def)

lemma snapshot_parse_json:
  assumes "sn_stream_sequence sn < 2 ^ 63"
  shows "snapshot_parse (snapshot_json sn ow cs) =
     Inr \<lparr>snap_entries = [x. Inr x \<leftarrow> map (entry_parse \<circ> entry_json) (sn_entries sn)],
          snap_unusable = [w. Inl w \<leftarrow> map (entry_parse \<circ> entry_json) (sn_entries sn)],
          snap_next = Suc (sn_stream_sequence sn)\<rparr>"
  using assms
  by (simp add: snapshot_parse_def snapshot_json_def Let_def case_prod_unfold split_results_fst
      split_results_snd nat_add_distrib comp_assoc)

text \<open>The change a served row is to the cache that reads its entry.\<close>

definition view_change :: "journal_row \<times> string \<Rightarrow> consent_change option" where
  "view_change = (\<lambda>(r, c).
     map_option (\<lambda>s. \<lparr>change_subject = s, change_new_state = consent_of_gstate (row_state r),
                      change_connections = [c]\<rparr>)
       (cache_subject (row_subject r)))"

lemma entry_change_record:
  "entry_change \<lparr>entry_subject = s, entry_connection = c, entry_state = v\<rparr>
     = \<lparr>change_subject = s, change_new_state = v, change_connections = [c]\<rparr>"
  by (simp add: entry_change_def)

lemma entry_changes:
  assumes "list_all2 (\<lambda>x e. entry_of st x = Inr e) xs es" and "\<And>r c. (r, c) \<in> set xs \<Longrightarrow> c \<noteq> []"
  shows "map entry_change [x. Inr x \<leftarrow> map (entry_parse \<circ> entry_json) es] = List.map_filter view_change xs"
  using assms
proof (induction rule: list_all2_induct)
  case (Cons x xs e es)
  obtain r c where x: "x = (r, c)" by (cases x)
  have e: "e_subject e = row_subject r" "e_connection e = c" "e_state e = row_state r"
    using Cons.hyps(1) by (simp_all add: x entry_of_Inr_iff)
  have "c \<noteq> []" using Cons.prems [of r c] x by simp
  then have head: "entry_parse (entry_json e) =
     (case cache_subject (row_subject r) of
        None \<Rightarrow> Inl NotAboutASender
      | Some s \<Rightarrow> Inr \<lparr>entry_subject = s, entry_connection = c, entry_state = consent_of_gstate (row_state r)\<rparr>)"
    using e by (simp add: entry_parse_entry_json del: cache_subject.simps split: option.split)
  have "map entry_change [x. Inr x \<leftarrow> map (entry_parse \<circ> entry_json) es] = List.map_filter view_change xs"
    by (rule Cons.IH) (use Cons.prems in auto)
  moreover have "view_change x = map_option (\<lambda>s. \<lparr>change_subject = s,
      change_new_state = consent_of_gstate (row_state r), change_connections = [c]\<rparr>) (cache_subject (row_subject r))"
    by (simp add: x view_change_def del: cache_subject.simps)
  ultimately show ?case
    by (cases "cache_subject (row_subject r)")
       (simp_all add: head List.map_filter_simps entry_change_record comp_def del: cache_subject.simps)
qed (simp add: List.map_filter_simps)

lemma last_value_unique:
  assumes "x \<in> set ws" and "covers x k" and "\<And>y. y \<in> set ws \<Longrightarrow> covers y k \<Longrightarrow> val y = v"
  shows "last_value covers val ws k = Some v"
proof (cases "last_value covers val ws k")
  case None
  then show ?thesis using assms by (simp add: last_value_None_iff)
next
  case (Some v')
  then obtain us w vs where "ws = us @ w # vs" "covers w k" "val w = v'"
    unfolding last_value_Some_iff by blast
  then show ?thesis using Some assms(3) [of w] by simp
qed

lemma set_map_filter: "set (List.map_filter f xs) = {y. \<exists>x \<in> set xs. f x = Some y}"
  by (induction xs) (auto simp: List.map_filter_simps split: option.split)

lemma row_reaches_same_subject:
  assumes "scoped_row registry r" and "scoped_row registry r'" and "row_reaches r (s, c)" and "row_reaches r' (s, c)"
  shows "row_subject r = row_subject r'"
proof -
  have kinds: "subject_kind (row_subject r) = subject_kind (row_subject r')"
    and "subject_id (row_subject r) = subject_id (row_subject r')"
    using assms
    by (auto simp: row_reaches_def scoped_row_def split: subject_type.splits)
  then show ?thesis by (simp add: subject.equality)
qed

text \<open>
  What the entries of a snapshot decide for a key is what the rows up to the horizon
  decide for it.
\<close>

lemma served_rows_decide:
  assumes wf: "world_wf digest (st, ms)"
  shows "last_value change_covers change_new_state (List.map_filter view_change (served_rows st)) k
     = map_option consent_of_gstate (last_value row_reaches row_state (upto_horizon (horizon st) (journal st)) k)"
proof -
  obtain s c where k: "k = (s, c)" by (cases k)
  let ?R = "upto_horizon (horizon st) (journal st)"
  let ?reg = "map_of (registered st)"
  have st: "store_wf digest st" and scoped: "\<And>r. r \<in> set (journal st) \<Longrightarrow> scoped_row (registered st) r"
    using wf by (simp_all add: world_wf_def)
  have ord: "in_order ?R" using store_wf_in_order [OF st] by simp
  have view: "(r, c') \<in> set (consent_snapshot_view st) \<longleftrightarrow>
     ?reg c' \<noteq> None \<and> r \<in> set ?R \<and> c' \<in> set (row_connections r)
     \<and> (\<forall>r' \<in> set ?R. row_covers r' (row_subject r, c') \<longrightarrow> row_sequence r' \<le> row_sequence r)" for r c'
    unfolding consent_snapshot_view_def by (rule view_set [OF ord])
  have owner: "\<not> about_owner st (r, c')" if "r \<in> set ?R" for r c'
    using store_wf_row [OF st, of r] that
    by (auto simp: row_ok_def about_owner_def refuse_if_owner_def split: if_splits)
  have covers: "change_covers ch k \<and> change_new_state ch = v \<longleftrightarrow>
      cache_subject (row_subject r) = Some s \<and> c' = c \<and> consent_of_gstate (row_state r) = v"
    if "view_change (r, c') = Some ch" for r c' ch v
    using that by (auto simp: view_change_def k)
  show ?thesis
  proof (cases "\<exists>r \<in> set ?R. row_reaches r k")
    case False
    have "\<not> change_covers ch k" if mem: "ch \<in> set (List.map_filter view_change (served_rows st))" for ch
    proof
      assume ch: "change_covers ch k"
      obtain r c' where x: "(r, c') \<in> set (consent_snapshot_view st)" "view_change (r, c') = Some ch"
        using mem by (auto simp: set_map_filter)
      then have "row_reaches r k" using ch covers [OF x(2)] view by (auto simp: row_reaches_def k)
      then show False using False x(1) view by auto
    qed
    then have "last_value change_covers change_new_state (List.map_filter view_change (served_rows st)) k = None"
      by (simp add: last_value_None_iff)
    moreover have "last_value row_reaches row_state ?R k = None"
      using False by (simp add: last_value_None_iff)
    ultimately show ?thesis by simp
  next
    case True
    then obtain x where x: "x \<in> set ?R" "row_reaches x k"
      and top: "\<And>y. y \<in> set ?R \<Longrightarrow> row_reaches y k \<Longrightarrow> row_sequence y \<le> row_sequence x"
      using greatest_row [of ?R "\<lambda>r. row_reaches r k"] by blast
    have same: "row_subject y = row_subject x" if "y \<in> set ?R" "row_reaches y k" for y
      using row_reaches_same_subject [OF scoped scoped, of y x s c] that x by (simp add: k)
    have last: "last_value row_reaches row_state ?R k = Some (row_state x)"
      by (rule last_value_greatest [where covers = row_reaches and x = x and k = k])
        (use in_order_weak [OF ord] in_order_sequence_inj [OF ord] x top in auto)
    have cx: "c \<in> set (row_connections x)" "cache_subject (row_subject x) = Some s"
      using x(2) by (simp_all add: row_reaches_def k)
    have reach: "row_reaches y k" if "row_covers y (row_subject x, c)" for y
      using that cx by (auto simp: row_covers_def row_reaches_def k simp del: cache_subject.simps)
    have "?reg c \<noteq> None"
      using store_wf_row [OF st, of x] x(1) cx(1) by (auto simp: row_ok_def)
    then have in_view: "(x, c) \<in> set (served_rows st)"
      using x(1) cx top reach owner by (auto simp: view)
    have only: "y = x" if "(y, c) \<in> set (consent_snapshot_view st)" "row_reaches y k" for y
    proof -
      have y: "y \<in> set ?R" using that(1) view by blast
      then have "row_covers x (row_subject y, c)"
        using same [OF y that(2)] cx by (simp add: row_covers_def)
      then have "row_sequence x \<le> row_sequence y" using that(1) view x(1) by blast
      then have "row_sequence x = row_sequence y" using top [OF y that(2)] by simp
      then show ?thesis using in_order_sequence_inj [OF ord x(1) y] by simp
    qed
    obtain ch where ch: "view_change (x, c) = Some ch"
      using cx(2) by (simp add: view_change_def)
    have "last_value change_covers change_new_state (List.map_filter view_change (served_rows st)) k
        = Some (consent_of_gstate (row_state x))"
    proof (rule last_value_unique)
      show "ch \<in> set (List.map_filter view_change (served_rows st))"
        using in_view ch by (auto simp: set_map_filter)
      show "change_covers ch k" using covers [OF ch] cx by blast
      fix ch'
      assume "ch' \<in> set (List.map_filter view_change (served_rows st))" and cov: "change_covers ch' k"
      then obtain r c' where r: "(r, c') \<in> set (consent_snapshot_view st)" "view_change (r, c') = Some ch'"
        by (auto simp: set_map_filter)
      then have "cache_subject (row_subject r) = Some s" "c' = c" using covers [OF r(2)] cov by blast+
      moreover from this have "row_reaches r k" using r(1) view by (auto simp: row_reaches_def k)
      ultimately have "r = x" using only r(1) by blast
      then show "change_new_state ch' = consent_of_gstate (row_state x)" using covers [OF r(2)] cov by blast
    qed
    then show ?thesis by (simp add: last)
  qed
qed

section \<open>What a consumer ends up with\<close>

text \<open>The rows the bus has announced, and the label they give a sender by themselves.\<close>

definition announced :: "store \<Rightarrow> message list \<Rightarrow> journal_row list" where
  "announced st ms = filter (\<lambda>r. list_ex (\<lambda>m. announces m r) ms) (journal st)"

definition journal_label :: "(string \<Rightarrow> bool) \<Rightarrow> journal_row list \<Rightarrow> string \<Rightarrow> string \<Rightarrow> consent" where
  "journal_label person rs i connection =
     (case (if person i then last_value row_reaches row_state rs (Contact i, connection) else None) of
        Some s \<Rightarrow> consent_of_gstate s
      | None \<Rightarrow>
          (case last_value row_reaches row_state rs (NetworkDefault, connection) of
             Some s \<Rightarrow> consent_of_gstate s
           | None \<Rightarrow> Pending))"

lemma label_of_journal:
  assumes "\<And>k. last_value change_covers change_new_state ws k
      = map_option consent_of_gstate (last_value row_reaches row_state rs k)"
  shows "label_of person ws i connection = journal_label person rs i connection"
  by (simp add: label_of_def journal_label_def assms split: option.split)

lemma announces_same_row:
  assumes "store_wf digest st" and "r \<in> set (journal st)" and "r' \<in> set (journal st)"
    and "announces m r" and "announces m r'"
  shows "r = r'"
  using assms by (auto simp: store_wf_def announces_def distinct_map dest: inj_onD)

lemma choose_list_all2:
  "\<forall>m \<in> set ms. \<exists>r \<in> A. P m r \<Longrightarrow> \<exists>rs. list_all2 P ms rs \<and> set rs \<subseteq> A"
proof (induction ms)
  case (Cons m ms)
  then obtain r rs where "r \<in> A" "P m r" "list_all2 P ms rs" "set rs \<subseteq> A" by auto
  then show ?case by (intro exI [of _ "r # rs"]) simp
qed simp

lemma delivered_rows:
  assumes wf: "world_wf digest (st, ms)"
  obtains rs where "list_all2 announces (delivered_from n ms) rs" "set rs \<subseteq> set (journal st)"
    "sorted_wrt (\<lambda>r r'. row_sequence r \<le> row_sequence r') rs"
    "\<And>m r. m \<in> set (delivered_from n ms) \<Longrightarrow> r \<in> set (journal st) \<Longrightarrow> announces m r \<Longrightarrow> r \<in> set rs"
    "\<And>r. r \<in> set rs \<Longrightarrow> \<exists>m \<in> set (delivered_from n ms). announces m r"
proof -
  have st: "store_wf digest st" and f: "follows (journal st) ms" and str: "stream_wf ms"
    using wf by (simp_all add: world_wf_def)
  let ?ms = "delivered_from n ms"
  have "\<forall>m \<in> set ?ms. \<exists>r \<in> set (journal st). announces m r"
    using f by (simp add: follows_def known_def delivered_from_def)
  then obtain rs where rs: "list_all2 announces ?ms rs" "set rs \<subseteq> set (journal st)"
    using choose_list_all2 by blast
  have ms_sorted: "sorted_wrt (\<lambda>m m'. m_sequence m < m_sequence m') ?ms"
    using str by (simp add: delivered_from_def stream_wf_def sorted_wrt_filter)
  have "sorted_wrt (\<lambda>r r'. row_sequence r \<le> row_sequence r') rs"
    unfolding sorted_wrt_iff_nth_less
  proof (intro allI impI)
    fix i j
    assume ij: "i < j" "j < length rs"
    have len: "length ?ms = length rs" using rs(1) by (rule list_all2_lengthD)
    have "?ms ! i \<in> set ms" "?ms ! j \<in> set ms" "m_sequence (?ms ! i) < m_sequence (?ms ! j)"
      using ij len ms_sorted nth_mem [of i ?ms] nth_mem [of j ?ms]
      by (auto simp: sorted_wrt_iff_nth_less delivered_from_def)
    moreover have "announces (?ms ! i) (rs ! i)" "announces (?ms ! j) (rs ! j)"
      "rs ! i \<in> set (journal st)" "rs ! j \<in> set (journal st)"
      using ij len rs by (auto simp: list_all2_conv_all_nth)
    ultimately show "row_sequence (rs ! i) \<le> row_sequence (rs ! j)"
      using f unfolding follows_def same_order_def by blast
  qed
  moreover have "r \<in> set rs" if m: "m \<in> set ?ms" and r: "r \<in> set (journal st)" "announces m r" for m r
  proof -
    obtain r' where "r' \<in> set rs" "announces m r'"
      using rs(1) m by (metis in_set_conv_nth list_all2_conv_all_nth)
    then show ?thesis using announces_same_row [OF st r(1) _ r(2)] rs(2) by blast
  qed
  moreover have "\<exists>m \<in> set ?ms. announces m r" if "r \<in> set rs" for r
    using rs(1) that by (metis in_set_conv_nth list_all2_conv_all_nth)
  ultimately show thesis using rs that by blast
qed

lemma horizon_position_bound:
  assumes "world_wf digest (st, ms)"
  shows "horizon_position st < 2 ^ 63"
proof -
  have f: "follows (journal st) ms" and str: "stream_wf ms" using assms by (simp_all add: world_wf_def)
  have bound: "n < 2 ^ 63" if "r \<in> set (journal st)" "row_stream r = Some n" for r n
    using f str that by (auto simp: follows_def positioned_def stream_wf_def)
  show ?thesis
  proof (cases "List.find (\<lambda>r. row_sequence r = horizon st) (journal st)")
    case (Some r)
    then have "r \<in> set (journal st)" by (auto simp: find_Some_iff)
    then show ?thesis using bound [of r] Some by (cases "row_stream r") (simp_all add: horizon_position_def)
  qed (simp add: horizon_position_def)
qed

text \<open>The heart of the hand-off: the rows of the snapshot, then the rows of the stream.\<close>

lemma handed_rows_agree:
  assumes wf1: "world_wf digest (st1, ms1)" and wf2: "world_wf digest (st2, ms2)"
    and kept: "upto_horizon (horizon st1) (journal st2) = upto_horizon (horizon st1) (journal st1)"
    and D: "list_all2 announces (delivered_from (Suc (horizon_position st1)) ms2) D" "set D \<subseteq> set (journal st2)"
      "sorted_wrt (\<lambda>r r'. row_sequence r \<le> row_sequence r') D"
      "\<And>m r. m \<in> set (delivered_from (Suc (horizon_position st1)) ms2) \<Longrightarrow> r \<in> set (journal st2) \<Longrightarrow>
          announces m r \<Longrightarrow> r \<in> set D"
      "\<And>r. r \<in> set D \<Longrightarrow> \<exists>m \<in> set (delivered_from (Suc (horizon_position st1)) ms2). announces m r"
  shows "last_value covers val (upto_horizon (horizon st1) (journal st1) @ D) k
       = last_value covers val (announced st2 ms2) k"
proof -
  let ?h = "horizon st1"
  let ?p = "horizon_position st1"
  let ?R = "upto_horizon ?h (journal st2)"
  have s1: "store_wf digest st1" using wf1 by (simp add: world_wf_def)
  have s2: "store_wf digest st2" and f: "follows (journal st2) ms2" and str: "stream_wf ms2"
    using wf2 by (simp_all add: world_wf_def)
  have ord: "in_order (journal st2)" by (rule store_wf_in_order [OF s2])
  have pos: "\<exists>m \<in> set ms2. m_sequence m = n \<and> announces m r" if "r \<in> set (journal st2)" "row_stream r = Some n" for r n
    using f that by (auto simp: follows_def positioned_def)
  have streamed: "row_stream r \<noteq> None" if "r \<in> set ?R" for r
    using that horizon_positioned [OF s1] unfolding kept by auto
  have R: "set ?R \<subseteq> set (announced st2 ms2)"
    using streamed pos by (fastforce simp: announced_def list_ex_iff)
  have D_announced: "set D \<subseteq> set (announced st2 ms2)"
    using D(2,5) by (fastforce simp: announced_def list_ex_iff delivered_from_def)
  have order: "row_sequence r \<le> row_sequence r'" if "m \<in> set ms2" "m' \<in> set ms2" "r \<in> set (journal st2)"
    "r' \<in> set (journal st2)" "announces m r" "announces m' r'" "m_sequence m < m_sequence m'" for m m' r r'
    using f that unfolding follows_def same_order_def by blast
  have delivered: "r \<in> set D" if "r \<in> set (journal st2)" "m \<in> set ms2" "announces m r" "?p < m_sequence m" for r m
    using that by (intro D(4) [of m]) (auto simp: delivered_from_def announces_def)
  have in_announced: "r \<in> set (journal st2) \<and> (\<exists>m \<in> set ms2. announces m r)" if "r \<in> set (announced st2 ms2)" for r
    using that by (auto simp: announced_def list_ex_iff)
  have main: "set (announced st2 ms2) \<subseteq> set ?R \<union> set D
      \<and> (set (announced st2 ms2) \<subseteq> set D \<or> (\<forall>x \<in> set ?R. \<forall>y \<in> set D. row_sequence x \<le> row_sequence y))"
  proof (cases "List.find (\<lambda>r. row_sequence r = ?h) (journal st1)")
    case None
    then have "?p = 0" by (simp add: horizon_position_def)
    moreover have "0 < m_sequence m" if "m \<in> set ms2" for m using str that by (simp add: stream_wf_def)
    ultimately have "set (announced st2 ms2) \<subseteq> set D" using delivered in_announced by fastforce
    then show ?thesis by blast
  next
    case (Some rh)
    then have rh: "rh \<in> set (journal st1)" "row_sequence rh = ?h" by (auto simp: find_Some_iff)
    then have rh_R: "rh \<in> set ?R" unfolding kept by simp
    then obtain p where p: "row_stream rh = Some p" using streamed by blast
    then have "?p = p" using Some by (simp add: horizon_position_def)
    obtain mh where mh: "mh \<in> set ms2" "m_sequence mh = ?p" "announces mh rh"
      using pos [of rh p] rh_R p \<open>?p = p\<close> by auto
    have rh2: "rh \<in> set (journal st2)" using rh_R by simp
    have "r \<in> set D" if r: "r \<in> set (announced st2 ms2)" "r \<notin> set ?R" for r
    proof -
      obtain m where m: "m \<in> set ms2" "announces m r" and j: "r \<in> set (journal st2)"
        using in_announced [OF r(1)] by blast
      have above: "?h < row_sequence r" using r(2) j by simp
      have "?p < m_sequence m"
      proof (rule ccontr)
        assume "\<not> ?p < m_sequence m"
        then consider "m_sequence m < m_sequence mh" | "m_sequence m = m_sequence mh" using mh(2) by linarith
        then show False
        proof cases
          case 1
          then show False using order [OF m(1) mh(1) j rh2 m(2) mh(3)] above rh(2) by simp
        next
          case 2
          have "m = mh"
            using str m(1) mh(1) 2 by (auto simp: stream_wf_def sorted_wrt_iff_nth_less in_set_conv_nth)
              (metis linorder_neqE_nat less_irrefl)
          then have "r = rh" using announces_same_row [OF s2 j rh2 _ mh(3)] m(2) by blast
          then show False using above rh(2) by simp
        qed
      qed
      then show ?thesis by (rule delivered [OF j m])
    qed
    moreover have "row_sequence x \<le> row_sequence y" if xy: "x \<in> set ?R" "y \<in> set D" for x y
    proof -
      obtain m where m: "m \<in> set ms2" "announces m y" "?p < m_sequence m"
        using D(5) [OF xy(2)] by (auto simp: delivered_from_def)
      have "row_sequence rh \<le> row_sequence y"
        using order [OF mh(1) m(1) rh2 _ mh(3) m(2)] xy(2) D(2) m(3) mh(2) by auto
      then show ?thesis using xy(1) rh(2) by simp
    qed
    ultimately show ?thesis by blast
  qed
  have "in_order (announced st2 ms2)" "in_order ?R" using ord by (simp_all add: announced_def)
  from replay_agrees [OF this R D(3) D_announced main [THEN conjunct1] main [THEN conjunct2]]
  show ?thesis unfolding kept .
qed

text \<open>What a consumer holds that resumes after a floor: the rows of the snapshot, and those announced past the floor.\<close>

definition held_after :: "store \<times> message list \<Rightarrow> nat \<Rightarrow> store \<times> message list \<Rightarrow> journal_row list" where
  "held_after w f w' =
     filter (\<lambda>r. row_sequence r \<le> horizon (fst w) \<or> (\<exists>m \<in> set (snd w'). f < m_sequence m \<and> announces m r))
       (journal (fst w'))"

lemma resumed_rows_agree:
  assumes wf1: "world_wf digest (st1, ms1)" and wf2: "world_wf digest (st2, ms2)"
    and kept: "upto_horizon (horizon st1) (journal st2) = upto_horizon (horizon st1) (journal st1)"
    and acked: "\<forall>m \<in> set ms1. m_sequence m \<le> f"
    and D: "set D \<subseteq> set (journal st2)" "sorted_wrt (\<lambda>r r'. row_sequence r \<le> row_sequence r') D"
      "\<And>m r. m \<in> set (delivered_from (Suc f) ms2) \<Longrightarrow> r \<in> set (journal st2) \<Longrightarrow> announces m r \<Longrightarrow> r \<in> set D"
      "\<And>r. r \<in> set D \<Longrightarrow> \<exists>m \<in> set (delivered_from (Suc f) ms2). announces m r"
  shows "last_value covers val (upto_horizon (horizon st1) (journal st1) @ D) k
       = last_value covers val (held_after (st1, ms1) f (st2, ms2)) k"
proof -
  let ?R = "upto_horizon (horizon st1) (journal st2)"
  have s1: "store_wf digest st1" and f1: "follows (journal st1) ms1" using wf1 by (simp_all add: world_wf_def)
  have s2: "store_wf digest st2" and f2: "follows (journal st2) ms2" using wf2 by (simp_all add: world_wf_def)
  have ord: "in_order (journal st2)" by (rule store_wf_in_order [OF s2])
  have after: "row_sequence x \<le> row_sequence y" if x: "x \<in> set ?R" and y: "y \<in> set D" for x y
  proof -
    have x1: "x \<in> set (journal st1)" using x unfolding kept by simp
    obtain n where n: "row_stream x = Some n" using x horizon_positioned [OF s1] unfolding kept by auto
    have "n \<le> f" using f1 x1 n acked by (auto simp: follows_def positioned_def)
    moreover obtain mx where mx: "mx \<in> set ms2" "m_sequence mx = n" "announces mx x"
      using f2 x n by (auto simp: follows_def positioned_def)
    moreover obtain m where m: "m \<in> set ms2" "Suc f \<le> m_sequence m" "announces m y"
      using D(4) [OF y] by (auto simp: delivered_from_def)
    ultimately have "m_sequence mx < m_sequence m" by simp
    then show ?thesis
      using f2 mx(1,3) m(1,3) x y D(1) unfolding follows_def same_order_def by (simp add: subset_iff)
  qed
  let ?H = "held_after (st1, ms1) f (st2, ms2)"
  have "set ?H \<subseteq> set ?R \<union> set D" "set D \<subseteq> set ?H" "set ?R \<subseteq> set ?H"
    using D(1,3,4) by (fastforce simp: held_after_def delivered_from_def announces_def Suc_le_eq)+
  moreover have "in_order ?H" "in_order ?R" using ord by (simp_all add: held_after_def)
  ultimately have "last_value covers val (?R @ D) k = last_value covers val ?H k"
    using after D(2) by (intro replay_agrees) auto
  then show ?thesis unfolding kept .
qed

lemma handed_cache_rows:
  assumes wf1: "world_wf digest (st1, ms1)" and wf2: "world_wf digest (st2, ms2)"
    and sn: "store_snapshot st1 cap = Inr sn"
    and doc: "snapshot_parse (snapshot_json sn ow' cs) = Inr handed"
    and D: "list_all2 announces (delivered_from n ms2) D" "set D \<subseteq> set (journal st2)"
    and rows: "\<And>k. last_value row_reaches row_state (upto_horizon (horizon st1) (journal st1) @ D) k
       = last_value row_reaches row_state rs k"
  shows "cache_state (fold consume (delivered_from n ms2) (apply_snapshot handed c)) i connection
       = journal_label (\<lambda>i. not_a_person c i = None) rs i connection"
    and "snap_next handed = Suc (horizon_position st1)"
proof -
  have served: "list_all2 (\<lambda>x e. entry_of st1 x = Inr e) (served_rows st1) (sn_entries sn)"
    and position: "sn_stream_sequence sn = horizon_position st1"
    using sn by (simp_all add: store_snapshot_Inr_iff)
  have handed: "handed = \<lparr>snap_entries = [x. Inr x \<leftarrow> map (entry_parse \<circ> entry_json) (sn_entries sn)],
      snap_unusable = [w. Inl w \<leftarrow> map (entry_parse \<circ> entry_json) (sn_entries sn)],
      snap_next = Suc (horizon_position st1)\<rparr>"
    using doc horizon_position_bound [OF wf1] by (simp add: snapshot_parse_json position)
  show "snap_next handed = Suc (horizon_position st1)" by (simp add: handed)
  have nonempty: "c' \<noteq> []" if "(r, c') \<in> set (served_rows st1)" for r c'
  proof -
    have "r \<in> set (journal st1)" "c' \<in> set (row_connections r)"
      using that by (auto simp: consent_snapshot_view_def latest_def scope_rows_def split: if_splits)
    then show ?thesis using wf1 by (auto simp: world_wf_def scoped_row_def)
  qed
  let ?ws = "List.map_filter view_change (served_rows st1)"
  have entries: "map entry_change (snap_entries handed) = ?ws"
    using entry_changes [OF served] nonempty by (simp add: handed del: map_map)
  have ok: "row_ok digest st2 r \<and> scoped_row (registered st2) r" if "r \<in> set D" for r
    using that D(2) wf2 store_wf_row [of digest st2 r] by (auto simp: world_wf_def)
  have stream: "fold consume (delivered_from n ms2) (apply_snapshot handed c)
      = fold apply_change (List.map_filter row_change D) (apply_snapshot handed c)"
    by (rule fold_consume [OF D(1) ok])
  have agree: "last_value change_covers change_new_state (?ws @ List.map_filter row_change D) k
      = map_option consent_of_gstate (last_value row_reaches row_state rs k)" for k
  proof -
    have "last_value change_covers change_new_state (?ws @ List.map_filter row_change D) k
        = map_option consent_of_gstate
            (last_value row_reaches row_state (upto_horizon (horizon st1) (journal st1) @ D) k)"
      unfolding last_value_append served_rows_decide [OF wf1] last_value_row_changes
      by (cases "last_value row_reaches row_state D k") simp_all
    then show ?thesis by (simp add: rows)
  qed
  show "cache_state (fold consume (delivered_from n ms2) (apply_snapshot handed c)) i connection
       = journal_label (\<lambda>i. not_a_person c i = None) rs i connection"
    unfolding stream cache_state_history entries by (rule label_of_journal [OF agree])
qed

lemma rows_kept_in_the_journal:
  assumes "autoincrement sq" and "world_wf digest (st1, ms1)" and "(world_step sq digest)\<^sup>*\<^sup>* (st1, ms1) (st2, ms2)"
  shows "upto_horizon (horizon st1) (journal st2) = upto_horizon (horizon st1) (journal st1)"
proof -
  have s1: "store_wf digest st1" using assms(2) by (simp add: world_wf_def)
  show ?thesis
    by (rule upto_horizon_kept [OF assms(3,1,2) horizon_le_sequence [OF s1]])
       (use horizon_positioned [OF s1] in auto)
qed

lemma handed_cache:
  assumes sq: "autoincrement sq" and w1: "reachable sq digest ow (st1, ms1)"
    and steps: "(world_step sq digest)\<^sup>*\<^sup>* (st1, ms1) (st2, ms2)"
    and sn: "store_snapshot st1 cap = Inr sn"
    and doc: "snapshot_parse (snapshot_json sn ow' cs) = Inr handed"
  shows "cache_state (fold consume (delivered_from (snap_next handed) ms2) (apply_snapshot handed c)) i connection
       = journal_label (\<lambda>i. not_a_person c i = None) (announced st2 ms2) i connection"
proof -
  have wf1: "world_wf digest (st1, ms1)" by (rule reachable_wf [OF w1 sq])
  have wf2: "world_wf digest (st2, ms2)" by (rule world_steps_wf [OF steps sq wf1])
  obtain D where D: "list_all2 announces (delivered_from (Suc (horizon_position st1)) ms2) D"
      "set D \<subseteq> set (journal st2)" "sorted_wrt (\<lambda>r r'. row_sequence r \<le> row_sequence r') D"
      "\<And>m r. m \<in> set (delivered_from (Suc (horizon_position st1)) ms2) \<Longrightarrow> r \<in> set (journal st2) \<Longrightarrow>
          announces m r \<Longrightarrow> r \<in> set D"
      "\<And>r. r \<in> set D \<Longrightarrow> \<exists>m \<in> set (delivered_from (Suc (horizon_position st1)) ms2). announces m r"
    by (rule delivered_rows [OF wf2, of "Suc (horizon_position st1)"]) blast
  note rows = handed_cache_rows [OF wf1 wf2 sn doc D(1,2)
      handed_rows_agree [OF wf1 wf2 rows_kept_in_the_journal [OF sq wf1 steps] D]]
  show ?thesis using rows(1) by (simp add: rows(2))
qed

text \<open>The sample world after its sweep, its snapshot, and a consumer's fresh cache.\<close>

definition sample_snapshot :: "snapshot_refusal + snapshot" where
  "sample_snapshot = store_snapshot (fst sample_world) 10"

definition sample_handed :: "snapshot_error + handed_snapshot" where
  "sample_handed =
     (case sample_snapshot of
        Inl _ \<Rightarrow> Inl NoEntriesArray
      | Inr sn \<Rightarrow> consent_snapshot_parse (snapshot_json sn (gowner_new ''@me:x'' []) sample_registry))"

definition fresh_cache :: consent_cache where
  "fresh_cache = for_people_only (Some (owner_new ''@me:x'' [])) (bots_new [])"

lemma sample_handed_cases:
  obtains sn handed where "store_snapshot (fst sample_world) 10 = Inr sn"
    and "consent_snapshot_parse (snapshot_json sn (gowner_new ''@me:x'' []) sample_registry) = Inr handed"
    and "sample_handed = Inr handed"
proof -
  have "(case sample_handed of Inl _ \<Rightarrow> False | Inr h \<Rightarrow> True)" by code_simp
  then show thesis
    using that unfolding sample_handed_def sample_snapshot_def by (auto split: sum.splits)
qed

section \<open>Properties\<close>







lemma constant_time_eq_iff:
  "length l = length r \<Longrightarrow> constant_time_eq l r \<longleftrightarrow> l = r"
proof -
  assume len: "length l = length r"
  have zero: "Bit_Operations.or a (Bit_Operations.xor x y) = 0 \<longleftrightarrow> a = 0 \<and> x = y" for a x y :: "8 word"
    by (metis bit.xor_self or_eq_0_iff word_bw_comms(3) xor.right_neutral xor.left_commute xor_self_eq)
  have "fold (\<lambda>(l, r) difference. Bit_Operations.or difference (Bit_Operations.xor l r)) (zip l r) a = 0
      \<longleftrightarrow> a = 0 \<and> l = r" for a
    using len by (induction l r arbitrary: a rule: list_induct2) (simp_all add: zero)
  then show ?thesis by (simp add: constant_time_eq_def)
qed

text \<open>
  The snapshot route answers its 401 to everyone but the holder of the service token:
  the comparison that looks at every byte decides equality of the digests, and no store
  is read before it.
\<close>

theorem snapshot_route_is_guarded:
  assumes "\<forall>s. length (digest s) = 32"
  shows "consent_snapshot digest (Some (snapshots_new digest token cap)) authorization consent connections
           \<noteq> ApiError 401 ''unauthenticated''
     \<longleftrightarrow> (\<exists>presented. bearer authorization = Some presented \<and> digest presented = digest token)"
  using assms
  by (auto simp: consent_snapshot_def authenticates_def snapshots_new_def constant_time_eq_iff
           split: option.split sum.split snapshot_refusal.split)

theorem snapshot_route_is_guarded_witness:
  "consent_snapshot (\<lambda>s. replicate 32 (of_nat (length s))) (Some (snapshots_new (\<lambda>s. replicate 32 (of_nat (length s))) ''token'' 9))
     (Some ''BEARER  token '') None [] \<noteq> ApiError 401 ''unauthenticated''"
proof -
  have digest: "\<forall>s :: string. length (replicate 32 (of_nat (length s) :: 8 word)) = 32" by simp
  have "bearer (Some ''BEARER  token '') = Some ''token''" by code_simp
  with snapshot_route_is_guarded [OF digest, of "''token''" 9 "Some ''BEARER  token ''" None "[]"]
  show ?thesis by auto
qed

definition unmarked_world :: "store \<times> message list" where
  "unmarked_world =
     (sample_store, snd (memory_bus consent_subject_name
        (row_event_id (journal sample_store ! 0)) (row_envelope (journal sample_store ! 0)) []))"

definition unmarked_handed :: "snapshot_error + handed_snapshot" where
  "unmarked_handed =
     (case store_snapshot (fst unmarked_world) 10 of
        Inl _ \<Rightarrow> Inl NoEntriesArray
      | Inr sn \<Rightarrow> consent_snapshot_parse (snapshot_json sn (gowner_new ''@me:x'' []) sample_registry))"

lemma unmarked_reachable:
  "reachable bundled_sqlite sample_digest (gowner_new ''@me:x'' []) (fst unmarked_world, snd unmarked_world)"
proof -
  have ord: "in_order (journal sample_store)" using sample_store_wf by (rule store_wf_in_order)
  let ?u = "hd (pending_decisions sample_store)"
  have u: "pending_decisions sample_store = ?u # tl (pending_decisions sample_store)"
    "u_event_id ?u = row_event_id (journal sample_store ! 0)" "u_envelope ?u = row_envelope (journal sample_store ! 0)"
    by code_simp+
  have "stored_or_not consent_subject_name (u_event_id ?u) (u_envelope ?u) [] (snd unmarked_world)"
    using jetstream_memory_bus unfolding u(2,3) unmarked_world_def jetstream_def by (auto split: prod.splits)
  from world_step.Announced [OF u(1) this]
  show ?thesis using sample_reachable by (auto simp: reachable_def unmarked_world_def intro: rtranclp.rtrancl_into_rtrancl)
qed




definition replayed_world :: "store \<times> message list" where
  "replayed_world =
     (run_store_op bundled_sqlite sample_digest
        (Record (sample_decision ''@bob:x'' SPending [''whatsapp'']) ''@me:x'' one_pm ''d'' one_pm)
        (run_store_op bundled_sqlite sample_digest (sample_ops ! 3) (fst sample_world)),
      snd sample_world)"

definition replayed_handed :: "snapshot_error + handed_snapshot" where
  "replayed_handed =
     (case store_snapshot (fst replayed_world) 10 of
        Inl _ \<Rightarrow> Inl NoEntriesArray
      | Inr sn \<Rightarrow> consent_snapshot_parse (snapshot_json sn (gowner_new ''@me:x'' []) sample_registry))"

lemma horizon_all_positioned:
  assumes "store_wf digest st" and "journal st \<noteq> []" and "\<forall>r \<in> set (journal st). row_stream r \<noteq> None"
  shows "\<exists>r \<in> set (journal st). row_sequence r = horizon st \<and> row_stream r = Some (horizon_position st)"
    and "upto_horizon (horizon st) (journal st) = journal st"
proof -
  have none: "filter (\<lambda>r. row_stream r = None) (journal st) = []" using assms(3) by (auto simp: filter_empty_conv)
  obtain s ss where seqs: "map row_sequence (journal st) = s # ss" using assms(2) by (cases "journal st") auto
  have max: "horizon st = Max (row_sequence ` set (journal st))"
  proof -
    have "row_sequence ` set (journal st) = set (s # ss)" using arg_cong [OF seqs, of set] by simp
    then show ?thesis by (simp add: horizon_def none seqs)
  qed
  have "horizon st \<in> row_sequence ` set (journal st)" unfolding max using assms(2) by (intro Max_in) auto
  then obtain r where r: "List.find (\<lambda>r. row_sequence r = horizon st) (journal st) = Some r"
    by (cases "List.find (\<lambda>r. row_sequence r = horizon st) (journal st)") (auto simp: find_None_iff)
  then have "r \<in> set (journal st)" "row_sequence r = horizon st" by (auto simp: find_Some_iff)
  then show "\<exists>r \<in> set (journal st). row_sequence r = horizon st \<and> row_stream r = Some (horizon_position st)"
    using assms(3) r by (intro bexI [of _ r]) (auto simp: horizon_position_def)
  show "upto_horizon (horizon st) (journal st) = journal st" by (simp add: max filter_id_conv)
qed

lemma horizon_before_a_new_row:
  assumes "store_wf digest st" and "\<forall>r \<in> set (journal st). row_stream r \<noteq> None"
    and "journal st' = journal st @ [row]" and "row_stream row = None" and "row_sequence row = Suc n"
    and "sqlite_sequence st < n"
  shows "horizon st' = n" and "horizon_position st' = 0" and "upto_horizon n (journal st') = journal st"
proof -
  have "filter (\<lambda>r. row_stream r = None) (journal st') = [row]" using assms(2,3,4) by (auto simp: filter_empty_conv)
  then show h: "horizon st' = n" by (simp add: horizon_def assms(5))
  have below: "row_sequence r < n" if "r \<in> set (journal st)" for r
    using store_wf_row [OF assms(1) that] assms(6) by (simp add: row_ok_def)
  have "List.find (\<lambda>r. row_sequence r = n) (journal st') = None"
    using below assms(3,5) by (auto simp: find_None_iff)
  then show "horizon_position st' = 0" by (simp add: horizon_position_def h)
  show "upto_horizon n (journal st') = journal st" using below assms(3,5) by (auto simp: filter_id_conv dest: less_imp_le)
qed


lemma store_record_replayed:
  assumes "store_record sq digest d actor at domain produced st = (Inr c, st1)" and "c_replayed c"
  shows "st1 = st\<lparr>sqlite_sequence := after_ignored sq (sqlite_sequence st)\<rparr>"
  using assms by (auto simp: store_record_def Let_def split: sum.splits option.splits if_splits)

lemma store_record_new:
  assumes "store_record sq digest d actor at domain produced st = (Inr c, st1)" and "\<not> c_replayed c"
  obtains row where "st1 = st\<lparr>journal := journal st @ [row], sqlite_sequence := allocate sq (sqlite_sequence st)\<rparr>"
    and "row_stream row = None" and "row_sequence row = allocate sq (sqlite_sequence st)"
  using assms by (auto simp: store_record_def Let_def split: sum.splits option.splits if_splits)

text \<open>
  C4. A repeated decision uses up a sequence number. When every row has its position and a decision
  is repeated, the snapshot taken after the next decision serves the entries it served before, with
  no position in the place of the one of the last row: its horizon is the number no row has. A
  consumer that starts from it is sent the whole stream again over a state that is past it. The
  witness runs one: the grant a revocation ended is in force again meanwhile.
\<close>

theorem replay_makes_the_snapshot_forget_its_position:
  assumes "reachable bundled_sqlite digest ow (st, ms)"
    and "journal st \<noteq> []" and "\<forall>r \<in> set (journal st). row_stream r \<noteq> None"
    and "store_record bundled_sqlite digest d actor at domain produced st = (Inr c, st1)" and "c_replayed c"
    and "store_record bundled_sqlite digest d' actor' at' domain' produced' st1 = (Inr c', st2)" and "\<not> c_replayed c'"
    and "store_snapshot st cap = Inr sn"
  shows "0 < sn_stream_sequence sn \<and> (\<exists>m \<in> set ms. m_sequence m = sn_stream_sequence sn)
    \<and> (\<exists>sn2. store_snapshot st2 cap = Inr sn2 \<and> sn_entries sn2 = sn_entries sn \<and> sn_stream_sequence sn2 = 0
        \<and> (\<forall>handed ms2 k. consent_snapshot_parse (snapshot_json sn2 ow' cs) = Inr handed \<and> stream_wf ms2 \<longrightarrow>
             run_collector (snap_next (handed_state handed)) ms2 k = fold consume (filter consent_message ms2) k))"
proof -
  have world: "world_wf digest (st, ms)" by (rule reachable_wf [OF assms(1) autoincrement_bundled])
  then have wf: "store_wf digest st" by (simp add: world_wf_def)
  have st1: "st1 = st\<lparr>sqlite_sequence := Suc (sqlite_sequence st)\<rparr>"
    using store_record_replayed [OF assms(4,5)] by (simp add: bundled_sqlite_def)
  obtain row where st2: "st2 = st1\<lparr>journal := journal st1 @ [row], sqlite_sequence := allocate bundled_sqlite (sqlite_sequence st1)\<rparr>"
    and row: "row_stream row = None" "row_sequence row = allocate bundled_sqlite (sqlite_sequence st1)"
    using store_record_new [OF assms(6,7)] .
  have j2: "journal st2 = journal st @ [row]" and r2: "row_sequence row = Suc (Suc (sqlite_sequence st))"
    using st2 row(2) by (simp_all add: st1 bundled_sqlite_def)
  note new = horizon_before_a_new_row [OF wf assms(3) j2 row(1) r2 lessI]
  note old = horizon_all_positioned [OF wf assms(2,3)]
  have "consent_snapshot_view st2 = consent_snapshot_view st"
    unfolding consent_snapshot_view_def new(1,3) old(2) by (simp add: st2 st1)
  moreover have "about_owner st2 = about_owner st" "entry_of st2 = entry_of st"
    by (simp_all add: about_owner_def entry_of_def st2 st1 fun_eq_iff)
  ultimately obtain sn2 where sn2: "store_snapshot st2 cap = Inr sn2" "sn_entries sn2 = sn_entries sn" "sn_stream_sequence sn2 = 0"
    using assms(8) by (auto simp: store_snapshot_def new(1,2) result_simps)
  have next_one: "snap_next (handed_state handed) = 1" if "consent_snapshot_parse (snapshot_json sn2 ow' cs) = Inr handed" for handed
    using that sn2(3) by (auto simp: consent_snapshot_parse_def snapshot_parse_json result_simps)
  have whole: "delivered_from 1 ms2 = filter consent_message ms2" if "stream_wf ms2" for ms2
    using that by (auto simp: delivered_from_def stream_wf_def Suc_le_eq intro: filter_cong)
  have position: "sn_stream_sequence sn = horizon_position st" using assms(8) by (simp add: store_snapshot_Inr_iff)
  have "\<exists>m \<in> set ms. m_sequence m = sn_stream_sequence sn \<and> 0 < m_sequence m"
    using old(1) world unfolding position
    by (fastforce simp: world_wf_def follows_def positioned_def stream_wf_def)
  then show ?thesis using sn2 next_one whole by (auto simp: run_collector_def)
qed

theorem replay_makes_the_snapshot_forget_its_position_witness:
  "\<exists>sn sn2. store_snapshot (fst sample_world) 10 = Inr sn \<and> store_snapshot (fst replayed_world) 10 = Inr sn2
     \<and> 0 < sn_stream_sequence sn \<and> sn_stream_sequence sn2 = 0
     \<and> (case replayed_handed of
          Inl _ \<Rightarrow> False
        | Inr handed \<Rightarrow>
            cache_state (apply_snapshot (handed_state handed) fresh_cache) ''@a:x'' ''whatsapp'' = Revoked
            \<and> cache_state (consume (hd (delivered_from (snap_next (handed_state handed)) (snd replayed_world)))
                 (apply_snapshot (handed_state handed) fresh_cache)) ''@a:x'' ''whatsapp'' = Granted)"
proof -
  let ?again = "store_record bundled_sqlite sample_digest (sample_decision ''@a:x'' SRevoked [''whatsapp''])
      ''@me:x'' one_pm ''d'' one_pm (fst sample_world)"
  have "case fst ?again of Inl e \<Rightarrow> False | Inr c \<Rightarrow> c_replayed c" by code_simp
  then obtain c st1 where again: "?again = (Inr c, st1)" "c_replayed c" using outcome_cases by blast
  let ?next = "store_record bundled_sqlite sample_digest (sample_decision ''@bob:x'' SPending [''whatsapp''])
      ''@me:x'' one_pm ''d'' one_pm (snd ?again)"
  have "case fst ?next of Inl e \<Rightarrow> False | Inr c \<Rightarrow> \<not> c_replayed c" by code_simp
  then obtain c' st2 where "?next = (Inr c', st2)" "\<not> c_replayed c'" using outcome_cases by blast
  note new = this [unfolded again(1) snd_conv]
  have st2: "fst replayed_world = st2" using new(1) again(1) by (simp add: replayed_world_def sample_ops_def)
  have "journal (fst sample_world) \<noteq> []" "\<forall>r \<in> set (journal (fst sample_world)). row_stream r \<noteq> None" by code_simp+
  moreover obtain sn where sn: "store_snapshot (fst sample_world) 10 = Inr sn" using sample_handed_cases by blast
  ultimately have "0 < sn_stream_sequence sn \<and> (\<exists>sn2. store_snapshot st2 10 = Inr sn2 \<and> sn_stream_sequence sn2 = 0)"
    using replay_makes_the_snapshot_forget_its_position [OF sample_world_reachable _ _ again new, of 10 sn] by blast
  moreover have "case replayed_handed of
          Inl _ \<Rightarrow> False
        | Inr handed \<Rightarrow>
            cache_state (apply_snapshot (handed_state handed) fresh_cache) ''@a:x'' ''whatsapp'' = Revoked
            \<and> cache_state (consume (hd (delivered_from (snap_next (handed_state handed)) (snd replayed_world)))
                 (apply_snapshot (handed_state handed) fresh_cache)) ''@a:x'' ''whatsapp'' = Granted"
    by code_simp
  ultimately show ?thesis using sn unfolding st2 by blast
qed

end
