(* ===== verification/Bridge_Status.thy ===== *)
theory Bridge_Status
  imports Handoff
begin

text \<open>
  Bridge status (\<^verbatim>\<open>companion-gateway/src/bridge_status.rs\<close> and its tables in \<^verbatim>\<open>store.rs\<close>): the
  reading of a state a mautrix bridge reports, the comparison with the state last
  recorded, the grace during which a state worse than connected is held, and the outbox of
  the transitions. Instants of the monotonic clock are numbers and instants of the wall
  clock are the text they render to; the rendering of a number of seconds is the parameter
  \<open>clk\<close>. A call reads the monotonic clock twice, so it takes two instants. Metrics, log
  lines, the HTTP client of the reconciliation and the sleeping of the sweep are left out.
\<close>

section \<open>Vocabulary\<close>

datatype bridge_event =
    Connecting | Backfilling | EConnected | TransientDisconnect | BadCredentials | UnknownError | LoggedOut

fun bridge_event_as_str :: "bridge_event \<Rightarrow> string" where
  "bridge_event_as_str Connecting = ''CONNECTING''"
| "bridge_event_as_str Backfilling = ''BACKFILLING''"
| "bridge_event_as_str EConnected = ''CONNECTED''"
| "bridge_event_as_str TransientDisconnect = ''TRANSIENT_DISCONNECT''"
| "bridge_event_as_str BadCredentials = ''BAD_CREDENTIALS''"
| "bridge_event_as_str UnknownError = ''UNKNOWN_ERROR''"
| "bridge_event_as_str LoggedOut = ''LOGGED_OUT''"

definition bridge_event_parse :: "string \<Rightarrow> bridge_event option" where
  "bridge_event_parse v =
     (if v = ''CONNECTING'' then Some Connecting
      else if v = ''BACKFILLING'' then Some Backfilling
      else if v = ''CONNECTED'' then Some EConnected
      else if v = ''TRANSIENT_DISCONNECT'' then Some TransientDisconnect
      else if v = ''BAD_CREDENTIALS'' then Some BadCredentials
      else if v = ''UNKNOWN_ERROR'' then Some UnknownError
      else if v = ''LOGGED_OUT'' then Some LoggedOut
      else None)"

interpretation bridge_event: codec bridge_event_as_str bridge_event_parse
proof unfold_locales
  show "bridge_event_parse (bridge_event_as_str x) = Some x" for x
    by (cases x) (simp_all add: bridge_event_parse_def)
  show "s = bridge_event_as_str x" if "bridge_event_parse s = Some x" for s x
    using that by (auto simp: bridge_event_parse_def split: if_splits)
qed

datatype contract_state = Starting | Connected | Degraded | Disconnected | SessionExpired

fun contract_state_as_str :: "contract_state \<Rightarrow> string" where
  "contract_state_as_str Starting = ''starting''"
| "contract_state_as_str Connected = ''connected''"
| "contract_state_as_str Degraded = ''degraded''"
| "contract_state_as_str Disconnected = ''disconnected''"
| "contract_state_as_str SessionExpired = ''session_expired''"

definition contract_state_parse :: "string \<Rightarrow> contract_state option" where
  "contract_state_parse v =
     (if v = ''starting'' then Some Starting
      else if v = ''connected'' then Some Connected
      else if v = ''degraded'' then Some Degraded
      else if v = ''disconnected'' then Some Disconnected
      else if v = ''session_expired'' then Some SessionExpired
      else None)"

interpretation contract_state: codec contract_state_as_str contract_state_parse
proof unfold_locales
  show "contract_state_parse (contract_state_as_str x) = Some x" for x
    by (cases x) (simp_all add: contract_state_parse_def)
  show "s = contract_state_as_str x" if "contract_state_parse s = Some x" for s x
    using that by (auto simp: contract_state_parse_def split: if_splits)
qed

fun contract_state_of :: "bridge_event \<Rightarrow> contract_state" where
  "contract_state_of BadCredentials = SessionExpired"
| "contract_state_of TransientDisconnect = Degraded"
| "contract_state_of Connecting = Starting"
| "contract_state_of Backfilling = Starting"
| "contract_state_of EConnected = Connected"
| "contract_state_of UnknownError = Disconnected"
| "contract_state_of LoggedOut = Disconnected"

definition initial_state :: contract_state where
  "initial_state = Disconnected"

section \<open>The webhook's path\<close>

definition webhook_path :: "string \<Rightarrow> string" where
  "webhook_path b = ''/_twalk/bridges/'' @ b @ ''/status''"

definition webhook_bridge_id :: "string \<Rightarrow> string option" where
  "webhook_bridge_id path =
     Option.bind (strip_prefix ''/_twalk/bridges/'' path) (\<lambda>rest.
     Option.bind (strip_suffix ''/status'' rest) (\<lambda>b.
       if b \<noteq> [] \<and> CHR ''/'' \<notin> set b then Some b else None))"

definition is_reserved_path :: "string \<Rightarrow> bool" where
  "is_reserved_path path \<longleftrightarrow> strip_prefix ''/_twalk/'' path \<noteq> None \<or> path = ''/_twalk''"

definition is_contract_bridge_id :: "string \<Rightarrow> bool" where
  "is_contract_bridge_id v =
     (case strip_prefix ''bridge-'' v of
        None \<Rightarrow> False
      | Some rest \<Rightarrow>
          rest \<noteq> [] \<and> list_all (\<lambda>c. is_ascii_lowercase c \<or> is_ascii_digit c \<or> c = CHR ''-'') rest)"

section \<open>Reading a reported state\<close>

record observed =
  o_state :: contract_state
  o_reported :: "string option"
  o_reason :: "string option"
  o_last_message_at :: "string option"
  o_occurred_at :: string
  o_user_action :: "string option"

datatype observe_error = NotABridgeState | StateEventRequired

definition unwrap_state :: "json \<Rightarrow> json option" where
  "unwrap_state body =
     (if jget body ''state_event'' \<noteq> None then Some body
      else
        Option.bind (Option.bind (case jget body ''remoteState'' of
                                    Some v \<Rightarrow> Some v
                                  | None \<Rightarrow> jget body ''remote_states'') jobj) (\<lambda>remote.
          map_option snd
            (List.find (\<lambda>(_, state). jget state ''state_event'' \<noteq> None) (sort_key fst remote))))"

definition trimmed_str :: "json \<Rightarrow> string option" where
  "trimmed_str j =
     Option.bind (jstr j) (\<lambda>s. if trim s = [] then None else Some (trim s))"

fun cut_at_boundary :: "string \<Rightarrow> nat \<Rightarrow> nat" where
  "cut_at_boundary s 0 = 0"
| "cut_at_boundary s (Suc n) =
     (if Suc n < length s \<and> continues (s ! Suc n) then cut_at_boundary s n else Suc n)"

definition truncate_bytes :: "string \<Rightarrow> nat \<Rightarrow> string" where
  "truncate_bytes v limit = (if length v \<le> limit then v else take (cut_at_boundary v limit) v)"

definition max_reason :: nat where
  "max_reason = 1024"

definition reason_of :: "json \<Rightarrow> string option" where
  "reason_of state =
     map_option (\<lambda>t. truncate_bytes t max_reason)
       (find_map trimmed_str (List.map_filter (jget state) [''message'', ''error'']))"

definition from_unix_seconds :: "(json \<Rightarrow> string option) \<Rightarrow> json \<Rightarrow> string option" where
  "from_unix_seconds clk v =
     (case v of
        JNum n \<Rightarrow> if 0 < n then clk v else None
      | JReal _ \<Rightarrow> clk v
      | _ \<Rightarrow> None)"

definition instant_text :: "(json \<Rightarrow> string option) \<Rightarrow> json \<Rightarrow> string option" where
  "instant_text clk v = (case jstr v of Some _ \<Rightarrow> trimmed_str v | None \<Rightarrow> from_unix_seconds clk v)"

definition timestamp_of :: "(json \<Rightarrow> string option) \<Rightarrow> json \<Rightarrow> string option" where
  "timestamp_of clk state = Option.bind (jget state ''timestamp'') (instant_text clk)"

definition last_message_at_of :: "(json \<Rightarrow> string option) \<Rightarrow> json \<Rightarrow> string option" where
  "last_message_at_of clk state =
     Option.bind (jget state ''info'') (\<lambda>info.
     Option.bind (find_map (jget info) [''last_message_at'', ''last_message_ts'']) (instant_text clk))"

definition observe :: "(json \<Rightarrow> string option) \<Rightarrow> string \<Rightarrow> json \<Rightarrow> observe_error + observed" where
  "observe clk now body =
     and_then (ok_or NotABridgeState (unwrap_state body)) (\<lambda>state.
     and_then (ok_or StateEventRequired (Option.bind (jget state ''state_event'') trimmed_str)) (\<lambda>reported.
       let parsed = bridge_event_parse reported in
       Inr \<lparr>o_state = (case parsed of None \<Rightarrow> Disconnected | Some e \<Rightarrow> contract_state_of e),
            o_reported = map_option bridge_event_as_str parsed,
            o_reason = reason_of state,
            o_last_message_at = last_message_at_of clk state,
            o_occurred_at = (case timestamp_of clk state of None \<Rightarrow> now | Some at \<Rightarrow> at),
            o_user_action = Option.bind (jget state ''user_action'') trimmed_str\<rparr>))"

definition starting :: "string \<Rightarrow> observed" where
  "starting now =
     \<lparr>o_state = Starting, o_reported = None,
      o_reason = Some ''the bridge holds a login and has not reported its state yet'',
      o_last_message_at = None, o_occurred_at = now, o_user_action = None\<rparr>"

definition login_state :: "(json \<Rightarrow> string option) \<Rightarrow> string \<Rightarrow> json \<Rightarrow> observed" where
  "login_state clk now login =
     (case jget login ''state'' of
        None \<Rightarrow> starting now
      | Some state \<Rightarrow>
          if jget state ''state_event'' \<noteq> None
          then (case observe clk now state of Inl _ \<Rightarrow> starting now | Inr ob \<Rightarrow> ob)
          else starting now)"

definition whoami_state :: "(json \<Rightarrow> string option) \<Rightarrow> string \<Rightarrow> json list \<Rightarrow> observed" where
  "whoami_state clk now logins =
     (case logins of
        [] \<Rightarrow> \<lparr>o_state = Disconnected, o_reported = None, o_reason = Some ''the bridge holds no login'',
               o_last_message_at = None, o_occurred_at = now, o_user_action = None\<rparr>
      | login # _ \<Rightarrow> login_state clk now login)"

record linked_login =
  l_login_id :: string
  l_name :: "string option"
  l_profile :: json
  l_state :: contract_state
  l_reported :: "string option"
  l_reason :: "string option"
  l_since :: "string option"

definition linked_login_of :: "(json \<Rightarrow> string option) \<Rightarrow> string \<Rightarrow> json \<Rightarrow> linked_login option" where
  "linked_login_of clk now login =
     Option.bind (Option.bind (case jget login ''id'' of Some v \<Rightarrow> Some v | None \<Rightarrow> jget login ''login_id'')
                    nonempty_str) (\<lambda>i.
       let ob = login_state clk now login in
       Some \<lparr>l_login_id = i, l_name = Option.bind (jget login ''name'') nonempty_str,
             l_profile = (case jget login ''profile'' of None \<Rightarrow> JNull | Some p \<Rightarrow> p),
             l_state = o_state ob, l_reported = o_reported ob, l_reason = o_reason ob,
             l_since = (case Option.bind (jget login ''state'') (timestamp_of clk) of
                          Some at \<Rightarrow> Some at
                        | None \<Rightarrow> Option.bind (jget login ''state_ts'') (from_unix_seconds clk))\<rparr>)"

definition linked_logins :: "(json \<Rightarrow> string option) \<Rightarrow> string \<Rightarrow> json list \<Rightarrow> linked_login list" where
  "linked_logins clk now logins = List.map_filter (linked_login_of clk now) logins"


section \<open>What is read\<close>

lemma cut_at_boundary_le: "cut_at_boundary s n \<le> n"
  by (induction s n rule: cut_at_boundary.induct) auto

lemma cut_at_boundary_stops:
  "cut_at_boundary s n = 0 \<or> \<not> (cut_at_boundary s n < length s \<and> continues (s ! cut_at_boundary s n))"
  by (induction s n rule: cut_at_boundary.induct) auto

lemma truncate_bytes_le: "length (truncate_bytes v n) \<le> n"
  using cut_at_boundary_le [of v n] by (simp add: truncate_bytes_def)

lemma find_map_Some: "find_map f xs = Some y \<Longrightarrow> \<exists>x \<in> set xs. f x = Some y"
  by (induction xs) (auto split: option.splits)

text \<open>
  The reason of an observation fits the contract: it is at most 1024 bytes, it is the
  beginning of the trimmed message or error the bridge sent, the whole of it when that is
  short enough, and it is never cut inside a character.
\<close>

theorem reason_fits_the_contract:
  assumes "observe clk now body = Inr ob" and "o_reason ob = Some r"
  shows "length r \<le> 1024
    \<and> (\<exists>state key t. unwrap_state body = Some state \<and> key \<in> {''message'', ''error''}
         \<and> Option.bind (jget state key) trimmed_str = Some t
         \<and> r = take (length r) t
         \<and> (if length t \<le> 1024 then r = t else r = [] \<or> \<not> continues (t ! length r)))"
proof -
  obtain state where state: "unwrap_state body = Some state" "reason_of state = Some r"
    using assms by (auto simp: observe_def result_simps Let_def)
  then obtain j t where t: "j \<in> set (List.map_filter (jget state) [''message'', ''error''])"
    "trimmed_str j = Some t" "r = truncate_bytes t max_reason"
    by (auto simp: reason_of_def dest: find_map_Some)
  then obtain key where key: "key \<in> {''message'', ''error''}" "jget state key = Some j"
    by (auto simp: List.map_filter_def split: if_splits)
  have "r = take (length r) t"
    by (auto simp: t(3) truncate_bytes_def min_def)
  moreover have "if length t \<le> 1024 then r = t else r = [] \<or> \<not> continues (t ! length r)"
    using cut_at_boundary_stops [of t max_reason] cut_at_boundary_le [of t max_reason]
    by (auto simp: t(3) truncate_bytes_def max_reason_def)
  moreover have "length r \<le> 1024"
    using truncate_bytes_le [of t max_reason] by (simp add: t(3) max_reason_def)
  moreover have "Option.bind (jget state key) trimmed_str = Some t" using key(2) t(2) by simp
  ultimately show ?thesis using state(1) key(1) by blast
qed

theorem reason_fits_the_contract_witness:
  "\<exists>ob. observe (\<lambda>v. None) ''now'' (JObj [(''state_event'', JStr ''BAD_CREDENTIALS''), (''error'', JStr '' gone '')]) = Inr ob
     \<and> o_state ob = SessionExpired \<and> o_reason ob = Some ''gone'' \<and> length ''gone'' \<le> 1024"
proof -
  let ?body = "JObj [(''state_event'', JStr ''BAD_CREDENTIALS''), (''error'', JStr '' gone '')]"
  have "(case observe (\<lambda>v. None) ''now'' ?body of Inl e \<Rightarrow> None | Inr ob \<Rightarrow> Some (o_state ob, o_reason ob))
      = Some (SessionExpired, Some ''gone'')" by code_simp
  then obtain ob where ob: "observe (\<lambda>v. None) ''now'' ?body = Inr ob" "o_state ob = SessionExpired"
    "o_reason ob = Some ''gone''" by (auto split: sum.splits)
  from reason_fits_the_contract [OF ob(1,3)] ob show ?thesis by blast
qed

text \<open>
  Nothing is taken for a connection but the bridge's own word: an observation is
  connected only when the state that was read says \<^verbatim>\<open>CONNECTED\<close>, whether it was pushed or
  answered to the startup question. A state this build does not know, a login without a
  state and a bridge without a login are something else.
\<close>

theorem connected_only_when_the_bridge_says_so:
  "((case observe clk now body of Inl e \<Rightarrow> False | Inr ob \<Rightarrow> o_state ob = Connected) \<longleftrightarrow>
     (\<exists>state. unwrap_state body = Some state
        \<and> Option.bind (jget state ''state_event'') trimmed_str = Some ''CONNECTED''))
   \<and> (o_state (whoami_state clk now logins) = Connected \<longleftrightarrow>
     (\<exists>login rest state. logins = login # rest \<and> jget login ''state'' = Some state
        \<and> Option.bind (jget state ''state_event'') trimmed_str = Some ''CONNECTED''))"
proof -
  have said: "(case observe clk now j of Inl e \<Rightarrow> False | Inr ob \<Rightarrow> o_state ob = Connected) \<longleftrightarrow>
     (\<exists>state. unwrap_state j = Some state
        \<and> Option.bind (jget state ''state_event'') trimmed_str = Some ''CONNECTED'')" for j
  proof -
    have "(case bridge_event_parse e of None \<Rightarrow> Disconnected | Some x \<Rightarrow> contract_state_of x) = Connected
        \<longleftrightarrow> e = ''CONNECTED''" for e
      by (auto simp: bridge_event_parse_def)
    then show ?thesis
      by (cases "unwrap_state j"; cases "Option.bind (jget (the (unwrap_state j)) ''state_event'') trimmed_str")
         (auto simp: observe_def Let_def)
  qed
  have login: "o_state (login_state clk now login) = Connected \<longleftrightarrow>
     (\<exists>state. jget login ''state'' = Some state
        \<and> Option.bind (jget state ''state_event'') trimmed_str = Some ''CONNECTED'')" for login
  proof (cases "jget login ''state''")
    case (Some j)
    show ?thesis
    proof (cases "jget j ''state_event''")
      case (Some v)
      then have "unwrap_state j = Some j" by (simp add: unwrap_state_def)
      with said [of j] Some \<open>jget login ''state'' = Some j\<close> show ?thesis
        by (cases "observe clk now j") (simp_all add: login_state_def starting_def)
    qed (simp add: Some login_state_def starting_def)
  qed (simp add: login_state_def starting_def)
  show ?thesis
  proof
    show "(case observe clk now body of Inl e \<Rightarrow> False | Inr ob \<Rightarrow> o_state ob = Connected) \<longleftrightarrow>
     (\<exists>state. unwrap_state body = Some state
        \<and> Option.bind (jget state ''state_event'') trimmed_str = Some ''CONNECTED'')" by (rule said)
    show "o_state (whoami_state clk now logins) = Connected \<longleftrightarrow>
     (\<exists>login rest state. logins = login # rest \<and> jget login ''state'' = Some state
        \<and> Option.bind (jget state ''state_event'') trimmed_str = Some ''CONNECTED'')"
      by (cases logins) (simp_all add: whoami_state_def login)
  qed
qed

text \<open>
  The webhook's path names its bridge and no other path does: a path reads as a
  bridge's exactly when it is the one written for it, the id being one segment.
\<close>

theorem webhook_path_round_trip:
  "(webhook_bridge_id path = Some b \<longleftrightarrow> path = webhook_path b \<and> b \<noteq> [] \<and> CHR ''/'' \<notin> set b)
   \<and> is_reserved_path (webhook_path b)"
proof
  have suffix: "strip_suffix p s = Some r \<longleftrightarrow> s = r @ p" for p s r
  proof -
    have "strip_suffix p s = Some r \<longleftrightarrow> strip_prefix (rev p) (rev s) = Some (rev r)"
      by (auto simp: strip_suffix_def)
    also have "\<dots> \<longleftrightarrow> rev s = rev p @ rev r" by (rule strip_prefix_Some_iff)
    also have "\<dots> \<longleftrightarrow> s = r @ p" by (simp flip: rev_append)
    finally show ?thesis .
  qed
  show "webhook_bridge_id path = Some b \<longleftrightarrow> path = webhook_path b \<and> b \<noteq> [] \<and> CHR ''/'' \<notin> set b"
    unfolding webhook_bridge_id_def webhook_path_def
    by (auto simp: bind_eq_Some_conv strip_prefix_Some_iff suffix simp del: strip_prefix.simps split: if_splits)
  show "is_reserved_path (webhook_path b)"
    by (simp add: is_reserved_path_def webhook_path_def)
qed

end
