(* ===== verification/Bridge_Journal.thy ===== *)
theory Bridge_Journal
  imports Bridge_Status
begin

text \<open>
  The transitions of a bridge as they are kept and announced
  (\<^verbatim>\<open>Transition\<close> of \<^verbatim>\<open>companion-gateway/src/bridge_status.rs\<close>, the table
  \<^verbatim>\<open>bridge_status_change\<close> of \<^verbatim>\<open>store.rs\<close> and the second loop of \<^verbatim>\<open>outbox.rs\<close>). The table is a list of
  rows in insertion order, the current state of a bridge is read off its last row, and the
  table is drained by the loop that drains the decisions, of which \<open>status_table\<close> is the
  second interpretation.
\<close>

section \<open>A transition, its id and its envelope\<close>

record transition =
  t_bridge_id :: string
  t_network :: network
  t_from_state :: contract_state
  t_to_state :: contract_state
  t_occurred_at :: string
  t_reason :: "string option"
  t_last_message_at :: "string option"

definition transition_key :: "transition \<Rightarrow> string" where
  "transition_key t =
     t_bridge_id t @ '':'' @ contract_state_as_str (t_to_state t) @ '':'' @ t_occurred_at t"

definition transition_id :: "(string \<Rightarrow> 8 word list) \<Rightarrow> transition \<Rightarrow> string" where
  "transition_id digest t = concat (map hex_byte (digest (transition_key t)))"

definition bridge_status_changed_type :: string where
  "bridge_status_changed_type = ''fr.linagora.twalk.bridge.status.changed.v1''"

definition transition_envelope ::
  "(string \<Rightarrow> 8 word list) \<Rightarrow> transition \<Rightarrow> string \<Rightarrow> string \<Rightarrow> json" where
  "transition_envelope digest t domain produced_at =
     (let data = JObj
            [(''bridge_id'', JStr (t_bridge_id t)),
             (''network'', JStr (network_as_str (t_network t))),
             (''from_state'', JStr (contract_state_as_str (t_from_state t))),
             (''to_state'', JStr (contract_state_as_str (t_to_state t))),
             (''occurred_at'', JStr (t_occurred_at t))];
          data = (case t_reason t of None \<Rightarrow> data | Some r \<Rightarrow> jset data ''reason'' (JStr r));
          data = (case t_last_message_at t of
                    None \<Rightarrow> data | Some at \<Rightarrow> jset data ''last_message_at'' (JStr at))
      in JObj
           [(''specversion'', JStr ''1.0''),
            (''id'', JStr (transition_id digest t)),
            (''source'', JStr (''gateway://'' @ domain @ ''/bridges/'' @ t_bridge_id t)),
            (''type'', JStr bridge_status_changed_type),
            (''time'', JStr produced_at),
            (''subject'', JStr (t_bridge_id t)),
            (''datacontenttype'', JStr ''application/json''),
            (''dataschema'', JStr (''https://schemas.twalk.dev/cloudevents/v1/''
               @ ''bridge.status.changed.schema.json'')),
            (''network'', JStr (network_as_str (t_network t))),
            (''data'', data)])"

section \<open>The table\<close>

record status_row =
  s_sequence :: nat
  s_event_id :: string
  s_transition :: transition
  s_envelope :: json
  s_published_at :: "string option"
  s_stream :: "nat option"

record status_store =
  status_rows :: "status_row list"
  status_counter :: nat

definition status_store_open :: status_store where
  "status_store_open = \<lparr>status_rows = [], status_counter = 0\<rparr>"

abbreviation row_bridge :: "status_row \<Rightarrow> string" where
  "row_bridge r \<equiv> t_bridge_id (s_transition r)"

text \<open>
  \<^verbatim>\<open>bridge_status_current\<close>: the row with the largest sequence of each bridge.
\<close>

definition bridge_status_current :: "status_store \<Rightarrow> status_row list" where
  "bridge_status_current ss =
     filter (\<lambda>r. \<not> list_ex (\<lambda>r'. row_bridge r' = row_bridge r \<and> s_sequence r < s_sequence r')
                      (status_rows ss)) (status_rows ss)"

definition bridge_status :: "status_store \<Rightarrow> string \<Rightarrow> contract_state option" where
  "bridge_status ss b =
     map_option (\<lambda>r. t_to_state (s_transition r))
       (List.find (\<lambda>r. row_bridge r = b) (bridge_status_current ss))"

record status_committed =
  sc_sequence :: nat
  sc_event_id :: string
  sc_replayed :: bool

definition record_bridge_status ::
  "rowids \<Rightarrow> (string \<Rightarrow> 8 word list) \<Rightarrow> transition \<Rightarrow> string \<Rightarrow> string \<Rightarrow> status_store
    \<Rightarrow> status_committed \<times> status_store" where
  "record_bridge_status sq digest t domain produced_at ss =
     (let eid = transition_id digest t in
      case List.find (\<lambda>r. s_event_id r = eid) (status_rows ss) of
        Some kept \<Rightarrow>
          (\<lparr>sc_sequence = s_sequence kept, sc_event_id = eid, sc_replayed = True\<rparr>,
           ss\<lparr>status_counter := after_ignored sq (status_counter ss)\<rparr>)
      | None \<Rightarrow>
          let s = allocate sq (status_counter ss);
              row = \<lparr>s_sequence = s, s_event_id = eid, s_transition = t,
                     s_envelope = transition_envelope digest t domain produced_at,
                     s_published_at = None, s_stream = None\<rparr>
          in (\<lparr>sc_sequence = s, sc_event_id = eid, sc_replayed = False\<rparr>,
              ss\<lparr>status_rows := status_rows ss @ [row], status_counter := s\<rparr>))"

definition waiting_status :: "status_row \<Rightarrow> waiting_row" where
  "waiting_status r = \<lparr>u_sequence = s_sequence r, u_event_id = s_event_id r, u_envelope = s_envelope r\<rparr>"

definition unpublished_bridge_status :: "status_store \<Rightarrow> nat \<Rightarrow> waiting_row list" where
  "unpublished_bridge_status ss limit =
     map waiting_status
       (take limit (sort_key s_sequence (filter (\<lambda>r. s_published_at r = None) (status_rows ss))))"

definition unpublished_bridge_status_count :: "status_store \<Rightarrow> nat" where
  "unpublished_bridge_status_count ss = length (filter (\<lambda>r. s_published_at r = None) (status_rows ss))"

definition mark_status_row :: "nat \<Rightarrow> string \<Rightarrow> nat \<Rightarrow> status_row \<Rightarrow> status_row" where
  "mark_status_row i at n r =
     (if s_sequence r = i \<and> s_published_at r = None
      then r\<lparr>s_published_at := Some at, s_stream := Some (min n (2 ^ 63 - 1))\<rparr> else r)"

definition mark_bridge_status_published ::
  "nat \<Rightarrow> string \<Rightarrow> nat \<Rightarrow> status_store \<Rightarrow> status_store" where
  "mark_bridge_status_published i at n ss =
     ss\<lparr>status_rows := map (mark_status_row i at n) (status_rows ss)\<rparr>"

section \<open>Draining\<close>

definition bridge_subject_name :: string where
  "bridge_subject_name = ''twalk.bridge.status.changed.v1''"

definition drain_bridge_status ::
  "'b publish \<Rightarrow> (nat \<Rightarrow> string) \<Rightarrow> status_store \<times> 'b \<Rightarrow> bool \<times> status_store \<times> 'b" where
  "drain_bridge_status publish now = (\<lambda>(ss, b).
     drain_rows publish mark_bridge_status_published now bridge_subject_name
       (unpublished_bridge_status ss drain_batch) (ss, b))"

lemma bridge_subject_name: "bus_subject bridge_status_changed_type = Some bridge_subject_name"
  by code_simp


section \<open>What the table keeps\<close>

definition rows_in_order :: "status_row list \<Rightarrow> bool" where
  "rows_in_order rs \<longleftrightarrow> sorted_wrt (\<lambda>r r'. s_sequence r < s_sequence r') rs"

lemma rows_in_order_append:
  "rows_in_order (rs @ [r]) \<longleftrightarrow> rows_in_order rs \<and> (\<forall>x \<in> set rs. s_sequence x < s_sequence r)"
  by (auto simp: rows_in_order_def sorted_wrt_append)

lemma rows_in_order_filter [simp]: "rows_in_order rs \<Longrightarrow> rows_in_order (filter p rs)"
  by (auto simp: rows_in_order_def sorted_wrt_filter)

definition status_wf :: "(string \<Rightarrow> 8 word list) \<Rightarrow> status_store \<Rightarrow> bool" where
  "status_wf digest ss \<longleftrightarrow>
     rows_in_order (status_rows ss)
     \<and> (\<forall>r \<in> set (status_rows ss). s_sequence r \<le> status_counter ss
          \<and> s_event_id r = transition_id digest (s_transition r))
     \<and> distinct (map s_event_id (status_rows ss))"

lemma status_wf_open: "status_wf digest status_store_open"
  by (simp add: status_wf_def status_store_open_def rows_in_order_def)

lemma find_event_id:
  "status_wf digest ss \<Longrightarrow>
     List.find (\<lambda>r. s_event_id r = i) (status_rows ss) = None
     \<longleftrightarrow> i \<notin> (\<lambda>r. transition_id digest (s_transition r)) ` set (status_rows ss)"
  by (auto simp: find_None_iff status_wf_def)

definition new_status_row ::
  "rowids \<Rightarrow> (string \<Rightarrow> 8 word list) \<Rightarrow> transition \<Rightarrow> string \<Rightarrow> string \<Rightarrow> status_store \<Rightarrow> status_row" where
  "new_status_row sq digest t domain at ss =
     \<lparr>s_sequence = allocate sq (status_counter ss), s_event_id = transition_id digest t, s_transition = t,
      s_envelope = transition_envelope digest t domain at, s_published_at = None, s_stream = None\<rparr>"

lemma record_fresh:
  assumes "status_wf digest ss" and "transition_id digest t \<notin> transition_id digest ` s_transition ` set (status_rows ss)"
  shows "record_bridge_status sq digest t domain at ss =
     (\<lparr>sc_sequence = allocate sq (status_counter ss), sc_event_id = transition_id digest t, sc_replayed = False\<rparr>,
      \<lparr>status_rows = status_rows ss @ [new_status_row sq digest t domain at ss],
       status_counter = allocate sq (status_counter ss)\<rparr>)"
proof -
  have "List.find (\<lambda>r. s_event_id r = transition_id digest t) (status_rows ss) = None"
    using assms by (auto simp: find_event_id image_image)
  then show ?thesis
    by (simp add: record_bridge_status_def new_status_row_def Let_def)
qed

lemma record_replayed:
  assumes "status_wf digest ss" and "transition_id digest t \<in> transition_id digest ` s_transition ` set (status_rows ss)"
  shows "sc_replayed (fst (record_bridge_status sq digest t domain at ss))
     \<and> snd (record_bridge_status sq digest t domain at ss)
         = ss\<lparr>status_counter := after_ignored sq (status_counter ss)\<rparr>"
proof -
  have "List.find (\<lambda>r. s_event_id r = transition_id digest t) (status_rows ss) \<noteq> None"
    using assms by (auto simp: find_event_id image_image)
  then show ?thesis
    by (auto simp: record_bridge_status_def Let_def)
qed

lemma status_wf_record:
  assumes wf: "status_wf digest ss" and sq: "autoincrement sq"
  shows "status_wf digest (snd (record_bridge_status sq digest t domain at ss))"
proof (cases "transition_id digest t \<in> transition_id digest ` s_transition ` set (status_rows ss)")
  case False
  have lt: "status_counter ss < allocate sq (status_counter ss)" using sq by (simp add: autoincrement_def)
  have "\<forall>x \<in> set (status_rows ss). s_event_id x \<noteq> transition_id digest t"
    using wf False unfolding status_wf_def by (metis imageI)
  then show ?thesis
    unfolding record_fresh [OF wf False]
    using wf lt by (force simp: status_wf_def rows_in_order_append new_status_row_def)
next
  case True
  have "status_counter ss \<le> after_ignored sq (status_counter ss)" using sq by (simp add: autoincrement_def)
  then show ?thesis
    using wf record_replayed [OF wf True] by (auto simp: status_wf_def)
qed

lemma mark_status_row_keeps [simp]:
  "s_sequence (mark_status_row i at n r) = s_sequence r"
  "s_event_id (mark_status_row i at n r) = s_event_id r"
  "s_transition (mark_status_row i at n r) = s_transition r"
  "s_envelope (mark_status_row i at n r) = s_envelope r"
  by (simp_all add: mark_status_row_def)

lemma rows_in_order_mark [simp]: "rows_in_order (map (mark_status_row i at n) rs) = rows_in_order rs"
  by (simp add: rows_in_order_def sorted_wrt_map)

lemma status_wf_mark:
  "status_wf digest ss \<Longrightarrow> status_wf digest (mark_bridge_status_published i at n ss)"
  by (auto simp: status_wf_def mark_bridge_status_published_def comp_def)

section \<open>The current state is the last transition\<close>

definition last_transition :: "status_row list \<Rightarrow> string \<Rightarrow> transition option" where
  "last_transition rs b = List.find (\<lambda>t. t_bridge_id t = b) (rev (map s_transition rs))"

lemma find_append: "List.find p (xs @ ys) = (case List.find p xs of None \<Rightarrow> List.find p ys | Some x \<Rightarrow> Some x)"
  by (induction xs) simp_all

lemma last_transition_append [simp]:
  "last_transition (rs @ [r]) b =
     (if t_bridge_id (s_transition r) = b then Some (s_transition r) else last_transition rs b)"
  by (simp add: last_transition_def)

lemma last_transition_Nil [simp]: "last_transition [] b = None"
  by (simp add: last_transition_def)

definition current_rows :: "status_row list \<Rightarrow> status_row list" where
  "current_rows rs =
     filter (\<lambda>r. \<not> list_ex (\<lambda>r'. row_bridge r' = row_bridge r \<and> s_sequence r < s_sequence r') rs) rs"

lemma current_rows_append:
  assumes "rows_in_order (rs @ [r])"
  shows "current_rows (rs @ [r]) = filter (\<lambda>x. row_bridge x \<noteq> row_bridge r) (current_rows rs) @ [r]"
proof -
  have below: "s_sequence x < s_sequence r" if "x \<in> set rs" for x
    using assms that by (simp add: rows_in_order_append)
  then have "filter (\<lambda>x. \<not> list_ex (\<lambda>r'. row_bridge r' = row_bridge x \<and> s_sequence x < s_sequence r') (rs @ [r])) rs
      = filter (\<lambda>x. row_bridge x \<noteq> row_bridge r) (current_rows rs)"
    unfolding current_rows_def filter_filter by (intro filter_cong) auto
  moreover have "\<not> list_ex (\<lambda>r'. row_bridge r' = row_bridge r \<and> s_sequence r < s_sequence r') (rs @ [r])"
    using below by (fastforce simp: list_ex_iff)
  ultimately show ?thesis by (simp add: current_rows_def)
qed

lemma bridge_status_last:
  assumes "rows_in_order (status_rows ss)"
  shows "bridge_status ss b = map_option t_to_state (last_transition (status_rows ss) b)"
proof -
  have "map_option s_transition (List.find (\<lambda>r. row_bridge r = b) (current_rows rs)) = last_transition rs b"
    if "rows_in_order rs" for rs
    using that
  proof (induction rs rule: rev_induct)
    case Nil
    show ?case by (simp add: current_rows_def)
  next
    case (snoc r rs)
    have "List.find (\<lambda>x. row_bridge x = b) (filter (\<lambda>x. row_bridge x \<noteq> row_bridge r) xs)
        = (if row_bridge r = b then None else List.find (\<lambda>x. row_bridge x = b) xs)" for xs
      by (induction xs) auto
    with snoc show ?case
      by (auto simp: current_rows_append [OF snoc.prems] find_append rows_in_order_append
          split: option.split)
  qed
  from this [OF assms]
  have "map_option t_to_state (map_option s_transition (List.find (\<lambda>r. row_bridge r = b) (current_rows (status_rows ss))))
      = map_option t_to_state (last_transition (status_rows ss) b)"
    by simp
  then show ?thesis
    by (simp add: bridge_status_def bridge_status_current_def current_rows_def option.map_comp comp_def)
qed

section \<open>The table as an outbox\<close>

definition pending_statuses :: "status_store \<Rightarrow> waiting_row list" where
  "pending_statuses ss = map waiting_status (filter (\<lambda>r. s_published_at r = None) (status_rows ss))"

lemma rows_in_order_sorted: "rows_in_order rs \<Longrightarrow> sort_key s_sequence rs = rs"
proof -
  assume "rows_in_order rs"
  then have "sorted (map s_sequence rs)"
    by (auto simp: rows_in_order_def sorted_map less_imp_le elim!: sorted_wrt_mono_rel [rotated])
  then show ?thesis by (rule sort_key_id_if_sorted)
qed

lemma unpublished_statuses_pending:
  "rows_in_order (status_rows ss) \<Longrightarrow> unpublished_bridge_status ss n = take n (pending_statuses ss)"
  by (simp add: unpublished_bridge_status_def pending_statuses_def rows_in_order_sorted take_map)

interpretation status_table: outbox_table pending_statuses mark_bridge_status_published
  "\<lambda>ss. rows_in_order (status_rows ss)"
proof unfold_locales
  fix ss :: status_store and u us at n
  assume ord: "rows_in_order (status_rows ss)" and pending: "pending_statuses ss = u # us"
  then obtain r rest where r: "filter (\<lambda>r. s_published_at r = None) (status_rows ss) = r # rest"
    "u = waiting_status r" "us = map waiting_status rest"
    by (auto simp: pending_statuses_def)
  have "filter (\<lambda>r. s_published_at r = None) (map (mark_status_row (s_sequence r) at n) (status_rows ss)) = rest"
    by (rule filter_mark_head [OF ord [unfolded rows_in_order_def] r(1)]) (auto simp: mark_status_row_def)
  then show "pending_statuses (mark_bridge_status_published (u_sequence u) at n ss) = us"
    using r by (simp add: pending_statuses_def mark_bridge_status_published_def waiting_status_def)
next
  fix ss :: status_store and i at n
  assume "rows_in_order (status_rows ss)"
  then show "rows_in_order (status_rows (mark_bridge_status_published i at n ss))"
    by (simp add: mark_bridge_status_published_def)
qed

section \<open>The id of a transition\<close>

lemma contract_label_no_colon: "CHR '':'' \<notin> set (contract_state_as_str s)"
  by (cases s) simp_all

lemma colon_split: "a @ [c] @ x = b @ [c] @ y \<Longrightarrow> c \<notin> set a \<Longrightarrow> c \<notin> set b \<Longrightarrow> a = b \<and> x = y"
proof (induction a arbitrary: b)
  case Nil
  then show ?case by (cases b) auto
next
  case (Cons d a)
  then show ?case by (cases b) auto
qed

lemma transition_key_inj:
  assumes "CHR '':'' \<notin> set (t_bridge_id t)" and "CHR '':'' \<notin> set (t_bridge_id u)"
  shows "transition_key t = transition_key u \<longleftrightarrow>
     t_bridge_id t = t_bridge_id u \<and> t_to_state t = t_to_state u \<and> t_occurred_at t = t_occurred_at u"
proof
  assume eq: "transition_key t = transition_key u"
  then have a: "t_bridge_id t = t_bridge_id u"
    and b: "contract_state_as_str (t_to_state t) @ '':'' @ t_occurred_at t
          = contract_state_as_str (t_to_state u) @ '':'' @ t_occurred_at u"
    using colon_split [OF _ assms] by (auto simp: transition_key_def)
  from colon_split [OF b contract_label_no_colon contract_label_no_colon] a
  show "t_bridge_id t = t_bridge_id u \<and> t_to_state t = t_to_state u \<and> t_occurred_at t = t_occurred_at u"
    by (simp add: contract_state.as_str_inj)
qed (simp add: transition_key_def)

lemma contract_bridge_id_no_colon: "is_contract_bridge_id i \<Longrightarrow> CHR '':'' \<notin> set i"
  by (auto simp: is_contract_bridge_id_def strip_prefix_Some_iff list_all_iff is_ascii_lowercase_def
      is_ascii_digit_def split: option.splits)


lemma status_drain_takes_the_oldest_first:
  assumes "status_wf digest ss" and "drain_bridge_status publish now (ss, b) = (finished, ss', b')"
  shows "\<exists>us vs. take drain_batch (pending_statuses ss) = us @ vs
     \<and> pending_statuses ss' = vs @ drop drain_batch (pending_statuses ss)
     \<and> (finished \<longleftrightarrow> vs = [])"
proof -
  have ord: "rows_in_order (status_rows ss)" using assms(1) by (simp add: status_wf_def)
  have "drain_rows publish mark_bridge_status_published now bridge_subject_name
      (take drain_batch (pending_statuses ss)) (ss, b) = (finished, ss', b')"
    using assms(2) by (simp add: drain_bridge_status_def unpublished_statuses_pending [OF ord])
  from status_table.drain_rows_prefix [OF ord _ this] show ?thesis by simp
qed

lemma drain_keeps_transitions:
  "map s_transition (status_rows (fst (snd (drain_rows publish mark_bridge_status_published now subject us (ss, b)))))
     = map s_transition (status_rows ss)"
  by (induction us arbitrary: ss b)
     (simp_all add: mark_bridge_status_published_def comp_def split: prod.split option.split)

end
