(* ===== verification/Ordered_Maps.thy ===== *)
theory Ordered_Maps
  imports Prelude
begin

text \<open>
  \<^verbatim>\<open>BTreeMap\<close>: the entries in the order of the keys, with the insertion that replaces and the
  removal that keeps the order. What it answers is \<^const>\<open>map_of\<close>.
\<close>

fun btree_insert :: "'k :: linorder \<Rightarrow> 'v \<Rightarrow> ('k \<times> 'v) list \<Rightarrow> ('k \<times> 'v) list" where
  "btree_insert k v [] = [(k, v)]"
| "btree_insert k v ((k', v') # m) =
     (if k = k' then (k, v) # m
      else if k < k' then (k, v) # (k', v') # m
      else (k', v') # btree_insert k v m)"

definition btree_remove :: "'k \<Rightarrow> ('k \<times> 'v) list \<Rightarrow> ('k \<times> 'v) list" where
  "btree_remove k m = filter (\<lambda>e. fst e \<noteq> k) m"

definition keys_ok :: "('k :: linorder \<times> 'v) list \<Rightarrow> bool" where
  "keys_ok m \<longleftrightarrow> sorted_wrt (<) (map fst m)"

lemma map_of_btree_insert [simp]: "map_of (btree_insert k v m) = (map_of m)(k \<mapsto> v)"
  by (induction k v m rule: btree_insert.induct) auto

lemma keys_btree_insert [simp]: "fst ` set (btree_insert k v m) = insert k (fst ` set m)"
  by (induction k v m rule: btree_insert.induct) auto

lemma map_of_btree_remove [simp]: "map_of (btree_remove k m) = (map_of m)(k := None)"
  by (induction m) (auto simp: btree_remove_def)

lemma keys_ok_insert: "keys_ok m \<Longrightarrow> keys_ok (btree_insert k v m)"
proof (induction k v m rule: btree_insert.induct)
  case (2 k v k' v' m)
  then have "\<forall>x \<in> fst ` set m. k' < x" by (simp add: keys_ok_def)
  moreover have "k' < k" if "k \<noteq> k'" "\<not> k < k'" using that by (metis neqE)
  ultimately show ?case
    using 2 keys_btree_insert [of k v m] by (auto simp: keys_ok_def)
qed (simp add: keys_ok_def)

lemma keys_ok_filter: "keys_ok m \<Longrightarrow> keys_ok (filter p m)"
  unfolding keys_ok_def by (induction m) auto

lemma keys_ok_remove: "keys_ok m \<Longrightarrow> keys_ok (btree_remove k m)"
  by (simp add: btree_remove_def keys_ok_filter)

lemma keys_ok_distinct: "keys_ok m \<Longrightarrow> distinct (map fst m)"
  by (simp add: keys_ok_def strict_sorted_iff)

lemma btree_remove_insert:
  "keys_ok m \<Longrightarrow> map_of m k = None \<Longrightarrow> btree_remove k (btree_insert k v m) = m"
proof (induction k v m rule: btree_insert.induct)
  case (2 k v k' v' m)
  have "filter (\<lambda>e. fst e \<noteq> k) m = m"
    using 2(3) by (intro filter_True) (auto simp: map_of_eq_None_iff split: if_splits)
  with 2 show ?case by (auto simp: btree_remove_def keys_ok_def split: if_splits)
qed (simp add: btree_remove_def)

lemma map_of_filter_value:
  "distinct (map fst m) \<Longrightarrow>
     map_of (filter (\<lambda>(k, v). p v) m) k = (case map_of m k of None \<Rightarrow> None | Some v \<Rightarrow> if p v then Some v else None)"
  by (induction m) (auto split: option.split simp: map_of_eq_None_iff image_iff)

lemma mem_btree_insert: "e \<in> set (btree_insert k v m) \<Longrightarrow> e = (k, v) \<or> e \<in> set m"
  by (induction k v m rule: btree_insert.induct) (auto split: if_splits)

text \<open>\<^verbatim>\<open>collect()\<close> into a map: later entries replace earlier ones.\<close>

definition btree_collect :: "('k :: linorder \<times> 'v) list \<Rightarrow> ('k \<times> 'v) list" where
  "btree_collect xs = fold (\<lambda>(k, v). btree_insert k v) xs []"

lemma keys_ok_collect: "keys_ok (btree_collect xs)"
proof -
  have "keys_ok m \<Longrightarrow> keys_ok (fold (\<lambda>(k, v). btree_insert k v) xs m)" for m
    by (induction xs arbitrary: m) (auto simp: keys_ok_insert)
  then show ?thesis by (simp add: btree_collect_def keys_ok_def)
qed

lemma btree_insert_last: "\<forall>x \<in> set m. fst x < k \<Longrightarrow> btree_insert k v m = m @ [(k, v)]"
  by (induction k v m rule: btree_insert.induct) auto

lemma btree_collect_id:
  assumes "keys_ok m"
  shows "btree_collect m = m"
proof -
  have "fold (\<lambda>(k, v). btree_insert k v) xs ys = ys @ xs" if "keys_ok (ys @ xs)" for xs ys :: "('a \<times> 'b) list"
    using that
  proof (induction xs arbitrary: ys)
    case (Cons x xs)
    then have "\<forall>y \<in> set ys. fst y < fst x" by (auto simp: keys_ok_def sorted_wrt_append)
    then have "btree_insert (fst x) (snd x) ys = ys @ [x]" by (simp add: btree_insert_last)
    with Cons.IH [of "ys @ [x]"] Cons.prems show ?case by (simp add: case_prod_unfold)
  qed simp
  from this [of "[]" m] assms show ?thesis by (simp add: btree_collect_def)
qed

end
