(* ===== verification/Bridge_Grace.thy ===== *)
theory Bridge_Grace
  imports Bridge_Journal Ordered_Maps
begin

text \<open>
  The decision a reported state goes through (\<^verbatim>\<open>Statuses\<close> of
  \<^verbatim>\<open>companion-gateway/src/bridge_status.rs\<close>): a state worse than connected is held for the
  grace, cancelled when the bridge comes back inside it, and recorded when the grace runs
  out. \<open>desk\<close> is the mutable state, the map of the held transitions and the table. The
  decision lock makes every operation a step. What a step sees of its surroundings is a
  \<open>moment\<close>: the two instants it reads, the wall clock, and whether the database answers.
\<close>

section \<open>Bridges and their tokens\<close>

record status_config =
  cfg_bridge_id :: string
  cfg_status_bridge_id :: string
  cfg_network :: string
  cfg_as_token :: "string option"

record status_bridge =
  sb_bridge_id :: string
  sb_instance_id :: string
  sb_network :: network
  sb_as_token_sha256 :: "8 word list option"

definition has_as_token :: "status_bridge \<Rightarrow> bool" where
  "has_as_token b \<longleftrightarrow> sb_as_token_sha256 b \<noteq> None"

definition bridge_authenticates :: "(string \<Rightarrow> 8 word list) \<Rightarrow> status_bridge \<Rightarrow> string \<Rightarrow> bool" where
  "bridge_authenticates digest b presented =
     (case sb_as_token_sha256 b of
        None \<Rightarrow> False
      | Some expected \<Rightarrow> constant_time_eq (digest presented) expected)"

datatype status_refusal =
    UnknownBridge string
  | NoAsToken string
  | Unauthenticated
  | InvalidPush observe_error
  | StatusStoreFailed

fun status_refusal_label :: "status_refusal \<Rightarrow> string" where
  "status_refusal_label (UnknownBridge b) = ''unknown_bridge''"
| "status_refusal_label (NoAsToken b) = ''as_token_not_configured''"
| "status_refusal_label Unauthenticated = ''unauthenticated''"
| "status_refusal_label (InvalidPush e) = ''invalid_request''"
| "status_refusal_label StatusStoreFailed = ''store_unavailable''"

datatype statuses_error = NotAContractId string | TwoBridgesUnderOneId string | UnknownNetwork string

record statuses =
  sts_bridges :: "status_bridge list"
  sts_domain :: string
  sts_grace :: nat

definition add_bridge ::
  "(string \<Rightarrow> 8 word list) \<Rightarrow> status_config \<Rightarrow> status_bridge list \<Rightarrow> statuses_error + status_bridge list" where
  "add_bridge digest c bs =
     (if \<not> is_contract_bridge_id (cfg_status_bridge_id c) then Inl (NotAContractId (cfg_status_bridge_id c))
      else if list_ex (\<lambda>b. sb_bridge_id b = cfg_status_bridge_id c) bs
      then Inl (TwoBridgesUnderOneId (cfg_status_bridge_id c))
      else and_then (ok_or (UnknownNetwork (cfg_network c)) (network_parse (cfg_network c))) (\<lambda>n.
        Inr (bs @ [\<lparr>sb_bridge_id = cfg_status_bridge_id c, sb_instance_id = cfg_bridge_id c,
                    sb_network = n, sb_as_token_sha256 = map_option digest (cfg_as_token c)\<rparr>])))"

fun add_bridges ::
  "(string \<Rightarrow> 8 word list) \<Rightarrow> status_config list \<Rightarrow> status_bridge list \<Rightarrow> statuses_error + status_bridge list" where
  "add_bridges digest [] bs = Inr bs"
| "add_bridges digest (c # cs) bs = and_then (add_bridge digest c bs) (add_bridges digest cs)"

definition statuses_new ::
  "(string \<Rightarrow> 8 word list) \<Rightarrow> status_config list \<Rightarrow> string \<Rightarrow> nat \<Rightarrow> statuses_error + statuses" where
  "statuses_new digest configured domain grace =
     and_then (add_bridges digest configured []) (\<lambda>bs.
       Inr \<lparr>sts_bridges = bs, sts_domain = domain, sts_grace = grace\<rparr>)"

definition status_bridge_of :: "statuses \<Rightarrow> string \<Rightarrow> status_bridge option" where
  "status_bridge_of sts i = List.find (\<lambda>b. sb_bridge_id b = i) (sts_bridges sts)"

section \<open>The desk\<close>

record held =
  h_transition :: transition
  h_deadline :: nat
  h_channel :: string

text \<open>A \<^verbatim>\<open>BTreeMap\<close> is its entries in the order of the keys.\<close>

record desk =
  waiting :: "(string \<times> held) list"
  table :: status_store

record moment =
  flush_at :: nat
  decide_at :: nat
  wall :: string
  produced :: "transition \<Rightarrow> string"
  refuses :: "transition \<Rightarrow> bool"
  unreadable :: bool

definition desk_open :: "status_store \<Rightarrow> desk" where
  "desk_open ss = \<lparr>waiting = [], table = ss\<rparr>"

section \<open>Holding, settling, flushing\<close>

definition hold :: "statuses \<Rightarrow> nat \<Rightarrow> transition \<Rightarrow> string \<Rightarrow> desk \<Rightarrow> desk" where
  "hold sts now t channel dk =
     dk\<lparr>waiting :=
       (case map_of (waiting dk) (t_bridge_id t) of
          Some w \<Rightarrow>
            btree_insert (t_bridge_id t)
              (w\<lparr>h_transition := (h_transition w)\<lparr>t_to_state := t_to_state t, t_reason := t_reason t,
                                                  t_last_message_at := t_last_message_at t\<rparr>\<rparr>) (waiting dk)
        | None \<Rightarrow>
            btree_insert (t_bridge_id t)
              \<lparr>h_transition = t, h_deadline = now + sts_grace sts, h_channel = channel\<rparr> (waiting dk))\<rparr>"

definition settled :: "nat \<Rightarrow> string \<Rightarrow> desk \<Rightarrow> bool \<times> desk" where
  "settled now b dk =
     (case map_of (waiting dk) b of
        Some w \<Rightarrow> if now < h_deadline w then (True, dk\<lparr>waiting := btree_remove b (waiting dk)\<rparr>) else (False, dk)
      | None \<Rightarrow> (False, dk))"

definition outbox_record_status ::
  "rowids \<Rightarrow> (string \<Rightarrow> 8 word list) \<Rightarrow> string \<Rightarrow> moment \<Rightarrow> transition \<Rightarrow> status_store
    \<Rightarrow> (unit + status_committed) \<times> status_store" where
  "outbox_record_status sq digest domain mo t ss =
     (if refuses mo t then (Inl (), ss)
      else (case record_bridge_status sq digest t domain (produced mo t) ss of (c, ss') \<Rightarrow> (Inr c, ss')))"

definition flush_one ::
  "rowids \<Rightarrow> (string \<Rightarrow> 8 word list) \<Rightarrow> string \<Rightarrow> moment \<Rightarrow> held \<Rightarrow> transition list \<times> desk
    \<Rightarrow> transition list \<times> desk" where
  "flush_one sq digest domain mo w = (\<lambda>(published, dk).
     case outbox_record_status sq digest domain mo (h_transition w) (table dk) of
       (Inr c, ss) \<Rightarrow>
         (if sc_replayed c then published else published @ [h_transition w], dk\<lparr>table := ss\<rparr>)
     | (Inl _, ss) \<Rightarrow>
         let b = t_bridge_id (h_transition w);
             dk = dk\<lparr>table := ss\<rparr>
         in (published,
             if map_of (waiting dk) b = None
             then dk\<lparr>waiting := btree_insert b (w\<lparr>h_deadline := flush_at mo\<rparr>) (waiting dk)\<rparr> else dk))"

definition flush_due ::
  "rowids \<Rightarrow> (string \<Rightarrow> 8 word list) \<Rightarrow> string \<Rightarrow> moment \<Rightarrow> desk \<Rightarrow> transition list \<times> desk" where
  "flush_due sq digest domain mo dk =
     (let due = filter (\<lambda>(b, w). h_deadline w \<le> flush_at mo) (waiting dk);
          rest = filter (\<lambda>(b, w). \<not> h_deadline w \<le> flush_at mo) (waiting dk)
      in fold (\<lambda>(b, w). flush_one sq digest domain mo w) due ([], dk\<lparr>waiting := rest\<rparr>))"

definition flush_held ::
  "rowids \<Rightarrow> (string \<Rightarrow> 8 word list) \<Rightarrow> statuses \<Rightarrow> moment \<Rightarrow> desk \<Rightarrow> transition list \<times> desk" where
  "flush_held sq digest sts mo dk = flush_due sq digest (sts_domain sts) mo dk"

section \<open>Deciding\<close>

definition transition_of :: "status_bridge \<Rightarrow> contract_state \<Rightarrow> observed \<Rightarrow> transition" where
  "transition_of b from_state ob =
     \<lparr>t_bridge_id = sb_bridge_id b, t_network = sb_network b, t_from_state = from_state,
      t_to_state = o_state ob, t_occurred_at = o_occurred_at ob, t_reason = o_reason ob,
      t_last_message_at = o_last_message_at ob\<rparr>"

definition recorded_state :: "status_store \<Rightarrow> string \<Rightarrow> contract_state" where
  "recorded_state ss b = (case bridge_status ss b of None \<Rightarrow> initial_state | Some s \<Rightarrow> s)"

definition decide ::
  "rowids \<Rightarrow> (string \<Rightarrow> 8 word list) \<Rightarrow> statuses \<Rightarrow> moment \<Rightarrow> status_bridge \<Rightarrow> observed \<Rightarrow> string
    \<Rightarrow> desk \<Rightarrow> (unit + transition option) \<times> desk" where
  "decide sq digest sts mo b ob channel dk0 =
     (let dk = snd (flush_due sq digest (sts_domain sts) mo dk0) in
      if unreadable mo then (Inl (), dk)
      else
        let from_state = recorded_state (table dk) (sb_bridge_id b) in
        if from_state = o_state ob then (Inr None, snd (settled (decide_at mo) (sb_bridge_id b) dk))
        else
          let t = transition_of b from_state ob in
          if o_state ob \<noteq> Connected \<and> sts_grace sts \<noteq> 0
          then (Inr None, hold sts (decide_at mo) t channel dk)
          else
            let dk' = snd (settled (decide_at mo) (sb_bridge_id b) dk) in
            case outbox_record_status sq digest (sts_domain sts) mo t (table dk') of
              (Inl _, ss) \<Rightarrow> (Inl (), dk'\<lparr>table := ss\<rparr>)
            | (Inr _, ss) \<Rightarrow> (Inr (Some t), dk'\<lparr>table := ss\<rparr>))"

definition push ::
  "rowids \<Rightarrow> (string \<Rightarrow> 8 word list) \<Rightarrow> (json \<Rightarrow> string option) \<Rightarrow> statuses \<Rightarrow> moment \<Rightarrow> string
    \<Rightarrow> string option \<Rightarrow> json \<Rightarrow> desk \<Rightarrow> (status_refusal + transition option) \<times> desk" where
  "push sq digest clk sts mo i presented body dk =
     (case status_bridge_of sts i of
        None \<Rightarrow> (Inl (UnknownBridge i), dk)
      | Some b \<Rightarrow>
          if \<not> has_as_token b then (Inl (NoAsToken i), dk)
          else if \<not> (case presented of None \<Rightarrow> False | Some token \<Rightarrow> bridge_authenticates digest b token)
          then (Inl Unauthenticated, dk)
          else
            case observe clk (wall mo) body of
              Inl detail \<Rightarrow> (Inl (InvalidPush detail), dk)
            | Inr ob \<Rightarrow>
                (case decide sq digest sts mo b ob ''webhook'' dk of
                   (Inl _, dk') \<Rightarrow> (Inl StatusStoreFailed, dk')
                 | (Inr t, dk') \<Rightarrow> (Inr t, dk')))"

text \<open>
  \<^verbatim>\<open>reconcile\<close>, over what each bridge's \<^verbatim>\<open>whoami\<close> answers (\<open>None\<close> when it was refused) and
  the moment of each decision.
\<close>

fun reconcile ::
  "rowids \<Rightarrow> (string \<Rightarrow> 8 word list) \<Rightarrow> (json \<Rightarrow> string option) \<Rightarrow> statuses
    \<Rightarrow> (status_bridge \<Rightarrow> json list option) \<Rightarrow> (status_bridge \<Rightarrow> moment) \<Rightarrow> status_bridge list \<Rightarrow> desk \<Rightarrow> desk" where
  "reconcile sq digest clk sts whoami at [] dk = dk"
| "reconcile sq digest clk sts whoami at (b # bs) dk =
     reconcile sq digest clk sts whoami at bs
       (case whoami b of
          None \<Rightarrow> dk
        | Some logins \<Rightarrow>
            snd (decide sq digest sts (at b) b (whoami_state clk (wall (at b)) logins) ''startup'' dk))"

section \<open>The webhook\<close>

datatype webhook_answer = NoContent | WebhookError nat string

fun webhook_refused :: "status_refusal \<Rightarrow> webhook_answer" where
  "webhook_refused (UnknownBridge b) = WebhookError 404 ''unknown_bridge''"
| "webhook_refused (NoAsToken b) = WebhookError 503 ''as_token_not_configured''"
| "webhook_refused Unauthenticated = WebhookError 401 ''unauthenticated''"
| "webhook_refused (InvalidPush e) = WebhookError 400 ''invalid_request''"
| "webhook_refused StatusStoreFailed = WebhookError 500 ''store_unavailable''"

text \<open>The body is the reading of the request's text, which \<^verbatim>\<open>serde_json\<close> does: \<open>None\<close> when it fails.\<close>

definition status_webhook ::
  "rowids \<Rightarrow> (string \<Rightarrow> 8 word list) \<Rightarrow> (json \<Rightarrow> string option) \<Rightarrow> statuses option \<Rightarrow> moment \<Rightarrow> string
    \<Rightarrow> string option \<Rightarrow> json option \<Rightarrow> desk \<Rightarrow> webhook_answer \<times> desk" where
  "status_webhook sq digest clk gateway mo i authorization body dk =
     (case gateway of
        None \<Rightarrow> (WebhookError 503 ''bridge_status_not_configured'', dk)
      | Some sts \<Rightarrow>
          (case body of
             None \<Rightarrow> (WebhookError 400 ''invalid_request'', dk)
           | Some parsed \<Rightarrow>
               (case push sq digest clk sts mo i (bearer authorization) parsed dk of
                  (Inr _, dk') \<Rightarrow> (NoContent, dk')
                | (Inl refusal, dk') \<Rightarrow> (webhook_refused refusal, dk'))))"


section \<open>What a bridge was last told to be\<close>

definition state_after :: "status_row list \<Rightarrow> string \<Rightarrow> contract_state" where
  "state_after rs b = (case last_transition rs b of None \<Rightarrow> initial_state | Some t \<Rightarrow> t_to_state t)"

lemma recorded_state_after:
  "status_wf digest ss \<Longrightarrow> recorded_state ss b = state_after (status_rows ss) b"
  by (simp add: recorded_state_def state_after_def bridge_status_last status_wf_def split: option.split)

lemma state_after_append [simp]:
  "state_after (rs @ [r]) b = (if row_bridge r = b then t_to_state (s_transition r) else state_after rs b)"
  by (simp add: state_after_def)

definition chained :: "status_row list \<Rightarrow> bool" where
  "chained rs \<longleftrightarrow>
     (\<forall>us r vs. rs = us @ r # vs \<longrightarrow>
        t_from_state (s_transition r) = state_after us (row_bridge r)
        \<and> t_to_state (s_transition r) \<noteq> t_from_state (s_transition r))"

lemma chained_Nil [simp]: "chained []"
  by (simp add: chained_def)

lemma chained_append [simp]:
  "chained (rs @ [r]) \<longleftrightarrow> chained rs
     \<and> t_from_state (s_transition r) = state_after rs (row_bridge r)
     \<and> t_to_state (s_transition r) \<noteq> t_from_state (s_transition r)"
proof
  assume "chained (rs @ [r])"
  then show "chained rs
     \<and> t_from_state (s_transition r) = state_after rs (row_bridge r)
     \<and> t_to_state (s_transition r) \<noteq> t_from_state (s_transition r)"
    unfolding chained_def by (metis append.assoc append_Cons)
next
  assume r: "chained rs
     \<and> t_from_state (s_transition r) = state_after rs (row_bridge r)
     \<and> t_to_state (s_transition r) \<noteq> t_from_state (s_transition r)"
  show "chained (rs @ [r])"
    unfolding chained_def
  proof (intro allI impI)
    fix us x vs
    assume "rs @ [r] = us @ x # vs"
    then have "us = rs \<and> x = r \<or> (\<exists>ws. rs = us @ x # ws)"
      by (cases vs rule: rev_cases) auto
    with r show "t_from_state (s_transition x) = state_after us (row_bridge x)
        \<and> t_to_state (s_transition x) \<noteq> t_from_state (s_transition x)"
      by (auto simp: chained_def)
  qed
qed

definition stamp :: "transition \<Rightarrow> string \<times> string" where
  "stamp t = (t_bridge_id t, t_occurred_at t)"

definition row_stamps :: "status_store \<Rightarrow> (string \<times> string) set" where
  "row_stamps ss = (stamp \<circ> s_transition) ` set (status_rows ss)"

definition hold_stamps :: "(string \<times> held) list \<Rightarrow> (string \<times> string) set" where
  "hold_stamps m = (stamp \<circ> h_transition \<circ> snd) ` set m"

definition stamps :: "desk \<Rightarrow> (string \<times> string) set" where
  "stamps dk = row_stamps (table dk) \<union> hold_stamps (waiting dk)"

definition hold_ok :: "status_store \<Rightarrow> string \<times> held \<Rightarrow> bool" where
  "hold_ok ss = (\<lambda>(b, w).
     t_bridge_id (h_transition w) = b
     \<and> t_from_state (h_transition w) = recorded_state ss b
     \<and> t_to_state (h_transition w) \<noteq> t_from_state (h_transition w)
     \<and> t_to_state (h_transition w) \<noteq> Connected
     \<and> stamp (h_transition w) \<notin> row_stamps ss)"

definition desk_ok :: "(string \<Rightarrow> 8 word list) \<Rightarrow> desk \<Rightarrow> bool" where
  "desk_ok digest dk \<longleftrightarrow>
     keys_ok (waiting dk) \<and> status_wf digest (table dk) \<and> chained (status_rows (table dk))
     \<and> (\<forall>e \<in> set (waiting dk). hold_ok (table dk) e)"

definition heading :: "desk \<Rightarrow> string \<Rightarrow> contract_state" where
  "heading dk b =
     (case map_of (waiting dk) b of
        Some w \<Rightarrow> t_to_state (h_transition w)
      | None \<Rightarrow> recorded_state (table dk) b)"

definition apart :: "(string \<Rightarrow> 8 word list) \<Rightarrow> (string \<times> string) set \<Rightarrow> bool" where
  "apart digest S \<longleftrightarrow>
     (\<forall>t u. stamp t \<in> S \<and> stamp u \<in> S \<and> transition_id digest t = transition_id digest u
        \<longrightarrow> stamp t = stamp u)"

lemma apart_mono: "apart digest S \<Longrightarrow> T \<subseteq> S \<Longrightarrow> apart digest T"
  unfolding apart_def by blast

lemma apart_unrecorded:
  assumes "apart digest S" and "insert (stamp t) (row_stamps ss) \<subseteq> S" and "stamp t \<notin> row_stamps ss"
  shows "transition_id digest t \<notin> transition_id digest ` s_transition ` set (status_rows ss)"
proof
  assume "transition_id digest t \<in> transition_id digest ` s_transition ` set (status_rows ss)"
  then obtain r where r: "r \<in> set (status_rows ss)"
    "transition_id digest t = transition_id digest (s_transition r)" by blast
  then have "stamp (s_transition r) \<in> row_stamps ss" by (auto simp: row_stamps_def)
  with assms r show False unfolding apart_def by (metis insert_subset subsetD)
qed


section \<open>One write\<close>

lemma record_new:
  assumes wf: "status_wf digest ss" and sq: "autoincrement sq"
    and ap: "apart digest S" and S: "insert (stamp t) (row_stamps ss) \<subseteq> S" and new: "stamp t \<notin> row_stamps ss"
    and res: "record_bridge_status sq digest t domain at ss = (c, ss')"
  shows "\<not> sc_replayed c" and "status_wf digest ss'"
    and "row_stamps ss' = insert (stamp t) (row_stamps ss)"
    and "recorded_state ss' b = (if b = t_bridge_id t then t_to_state t else recorded_state ss b)"
    and "chained (status_rows ss) \<Longrightarrow> t_from_state t = recorded_state ss (t_bridge_id t) \<Longrightarrow>
         t_to_state t \<noteq> t_from_state t \<Longrightarrow> chained (status_rows ss')"
    and "hold_ok ss (k, w) \<Longrightarrow> k \<noteq> t_bridge_id t \<Longrightarrow> hold_ok ss' (k, w)"
proof -
  note fresh = record_fresh [OF wf apart_unrecorded [OF ap S new], of sq domain at]
  have rows: "status_rows ss' = status_rows ss @ [new_status_row sq digest t domain at ss]"
    and c: "\<not> sc_replayed c"
    using fresh res by auto
  have t: "s_transition (new_status_row sq digest t domain at ss) = t" by (simp add: new_status_row_def)
  have wf': "status_wf digest ss'"
    using status_wf_record [OF wf sq, of t domain at] res by simp
  show "\<not> sc_replayed c" "status_wf digest ss'" by (fact c wf')+
  show stamps: "row_stamps ss' = insert (stamp t) (row_stamps ss)" by (simp add: row_stamps_def rows t)
  have state: "recorded_state ss' k = (if k = t_bridge_id t then t_to_state t else recorded_state ss k)" for k
    by (auto simp: recorded_state_after [OF wf] recorded_state_after [OF wf'] rows t)
  show "recorded_state ss' b = (if b = t_bridge_id t then t_to_state t else recorded_state ss b)"
    by (rule state)
  show "chained (status_rows ss')" if "chained (status_rows ss)"
      "t_from_state t = recorded_state ss (t_bridge_id t)" "t_to_state t \<noteq> t_from_state t"
    using that by (simp add: rows t recorded_state_after [OF wf])
  show "hold_ok ss' (k, w)" if "hold_ok ss (k, w)" "k \<noteq> t_bridge_id t"
    using that by (simp add: hold_ok_def stamps state) (auto simp: stamp_def)
qed

section \<open>One flush\<close>

lemma flush_one_ok:
  assumes ok: "desk_ok digest dk" and sq: "autoincrement sq" and w: "hold_ok (table dk) (b, w)"
    and b: "b \<notin> fst ` set (waiting dk)"
    and ap: "apart digest S" and S: "insert (stamp (h_transition w)) (stamps dk) \<subseteq> S"
    and res: "flush_one sq digest domain mo w (published, dk) = (published', dk')"
  shows "desk_ok digest dk'"
    and "heading dk' k = (if k = b then t_to_state (h_transition w) else heading dk k)"
    and "stamps dk' = insert (stamp (h_transition w)) (stamps dk)"
    and "fst ` set (waiting dk') \<subseteq> insert b (fst ` set (waiting dk))"
    and "hold_ok (table dk) e \<Longrightarrow> fst e \<noteq> b \<Longrightarrow> hold_ok (table dk') e"
    and "\<not> refuses mo (h_transition w) \<Longrightarrow> waiting dk' = waiting dk \<and> published' = published @ [h_transition w]"
proof -
  let ?t = "h_transition w"
  have tb: "t_bridge_id ?t = b" and new: "stamp ?t \<notin> row_stamps (table dk)"
    using w by (simp_all add: hold_ok_def)
  have free: "map_of (waiting dk) b = None" using b by (simp add: map_of_eq_None_iff)
  have S': "insert (stamp ?t) (row_stamps (table dk)) \<subseteq> S" using S by (auto simp: stamps_def)
  have wf: "status_wf digest (table dk)" using ok by (simp add: desk_ok_def)
  obtain c ss where rec: "record_bridge_status sq digest ?t domain (produced mo ?t) (table dk) = (c, ss)"
    by fastforce
  note step = record_new [OF wf sq ap S' new rec]
  let ?again = "w\<lparr>h_deadline := flush_at mo\<rparr>"
  have outcome: "(published', dk') =
      (if refuses mo ?t then (published, dk\<lparr>waiting := btree_insert b ?again (waiting dk)\<rparr>)
       else (published @ [?t], dk\<lparr>table := ss\<rparr>))"
    using res step(1)
    by (cases "refuses mo ?t") (auto simp: flush_one_def outbox_record_status_def rec tb free)
  have again: "hold_ok (table dk) (b, ?again)" using w by (auto simp: hold_ok_def)
  show "desk_ok digest dk'"
  proof (cases "refuses mo ?t")
    case True
    then show ?thesis
      using ok again outcome by (auto simp: desk_ok_def keys_ok_insert dest: mem_btree_insert)
  next
    case False
    have "hold_ok ss e" if "e \<in> set (waiting dk)" for e
    proof -
      have "fst e \<noteq> b" "hold_ok (table dk) e" using that b ok by (auto simp: desk_ok_def)
      then show ?thesis using step(6) [of "fst e" "snd e"] tb by simp
    qed
    with False show ?thesis
      using ok outcome step(2,5) w tb by (auto simp: desk_ok_def hold_ok_def)
  qed
  show "heading dk' k = (if k = b then t_to_state ?t else heading dk k)"
    using outcome step(4) [of k] tb free by (auto simp: heading_def split: option.split if_splits)
  show "stamps dk' = insert (stamp ?t) (stamps dk)"
  proof (cases "refuses mo ?t")
    case True
    have "hold_stamps (btree_insert b ?again m) = insert (stamp ?t) (hold_stamps m)" if "b \<notin> fst ` set m" for m
      using that
      by (induction b ?again m rule: btree_insert.induct) (auto simp: hold_stamps_def)
    with True b outcome show ?thesis by (simp add: stamps_def)
  next
    case False
    with outcome step(3) show ?thesis by (auto simp: stamps_def)
  qed
  show "fst ` set (waiting dk') \<subseteq> insert b (fst ` set (waiting dk))"
    using outcome by (auto split: if_splits)
  show "hold_ok (table dk') e" if "hold_ok (table dk) e" "fst e \<noteq> b"
    using that outcome step(6) [of "fst e" "snd e"] tb by (auto split: if_splits)
  show "waiting dk' = waiting dk \<and> published' = published @ [?t]" if "\<not> refuses mo ?t"
    using that outcome by simp
qed

lemma flush_fold:
  assumes "desk_ok digest dk" and "autoincrement sq" and "distinct (map fst due)"
    and "fst ` set due \<inter> fst ` set (waiting dk) = {}" and "\<forall>e \<in> set due. hold_ok (table dk) e"
    and "apart digest S" and "stamps dk \<union> hold_stamps due \<subseteq> S"
    and "fold (\<lambda>(b, w). flush_one sq digest domain mo w) due (published, dk) = (published', dk')"
  shows "desk_ok digest dk'
    \<and> (\<forall>k. heading dk' k = (case map_of due k of None \<Rightarrow> heading dk k | Some w \<Rightarrow> t_to_state (h_transition w)))
    \<and> stamps dk' = stamps dk \<union> hold_stamps due
    \<and> ((\<forall>e \<in> set due. \<not> refuses mo (h_transition (snd e))) \<longrightarrow>
         waiting dk' = waiting dk \<and> published' = published @ map (h_transition \<circ> snd) due)"
  using assms
proof (induction due arbitrary: published dk)
  case Nil
  then show ?case by (simp add: hold_stamps_def)
next
  case (Cons e due)
  obtain b w where e: "e = (b, w)" by fastforce
  obtain published1 dk1 where one: "flush_one sq digest domain mo w (published, dk) = (published1, dk1)"
    by fastforce
  have w: "hold_ok (table dk) (b, w)" "b \<notin> fst ` set (waiting dk)"
    "insert (stamp (h_transition w)) (stamps dk) \<subseteq> S"
    using Cons.prems by (auto simp: e hold_stamps_def)
  note step = flush_one_ok [OF Cons.prems(1,2) w(1,2) Cons.prems(6) w(3) one]
  have distinct: "distinct (map fst due)" "b \<notin> fst ` set due" using Cons.prems(3) by (auto simp: e)
  have disjoint: "fst ` set due \<inter> fst ` set (waiting dk1) = {}"
    using step(4) distinct(2) Cons.prems(4) unfolding e by simp blast
  have holds: "\<forall>x \<in> set due. hold_ok (table dk1) x"
    using step(5) distinct(2) Cons.prems(5) by (metis imageI list.set_intros(2))
  have stamps: "stamps dk1 \<union> hold_stamps due \<subseteq> S"
    using step(3) Cons.prems(7) by (auto simp: e hold_stamps_def)
  have rest: "fold (\<lambda>(b, w). flush_one sq digest domain mo w) due (published1, dk1) = (published', dk')"
    using Cons.prems(8) by (simp add: e one)
  note IH = Cons.IH [OF step(1) Cons.prems(2) distinct(1) disjoint holds Cons.prems(6) stamps rest]
  have b: "map_of due b = None" using distinct(2) by (simp add: map_of_eq_None_iff)
  show ?case
    using IH step(2,3,6) b by (auto simp: e hold_stamps_def split: option.split)
qed


lemma hold_stamps_split: "hold_stamps (filter p m) \<union> hold_stamps (filter (\<lambda>e. \<not> p e) m) = hold_stamps m"
  by (auto simp: hold_stamps_def)

lemma flush_due_ok:
  assumes ok: "desk_ok digest dk" and sq: "autoincrement sq" and ap: "apart digest S" and S: "stamps dk \<subseteq> S"
    and res: "flush_due sq digest domain mo dk = (published, dk')"
  shows "desk_ok digest dk'" and "heading dk' = heading dk" and "stamps dk' = stamps dk"
    and "\<forall>e \<in> set (waiting dk). \<not> refuses mo (h_transition (snd e)) \<Longrightarrow>
           waiting dk' = filter (\<lambda>(b, w). \<not> h_deadline w \<le> flush_at mo) (waiting dk)
           \<and> published = map (h_transition \<circ> snd) (filter (\<lambda>(b, w). h_deadline w \<le> flush_at mo) (waiting dk))"
proof -
  let ?p = "\<lambda>w. h_deadline w \<le> flush_at mo"
  let ?due = "filter (\<lambda>(b, w). ?p w) (waiting dk)"
  let ?rest = "filter (\<lambda>(b, w). \<not> ?p w) (waiting dk)"
  let ?dk = "dk\<lparr>waiting := ?rest\<rparr>"
  have keys: "distinct (map fst (waiting dk))" using ok by (simp add: desk_ok_def keys_ok_distinct)
  have ok': "desk_ok digest ?dk" using ok by (auto simp: desk_ok_def keys_ok_filter)
  have split: "hold_stamps ?due \<union> hold_stamps ?rest = hold_stamps (waiting dk)"
    using hold_stamps_split [of "\<lambda>(b, w). ?p w" "waiting dk"] by (simp add: case_prod_unfold)
  have due: "distinct (map fst ?due)" using keys by (rule distinct_map_filter)
  have apart: "fst ` set ?due \<inter> fst ` set (waiting ?dk) = {}"
    using keys by (auto simp: distinct_map inj_on_def)
  have holds: "\<forall>e \<in> set ?due. hold_ok (table ?dk) e" using ok by (auto simp: desk_ok_def)
  have "stamps ?dk \<union> hold_stamps ?due = stamps dk" using split by (auto simp: stamps_def)
  with S have S': "stamps ?dk \<union> hold_stamps ?due \<subseteq> S" by simp
  have "fold (\<lambda>(b, w). flush_one sq digest domain mo w) ?due ([], ?dk) = (published, dk')"
    using res by (simp add: flush_due_def)
  note f = flush_fold [OF ok' sq due apart holds ap S' this]
  show "desk_ok digest dk'" using f by blast
  show "stamps dk' = stamps dk" using f \<open>stamps ?dk \<union> hold_stamps ?due = stamps dk\<close> by simp
  show "heading dk' = heading dk"
  proof
    fix k
    have "heading dk' k = (case map_of ?due k of None \<Rightarrow> heading ?dk k | Some w \<Rightarrow> t_to_state (h_transition w))"
      using f by blast
    also have "\<dots> = heading dk k"
      by (simp add: heading_def map_of_filter_value [OF keys] split: option.split)
    finally show "heading dk' k = heading dk k" .
  qed
  assume "\<forall>e \<in> set (waiting dk). \<not> refuses mo (h_transition (snd e))"
  then have "\<forall>e \<in> set ?due. \<not> refuses mo (h_transition (snd e))" by auto
  with f show "waiting dk' = ?rest \<and> published = map (h_transition \<circ> snd) ?due" by simp
qed

section \<open>One decision\<close>

definition in_window :: "nat \<Rightarrow> string \<Rightarrow> desk \<Rightarrow> bool" where
  "in_window now b dk =
     (case map_of (waiting dk) b of None \<Rightarrow> True | Some w \<Rightarrow> now < h_deadline w)"

lemma settled_in_window:
  assumes "in_window now b dk"
  shows "snd (settled now b dk) = dk\<lparr>waiting := btree_remove b (waiting dk)\<rparr>"
proof (cases "map_of (waiting dk) b")
  case None
  then have "btree_remove b (waiting dk) = waiting dk"
    unfolding btree_remove_def by (intro filter_True) (auto simp: map_of_eq_None_iff)
  then show ?thesis using None by (simp add: settled_def)
next
  case (Some w)
  then show ?thesis using assms by (simp add: settled_def in_window_def)
qed

lemma hold_stamps_remove: "hold_stamps (btree_remove b m) \<subseteq> hold_stamps m"
  by (auto simp: hold_stamps_def btree_remove_def)

lemma desk_ok_remove: "desk_ok digest dk \<Longrightarrow> desk_ok digest (dk\<lparr>waiting := btree_remove b (waiting dk)\<rparr>)"
  by (auto simp: desk_ok_def keys_ok_remove) (simp add: btree_remove_def)

definition decide_flushed ::
  "rowids \<Rightarrow> (string \<Rightarrow> 8 word list) \<Rightarrow> statuses \<Rightarrow> moment \<Rightarrow> status_bridge \<Rightarrow> observed \<Rightarrow> string
    \<Rightarrow> desk \<Rightarrow> (unit + transition option) \<times> desk" where
  "decide_flushed sq digest sts mo b ob channel dk =
     (if unreadable mo then (Inl (), dk)
      else
        let from_state = recorded_state (table dk) (sb_bridge_id b) in
        if from_state = o_state ob then (Inr None, snd (settled (decide_at mo) (sb_bridge_id b) dk))
        else
          let t = transition_of b from_state ob in
          if o_state ob \<noteq> Connected \<and> sts_grace sts \<noteq> 0
          then (Inr None, hold sts (decide_at mo) t channel dk)
          else
            let dk' = snd (settled (decide_at mo) (sb_bridge_id b) dk) in
            case outbox_record_status sq digest (sts_domain sts) mo t (table dk') of
              (Inl _, ss) \<Rightarrow> (Inl (), dk'\<lparr>table := ss\<rparr>)
            | (Inr _, ss) \<Rightarrow> (Inr (Some t), dk'\<lparr>table := ss\<rparr>))"

lemma decide_flush: "decide sq digest sts mo b ob channel dk =
    decide_flushed sq digest sts mo b ob channel (snd (flush_due sq digest (sts_domain sts) mo dk))"
  by (simp add: decide_def decide_flushed_def Let_def)

lemma hold_known:
  assumes "map_of (waiting dk) (t_bridge_id t) = Some w"
  shows "hold sts now t channel dk = dk\<lparr>waiting := btree_insert (t_bridge_id t)
     (w\<lparr>h_transition := (h_transition w)\<lparr>t_to_state := t_to_state t, t_reason := t_reason t,
                                         t_last_message_at := t_last_message_at t\<rparr>\<rparr>) (waiting dk)\<rparr>"
  using assms by (simp add: hold_def)

lemma hold_new:
  assumes "map_of (waiting dk) (t_bridge_id t) = None"
  shows "hold sts now t channel dk = dk\<lparr>waiting := btree_insert (t_bridge_id t)
     \<lparr>h_transition = t, h_deadline = now + sts_grace sts, h_channel = channel\<rparr> (waiting dk)\<rparr>"
  using assms by (simp add: hold_def)

lemma hold_stamps_insert:
  "hold_stamps (btree_insert k w m) \<subseteq> insert (stamp (h_transition w)) (hold_stamps m)"
  by (auto simp: hold_stamps_def dest!: mem_btree_insert)

lemma hold_kept_ok:
  assumes ok: "desk_ok digest dk" and start: "t_from_state t = recorded_state (table dk) (t_bridge_id t)"
    and moved: "t_to_state t \<noteq> t_from_state t" and worse: "t_to_state t \<noteq> Connected"
    and new: "stamp t \<notin> stamps dk"
  shows "desk_ok digest (hold sts now t channel dk)"
    and "heading (hold sts now t channel dk) k = (if k = t_bridge_id t then t_to_state t else heading dk k)"
    and "stamps (hold sts now t channel dk) \<subseteq> insert (stamp t) (stamps dk)"
proof -
  let ?b = "t_bridge_id t"
  obtain w where shape: "hold sts now t channel dk = dk\<lparr>waiting := btree_insert ?b w (waiting dk)\<rparr>"
    and w: "hold_ok (table dk) (?b, w)" "t_to_state (h_transition w) = t_to_state t"
      "stamp (h_transition w) \<in> insert (stamp t) (stamps dk)"
  proof (cases "map_of (waiting dk) ?b")
    case None
    have "stamp t \<notin> row_stamps (table dk)" using new by (simp add: stamps_def)
    then show thesis
      using that [OF hold_new [OF None]] start moved worse by (auto simp: hold_ok_def)
  next
    case (Some w)
    let ?w = "w\<lparr>h_transition := (h_transition w)\<lparr>t_to_state := t_to_state t, t_reason := t_reason t,
                                                t_last_message_at := t_last_message_at t\<rparr>\<rparr>"
    have mem: "(?b, w) \<in> set (waiting dk)" using Some by (rule map_of_SomeD)
    then have held: "hold_ok (table dk) (?b, w)" using ok by (simp add: desk_ok_def)
    have st: "stamp (h_transition ?w) = stamp (h_transition w)" by (simp add: stamp_def)
    have "hold_ok (table dk) (?b, ?w)"
      using held start moved worse st by (auto simp: hold_ok_def)
    moreover have "stamp (h_transition ?w) \<in> stamps dk"
      using mem st by (force simp: stamps_def hold_stamps_def)
    ultimately show thesis
      using that [OF hold_known [OF Some]] by simp
  qed
  show "desk_ok digest (hold sts now t channel dk)"
    using ok w(1) by (auto simp: shape desk_ok_def keys_ok_insert dest!: mem_btree_insert)
  show "heading (hold sts now t channel dk) k = (if k = ?b then t_to_state t else heading dk k)"
    using w(2) by (simp add: shape heading_def split: option.split)
  show "stamps (hold sts now t channel dk) \<subseteq> insert (stamp t) (stamps dk)"
    using w(3) hold_stamps_insert [of ?b w "waiting dk"] by (auto simp: shape stamps_def)
qed


lemma decide_flushed_ok:
  assumes ok: "desk_ok digest dk" and sq: "autoincrement sq"
    and ap: "apart digest S" and S: "insert (sb_bridge_id b, o_occurred_at ob) (stamps dk) \<subseteq> S"
    and new: "(sb_bridge_id b, o_occurred_at ob) \<notin> stamps dk"
    and win: "in_window (decide_at mo) (sb_bridge_id b) dk"
    and res: "decide_flushed sq digest sts mo b ob channel dk = (Inr r, dk')"
  shows "desk_ok digest dk'"
    and "heading dk' k = (if k = sb_bridge_id b then o_state ob else heading dk k)"
    and "stamps dk' \<subseteq> insert (sb_bridge_id b, o_occurred_at ob) (stamps dk)"
proof -
  let ?b = "sb_bridge_id b"
  let ?from = "recorded_state (table dk) ?b"
  let ?t = "transition_of b ?from ob"
  let ?gone = "dk\<lparr>waiting := btree_remove ?b (waiting dk)\<rparr>"
  have t: "t_bridge_id ?t = ?b" "t_from_state ?t = ?from" "t_to_state ?t = o_state ob"
    "stamp ?t = (?b, o_occurred_at ob)"
    by (simp_all add: transition_of_def stamp_def)
  note gone = settled_in_window [OF win]
  have stamps_gone: "stamps ?gone \<subseteq> stamps dk"
    using hold_stamps_remove [of ?b "waiting dk"] by (auto simp: stamps_def)
  have head_gone: "heading ?gone k = (if k = ?b then ?from else heading dk k)" for k
    by (simp add: heading_def split: option.split)
  consider (same) "?from = o_state ob" "dk' = ?gone"
    | (held) "?from \<noteq> o_state ob" "o_state ob \<noteq> Connected" "dk' = hold sts (decide_at mo) ?t channel dk"
    | (recorded) ss where "?from \<noteq> o_state ob" "dk' = ?gone\<lparr>table := ss\<rparr>"
        "record_bridge_status sq digest ?t (sts_domain sts) (produced mo ?t) (table dk) = (fst
           (record_bridge_status sq digest ?t (sts_domain sts) (produced mo ?t) (table dk)), ss)"
    using res gone
    by (auto simp: decide_flushed_def outbox_record_status_def Let_def split: if_splits prod.splits)
  then have "desk_ok digest dk' \<and> heading dk' k = (if k = ?b then o_state ob else heading dk k)
      \<and> stamps dk' \<subseteq> insert (?b, o_occurred_at ob) (stamps dk)"
  proof cases
    case same
    then show ?thesis
      using desk_ok_remove [OF ok, of ?b] stamps_gone head_gone by auto
  next
    case held
    have "t_to_state ?t \<noteq> t_from_state ?t" "t_to_state ?t \<noteq> Connected" "stamp ?t \<notin> stamps dk"
      "t_from_state ?t = recorded_state (table dk) (t_bridge_id ?t)"
      using held t new by auto
    from hold_kept_ok [OF ok this(4,1-3), of sts "decide_at mo" channel] held(3) t
    show ?thesis by simp
  next
    case recorded
    have wf: "status_wf digest (table dk)" using ok by (simp add: desk_ok_def)
    have S': "insert (stamp ?t) (row_stamps (table dk)) \<subseteq> S" "stamp ?t \<notin> row_stamps (table dk)"
      using S new t by (auto simp: stamps_def)
    note step = record_new [OF wf sq ap S' recorded(3)]
    have rest: "hold_ok ss e" if "e \<in> set (btree_remove ?b (waiting dk))" for e
    proof -
      have "fst e \<noteq> ?b" "hold_ok (table dk) e" using that ok by (auto simp: btree_remove_def desk_ok_def)
      then show ?thesis using step(6) [of "fst e" "snd e"] t(1) by simp
    qed
    have "chained (status_rows ss)"
      using step(5) t recorded(1) ok by (simp add: desk_ok_def)
    then have "desk_ok digest dk'"
      using ok rest step(2) recorded(2) by (simp add: desk_ok_def keys_ok_remove)
    moreover have "heading dk' k = (if k = ?b then o_state ob else heading dk k)"
      using step(4) [of k] t by (cases "k = ?b") (auto simp: recorded(2) heading_def split: option.split)
    moreover have "stamps dk' \<subseteq> insert (?b, o_occurred_at ob) (stamps dk)"
      using step(3) t hold_stamps_remove [of ?b "waiting dk"] by (auto simp: recorded(2) stamps_def)
    ultimately show ?thesis by blast
  qed
  then show "desk_ok digest dk'" "heading dk' k = (if k = ?b then o_state ob else heading dk k)"
    "stamps dk' \<subseteq> insert (?b, o_occurred_at ob) (stamps dk)" by blast+
qed

section \<open>Histories\<close>

datatype status_op = Report moment status_bridge observed string | Sweep moment

fun run_status_op ::
  "rowids \<Rightarrow> (string \<Rightarrow> 8 word list) \<Rightarrow> statuses \<Rightarrow> status_op \<Rightarrow> desk \<Rightarrow> desk" where
  "run_status_op sq digest sts (Report mo b ob channel) dk = snd (decide sq digest sts mo b ob channel dk)"
| "run_status_op sq digest sts (Sweep mo) dk = snd (flush_held sq digest sts mo dk)"

fun reports :: "status_op \<Rightarrow> string \<Rightarrow> bool" where
  "reports (Report mo b ob channel) k \<longleftrightarrow> sb_bridge_id b = k"
| "reports (Sweep mo) k \<longleftrightarrow> False"

fun reported_state :: "status_op \<Rightarrow> contract_state" where
  "reported_state (Report mo b ob channel) = o_state ob"
| "reported_state (Sweep mo) = initial_state"

fun op_stamps :: "status_op \<Rightarrow> (string \<times> string) list" where
  "op_stamps (Report mo b ob channel) = [(sb_bridge_id b, o_occurred_at ob)]"
| "op_stamps (Sweep mo) = []"

text \<open>
  A report is \<open>smooth\<close> when it is answered and no hold of its bridge falls due between
  the instant the due holds were looked for and the instant the decision is made on.
\<close>

fun smooth ::
  "rowids \<Rightarrow> (string \<Rightarrow> 8 word list) \<Rightarrow> statuses \<Rightarrow> status_op \<Rightarrow> desk \<Rightarrow> bool" where
  "smooth sq digest sts (Report mo b ob channel) dk \<longleftrightarrow>
     in_window (decide_at mo) (sb_bridge_id b) (snd (flush_due sq digest (sts_domain sts) mo dk))
     \<and> (case fst (decide sq digest sts mo b ob channel dk) of Inl _ \<Rightarrow> False | Inr _ \<Rightarrow> True)"
| "smooth sq digest sts (Sweep mo) dk \<longleftrightarrow> True"

fun smooth_run ::
  "rowids \<Rightarrow> (string \<Rightarrow> 8 word list) \<Rightarrow> statuses \<Rightarrow> status_op list \<Rightarrow> desk \<Rightarrow> bool" where
  "smooth_run sq digest sts [] dk \<longleftrightarrow> True"
| "smooth_run sq digest sts (p # ps) dk \<longleftrightarrow>
     smooth sq digest sts p dk \<and> smooth_run sq digest sts ps (run_status_op sq digest sts p dk)"

definition op_ok :: "rowids \<Rightarrow> (string \<Rightarrow> 8 word list) \<Rightarrow> statuses \<Rightarrow> desk \<Rightarrow> status_op \<Rightarrow> bool" where
  "op_ok sq digest sts dk p \<longleftrightarrow>
     desk_ok digest dk \<and> autoincrement sq \<and> smooth sq digest sts p dk
     \<and> set (op_stamps p) \<inter> stamps dk = {} \<and> apart digest (set (op_stamps p) \<union> stamps dk)"

lemma run_status_op_ok:
  assumes "op_ok sq digest sts dk p"
  shows "desk_ok digest (run_status_op sq digest sts p dk)"
    and "heading (run_status_op sq digest sts p dk) k = (if reports p k then reported_state p else heading dk k)"
    and "stamps (run_status_op sq digest sts p dk) \<subseteq> set (op_stamps p) \<union> stamps dk"
proof -
  have ok: "desk_ok digest dk" "autoincrement sq" and ap: "apart digest (set (op_stamps p) \<union> stamps dk)"
    using assms by (simp_all add: op_ok_def)
  have "desk_ok digest (run_status_op sq digest sts p dk)
    \<and> heading (run_status_op sq digest sts p dk) k = (if reports p k then reported_state p else heading dk k)
    \<and> stamps (run_status_op sq digest sts p dk) \<subseteq> set (op_stamps p) \<union> stamps dk"
  proof (cases p)
    case (Sweep mo)
    obtain published dk' where f: "flush_due sq digest (sts_domain sts) mo dk = (published, dk')" by fastforce
    show ?thesis
      using flush_due_ok [OF ok ap _ f] Sweep f by (simp add: flush_held_def)
  next
    case (Report mo b ob channel)
    obtain published dk1 where f: "flush_due sq digest (sts_domain sts) mo dk = (published, dk1)" by fastforce
    note flushed = flush_due_ok [OF ok ap Un_upper2 f]
    obtain r dk' where d: "decide sq digest sts mo b ob channel dk = (r, dk')" by fastforce
    then obtain x where r: "r = Inr x" using assms Report by (cases r) (auto simp: op_ok_def)
    have d': "decide_flushed sq digest sts mo b ob channel dk1 = (Inr x, dk')"
      using d f r by (simp add: decide_flush)
    have stamps: "insert (sb_bridge_id b, o_occurred_at ob) (stamps dk1) \<subseteq> set (op_stamps p) \<union> stamps dk"
      "(sb_bridge_id b, o_occurred_at ob) \<notin> stamps dk1"
      "in_window (decide_at mo) (sb_bridge_id b) dk1"
      using assms Report flushed(3) f by (auto simp: op_ok_def)
    note decided = decide_flushed_ok [OF flushed(1) ok(2) ap stamps d']
    show ?thesis
      using decided(1,3) decided(2) [of k] flushed(2,3) Report d by auto
  qed
  then show "desk_ok digest (run_status_op sq digest sts p dk)"
    and "heading (run_status_op sq digest sts p dk) k = (if reports p k then reported_state p else heading dk k)"
    and "stamps (run_status_op sq digest sts p dk) \<subseteq> set (op_stamps p) \<union> stamps dk"
    by blast+
qed

interpretation desk: last_writer "run_status_op sq digest sts" "\<lambda>dk k. Some (heading dk k)" reports
  reported_state "\<lambda>dk k. True" "op_ok sq digest sts"
  for sq digest sts
  by unfold_locales (simp_all add: run_status_op_ok(2))


fun report_stamps :: "status_op list \<Rightarrow> (string \<times> string) list" where
  "report_stamps [] = []"
| "report_stamps (p # ps) = op_stamps p @ report_stamps ps"

lemma run_all_ok:
  assumes "desk_ok digest dk" and "autoincrement sq" and "smooth_run sq digest sts ps dk"
    and "distinct (report_stamps ps)" and "set (report_stamps ps) \<inter> stamps dk = {}"
    and "apart digest (set (report_stamps ps) \<union> stamps dk)"
  shows "desk.all_ok sq digest sts ps dk \<and> desk_ok digest (fold (run_status_op sq digest sts) ps dk)
    \<and> stamps (fold (run_status_op sq digest sts) ps dk) \<subseteq> set (report_stamps ps) \<union> stamps dk"
  using assms
proof (induction ps arbitrary: dk)
  case Nil
  then show ?case by simp
next
  case (Cons p ps)
  let ?dk = "run_status_op sq digest sts p dk"
  have ok: "op_ok sq digest sts dk p"
    using Cons.prems by (auto simp: op_ok_def elim: apart_mono)
  note step = run_status_op_ok [OF ok]
  have sub: "set (report_stamps ps) \<union> stamps ?dk \<subseteq> set (report_stamps (p # ps)) \<union> stamps dk"
    using step(3) by auto
  have "set (report_stamps ps) \<inter> stamps ?dk = {}"
    using step(3) Cons.prems(4,5) by auto
  with Cons.IH [OF step(1) Cons.prems(2)] Cons.prems sub ok apart_mono
  have "desk.all_ok sq digest sts ps ?dk \<and> desk_ok digest (fold (run_status_op sq digest sts) ps ?dk)
    \<and> stamps (fold (run_status_op sq digest sts) ps ?dk) \<subseteq> set (report_stamps ps) \<union> stamps ?dk"
    by auto
  then show ?case using ok sub by auto
qed

lemma desk_ok_open: "desk_ok digest (desk_open status_store_open)"
  by (simp add: desk_ok_def desk_open_def keys_ok_def status_wf_open) (simp add: status_store_open_def)

lemma stamps_open [simp]: "stamps (desk_open status_store_open) = {}"
  by (simp add: stamps_def desk_open_def status_store_open_def row_stamps_def hold_stamps_def)

lemma heading_open [simp]: "heading (desk_open status_store_open) b = initial_state"
  by (simp add: heading_def desk_open_def status_store_open_def recorded_state_def bridge_status_def
      bridge_status_current_def)

text \<open>
  The keys the ids of a history are digests of, and what is asked of a history: the
  bridges report under ids of the contract, no bridge reports twice at one instant, and
  the digest tells the keys apart.
\<close>

definition history_keys :: "status_op list \<Rightarrow> string list" where
  "history_keys ps =
     [b @ '':'' @ contract_state_as_str s @ '':'' @ at.
        (b, at) \<leftarrow> report_stamps ps, s \<leftarrow> [Starting, Connected, Degraded, Disconnected, SessionExpired]]"

definition history_ok :: "(string \<Rightarrow> 8 word list) \<Rightarrow> status_op list \<Rightarrow> bool" where
  "history_ok digest ps \<longleftrightarrow>
     list_all (\<lambda>(b, at). is_contract_bridge_id b) (report_stamps ps) \<and> distinct (report_stamps ps)
     \<and> inj_on digest (set (history_keys ps))"

lemma history_key: "stamp t \<in> set (report_stamps ps) \<Longrightarrow> transition_key t \<in> set (history_keys ps)"
proof -
  assume "stamp t \<in> set (report_stamps ps)"
  moreover have "t_to_state t \<in> set [Starting, Connected, Degraded, Disconnected, SessionExpired]"
    by (cases "t_to_state t") simp_all
  ultimately show ?thesis
    unfolding history_keys_def transition_key_def stamp_def by force
qed

lemma history_apart: "history_ok digest ps \<Longrightarrow> apart digest (set (report_stamps ps))"
  unfolding apart_def
proof (intro allI impI, elim conjE)
  fix t u
  assume ok: "history_ok digest ps" and t: "stamp t \<in> set (report_stamps ps)"
    and u: "stamp u \<in> set (report_stamps ps)" and eq: "transition_id digest t = transition_id digest u"
  have "digest (transition_key t) = digest (transition_key u)"
    using eq by (simp add: transition_id_def hex_bytes_inj)
  with ok history_key [OF t] history_key [OF u] have "transition_key t = transition_key u"
    by (auto simp: history_ok_def dest: inj_onD)
  moreover have "is_contract_bridge_id (t_bridge_id t)" "is_contract_bridge_id (t_bridge_id u)"
    using ok t u by (auto simp: history_ok_def list_all_iff stamp_def)
  ultimately show "stamp t = stamp u"
    using transition_key_inj contract_bridge_id_no_colon by (simp add: stamp_def)
qed

definition last_report :: "status_op list \<Rightarrow> string \<Rightarrow> contract_state" where
  "last_report ps b = (case last_value reports reported_state ps b of None \<Rightarrow> initial_state | Some s \<Rightarrow> s)"

lemma history_run:
  assumes "autoincrement sq" and "history_ok digest ps"
    and "smooth_run sq digest sts ps (desk_open status_store_open)"
  defines "dk \<equiv> fold (run_status_op sq digest sts) ps (desk_open status_store_open)"
  shows "desk_ok digest dk" and "heading dk b = last_report ps b" and "apart digest (stamps dk)"
proof -
  have ap: "apart digest (set (report_stamps ps))" by (rule history_apart [OF assms(2)])
  have run: "desk.all_ok sq digest sts ps (desk_open status_store_open) \<and> desk_ok digest dk
      \<and> stamps dk \<subseteq> set (report_stamps ps) \<union> stamps (desk_open status_store_open)"
    unfolding dk_def
    by (rule run_all_ok [OF desk_ok_open assms(1,3)]) (use assms(2) ap in \<open>simp_all add: history_ok_def\<close>)
  then show "desk_ok digest dk" "apart digest (stamps dk)" using ap apart_mono by auto
  have "Some (heading dk b) = (case last_value reports reported_state ps b of
      None \<Rightarrow> Some initial_state | Some s \<Rightarrow> Some s)"
    using desk.get_writes [of sq digest sts ps "desk_open status_store_open" b] run
    by (simp add: dk_def split: option.split)
  then show "heading dk b = last_report ps b" by (simp add: last_report_def split: option.splits)
qed

section \<open>Deadlines\<close>

fun op_horizon :: "statuses \<Rightarrow> status_op \<Rightarrow> nat" where
  "op_horizon sts (Report mo b ob channel) = max (flush_at mo) (decide_at mo + sts_grace sts)"
| "op_horizon sts (Sweep mo) = flush_at mo"

definition due_by :: "nat \<Rightarrow> desk \<Rightarrow> bool" where
  "due_by T dk \<longleftrightarrow> (\<forall>e \<in> set (waiting dk). h_deadline (snd e) \<le> T)"

lemma due_by_table [simp]: "due_by T (dk\<lparr>table := ss\<rparr>) = due_by T dk"
  by (simp add: due_by_def)

lemma due_by_flush_one:
  assumes "due_by T dk" and "flush_at mo \<le> T"
    and "flush_one sq digest domain mo w (published, dk) = (published', dk')"
  shows "due_by T dk'"
  using assms
  by (fastforce simp: flush_one_def due_by_def Let_def split: prod.splits sum.splits if_splits dest!: mem_btree_insert)

lemma due_by_flush:
  assumes "due_by T dk" and "flush_at mo \<le> T"
  shows "due_by T (snd (flush_due sq digest domain mo dk))"
proof -
  have "due_by T (snd (fold (\<lambda>(b, w). flush_one sq digest domain mo w) due (published, dk)))"
    if "due_by T dk" for due :: "(string \<times> held) list" and published dk
    using that
  proof (induction due arbitrary: published dk)
    case (Cons e due)
    obtain b w where e: "e = (b, w)" by fastforce
    obtain published1 dk1 where one: "flush_one sq digest domain mo w (published, dk) = (published1, dk1)"
      by fastforce
    show ?case
      using Cons.IH [OF due_by_flush_one [OF Cons.prems assms(2) one]] by (simp add: e one)
  qed simp
  moreover have "due_by T (dk\<lparr>waiting := filter p (waiting dk)\<rparr>)" for p
    using assms(1) by (auto simp: due_by_def)
  ultimately show ?thesis by (simp add: flush_due_def)
qed

lemma due_by_hold:
  assumes "due_by T dk" and "now + sts_grace sts \<le> T"
  shows "due_by T (hold sts now t channel dk)"
  using assms
  by (auto simp: hold_def due_by_def split: option.splits dest!: mem_btree_insert map_of_SomeD)

lemma due_by_settled: "due_by T dk \<Longrightarrow> due_by T (snd (settled now b dk))"
  by (auto simp: settled_def due_by_def btree_remove_def split: option.splits)

lemma due_by_run_op:
  assumes "due_by T dk" and "op_horizon sts p \<le> T"
  shows "due_by T (run_status_op sq digest sts p dk)"
proof (cases p)
  case (Sweep mo)
  then show ?thesis using assms by (simp add: flush_held_def due_by_flush)
next
  case (Report mo b ob channel)
  let ?dk = "snd (flush_due sq digest (sts_domain sts) mo dk)"
  have flushed: "due_by T ?dk" using assms Report by (simp add: due_by_flush)
  have "due_by T (snd (decide_flushed sq digest sts mo b ob channel ?dk))"
    using flushed due_by_settled [OF flushed] due_by_hold [OF flushed, of "decide_at mo" sts] assms(2) Report
    by (auto simp: decide_flushed_def Let_def split: prod.split sum.split)
  then show ?thesis by (simp add: Report decide_flush)
qed

lemma due_by_run:
  "due_by T dk \<Longrightarrow> \<forall>p \<in> set ps. op_horizon sts p \<le> T \<Longrightarrow> due_by T (fold (run_status_op sq digest sts) ps dk)"
  by (induction ps arbitrary: dk) (simp_all add: due_by_run_op)


section \<open>Steps that hold whatever the database answers\<close>

lemma flush_one_keeps:
  assumes "map_of (waiting dk) b = Some w"
    and "flush_one sq digest domain mo x (published, dk) = (published', dk')"
  shows "map_of (waiting dk') b = Some w"
  using assms by (auto simp: flush_one_def Let_def split: prod.splits sum.splits if_splits)

lemma flush_fold_keeps:
  "map_of (waiting dk) b = Some w \<Longrightarrow>
   map_of (waiting (snd (fold (\<lambda>(b, x). flush_one sq digest domain mo x) due (published, dk)))) b = Some w"
proof (induction due arbitrary: published dk)
  case (Cons e due)
  obtain k x where e: "e = (k, x)" by fastforce
  obtain published1 dk1 where one: "flush_one sq digest domain mo x (published, dk) = (published1, dk1)"
    by fastforce
  show ?case using Cons.IH [OF flush_one_keeps [OF Cons.prems one]] by (simp add: e one)
qed simp

lemma flush_due_keeps:
  assumes "keys_ok (waiting dk)" and "map_of (waiting dk) b = Some w" and "flush_at mo < h_deadline w"
  shows "map_of (waiting (snd (flush_due sq digest domain mo dk))) b = Some w"
  using assms
  by (simp add: flush_due_def flush_fold_keeps map_of_filter_value keys_ok_distinct)

lemma flush_due_nothing:
  assumes "list_all (\<lambda>(b, w). flush_at mo < h_deadline w) (waiting dk)"
  shows "flush_due sq digest domain mo dk = ([], dk)"
proof -
  have none: "filter (\<lambda>(b, w). h_deadline w \<le> flush_at mo) (waiting dk) = []"
    and all: "filter (\<lambda>(b, w). \<not> h_deadline w \<le> flush_at mo) (waiting dk) = waiting dk"
    using assms by (auto simp: list_all_iff filter_empty_conv intro!: filter_True)
  have "filter (\<lambda>(b, w). flush_at mo < h_deadline w) (waiting dk) = waiting dk"
    using all by (simp add: not_le)
  then show ?thesis by (simp add: flush_due_def none not_le)
qed

lemma add_bridge_Inr:
  assumes "add_bridge digest c bs = Inr bs'"
  obtains b where "bs' = bs @ [b]" and "sb_bridge_id b = cfg_status_bridge_id c"
    and "is_contract_bridge_id (sb_bridge_id b)" and "sb_as_token_sha256 b = map_option digest (cfg_as_token c)"
    and "sb_bridge_id b \<notin> sb_bridge_id ` set bs"
  using assms that by (auto simp: add_bridge_def result_simps list_ex_iff split: if_splits) (metis imageE)

definition configured_bridge :: "(string \<Rightarrow> 8 word list) \<Rightarrow> status_config list \<Rightarrow> status_bridge \<Rightarrow> bool" where
  "configured_bridge digest cs b \<longleftrightarrow> is_contract_bridge_id (sb_bridge_id b)
     \<and> (\<exists>c \<in> set cs. cfg_status_bridge_id c = sb_bridge_id b
          \<and> sb_as_token_sha256 b = map_option digest (cfg_as_token c))"

lemma add_bridges_Inr:
  assumes "add_bridges digest cs bs = Inr bs'"
  shows "(\<forall>b \<in> set bs'. b \<in> set bs \<or> configured_bridge digest cs b)
    \<and> (distinct (map sb_bridge_id bs) \<longrightarrow> distinct (map sb_bridge_id bs'))"
  using assms
proof (induction cs arbitrary: bs)
  case Nil
  then show ?case by simp
next
  case (Cons c cs)
  then obtain bs1 where one: "add_bridge digest c bs = Inr bs1" and rest: "add_bridges digest cs bs1 = Inr bs'"
    by (auto simp: result_simps)
  from add_bridge_Inr [OF one] obtain b where b: "bs1 = bs @ [b]" "configured_bridge digest (c # cs) b"
    "sb_bridge_id b \<notin> sb_bridge_id ` set bs"
    by (metis configured_bridge_def list.set_intros(1))
  have "configured_bridge digest (c # cs) x" if "configured_bridge digest cs x" for x
    using that by (auto simp: configured_bridge_def)
  then show ?case using Cons.IH [OF rest] b by auto
qed

end
