(* ===== verification/Bridge_Debounce.thy ===== *)
theory Bridge_Debounce
  imports Bridge_Grace
begin

text \<open>
  What the grace promises: over a whole history of reports and sweeps the desk heads for
  the last report of every bridge, a state that lasts is recorded, a blink leaves no trace
  and no flapping postpones a deadline; and the three ways a history can make the record
  disagree with what the bridge last said.
\<close>

section \<open>A small deployment\<close>

definition byte_digest :: "string \<Rightarrow> 8 word list" where
  "byte_digest s = map (\<lambda>c. of_nat (of_char c)) s"

lemma inj_byte_digest: "inj byte_digest"
proof -
  have byte: "(of_char c :: nat) < 256" for c
    by (simp add: of_char_def)
  have "inj (\<lambda>c. of_nat (of_char c) :: 8 word)"
  proof (rule injI)
    fix c d :: char
    assume "(of_nat (of_char c) :: 8 word) = of_nat (of_char d)"
    then have "(of_char c :: nat) mod 2 ^ 8 = of_char d mod 2 ^ 8"
      by (simp add: word_of_nat_eq_iff take_bit_eq_mod)
    with byte [of c] byte [of d] show "c = d" by simp
  qed
  then have "inj (map (\<lambda>c. of_nat (of_char c) :: 8 word))" by (rule inj_mapI)
  then show ?thesis by (simp add: byte_digest_def [abs_def])
qed

definition whatsapp_config :: status_config where
  "whatsapp_config =
     \<lparr>cfg_bridge_id = ''mautrix-whatsapp'', cfg_status_bridge_id = ''bridge-whatsapp'',
      cfg_network = ''whatsapp'', cfg_as_token = Some ''token''\<rparr>"

definition whatsapp_bridge :: status_bridge where
  "whatsapp_bridge =
     \<lparr>sb_bridge_id = ''bridge-whatsapp'', sb_instance_id = ''mautrix-whatsapp'', sb_network = Whatsapp,
      sb_as_token_sha256 = Some (byte_digest ''token'')\<rparr>"

definition sample_statuses :: "nat \<Rightarrow> statuses" where
  "sample_statuses grace = \<lparr>sts_bridges = [whatsapp_bridge], sts_domain = ''x'', sts_grace = grace\<rparr>"

lemma sample_statuses_new: "statuses_new byte_digest [whatsapp_config] ''x'' grace = Inr (sample_statuses grace)"
proof -
  have "add_bridges byte_digest [whatsapp_config] [] = Inr [whatsapp_bridge]" by code_simp
  then show ?thesis by (simp add: statuses_new_def sample_statuses_def)
qed

definition moment_at :: "nat \<Rightarrow> nat \<Rightarrow> moment" where
  "moment_at f d =
     \<lparr>flush_at = f, decide_at = d, wall = [], produced = (\<lambda>t. []), refuses = (\<lambda>t. False), unreadable = False\<rparr>"

definition disk_full_at :: "nat \<Rightarrow> nat \<Rightarrow> moment" where
  "disk_full_at f d = (moment_at f d)\<lparr>refuses := (\<lambda>t. True)\<rparr>"

definition seen :: "contract_state \<Rightarrow> string \<Rightarrow> observed" where
  "seen s at =
     \<lparr>o_state = s, o_reported = None, o_reason = None, o_last_message_at = None, o_occurred_at = at,
      o_user_action = None\<rparr>"

abbreviation says :: "nat \<Rightarrow> contract_state \<Rightarrow> string \<Rightarrow> status_op" where
  "says n s at \<equiv> Report (moment_at n n) whatsapp_bridge (seen s at) ''webhook''"

definition sample_history :: "status_op list" where
  "sample_history =
     [says 1 Connected ''a'', says 10 Degraded ''b'', Sweep (moment_at 20 20), says 30 Connected ''c'',
      says 50 Degraded ''d'', says 60 SessionExpired ''e'']"

abbreviation sample_desk :: "nat \<Rightarrow> status_op list \<Rightarrow> desk" where
  "sample_desk grace ps \<equiv>
     fold (run_status_op bundled_sqlite byte_digest (sample_statuses grace)) ps (desk_open status_store_open)"

lemma history_okI:
  "list_all (\<lambda>(b, at). is_contract_bridge_id b) (report_stamps ps) \<Longrightarrow> distinct (report_stamps ps) \<Longrightarrow>
   history_ok byte_digest ps"
  using inj_byte_digest by (simp add: history_ok_def inj_on_def)

lemma sample_history_ok: "history_ok byte_digest sample_history"
  by (rule history_okI) code_simp+

lemma sample_history_smooth:
  "smooth_run bundled_sqlite byte_digest (sample_statuses 30) sample_history (desk_open status_store_open)"
  by code_simp

section \<open>The record follows the bridge\<close>

text \<open>
  C32. The desk heads for the last report of every bridge. The histories are those whose bridges
  report under ids of the contract, no bridge twice at one instant, with a digest that tells the
  keys of their transitions apart (\<open>history_ok\<close>), and in which every report is answered and no
  hold of its bridge falls due between the flush and the decision of one call (\<open>smooth_run\<close>).
  After such a history the state that is held for a bridge, or the recorded one when nothing is
  held, is the one the bridge reported last; writes the database refuses on a sweep do not
  matter.
\<close>

theorem desk_heads_for_the_last_report:
  assumes "autoincrement sq" and "history_ok digest ps"
    and "smooth_run sq digest sts ps (desk_open status_store_open)"
  shows "heading (fold (run_status_op sq digest sts) ps (desk_open status_store_open)) b = last_report ps b"
  by (rule history_run(2) [OF assms])

theorem desk_heads_for_the_last_report_witness:
  "heading (sample_desk 30 sample_history) ''bridge-whatsapp'' = SessionExpired"
proof -
  have "last_report sample_history ''bridge-whatsapp'' = SessionExpired" by code_simp
  with desk_heads_for_the_last_report [OF autoincrement_bundled sample_history_ok sample_history_smooth,
      of "''bridge-whatsapp''"]
  show ?thesis by simp
qed

text \<open>
  C33. A state that lasts is recorded. After a history as in the property before (ids of the
  contract, no two reports of a bridge at one instant, a digest that tells the keys apart, every
  report answered and none racing a deadline), a sweep at an instant the grace has passed on for
  every report, with a database that accepts all its writes, leaves nothing held, and what is
  recorded of every bridge is what it reported last.
\<close>

theorem lasting_state_is_recorded:
  assumes "autoincrement sq" and "history_ok digest ps"
    and "smooth_run sq digest sts ps (desk_open status_store_open)"
    and "list_all (\<lambda>p. op_horizon sts p \<le> flush_at mo) ps" and "\<And>t. \<not> refuses mo t"
  shows "waiting (run_status_op sq digest sts (Sweep mo)
           (fold (run_status_op sq digest sts) ps (desk_open status_store_open))) = []
     \<and> recorded_state (table (run_status_op sq digest sts (Sweep mo)
           (fold (run_status_op sq digest sts) ps (desk_open status_store_open)))) b = last_report ps b"
proof -
  let ?dk = "fold (run_status_op sq digest sts) ps (desk_open status_store_open)"
  note run = history_run [OF assms(1-3)]
  obtain published dk' where f: "flush_due sq digest (sts_domain sts) mo ?dk = (published, dk')" by fastforce
  note flushed = flush_due_ok [OF run(1) assms(1) run(3) subset_refl f]
  have "due_by (flush_at mo) ?dk"
    by (rule due_by_run) (use assms(4) in \<open>simp_all add: due_by_def desk_open_def list_all_iff\<close>)
  then have "waiting dk' = []"
    using flushed(4) assms(5) by (auto simp: due_by_def filter_empty_conv)
  moreover have "heading dk' b = last_report ps b" by (simp add: flushed(2) run(2))
  ultimately show ?thesis by (simp add: flush_held_def f heading_def)
qed

theorem lasting_state_is_recorded_witness:
  "recorded_state (table (run_status_op bundled_sqlite byte_digest (sample_statuses 30)
     (Sweep (moment_at 90 90)) (sample_desk 30 sample_history))) ''bridge-whatsapp'' = SessionExpired"
proof -
  have "list_all (\<lambda>p. op_horizon (sample_statuses 30) p \<le> flush_at (moment_at 90 90)) sample_history"
    "last_report sample_history ''bridge-whatsapp'' = SessionExpired" by code_simp+
  moreover have "\<not> refuses (moment_at 90 90) t" for t by (simp add: moment_at_def)
  ultimately show ?thesis
    using lasting_state_is_recorded [OF autoincrement_bundled sample_history_ok sample_history_smooth,
      of "moment_at 90 90" "''bridge-whatsapp''"]
    by metis
qed

text \<open>
  The announced transitions of a bridge form a chain: each starts in the state the one
  before it ended in, the first in the initial state, and none ends where it starts.
\<close>

theorem announced_transitions_form_a_chain:
  assumes "autoincrement sq" and "history_ok digest ps"
    and "smooth_run sq digest sts ps (desk_open status_store_open)"
  shows "chained (status_rows (table (fold (run_status_op sq digest sts) ps (desk_open status_store_open))))"
  using history_run(1) [OF assms] by (simp add: desk_ok_def)

theorem announced_transitions_form_a_chain_witness:
  "chained (status_rows (table (sample_desk 30 (sample_history @ [Sweep (moment_at 90 90)]))))
   \<and> map (t_to_state \<circ> s_transition)
        (status_rows (table (sample_desk 30 (sample_history @ [Sweep (moment_at 90 90)]))))
      = [Connected, SessionExpired]"
proof
  have "history_ok byte_digest (sample_history @ [Sweep (moment_at 90 90)])"
    by (rule history_okI) code_simp+
  moreover have "smooth_run bundled_sqlite byte_digest (sample_statuses 30)
      (sample_history @ [Sweep (moment_at 90 90)]) (desk_open status_store_open)" by code_simp
  ultimately show "chained (status_rows (table (sample_desk 30 (sample_history @ [Sweep (moment_at 90 90)]))))"
    by (rule announced_transitions_form_a_chain [OF autoincrement_bundled])
  show "map (t_to_state \<circ> s_transition)
        (status_rows (table (sample_desk 30 (sample_history @ [Sweep (moment_at 90 90)]))))
      = [Connected, SessionExpired]" by code_simp
qed


text \<open>
  A blink leaves no trace: a bridge that reports another state and is back, inside the
  grace, in the state that is recorded of it, leaves the desk exactly as it was.
\<close>

theorem blink_leaves_no_trace:
  assumes "keys_ok (waiting dk)" and "map_of (waiting dk) (sb_bridge_id b) = None"
    and "list_all (\<lambda>(k, w). flush_at m1 < h_deadline w \<and> flush_at m2 < h_deadline w) (waiting dk)"
    and "recorded_state (table dk) (sb_bridge_id b) = o_state back"
    and "o_state worse \<noteq> o_state back" and "o_state worse \<noteq> Connected" and "sts_grace sts \<noteq> 0"
    and "max (flush_at m2) (decide_at m2) < decide_at m1 + sts_grace sts"
    and "\<not> unreadable m1" and "\<not> unreadable m2"
  shows "decide sq digest sts m2 b back channel' (snd (decide sq digest sts m1 b worse channel dk)) = (Inr None, dk)"
proof -
  let ?t = "transition_of b (o_state back) worse"
  let ?w = "\<lparr>h_transition = ?t, h_deadline = decide_at m1 + sts_grace sts, h_channel = channel\<rparr>"
  let ?held = "dk\<lparr>waiting := btree_insert (sb_bridge_id b) ?w (waiting dk)\<rparr>"
  have b: "t_bridge_id ?t = sb_bridge_id b" by (simp add: transition_of_def)
  have "flush_due sq digest (sts_domain sts) m1 dk = ([], dk)"
    by (rule flush_due_nothing) (use assms(3) in \<open>auto simp: list_all_iff\<close>)
  then have held: "snd (decide sq digest sts m1 b worse channel dk) = ?held"
    using assms(2,4-7,9) hold_new [of dk ?t sts "decide_at m1" channel] b
    by (simp add: decide_def Let_def)
  have "flush_due sq digest (sts_domain sts) m2 ?held = ([], ?held)"
    by (rule flush_due_nothing)
       (use assms(3,8) in \<open>auto simp: list_all_iff dest!: mem_btree_insert\<close>)
  then show ?thesis
    unfolding held
    using assms(4,8,10) btree_remove_insert [OF assms(1,2), of ?w]
    by (simp add: decide_def Let_def settled_def)
qed

theorem blink_leaves_no_trace_witness:
  "decide bundled_sqlite byte_digest (sample_statuses 30) (moment_at 39 39) whatsapp_bridge (seen Connected ''c'')
     ''webhook'' (snd (decide bundled_sqlite byte_digest (sample_statuses 30) (moment_at 10 10) whatsapp_bridge
       (seen Degraded ''b'') ''webhook'' (sample_desk 30 [says 1 Connected ''a''])))
   = (Inr None, sample_desk 30 [says 1 Connected ''a''])"
proof -
  have waiting: "waiting (sample_desk 30 [says 1 Connected ''a'']) = []"
    and state: "recorded_state (table (sample_desk 30 [says 1 Connected ''a''])) (sb_bridge_id whatsapp_bridge)
      = o_state (seen Connected ''c'')" by code_simp+
  show ?thesis
    by (rule blink_leaves_no_trace [OF _ _ _ state])
       (simp_all only: waiting, simp_all add: keys_ok_def seen_def sample_statuses_def moment_at_def)
qed

text \<open>
  No flapping postpones an announcement: whatever a bridge reports while it is held
  and whatever the database answers, the hold that is left keeps its deadline and the
  instant the trouble started.
\<close>

theorem flapping_postpones_nothing:
  assumes "keys_ok (waiting dk)" and "map_of (waiting dk) k = Some w" and "flush_at mo < h_deadline w"
    and "map_of (waiting (snd (decide sq digest sts mo b ob channel dk))) k = Some w'"
  shows "h_deadline w' = h_deadline w \<and> h_channel w' = h_channel w
     \<and> t_occurred_at (h_transition w') = t_occurred_at (h_transition w)
     \<and> t_from_state (h_transition w') = t_from_state (h_transition w)"
proof -
  let ?dk = "snd (flush_due sq digest (sts_domain sts) mo dk)"
  let ?t = "transition_of b (recorded_state (table ?dk) (sb_bridge_id b)) ob"
  have kept: "map_of (waiting ?dk) k = Some w" by (rule flush_due_keeps [OF assms(1-3)])
  have settled: "map_of (waiting (snd (settled now b' ?dk))) k \<in> {Some w, None}" for now b'
    using kept by (auto simp: settled_def split: option.split)
  have "map_of (waiting (hold sts now ?t channel ?dk)) k = Some w' \<Longrightarrow> ?thesis" for now
    using kept by (auto simp: hold_def split: option.splits if_splits)
  moreover have "w' = w" if "map_of (waiting (snd (settled now b' ?dk))) k = Some w'" for now b'
    using settled [of now b'] that by auto
  ultimately show ?thesis
    using assms(4) kept
    by (auto simp: decide_flush decide_flushed_def Let_def split: if_splits prod.splits sum.splits)
qed

theorem flapping_postpones_nothing_witness:
  "\<exists>w. map_of (waiting (sample_desk 30 sample_history)) ''bridge-whatsapp'' = Some w
     \<and> h_deadline w = 80 \<and> t_to_state (h_transition w) = SessionExpired \<and> t_occurred_at (h_transition w) = ''d''"
proof -
  let ?dk = "sample_desk 30 (butlast sample_history)"
  obtain w where w: "map_of (waiting ?dk) ''bridge-whatsapp'' = Some w" "h_deadline w = 80"
      "t_occurred_at (h_transition w) = ''d''"
  proof -
    have "map_option (\<lambda>w. (h_deadline w, t_occurred_at (h_transition w))) (map_of (waiting ?dk) ''bridge-whatsapp'')
        = Some (80, ''d'')" by code_simp
    then show thesis using that by auto
  qed
  have keys: "keys_ok (waiting ?dk)" by (simp add: keys_ok_def) code_simp
  obtain w' where w': "map_of (waiting (snd (decide bundled_sqlite byte_digest (sample_statuses 30)
      (moment_at 60 60) whatsapp_bridge (seen SessionExpired ''e'') ''webhook'' ?dk))) ''bridge-whatsapp'' = Some w'"
      "t_to_state (h_transition w') = SessionExpired"
  proof -
    have "map_option (\<lambda>w. t_to_state (h_transition w)) (map_of (waiting (snd (decide bundled_sqlite byte_digest
        (sample_statuses 30) (moment_at 60 60) whatsapp_bridge (seen SessionExpired ''e'') ''webhook'' ?dk)))
        ''bridge-whatsapp'') = Some SessionExpired" by code_simp
    then show thesis using that by auto
  qed
  have "flush_at (moment_at 60 60) < h_deadline w" using w(2) by (simp add: moment_at_def)
  from flapping_postpones_nothing [OF keys w(1) this w'(1)] w w'
  show ?thesis by (intro exI [of _ w']) (simp add: sample_history_def)
qed

text \<open>
  Only the bridge itself moves its state: a push that does anything but answer with a
  refusal names a configured bridge and presents a token with the digest of the one
  configured for it, and any other push leaves the desk as it was.
\<close>

theorem push_is_guarded:
  assumes "statuses_new digest cs domain grace = Inr sts" and "\<And>s. length (digest s) = 32"
    and "push sq digest clk sts mo i presented body dk = (answer, dk')"
    and "answer \<notin> {Inl (UnknownBridge i), Inl (NoAsToken i), Inl Unauthenticated}"
  shows "\<exists>c token secret. c \<in> set cs \<and> cfg_status_bridge_id c = i \<and> cfg_as_token c = Some secret
           \<and> presented = Some token \<and> digest token = digest secret"
proof -
  obtain b token where b: "status_bridge_of sts i = Some b" "presented = Some token"
    "bridge_authenticates digest b token" "has_as_token b"
    using assms(3,4) by (auto simp: push_def split: option.splits if_splits)
  then have "b \<in> set (sts_bridges sts)" "sb_bridge_id b = i"
    by (auto simp: status_bridge_of_def find_Some_iff)
  moreover have "add_bridges digest cs [] = Inr (sts_bridges sts)"
    using assms(1) by (auto simp: statuses_new_def result_simps)
  ultimately have "configured_bridge digest cs b" using add_bridges_Inr by fastforce
  then obtain c secret where "c \<in> set cs" "cfg_status_bridge_id c = i" "cfg_as_token c = Some secret"
    "sb_as_token_sha256 b = Some (digest secret)"
    using b(4) \<open>sb_bridge_id b = i\<close> by (auto simp: configured_bridge_def has_as_token_def)
  moreover from this have "digest token = digest secret"
    using b(3) assms(2) by (simp add: bridge_authenticates_def constant_time_eq_iff)
  ultimately show ?thesis using b(2) by blast
qed

lemma push_refused_changes_nothing:
  assumes "push sq digest clk sts mo i presented body dk = (Inl e, dk')" and "e \<noteq> StatusStoreFailed"
  shows "dk' = dk"
  using assms by (auto simp: push_def split: option.splits if_splits sum.splits prod.splits)


theorem push_is_guarded_witness:
  "\<exists>c token secret. c \<in> set [whatsapp_config] \<and> cfg_status_bridge_id c = ''bridge-whatsapp''
     \<and> cfg_as_token c = Some secret \<and> Some ''token'' = Some token
     \<and> replicate 32 (of_nat (length token) :: 8 word) = replicate 32 (of_nat (length secret))"
proof -
  let ?digest = "\<lambda>s :: string. replicate 32 (of_nat (length s) :: 8 word)"
  let ?push = "push bundled_sqlite ?digest (\<lambda>v. None)
      \<lparr>sts_bridges = [whatsapp_bridge\<lparr>sb_as_token_sha256 := Some (?digest ''token'')\<rparr>], sts_domain = ''x'', sts_grace = 30\<rparr>
      (moment_at 1 1) ''bridge-whatsapp'' (Some ''token'') (JObj [(''state_event'', JStr ''CONNECTED'')])
      (desk_open status_store_open)"
  have new: "statuses_new ?digest [whatsapp_config] ''x'' 30
      = Inr \<lparr>sts_bridges = [whatsapp_bridge\<lparr>sb_as_token_sha256 := Some (?digest ''token'')\<rparr>],
             sts_domain = ''x'', sts_grace = 30\<rparr>" by code_simp
  have len: "length (?digest s) = 32" for s by simp
  have "case fst ?push of Inl _ \<Rightarrow> False | Inr _ \<Rightarrow> True" by code_simp
  then have "fst ?push \<notin> {Inl (UnknownBridge ''bridge-whatsapp''), Inl (NoAsToken ''bridge-whatsapp''), Inl Unauthenticated}"
    by (cases "fst ?push") simp_all
  from push_is_guarded [OF new len _ this] show ?thesis by (metis prod.collapse)
qed

section \<open>Startup\<close>

text \<open>
  The startup reconciliation is a history of reports, one for each bridge that answers; a
  bridge that does not keeps what is recorded of it.
\<close>

fun startup_reports ::
  "(json \<Rightarrow> string option) \<Rightarrow> (status_bridge \<Rightarrow> json list option) \<Rightarrow> (status_bridge \<Rightarrow> moment)
    \<Rightarrow> status_bridge list \<Rightarrow> status_op list" where
  "startup_reports clk whoami at [] = []"
| "startup_reports clk whoami at (b # bs) =
     (case whoami b of
        None \<Rightarrow> startup_reports clk whoami at bs
      | Some logins \<Rightarrow>
          Report (at b) b (whoami_state clk (wall (at b)) logins) ''startup'' # startup_reports clk whoami at bs)"

lemma reconcile_is_a_history:
  "reconcile sq digest clk sts whoami at bs dk =
     fold (run_status_op sq digest sts) (startup_reports clk whoami at bs) dk"
  by (induction bs arbitrary: dk) (simp_all split: option.split)

section \<open>Where the record leaves the bridge\<close>

definition outcome :: "nat \<Rightarrow> status_op list \<Rightarrow> contract_state \<times> contract_state \<times> nat" where
  "outcome grace ps =
     (last_report ps ''bridge-whatsapp'', recorded_state (table (sample_desk grace ps)) ''bridge-whatsapp'',
      length (waiting (sample_desk grace ps)))"

text \<open>
  A deadline that falls between the instant of \<open>flush_due\<close> and the one \<open>settled\<close> reads
  is neither flushed nor cancelled: the recovery is answered as no change, and the
  next sweep records the outage of a bridge that is connected.
\<close>

theorem recovery_at_the_deadline_is_lost:
  "outcome 30 [says 1 Connected ''a'', says 10 Degraded ''b'',
               Report (moment_at 39 40) whatsapp_bridge (seen Connected ''c'') ''webhook'',
               Sweep (moment_at 45 45), Sweep (moment_at 90 90)]
   = (Connected, Degraded, 0)"
  by code_simp

text \<open>
  A hold whose write is refused comes back with the current instant as its deadline: a
  recovery that arrives while the database still refuses is answered as no change, does
  not cancel it, and the outage is recorded once the database answers again.
\<close>

lemma recovery_while_the_store_refuses_is_lost:
  "outcome 30 [says 1 Connected ''a'', says 10 Degraded ''b'', Sweep (disk_full_at 41 41),
               Report (disk_full_at 50 50) whatsapp_bridge (seen Connected ''c'') ''webhook'',
               Sweep (moment_at 60 60), Sweep (moment_at 90 90)]
   = (Connected, Degraded, 0)"
  by code_simp

text \<open>
  Without a grace, a bridge that flaps inside one second of its clock repeats an event id:
  the insert keeps the first row, so the outage is never recorded although the push
  answers with the transition.
\<close>

lemma flap_inside_a_second_is_forgotten:
  "outcome 0 [says 1 Connected ''a'', says 2 Degraded ''b'', says 3 Connected ''b'', says 4 Degraded ''b'']
   = (Degraded, Connected, 0)
   \<and> map_option t_to_state (case fst (decide bundled_sqlite byte_digest (sample_statuses 0) (moment_at 4 4)
        whatsapp_bridge (seen Degraded ''b'') ''webhook''
        (sample_desk 0 [says 1 Connected ''a'', says 2 Degraded ''b'', says 3 Connected ''b''])) of
       Inl _ \<Rightarrow> None | Inr t \<Rightarrow> t) = Some Degraded"
  by (intro conjI) code_simp+

end
