(* ===== verification/Working_Day.thy ===== *)
theory Working_Day
  imports Ordered_Maps
begin

text \<open>
  The owner's working day: parsed and journalled by the Gateway
  (\<^verbatim>\<open>companion-gateway/src/working_day.rs\<close>, the table of it in \<^verbatim>\<open>store.rs\<close>, its document in
  \<^verbatim>\<open>settings_http.rs\<close>) and read by the collector (\<^verbatim>\<open>collector/src/main.rs\<close>, the clock of
  \<^verbatim>\<open>collector/src/freebusy.rs\<close>). The two programs declare types of one shape, which are one
  record here. A \<^verbatim>\<open>BTreeMap\<close> is its entries in key order, a weekday a number. The text of
  the refusals is left out, their codes are kept.
\<close>

section \<open>The value\<close>

record span =
  starts_at :: string
  ends_at :: string

record working_day =
  d_days :: "nat list"
  d_starts_at :: string
  d_ends_at :: string
  d_exceptions :: "(nat \<times> span) list"

definition monday :: nat where "monday = 1"

definition sunday :: nat where "sunday = 7"

definition span_of :: "working_day \<Rightarrow> nat \<Rightarrow> string \<times> string" where
  "span_of d weekday =
     (case map_of (d_exceptions d) weekday of
        Some s \<Rightarrow> (starts_at s, ends_at s)
      | None \<Rightarrow> (d_starts_at d, d_ends_at d))"

definition two_digits :: "string \<Rightarrow> bool" where
  "two_digits part \<longleftrightarrow> length part = 2 \<and> list_all is_ascii_digit part"

definition is_wall_clock :: "string \<Rightarrow> bool" where
  "is_wall_clock v =
     (case split_once (CHR '':'') v of
        None \<Rightarrow> False
      | Some (hours, minutes) \<Rightarrow>
          two_digits hours \<and> two_digits minutes
          \<and> (case (parse_uint 256 hours, parse_uint 256 minutes) of
               (Some h, Some m) \<Rightarrow> h \<le> 23 \<and> m \<le> 59
             | _ \<Rightarrow> False))"

section \<open>The column of the journal\<close>

definition exception_entry :: "nat \<times> span \<Rightarrow> string" where
  "exception_entry = (\<lambda>(weekday, s). dec weekday @ ''='' @ starts_at s @ ''-'' @ ends_at s)"

definition exceptions_column :: "(nat \<times> span) list \<Rightarrow> string option" where
  "exceptions_column es = (if es = [] then None else Some (join_with '','' (map exception_entry es)))"

definition read_weekday :: "string \<Rightarrow> nat option" where
  "read_weekday s =
     Option.bind (parse_uint 256 (trim s)) (\<lambda>d. if monday \<le> d \<and> d \<le> sunday then Some d else None)"

definition read_exception :: "string \<Rightarrow> (nat \<times> span) option" where
  "read_exception entry =
     Option.bind (split_once (CHR ''='') (trim entry)) (\<lambda>(weekday, hours).
     Option.bind (read_weekday weekday) (\<lambda>d.
     Option.bind (split_once (CHR ''-'') (trim hours)) (\<lambda>(from_at, to_at).
       if is_wall_clock from_at \<and> is_wall_clock to_at \<and> from_at < to_at
       then Some (d, \<lparr>starts_at = from_at, ends_at = to_at\<rparr>) else None)))"

definition exceptions_from_column :: "string option \<Rightarrow> (nat \<times> span) list" where
  "exceptions_from_column column =
     (case column of
        None \<Rightarrow> []
      | Some c \<Rightarrow> btree_collect (List.map_filter read_exception (split_on (CHR '','') c)))"

section \<open>A request\<close>

datatype day_update = SetDay working_day "string option" | ClearDay "string option"

datatype day_invalid =
    DayUnreadable | DaysInvalid | TimeInvalid | OrderInvalid | ExceptionInvalid | ReasonTooLong nat

fun day_invalid_code :: "day_invalid \<Rightarrow> string" where
  "day_invalid_code DayUnreadable = ''invalid_request''"
| "day_invalid_code DaysInvalid = ''working_day_days_invalid''"
| "day_invalid_code TimeInvalid = ''working_day_time_invalid''"
| "day_invalid_code OrderInvalid = ''working_day_order_invalid''"
| "day_invalid_code ExceptionInvalid = ''working_day_exception_invalid''"
| "day_invalid_code (ReasonTooLong n) = ''working_day_reason_too_long''"

definition max_reason_chars :: nat where
  "max_reason_chars = 1024"

definition day_reason :: "json \<Rightarrow> day_invalid + string option" where
  "day_reason body =
     (case jget body ''reason'' of
        None \<Rightarrow> Inr None
      | Some JNull \<Rightarrow> Inr None
      | Some (JStr s) \<Rightarrow>
          let r = trim s in
          if max_reason_chars < chars_count r then Inl (ReasonTooLong (chars_count r))
          else Inr (if r = [] then None else Some r)
      | Some _ \<Rightarrow> Inl DayUnreadable)"

definition read_day_number :: "json \<Rightarrow> day_invalid + nat" where
  "read_day_number j =
     ok_or DaysInvalid (Option.bind (ju64 j) (\<lambda>d. if monday \<le> d \<and> d \<le> sunday then Some d else None))"

definition read_clock :: "json \<Rightarrow> string \<Rightarrow> day_invalid + string" where
  "read_clock j key =
     and_then (ok_or TimeInvalid (map_option trim (Option.bind (jget j key) jstr))) (\<lambda>v.
       if is_wall_clock v then Inr v else Inl TimeInvalid)"

definition ordered :: "string \<Rightarrow> string \<Rightarrow> day_invalid + unit" where
  "ordered from_at to_at = (if to_at \<le> from_at then Inl OrderInvalid else Inr ())"

definition read_given :: "nat list \<Rightarrow> string \<times> json \<Rightarrow> day_invalid + nat \<times> span" where
  "read_given days = (\<lambda>(key, hours).
     and_then (ok_or ExceptionInvalid (read_weekday key)) (\<lambda>d.
     if d \<notin> set days then Inl ExceptionInvalid
     else if jobj hours = None then Inl ExceptionInvalid
     else
       and_then (read_clock hours ''starts_at'') (\<lambda>from_at.
       and_then (read_clock hours ''ends_at'') (\<lambda>to_at.
       and_then (ordered from_at to_at) (\<lambda>_.
         Inr (d, \<lparr>starts_at = from_at, ends_at = to_at\<rparr>))))))"

definition read_exceptions :: "nat list \<Rightarrow> json \<Rightarrow> day_invalid + (nat \<times> span) list" where
  "read_exceptions days body =
     (case jget body ''exceptions'' of
        None \<Rightarrow> Inr []
      | Some JNull \<Rightarrow> Inr []
      | Some (JObj given) \<Rightarrow>
          and_then (traverse (read_given days) (sort_key fst given)) (\<lambda>es. Inr (btree_collect es))
      | Some _ \<Rightarrow> Inl ExceptionInvalid)"

definition parse_day_update :: "json option \<Rightarrow> day_invalid + day_update" where
  "parse_day_update body =
     and_then (ok_or DayUnreadable body) (\<lambda>j.
     and_then (ok_or DayUnreadable (jobj j)) (\<lambda>_.
     and_then (day_reason j) (\<lambda>reason.
     if jget j ''days'' = Some JNull then Inr (ClearDay reason)
     else
       and_then (ok_or DaysInvalid (Option.bind (jget j ''days'') jarr)) (\<lambda>listed.
       and_then (traverse read_day_number listed) (\<lambda>numbers.
       let days = sort (fold (\<lambda>d ds. if d \<in> set ds then ds else ds @ [d]) numbers []) in
       if days = [] then Inl DaysInvalid
       else
         and_then (read_clock j ''starts_at'') (\<lambda>from_at.
         and_then (read_clock j ''ends_at'') (\<lambda>to_at.
         and_then (ordered from_at to_at) (\<lambda>_.
         and_then (read_exceptions days j) (\<lambda>es.
           Inr (SetDay \<lparr>d_days = days, d_starts_at = from_at, d_ends_at = to_at, d_exceptions = es\<rparr>
                       reason))))))))))"

section \<open>The journal\<close>

record day_row =
  dr_new_state :: string
  dr_days :: "string option"
  dr_starts_at :: "string option"
  dr_ends_at :: "string option"
  dr_exceptions :: "string option"
  dr_occurred_at :: string
  dr_actor :: string
  dr_reason :: "string option"

record day_state =
  ds_day :: "working_day option"
  ds_since :: "string option"
  ds_actor :: "string option"
  ds_reason :: "string option"

definition day_state_default :: day_state where
  "day_state_default = \<lparr>ds_day = None, ds_since = None, ds_actor = None, ds_reason = None\<rparr>"

definition day_of_row :: "day_row \<Rightarrow> working_day option" where
  "day_of_row r =
     (case (dr_days r, dr_starts_at r, dr_ends_at r) of
        (Some listed, Some from_at, Some to_at) \<Rightarrow>
          if dr_new_state r \<noteq> ''set'' then None
          else
            let days = List.map_filter (\<lambda>d. parse_uint 256 (trim d)) (split_on (CHR '','') listed) in
            if days = [] then None
            else Some \<lparr>d_days = days, d_starts_at = from_at, d_ends_at = to_at,
                       d_exceptions = exceptions_from_column (dr_exceptions r)\<rparr>
      | _ \<Rightarrow> None)"

definition working_day_state :: "day_row list \<Rightarrow> day_state" where
  "working_day_state rows =
     (case rev rows of
        [] \<Rightarrow> day_state_default
      | r # _ \<Rightarrow>
          \<lparr>ds_day = day_of_row r, ds_since = Some (dr_occurred_at r), ds_actor = Some (dr_actor r),
           ds_reason = dr_reason r\<rparr>)"

fun day_row_of :: "day_update \<Rightarrow> string \<Rightarrow> string \<Rightarrow> day_row" where
  "day_row_of (SetDay d reason) occurred_at actor =
     \<lparr>dr_new_state = ''set'', dr_days = Some (join_with '','' (map dec (d_days d))),
      dr_starts_at = Some (d_starts_at d), dr_ends_at = Some (d_ends_at d),
      dr_exceptions = exceptions_column (d_exceptions d), dr_occurred_at = occurred_at,
      dr_actor = actor, dr_reason = reason\<rparr>"
| "day_row_of (ClearDay reason) occurred_at actor =
     \<lparr>dr_new_state = ''cleared'', dr_days = None, dr_starts_at = None, dr_ends_at = None,
      dr_exceptions = None, dr_occurred_at = occurred_at, dr_actor = actor, dr_reason = reason\<rparr>"

definition record_working_day_decision ::
  "day_update \<Rightarrow> string \<Rightarrow> string \<Rightarrow> day_row list \<Rightarrow> day_state \<times> day_row list" where
  "record_working_day_decision u occurred_at actor rows =
     (let rows' = rows @ [day_row_of u occurred_at actor] in (working_day_state rows', rows'))"

section \<open>The document between the two programs\<close>

definition day_json :: "working_day \<Rightarrow> json" where
  "day_json d =
     (let rendered = JObj [(''days'', JArr (map (\<lambda>n. JNum (int n)) (d_days d))),
                           (''starts_at'', JStr (d_starts_at d)), (''ends_at'', JStr (d_ends_at d))] in
      if d_exceptions d = [] then rendered
      else jset rendered ''exceptions''
             (JObj (map (\<lambda>(weekday, s). (dec weekday,
                JObj [(''starts_at'', JStr (starts_at s)), (''ends_at'', JStr (ends_at s))]))
              (d_exceptions d))))"

definition collection_document :: "bool \<Rightarrow> json \<Rightarrow> json \<Rightarrow> working_day option \<Rightarrow> json" where
  "collection_document location triage undos day =
     JObj [(''calendar_location'', JObj [(''enabled'', JBool location)]),
           (''mail_triage'', triage), (''mail_undos'', undos),
           (''working_day'', case day of None \<Rightarrow> JNull | Some d \<Rightarrow> day_json d)]"

definition collected_span :: "string \<times> json \<Rightarrow> (nat \<times> span) option" where
  "collected_span = (\<lambda>(key, hours).
     Option.bind (parse_uint 256 key) (\<lambda>d.
     Option.bind (Option.bind (jget hours ''starts_at'') jstr) (\<lambda>from_at.
     Option.bind (Option.bind (jget hours ''ends_at'') jstr) (\<lambda>to_at.
       Some (d, \<lparr>starts_at = from_at, ends_at = to_at\<rparr>)))))"

definition collected_day :: "json \<Rightarrow> working_day option" where
  "collected_day document =
     Option.bind (jget document ''working_day'') (\<lambda>day.
     Option.bind (Option.bind (jget day ''days'') jarr) (\<lambda>listed.
     Option.bind (Option.bind (jget day ''starts_at'') jstr) (\<lambda>from_at.
     Option.bind (Option.bind (jget day ''ends_at'') jstr) (\<lambda>to_at.
       let days = List.map_filter (\<lambda>j. map_option (\<lambda>n. n mod 256) (ju64 j)) listed in
       if days = [] then None
       else Some \<lparr>d_days = days, d_starts_at = from_at, d_ends_at = to_at,
                  d_exceptions = (case Option.bind (jget day ''exceptions'') jobj of
                     None \<Rightarrow> []
                   | Some given \<Rightarrow> btree_collect (List.map_filter collected_span (sort_key fst given)))\<rparr>))))"

definition wall_minutes :: "string \<Rightarrow> nat option" where
  "wall_minutes v =
     Option.bind (split_once (CHR '':'') v) (\<lambda>(hours, minutes).
     Option.bind (parse_uint (2 ^ 32) hours) (\<lambda>h.
     Option.bind (parse_uint (2 ^ 32) minutes) (\<lambda>m.
       if h < 24 \<and> m < 60 then Some (h * 60 + m) else None)))"

section \<open>Clocks\<close>

lemma digit_byte: "is_ascii_digit c \<Longrightarrow> (of_char c :: nat) = digit_value c + 48 \<and> digit_value c \<le> 9"
  unfolding is_ascii_digit_def digit_value_def by arith

lemma wall_clock_shape:
  assumes "is_wall_clock v"
  obtains a b c d where "v = [a, b, CHR '':'', c, d]"
    and "list_all is_ascii_digit [a, b, c, d]"
    and "10 * digit_value a + digit_value b \<le> 23" and "10 * digit_value c + digit_value d \<le> 59"
proof -
  obtain hours minutes where v: "v = hours @ CHR '':'' # minutes"
    and parts: "two_digits hours" "two_digits minutes"
    and range: "\<exists>h m. parse_uint 256 hours = Some h \<and> parse_uint 256 minutes = Some m \<and> h \<le> 23 \<and> m \<le> 59"
    using assms by (auto simp: is_wall_clock_def split_once_Some_iff split: option.splits)
  obtain a b where hours: "hours = [a, b]" using parts(1) by (auto simp: two_digits_def length_Suc_conv numeral_2_eq_2)
  obtain c d where minutes: "minutes = [c, d]" using parts(2) by (auto simp: two_digits_def length_Suc_conv numeral_2_eq_2)
  have digits: "list_all is_ascii_digit [a, b]" "list_all is_ascii_digit [c, d]"
    using parts by (simp_all add: two_digits_def hours minutes)
  have two: "parse_uint 256 [x, y] = Some (10 * digit_value x + digit_value y)"
    if "list_all is_ascii_digit [x, y]" for x y
  proof -
    have "digit_value x \<le> 9" "digit_value y \<le> 9"
      using that digit_byte [of x] digit_byte [of y] by simp_all
    then show ?thesis
      using parse_uint_digits [OF that, of 256] by (simp add: digits_value_def)
  qed
  show thesis
    using that [of a b c d] v hours minutes range digits two [OF digits(1)] two [OF digits(2)] by auto
qed

lemma wall_clock_minutes:
  assumes "is_wall_clock v" and "v = [a, b, CHR '':'', c, d]"
  shows "wall_minutes v = Some ((10 * digit_value a + digit_value b) * 60 + (10 * digit_value c + digit_value d))"
proof -
  have digits: "list_all is_ascii_digit [a, b]" "list_all is_ascii_digit [c, d]"
    and range: "10 * digit_value a + digit_value b \<le> 23" "10 * digit_value c + digit_value d \<le> 59"
    using wall_clock_shape [OF assms(1)] assms(2) by auto
  have "a \<noteq> CHR '':''" "b \<noteq> CHR '':''"
    using digits(1) by (auto simp: is_ascii_digit_def)
  then have split: "split_once (CHR '':'') v = Some ([a, b], [c, d])"
    using assms(2) by simp
  have "parse_uint (2 ^ 32) [a, b] = Some (10 * digit_value a + digit_value b)"
    "parse_uint (2 ^ 32) [c, d] = Some (10 * digit_value c + digit_value d)"
    using parse_uint_digits [OF digits(1), of "2 ^ 32"] parse_uint_digits [OF digits(2), of "2 ^ 32"] range
    by (simp_all add: digits_value_def)
  with range split show ?thesis by (simp add: wall_minutes_def)
qed

lemma wall_clock_reads: "is_wall_clock v \<Longrightarrow> \<exists>m < 1440. wall_minutes v = Some m"
proof -
  assume v: "is_wall_clock v"
  obtain a b c d where s: "v = [a, b, CHR '':'', c, d]"
    and range: "10 * digit_value a + digit_value b \<le> 23" "10 * digit_value c + digit_value d \<le> 59"
    using wall_clock_shape [OF v] by metis
  have "(10 * digit_value a + digit_value b) * 60 + (10 * digit_value c + digit_value d) < 1440"
    using mult_le_mono1 [OF range(1), of 60] range(2) by simp
  then show ?thesis using wall_clock_minutes [OF v s] by blast
qed

lemma wall_clock_order:
  assumes "is_wall_clock v" and "is_wall_clock w" and "wall_minutes v = Some m" and "wall_minutes w = Some n"
  shows "v < w \<longleftrightarrow> m < n"
proof -
  obtain a b c d where v: "v = [a, b, CHR '':'', c, d]" "list_all is_ascii_digit [a, b, c, d]"
    and rv: "10 * digit_value a + digit_value b \<le> 23" "10 * digit_value c + digit_value d \<le> 59"
    using wall_clock_shape [OF assms(1)] by metis
  obtain a' b' c' d' where w: "w = [a', b', CHR '':'', c', d']" "list_all is_ascii_digit [a', b', c', d']"
    and rw: "10 * digit_value a' + digit_value b' \<le> 23" "10 * digit_value c' + digit_value d' \<le> 59"
    using wall_clock_shape [OF assms(2)] by metis
  have lt: "x < y \<longleftrightarrow> digit_value x < digit_value y" and eq: "x = y \<longleftrightarrow> digit_value x = digit_value y"
    if "is_ascii_digit x" "is_ascii_digit y" for x y
  proof -
    show "x < y \<longleftrightarrow> digit_value x < digit_value y"
      using that digit_byte [of x] digit_byte [of y] by (simp add: less_char_def)
    have "x = y" if "(of_char x :: nat) = of_char y" using that by simp
    then show "x = y \<longleftrightarrow> digit_value x = digit_value y"
      using that digit_byte [of x] digit_byte [of y] by auto
  qed
  have le: "digit_value x \<le> 9" if "is_ascii_digit x" for x
    using that digit_byte by simp
  have "v < w \<longleftrightarrow> a < a' \<or> a = a' \<and> (b < b' \<or> b = b' \<and> (c < c' \<or> c = c' \<and> d < d'))"
    by (simp add: v(1) w(1) )
  also have "\<dots> \<longleftrightarrow> (10 * digit_value a + digit_value b) * 60 + (10 * digit_value c + digit_value d)
      < (10 * digit_value a' + digit_value b') * 60 + (10 * digit_value c' + digit_value d')"
    using v(2) w(2) le [of b] le [of d] le [of b'] le [of d'] rv rw by (simp add: lt eq) linarith
  finally show ?thesis
    using assms(3,4) wall_clock_minutes [OF assms(1) v(1)] wall_clock_minutes [OF assms(2) w(1)] by simp
qed

section \<open>What is accepted\<close>

definition span_ok :: "string \<Rightarrow> string \<Rightarrow> bool" where
  "span_ok from_at to_at \<longleftrightarrow> is_wall_clock from_at \<and> is_wall_clock to_at \<and> from_at < to_at"

definition weekday_ok :: "nat \<Rightarrow> bool" where
  "weekday_ok d \<longleftrightarrow> 1 \<le> d \<and> d \<le> 7"

definition day_ok :: "working_day \<Rightarrow> bool" where
  "day_ok d \<longleftrightarrow>
     d_days d \<noteq> [] \<and> sorted (d_days d) \<and> distinct (d_days d) \<and> list_all weekday_ok (d_days d)
     \<and> span_ok (d_starts_at d) (d_ends_at d) \<and> keys_ok (d_exceptions d)
     \<and> list_all (\<lambda>(n, s). n \<in> set (d_days d) \<and> span_ok (starts_at s) (ends_at s)) (d_exceptions d)"

lemma set_btree_collect: "set (btree_collect xs) \<subseteq> set xs"
proof -
  have "set (fold (\<lambda>(k, v). btree_insert k v) xs m) \<subseteq> set m \<union> set xs" for m
    by (induction xs arbitrary: m) (auto dest!: subsetD mem_btree_insert)
  from this [of "[]"] show ?thesis by (simp add: btree_collect_def)
qed

lemma fold_distinct_days:
  "distinct ds \<Longrightarrow> distinct (fold (\<lambda>d ds. if d \<in> set ds then ds else ds @ [d]) ns ds)
     \<and> set (fold (\<lambda>d ds. if d \<in> set ds then ds else ds @ [d]) ns ds) = set ds \<union> set ns"
  by (induction ns arbitrary: ds) auto

lemma read_clock_wall: "read_clock j key = Inr v \<Longrightarrow> is_wall_clock v"
  by (auto simp: read_clock_def result_simps split: if_splits)

lemma ordered_iff: "ordered a b = Inr u \<longleftrightarrow> a < b"
  by (cases "a < b") (auto simp: ordered_def)

lemma read_given_ok:
  "read_given days e = Inr (n, s) \<Longrightarrow> n \<in> set days \<and> span_ok (starts_at s) (ends_at s)"
  by (auto simp: read_given_def result_simps span_ok_def ordered_iff split: if_splits prod.splits
      dest: read_clock_wall)

lemma read_exceptions_ok:
  assumes "read_exceptions days j = Inr es"
  shows "keys_ok es \<and> list_all (\<lambda>(n, s). n \<in> set days \<and> span_ok (starts_at s) (ends_at s)) es"
proof (cases "es = []")
  case False
  then obtain given xs where es: "es = btree_collect xs"
    and xs: "traverse (read_given days) given = Inr xs"
    using assms by (auto simp: read_exceptions_def result_simps split: option.splits json.splits)
  have "\<forall>x \<in> set xs. \<exists>e. read_given days e = Inr x"
    using traverse_Inr_source [OF xs] by blast
  then have "\<forall>(n, s) \<in> set xs. n \<in> set days \<and> span_ok (starts_at s) (ends_at s)"
    using read_given_ok by fastforce
  then show ?thesis
    using set_btree_collect [of xs] by (auto simp: es keys_ok_collect list_all_iff)
qed (simp add: keys_ok_def)

lemma accepted_day_ok:
  assumes "parse_day_update body = Inr (SetDay d reason)"
  shows "day_ok d"
proof -
  obtain j listed numbers from_at to_at es where listed: "traverse read_day_number listed = Inr numbers"
    and d: "d = \<lparr>d_days = sort (fold (\<lambda>d ds. if d \<in> set ds then ds else ds @ [d]) numbers []),
                 d_starts_at = from_at, d_ends_at = to_at, d_exceptions = es\<rparr>"
    and days: "sort (fold (\<lambda>d ds. if d \<in> set ds then ds else ds @ [d]) numbers []) \<noteq> []"
    and clocks: "read_clock j ''starts_at'' = Inr from_at" "read_clock j ''ends_at'' = Inr to_at" "from_at < to_at"
    and exceptions: "read_exceptions (d_days d) j = Inr es"
    using assms unfolding parse_day_update_def and_then_Inr_iff Let_def ordered_iff
    by (auto simp: and_then_Inr_iff ordered_iff split: if_splits)
  have "\<forall>n \<in> set numbers. weekday_ok n"
  proof
    fix n
    assume "n \<in> set numbers"
    from traverse_Inr_source [OF listed this] show "weekday_ok n"
      by (auto simp: read_day_number_def result_simps bind_eq_Some_conv weekday_ok_def monday_def sunday_def
          split: if_splits)
  qed
  moreover have "set (d_days d) = set numbers" "distinct (d_days d)" "sorted (d_days d)"
    using fold_distinct_days [of "[]" numbers] by (simp_all add: d)
  ultimately show ?thesis
    using days clocks read_exceptions_ok [OF exceptions] read_clock_wall
    by (simp add: day_ok_def list_all_iff span_ok_def d)
qed

section \<open>What is read back\<close>

lemma digit_graphic: "is_ascii_digit c \<Longrightarrow> graphic c"
  by (auto simp: is_ascii_digit_def graphic_def)

lemma wall_clock_text:
  assumes "is_wall_clock v"
  shows "v \<noteq> []" and "graphic (hd v)" and "graphic (last v)" and "set v \<inter> {CHR '','', CHR ''='', CHR ''-''} = {}"
proof -
  obtain a b c d where v: "v = [a, b, CHR '':'', c, d]" "list_all is_ascii_digit [a, b, c, d]"
    using wall_clock_shape [OF assms] by metis
  have "c \<noteq> CHR '',''" "c \<noteq> CHR ''=''" "c \<noteq> CHR ''-''" if "is_ascii_digit c" for c
    using that by (auto simp: is_ascii_digit_def)
  then show "v \<noteq> []" "graphic (hd v)" "graphic (last v)" "set v \<inter> {CHR '','', CHR ''='', CHR ''-''} = {}"
    using v by (auto simp: digit_graphic)
qed

lemma dec_weekday: "weekday_ok n \<Longrightarrow> dec n = [digit_char n]"
  by (simp add: weekday_ok_def dec.simps)

lemma dec_text: "set (dec n) \<inter> {CHR '','', CHR ''='', CHR ''-''} = {}" "graphic (hd (dec n))" "graphic (last (dec n))"
proof -
  have digits: "list_all is_ascii_digit (dec n)" "dec n \<noteq> []" using dec_digits by simp_all
  then have "\<forall>c \<in> set (dec n). is_ascii_digit c" by (simp add: list_all_iff)
  moreover have "c \<noteq> CHR '',''" "c \<noteq> CHR ''=''" "c \<noteq> CHR ''-''" if "is_ascii_digit c" for c
    using that by (auto simp: is_ascii_digit_def)
  ultimately show "set (dec n) \<inter> {CHR '','', CHR ''='', CHR ''-''} = {}"
    "graphic (hd (dec n))" "graphic (last (dec n))"
    using digits(2) hd_in_set last_in_set digit_graphic by fastforce+
qed

lemma trim_dec [simp]: "trim (dec n) = dec n"
  using dec_digits [of n] dec_text by (intro trim_graphic) simp_all

lemma read_weekday_dec: "weekday_ok n \<Longrightarrow> read_weekday (dec n) = Some n"
  by (simp add: read_weekday_def parse_uint_dec weekday_ok_def monday_def sunday_def)

lemma read_exception_entry:
  assumes "weekday_ok n" and "span_ok (starts_at s) (ends_at s)"
  shows "read_exception (exception_entry (n, s)) = Some (n, s)"
    and "CHR '','' \<notin> set (exception_entry (n, s))"
proof -
  have clocks: "is_wall_clock (starts_at s)" "is_wall_clock (ends_at s)" "starts_at s < ends_at s"
    using assms(2) by (simp_all add: span_ok_def)
  note from_text = wall_clock_text [OF clocks(1)] and to_text = wall_clock_text [OF clocks(2)]
  have hours: "trim (starts_at s @ ''-'' @ ends_at s) = starts_at s @ ''-'' @ ends_at s"
    using from_text to_text by (intro trim_graphic) simp_all
  have whole: "trim (exception_entry (n, s)) = exception_entry (n, s)"
    using dec_text(2) [of n] dec_digits [of n] to_text
    by (intro trim_graphic) (simp_all add: exception_entry_def)
  have "split_once (CHR ''='') (exception_entry (n, s)) = Some (dec n, starts_at s @ ''-'' @ ends_at s)"
    using dec_text(1) [of n] by (auto simp: split_once_Some_iff exception_entry_def)
  moreover have "split_once (CHR ''-'') (starts_at s @ ''-'' @ ends_at s) = Some (starts_at s, ends_at s)"
    using from_text by (auto simp: split_once_Some_iff)
  ultimately show "read_exception (exception_entry (n, s)) = Some (n, s)"
    using whole hours clocks read_weekday_dec [OF assms(1)]
    by (simp add: read_exception_def)
  show "CHR '','' \<notin> set (exception_entry (n, s))"
    using from_text to_text dec_text(1) [of n] by (auto simp: exception_entry_def)
qed

lemma map_filter_all: "\<forall>x \<in> set xs. f (g x) = Some x \<Longrightarrow> List.map_filter f (map g xs) = xs"
  by (induction xs) (simp_all add: List.map_filter_simps)

lemma exceptions_column_round_trip:
  assumes "keys_ok es" and "list_all (\<lambda>(n, s). weekday_ok n \<and> span_ok (starts_at s) (ends_at s)) es"
  shows "exceptions_from_column (exceptions_column es) = es"
proof (cases "es = []")
  case False
  have entries: "\<forall>e \<in> set es. read_exception (exception_entry e) = Some e \<and> CHR '','' \<notin> set (exception_entry e)"
    using assms(2) read_exception_entry by (auto simp: list_all_iff)
  have "split_on (CHR '','') (join_with [CHR '',''] (map exception_entry es)) = map exception_entry es"
    using False entries by (intro split_on_join) auto
  then show ?thesis
    using False entries btree_collect_id [OF assms(1)]
    by (simp add: exceptions_column_def exceptions_from_column_def map_filter_all)
qed (simp add: exceptions_column_def exceptions_from_column_def)

lemma day_ok_exceptions:
  "day_ok d \<Longrightarrow> list_all (\<lambda>(n, s). weekday_ok n \<and> span_ok (starts_at s) (ends_at s)) (d_exceptions d)"
  by (auto simp: day_ok_def list_all_iff)

lemma day_row_round_trip:
  assumes "day_ok d"
  shows "day_of_row (day_row_of (SetDay d reason) occurred_at actor) = Some d"
proof -
  have "split_on (CHR '','') (join_with [CHR '',''] (map dec (d_days d))) = map dec (d_days d)"
    using assms dec_text(1) by (intro split_on_join) (auto simp: day_ok_def)
  moreover have "List.map_filter (\<lambda>s. parse_uint 256 (trim s)) (map dec (d_days d)) = d_days d"
    using assms by (intro map_filter_all) (auto simp: day_ok_def list_all_iff weekday_ok_def parse_uint_dec)
  moreover have "d_days d \<noteq> []" using assms by (simp add: day_ok_def)
  ultimately show ?thesis
    using assms exceptions_column_round_trip [OF _ day_ok_exceptions [OF assms]]
    by (simp add: day_of_row_def day_ok_def Let_def)
qed

lemma collected_spans:
  assumes "keys_ok es" and "list_all (\<lambda>(n, s). weekday_ok n \<and> span_ok (starts_at s) (ends_at s)) es"
  defines "given \<equiv> map (\<lambda>(weekday, s). (dec weekday,
             JObj [(''starts_at'', JStr (starts_at s)), (''ends_at'', JStr (ends_at s))])) es"
  shows "btree_collect (List.map_filter collected_span (sort_key fst given)) = es"
proof -
  have weekdays: "\<forall>e \<in> set es. weekday_ok (fst e)" using assms(2) by (auto simp: list_all_iff)
  have "map fst given = map (\<lambda>n. [digit_char n]) (map fst es)"
    using assms(2) by (auto simp: given_def list_all_iff dec_weekday)
  moreover have "[digit_char m] \<le> [digit_char n]" if "m < n" "weekday_ok m" "weekday_ok n" for m n
    using that by (simp add: less_char_def weekday_ok_def)
  then have "sorted (map (\<lambda>n. [digit_char n]) (map fst es))"
    using assms(1) weekdays unfolding keys_ok_def sorted_wrt_map
    by (auto simp: sorted_map intro!: sorted_wrt_mono_rel [rotated, where P = "\<lambda>x y. fst x < fst y"])
  ultimately have "sort_key fst given = given" by (simp add: sort_key_id_if_sorted)
  moreover have "List.map_filter collected_span given = es"
    unfolding given_def using assms(2)
    by (intro map_filter_all) (auto simp: list_all_iff collected_span_def parse_uint_dec weekday_ok_def)
  ultimately show ?thesis by (simp add: btree_collect_id [OF assms(1)])
qed

lemma collected_day_round_trip:
  assumes "day_ok d"
  shows "collected_day (collection_document location triage undos (Some d)) = Some d"
proof -
  have days: "List.map_filter (\<lambda>j. map_option (\<lambda>n. n mod 256) (ju64 j)) (map (\<lambda>n. JNum (int n)) (d_days d)) = d_days d"
    using assms by (intro map_filter_all) (auto simp: day_ok_def list_all_iff weekday_ok_def)
  have spans: "btree_collect (List.map_filter collected_span (sort_key fst (map (\<lambda>(weekday, s). (dec weekday,
             JObj [(''starts_at'', JStr (starts_at s)), (''ends_at'', JStr (ends_at s))])) (d_exceptions d))))
      = d_exceptions d"
    using assms by (intro collected_spans day_ok_exceptions) (simp add: day_ok_def)
  have "d_days d \<noteq> []" using assms by (simp add: day_ok_def)
  then show ?thesis
    using days spans by (simp add: collected_day_def collection_document_def day_json_def Let_def)
qed

section \<open>From the owner to the collector\<close>

text \<open>
  C37. A working day that is accepted is well formed: its days are weekdays, in order and
  without repeats, its amplitude and every exception are clocks of the 24-hour day in
  order, the exceptions name accepted days, each once, and comparing two of the clocks as
  text is comparing the minutes they name.
\<close>

theorem accepted_working_day_is_well_formed:
  assumes "parse_day_update body = Inr (SetDay d reason)"
  shows "day_ok d
    \<and> (is_wall_clock v \<and> is_wall_clock w \<longrightarrow> (v < w \<longleftrightarrow> the (wall_minutes v) < the (wall_minutes w)))"
  using accepted_day_ok [OF assms] wall_clock_order [of v w] wall_clock_reads [of v] wall_clock_reads [of w]
  by auto

definition short_wednesday :: json where
  "short_wednesday =
     JObj [(''days'', JArr [JNum 5, JNum 1, JNum 3, JNum 1]), (''starts_at'', JStr '' 09:00''),
           (''ends_at'', JStr ''18:30''),
           (''exceptions'', JObj [(''3'', JObj [(''starts_at'', JStr ''09:00''), (''ends_at'', JStr ''12:30'')])])]"

definition short_week :: working_day where
  "short_week =
     \<lparr>d_days = [1, 3, 5], d_starts_at = ''09:00'', d_ends_at = ''18:30'',
      d_exceptions = [(3, \<lparr>starts_at = ''09:00'', ends_at = ''12:30''\<rparr>)]\<rparr>"

lemma short_wednesday: "parse_day_update (Some short_wednesday) = Inr (SetDay short_week None)"
  by code_simp

theorem accepted_working_day_is_well_formed_witness:
  "day_ok short_week \<and> (''09:00'' < (''12:30'' :: string)) = (the (wall_minutes ''09:00'') < the (wall_minutes ''12:30''))"
proof -
  have "is_wall_clock ''09:00'' \<and> is_wall_clock ''12:30''" by code_simp
  then show ?thesis
    using accepted_working_day_is_well_formed [OF short_wednesday, of "''09:00''" "''12:30''"] by blast
qed

lemma span_minutes:
  assumes "day_ok d"
  shows "\<exists>a b. wall_minutes (fst (span_of d weekday)) = Some a \<and> wall_minutes (snd (span_of d weekday)) = Some b
           \<and> a < b \<and> b < 1440"
proof -
  have "span_ok (fst (span_of d weekday)) (snd (span_of d weekday))"
    using assms by (auto simp: span_of_def day_ok_def list_all_iff split: option.split dest!: map_of_SomeD)
  then show ?thesis
    unfolding span_ok_def using wall_clock_reads wall_clock_order by metis
qed

text \<open>
  The collector clips by the hours the owner set: an accepted working day is what its
  journal answers and what the collector reads off the document the Gateway serves, every
  exception included, and each weekday's hours read as minutes of the day in order. A
  cleared day reaches the collector as none.
\<close>

theorem collector_keeps_the_owners_hours:
  assumes "parse_day_update body = Inr (SetDay d reason)"
  shows "(let state = fst (record_working_day_decision (SetDay d reason) occurred_at actor rows) in
       ds_day state = Some d
       \<and> collected_day (collection_document location triage undos (ds_day state)) = Some d
       \<and> (\<exists>a b. wall_minutes (fst (span_of d weekday)) = Some a \<and> wall_minutes (snd (span_of d weekday)) = Some b
            \<and> a < b \<and> b < 1440))
     \<and> collected_day (collection_document location triage undos
           (ds_day (fst (record_working_day_decision (ClearDay reason) occurred_at actor rows)))) = None"
proof -
  have d: "day_ok d" by (rule accepted_day_ok [OF assms])
  have "ds_day (fst (record_working_day_decision (SetDay d reason) occurred_at actor rows)) = Some d"
    using day_row_round_trip [OF d, of reason occurred_at actor]
    by (simp add: record_working_day_decision_def working_day_state_def Let_def)
  then have "let state = fst (record_working_day_decision (SetDay d reason) occurred_at actor rows) in
       ds_day state = Some d
       \<and> collected_day (collection_document location triage undos (ds_day state)) = Some d
       \<and> (\<exists>a b. wall_minutes (fst (span_of d weekday)) = Some a \<and> wall_minutes (snd (span_of d weekday)) = Some b
            \<and> a < b \<and> b < 1440)"
    using collected_day_round_trip [OF d] span_minutes [OF d] by (simp add: Let_def)
  moreover have "collected_day (collection_document location triage undos
           (ds_day (fst (record_working_day_decision (ClearDay reason) occurred_at actor rows)))) = None"
    by (simp add: record_working_day_decision_def working_day_state_def day_of_row_def collected_day_def
        collection_document_def Let_def)
  ultimately show ?thesis by blast
qed

theorem collector_keeps_the_owners_hours_witness:
  "collected_day (collection_document False JNull JNull
     (ds_day (fst (record_working_day_decision (SetDay short_week None) ''t'' ''@me:x'' [])))) = Some short_week"
  using collector_keeps_the_owners_hours [OF short_wednesday, of "''t''" "''@me:x''" "[]" False JNull JNull 3]
  unfolding Let_def by blast

end
