(* ===== verification/Zones.thy ===== *)
theory Zones
  imports Ordered_Maps
begin

text \<open>
  The time zones of the owner's calendars (\<^verbatim>\<open>collector/src/zones.rs\<close> and the table of
  \<^verbatim>\<open>windows_zones.rs\<close>; the declaration of a collection and the zone of the events in
  \<^verbatim>\<open>calendars.rs\<close>). The zone database is \<^verbatim>\<open>chrono_tz\<close>: a lookup \<open>iana\<close> of names, with what
  the code asks of a zone as the fields of a record. \<open>narrow\<close> is the loop of
  \<^verbatim>\<open>slice::binary_search_by\<close>.
\<close>

section \<open>The zone of a name\<close>

text \<open>
  \<open>date_of\<close> is the local date of an instant, counted in days, and \<open>earliest\<close> the first
  instant a date and minutes of the day name there, if any; \<open>spelled\<close> is the instant
  with its offset.
\<close>

record zone =
  zone_name :: string
  date_of :: "int \<Rightarrow> int"
  earliest :: "int \<Rightarrow> nat \<Rightarrow> int option"
  spelled :: "int \<Rightarrow> string"

function narrow :: "(nat \<Rightarrow> bool) \<Rightarrow> nat \<Rightarrow> nat \<Rightarrow> nat" where
  "narrow not_greater base width =
     (if width \<le> 1 then base
      else
        let half = width div 2; mid = base + half in
        narrow not_greater (if not_greater mid then mid else base) (width - half))"
  by pat_completeness auto
termination by (relation "measure (\<lambda>(_, _, width). width)") auto

declare narrow.simps [simp del]

definition binary_search :: "('k :: linorder \<times> 'v) list \<Rightarrow> 'k \<Rightarrow> nat option" where
  "binary_search table key =
     (if table = [] then None
      else
        let base = narrow (\<lambda>i. fst (table ! i) \<le> key) 0 (length table) in
        if fst (table ! base) = key then Some base else None)"

definition windows_zones :: "(string \<times> string) list" where
  "windows_zones =
    [(''AUS Central Standard Time'', ''Australia/Darwin''),
     (''AUS Eastern Standard Time'', ''Australia/Sydney''),
     (''Afghanistan Standard Time'', ''Asia/Kabul''),
     (''Alaskan Standard Time'', ''America/Anchorage''),
     (''Aleutian Standard Time'', ''America/Adak''),
     (''Altai Standard Time'', ''Asia/Barnaul''),
     (''Arab Standard Time'', ''Asia/Riyadh''),
     (''Arabian Standard Time'', ''Asia/Dubai''),
     (''Arabic Standard Time'', ''Asia/Baghdad''),
     (''Argentina Standard Time'', ''America/Buenos_Aires''),
     (''Astrakhan Standard Time'', ''Europe/Astrakhan''),
     (''Atlantic Standard Time'', ''America/Halifax''),
     (''Aus Central W. Standard Time'', ''Australia/Eucla''),
     (''Azerbaijan Standard Time'', ''Asia/Baku''),
     (''Azores Standard Time'', ''Atlantic/Azores''),
     (''Bahia Standard Time'', ''America/Bahia''),
     (''Bangladesh Standard Time'', ''Asia/Dhaka''),
     (''Belarus Standard Time'', ''Europe/Minsk''),
     (''Bougainville Standard Time'', ''Pacific/Bougainville''),
     (''Canada Central Standard Time'', ''America/Regina''),
     (''Cape Verde Standard Time'', ''Atlantic/Cape_Verde''),
     (''Caucasus Standard Time'', ''Asia/Yerevan''),
     (''Cen. Australia Standard Time'', ''Australia/Adelaide''),
     (''Central America Standard Time'', ''America/Guatemala''),
     (''Central Asia Standard Time'', ''Asia/Bishkek''),
     (''Central Brazilian Standard Time'', ''America/Cuiaba''),
     (''Central Europe Standard Time'', ''Europe/Budapest''),
     (''Central European Standard Time'', ''Europe/Warsaw''),
     (''Central Pacific Standard Time'', ''Pacific/Guadalcanal''),
     (''Central Standard Time'', ''America/Chicago''),
     (''Central Standard Time (Mexico)'', ''America/Mexico_City''),
     (''Chatham Islands Standard Time'', ''Pacific/Chatham''),
     (''China Standard Time'', ''Asia/Shanghai''),
     (''Cuba Standard Time'', ''America/Havana''),
     (''Dateline Standard Time'', ''Etc/GMT+12''),
     (''E. Africa Standard Time'', ''Africa/Nairobi''),
     (''E. Australia Standard Time'', ''Australia/Brisbane''),
     (''E. Europe Standard Time'', ''Europe/Chisinau''),
     (''E. South America Standard Time'', ''America/Sao_Paulo''),
     (''Easter Island Standard Time'', ''Pacific/Easter''),
     (''Eastern Standard Time'', ''America/New_York''),
     (''Eastern Standard Time (Mexico)'', ''America/Cancun''),
     (''Egypt Standard Time'', ''Africa/Cairo''),
     (''Ekaterinburg Standard Time'', ''Asia/Yekaterinburg''),
     (''FLE Standard Time'', ''Europe/Kiev''),
     (''Fiji Standard Time'', ''Pacific/Fiji''),
     (''GMT Standard Time'', ''Europe/London''),
     (''GTB Standard Time'', ''Europe/Bucharest''),
     (''Georgian Standard Time'', ''Asia/Tbilisi''),
     (''Greenland Standard Time'', ''America/Godthab''),
     (''Greenwich Standard Time'', ''Atlantic/Reykjavik''),
     (''Haiti Standard Time'', ''America/Port-au-Prince''),
     (''Hawaiian Standard Time'', ''Pacific/Honolulu''),
     (''India Standard Time'', ''Asia/Calcutta''),
     (''Iran Standard Time'', ''Asia/Tehran''),
     (''Israel Standard Time'', ''Asia/Jerusalem''),
     (''Jordan Standard Time'', ''Asia/Amman''),
     (''Kaliningrad Standard Time'', ''Europe/Kaliningrad''),
     (''Korea Standard Time'', ''Asia/Seoul''),
     (''Libya Standard Time'', ''Africa/Tripoli''),
     (''Line Islands Standard Time'', ''Pacific/Kiritimati''),
     (''Lord Howe Standard Time'', ''Australia/Lord_Howe''),
     (''Magadan Standard Time'', ''Asia/Magadan''),
     (''Magallanes Standard Time'', ''America/Punta_Arenas''),
     (''Marquesas Standard Time'', ''Pacific/Marquesas''),
     (''Mauritius Standard Time'', ''Indian/Mauritius''),
     (''Middle East Standard Time'', ''Asia/Beirut''),
     (''Montevideo Standard Time'', ''America/Montevideo''),
     (''Morocco Standard Time'', ''Africa/Casablanca''),
     (''Mountain Standard Time'', ''America/Denver''),
     (''Mountain Standard Time (Mexico)'', ''America/Mazatlan''),
     (''Myanmar Standard Time'', ''Asia/Rangoon''),
     (''N. Central Asia Standard Time'', ''Asia/Novosibirsk''),
     (''Namibia Standard Time'', ''Africa/Windhoek''),
     (''Nepal Standard Time'', ''Asia/Katmandu''),
     (''New Zealand Standard Time'', ''Pacific/Auckland''),
     (''Newfoundland Standard Time'', ''America/St_Johns''),
     (''Norfolk Standard Time'', ''Pacific/Norfolk''),
     (''North Asia East Standard Time'', ''Asia/Irkutsk''),
     (''North Asia Standard Time'', ''Asia/Krasnoyarsk''),
     (''North Korea Standard Time'', ''Asia/Pyongyang''),
     (''Omsk Standard Time'', ''Asia/Omsk''),
     (''Pacific SA Standard Time'', ''America/Santiago''),
     (''Pacific Standard Time'', ''America/Los_Angeles''),
     (''Pacific Standard Time (Mexico)'', ''America/Tijuana''),
     (''Pakistan Standard Time'', ''Asia/Karachi''),
     (''Paraguay Standard Time'', ''America/Asuncion''),
     (''Qyzylorda Standard Time'', ''Asia/Qyzylorda''),
     (''Romance Standard Time'', ''Europe/Paris''),
     (''Russia Time Zone 10'', ''Asia/Srednekolymsk''),
     (''Russia Time Zone 11'', ''Asia/Kamchatka''),
     (''Russia Time Zone 3'', ''Europe/Samara''),
     (''Russian Standard Time'', ''Europe/Moscow''),
     (''SA Eastern Standard Time'', ''America/Cayenne''),
     (''SA Pacific Standard Time'', ''America/Bogota''),
     (''SA Western Standard Time'', ''America/La_Paz''),
     (''SE Asia Standard Time'', ''Asia/Bangkok''),
     (''Saint Pierre Standard Time'', ''America/Miquelon''),
     (''Sakhalin Standard Time'', ''Asia/Sakhalin''),
     (''Samoa Standard Time'', ''Pacific/Apia''),
     (''Sao Tome Standard Time'', ''Africa/Sao_Tome''),
     (''Saratov Standard Time'', ''Europe/Saratov''),
     (''Singapore Standard Time'', ''Asia/Singapore''),
     (''South Africa Standard Time'', ''Africa/Johannesburg''),
     (''South Sudan Standard Time'', ''Africa/Juba''),
     (''Sri Lanka Standard Time'', ''Asia/Colombo''),
     (''Sudan Standard Time'', ''Africa/Khartoum''),
     (''Syria Standard Time'', ''Asia/Damascus''),
     (''Taipei Standard Time'', ''Asia/Taipei''),
     (''Tasmania Standard Time'', ''Australia/Hobart''),
     (''Tocantins Standard Time'', ''America/Araguaina''),
     (''Tokyo Standard Time'', ''Asia/Tokyo''),
     (''Tomsk Standard Time'', ''Asia/Tomsk''),
     (''Tonga Standard Time'', ''Pacific/Tongatapu''),
     (''Transbaikal Standard Time'', ''Asia/Chita''),
     (''Turkey Standard Time'', ''Europe/Istanbul''),
     (''Turks And Caicos Standard Time'', ''America/Grand_Turk''),
     (''US Eastern Standard Time'', ''America/Indianapolis''),
     (''US Mountain Standard Time'', ''America/Phoenix''),
     (''UTC'', ''Etc/UTC''),
     (''UTC+12'', ''Etc/GMT-12''),
     (''UTC+13'', ''Etc/GMT-13''),
     (''UTC-02'', ''Etc/GMT+2''),
     (''UTC-08'', ''Etc/GMT+8''),
     (''UTC-09'', ''Etc/GMT+9''),
     (''UTC-11'', ''Etc/GMT+11''),
     (''Ulaanbaatar Standard Time'', ''Asia/Ulaanbaatar''),
     (''Venezuela Standard Time'', ''America/Caracas''),
     (''Vladivostok Standard Time'', ''Asia/Vladivostok''),
     (''Volgograd Standard Time'', ''Europe/Volgograd''),
     (''W. Australia Standard Time'', ''Australia/Perth''),
     (''W. Central Africa Standard Time'', ''Africa/Lagos''),
     (''W. Europe Standard Time'', ''Europe/Berlin''),
     (''W. Mongolia Standard Time'', ''Asia/Hovd''),
     (''West Asia Standard Time'', ''Asia/Tashkent''),
     (''West Bank Standard Time'', ''Asia/Hebron''),
     (''West Pacific Standard Time'', ''Pacific/Port_Moresby''),
     (''Yakutsk Standard Time'', ''Asia/Yakutsk''),
     (''Yukon Standard Time'', ''America/Whitehorse'')]"

definition zones_read :: "(string \<Rightarrow> zone option) \<Rightarrow> string \<Rightarrow> zone option" where
  "zones_read iana name =
     (let name = trim name in
      case iana name of
        Some zone \<Rightarrow> Some zone
      | None \<Rightarrow> Option.bind (binary_search windows_zones name) (\<lambda>i. iana (snd (windows_zones ! i))))"

record unplaceable =
  tzid :: string
  windows :: bool

definition unplaceable_reason :: "unplaceable \<Rightarrow> string" where
  "unplaceable_reason u = (if windows u then ''zone_windows_unmappable'' else ''zone_unknown'')"

definition place :: "(string \<Rightarrow> zone option) \<Rightarrow> string \<Rightarrow> unplaceable + zone" where
  "place iana name =
     ok_or \<lparr>tzid = trim name, windows = binary_search windows_zones (trim name) \<noteq> None\<rparr>
       (zones_read iana name)"

section \<open>The zone of the owner\<close>

fun text_after :: "string \<Rightarrow> string \<Rightarrow> string option" where
  "text_after needle [] = strip_prefix needle []"
| "text_after needle (c # s) =
     (case strip_prefix needle (c # s) of Some rest \<Rightarrow> Some rest | None \<Rightarrow> text_after needle s)"

definition tzid_in :: "(string \<Rightarrow> zone option) \<Rightarrow> string \<Rightarrow> string option" where
  "tzid_in iana body =
     Option.bind (text_after ''TZID:'' body) (\<lambda>rest.
       let name = trim (takeWhile (\<lambda>c. c \<notin> {CHR 0x0D, CHR 0x0A, CHR ''<'', CHR ''&''}) rest) in
       map_option zone_name (zones_read iana name))"

definition published_zones :: "json list \<Rightarrow> string list" where
  "published_zones = List.map_filter (\<lambda>published. Option.bind (jget published ''timezone'') jstr)"

definition count_one :: "string \<Rightarrow> (string \<times> nat) list \<Rightarrow> (string \<times> nat) list" where
  "count_one name seen = btree_insert name ((case map_of seen name of None \<Rightarrow> 0 | Some n \<Rightarrow> n) + 1) seen"

definition tally :: "string list \<Rightarrow> (string \<times> nat) list" where
  "tally names = fold count_one names []"

definition beats :: "string \<times> nat \<Rightarrow> string \<times> nat \<Rightarrow> bool" where
  "beats left right \<longleftrightarrow> snd right < snd left \<or> snd left = snd right \<and> fst left < fst right"

fun modal_zone :: "(string \<times> nat) list \<Rightarrow> (string \<times> nat) option" where
  "modal_zone [] = None"
| "modal_zone (x # xs) = Some (fold (\<lambda>one best. if beats best one then best else one) xs x)"

datatype zone_source = OfCalendar | OfEvents

definition zone_of_their_events :: "json list \<Rightarrow> (string \<times> zone_source) option" where
  "zone_of_their_events published =
     map_option (\<lambda>(name, count). (name, OfEvents)) (modal_zone (tally (published_zones published)))"

section \<open>A sorted table is searched\<close>

lemma narrow_in_range: "0 < width \<Longrightarrow> base \<le> narrow p base width \<and> narrow p base width < base + width"
proof (induction p base width rule: narrow.induct)
  case (1 p base width)
  show ?case
  proof (cases "width \<le> 1")
    case False
    then have "0 < width - width div 2" by simp
    from 1(1) [OF False refl refl this] False show ?thesis
      by (subst (1 2) narrow.simps) (auto simp: Let_def)
  qed (use 1(2) in \<open>subst (1 2) narrow.simps, simp\<close>)
qed

lemma narrow_finds:
  assumes "sorted (map fst table)" and "\<exists>i. base \<le> i \<and> i < base + width \<and> fst (table ! i) = key"
    and "base + width \<le> length table"
  shows "fst (table ! narrow (\<lambda>i. fst (table ! i) \<le> key) base width) = key"
  using assms(2,3)
proof (induction width arbitrary: base rule: less_induct)
  case (less width)
  define half where "half = width div 2"
  obtain i where i: "base \<le> i" "i < base + width" "fst (table ! i) = key" using less.prems(1) by blast
  have le: "fst (table ! m) \<le> fst (table ! n)" if "m \<le> n" "n < length table" for m n
    using sorted_nth_mono [OF assms(1), of m n] that by simp
  have mid: "base + half < length table" if "\<not> width \<le> 1"
    using that less.prems(2) by (simp add: half_def)
  show ?case
  proof (cases "width \<le> 1")
    case True
    then have "i = base" using i by simp
    with True i(3) show ?thesis by (simp add: narrow.simps)
  next
    case False
    note False' = False
    have half: "width - half < width" "0 < half" "half < width" using False by (simp_all add: half_def)
    define base' where "base' = (if fst (table ! (base + half)) \<le> key then base + half else base)"
    have "\<exists>i. base' \<le> i \<and> i < base' + (width - half) \<and> fst (table ! i) = key"
    proof (cases "fst (table ! (base + half)) \<le> key")
      case True
      then have "fst (table ! max i (base + half)) = key"
        using i le [of i "base + half"] mid False' by (auto simp: max_def intro: antisym)
      with True i half show ?thesis by (intro exI [of _ "max i (base + half)"]) (auto simp: base'_def)
    next
      case False
      then have "i < base + half"
        using i le [of "base + half" i] less.prems(2) by (meson leI le_less_trans order.trans less_le_trans)
      then have "i < base + (width - half)" by (simp add: half_def)
      with False i show ?thesis by (auto simp: base'_def)
    qed
    from less.IH [OF half(1) this] less.prems(2) half False show ?thesis
      by (subst narrow.simps) (auto simp: Let_def half_def [symmetric] base'_def split: if_splits)
  qed
qed

lemma binary_search_None:
  assumes "sorted (map fst table)"
  shows "binary_search table key = None \<longleftrightarrow> map_of table key = None"
proof
  assume none: "binary_search table key = None"
  have "key \<noteq> fst x" if "x \<in> set table" for x
  proof
    assume key: "key = fst x"
    from that obtain i where "i < length table" "table ! i = x" by (auto simp: in_set_conv_nth)
    with narrow_finds [OF assms, of 0 "length table" key] key
    have "fst (table ! narrow (\<lambda>i. fst (table ! i) \<le> key) 0 (length table)) = key" by auto
    moreover have "table \<noteq> []" using that by auto
    ultimately show False using none by (simp add: binary_search_def Let_def)
  qed
  then show "map_of table key = None" by (force simp: map_of_eq_None_iff)
next
  assume "map_of table key = None"
  then have "fst (table ! i) \<noteq> key" if "i < length table" for i
    using that nth_mem [OF that] by (auto simp: map_of_eq_None_iff)
  then show "binary_search table key = None"
    using narrow_in_range [of "length table" 0 "\<lambda>i. fst (table ! i) \<le> key"]
    by (simp add: binary_search_def Let_def)
qed

lemma binary_search_Some:
  assumes "distinct (map fst table)" and "binary_search table key = Some i"
  shows "map_of table key = Some (snd (table ! i))"
proof -
  have i: "i < length table" "fst (table ! i) = key"
    using assms(2) narrow_in_range [of "length table" 0 "\<lambda>i. fst (table ! i) \<le> key"]
    by (auto simp: binary_search_def Let_def split: if_splits)
  then have "(key, snd (table ! i)) \<in> set table" by (metis nth_mem prod.collapse)
  then show ?thesis using assms(1) by simp
qed

text \<open>The generated table is in the order of the Windows names.\<close>

fun ascending :: "string list \<Rightarrow> bool" where
  "ascending (a # b # names) \<longleftrightarrow> a < b \<and> ascending (b # names)"
| "ascending _ \<longleftrightarrow> True"

lemma ascending_sorted: "ascending names \<Longrightarrow> sorted_wrt (<) names"
proof (induction names rule: ascending.induct)
  case (1 a b names)
  then show ?case by (fastforce intro: less_trans)
qed simp_all

lemma windows_zones_keys_ok: "keys_ok windows_zones"
proof -
  have "ascending (map fst windows_zones)" by code_simp
  then show ?thesis by (simp add: keys_ok_def ascending_sorted)
qed

lemma windows_zones_sorted: "sorted (map fst windows_zones)"
  using windows_zones_keys_ok by (simp add: keys_ok_def strict_sorted_iff)

lemma windows_zones_search:
  "Option.bind (binary_search windows_zones name) (\<lambda>i. f (snd (windows_zones ! i)))
     = Option.bind (map_of windows_zones name) f"
proof (cases "binary_search windows_zones name")
  case None
  then show ?thesis
    using binary_search_None [OF windows_zones_sorted, of name] by simp
next
  case (Some i)
  then show ?thesis
    using binary_search_Some [OF keys_ok_distinct [OF windows_zones_keys_ok]] by auto
qed

section \<open>The tally\<close>

lemma tally_counts: "map_of (tally names) name = (if name \<in> set names then Some (count_list names name) else None)"
proof -
  have "map_of (fold count_one names m) name
      = (if name \<in> set names then Some ((case map_of m name of None \<Rightarrow> 0 | Some n \<Rightarrow> n) + count_list names name)
         else map_of m name)" for m
    by (induction names arbitrary: m) (auto simp: count_one_def split: option.split)
  from this [of "[]"] show ?thesis by (simp add: tally_def)
qed

lemma keys_ok_tally: "keys_ok (tally names)"
proof -
  have "keys_ok m \<Longrightarrow> keys_ok (fold count_one names m)" for m :: "(string \<times> nat) list"
    by (induction names arbitrary: m) (auto simp: count_one_def keys_ok_insert)
  from this [of "[]"] show ?thesis by (simp add: tally_def keys_ok_def)
qed

lemma tally_members: "(name, n) \<in> set (tally names) \<longleftrightarrow> name \<in> set names \<and> n = count_list names name"
  using tally_counts [of names name] keys_ok_distinct [OF keys_ok_tally, of names]
  by (metis (no_types, lifting) map_of_eq_Some_iff option.inject option.distinct(1))

lemma modal_fold_best:
  fixes a :: "string \<times> nat"
  defines "pick \<equiv> \<lambda>one best. if beats best one then best else one"
  defines "below \<equiv> \<lambda>(y :: string \<times> nat) x. snd y < snd x \<or> snd y = snd x \<and> fst x \<le> fst y"
  shows "fold pick rest a \<in> set (a # rest) \<and> (\<forall>y \<in> set (a # rest). below y (fold pick rest a))"
proof (induction rest arbitrary: a)
  case Nil
  show ?case by (simp add: below_def)
next
  case (Cons b rest)
  have trans: "below x z" if "below x y" "below y z" for x y z
    using that by (auto simp: below_def intro: order.trans)
  have choice: "if beats a b then below b a else below a b"
    by (auto simp: beats_def below_def)
  show ?case
  proof (cases "beats a b")
    case True
    then have "below b (fold pick rest a)" using choice trans [of b a] Cons.IH [of a] by simp
    with True Cons.IH [of a] show ?thesis by (auto simp: pick_def)
  next
    case False
    then have "below a (fold pick rest b)" using choice trans [of a b] Cons.IH [of b] by simp
    with False Cons.IH [of b] show ?thesis by (auto simp: pick_def)
  qed
qed

lemma modal_zone_best:
  "modal_zone seen = Some x \<Longrightarrow> x \<in> set seen \<and> (\<forall>y \<in> set seen. snd y < snd x \<or> snd y = snd x \<and> fst x \<le> fst y)"
  using modal_fold_best by (cases seen) auto

section \<open>What is read\<close>

text \<open>
  A zone name is read through the database first and through the Windows table second,
  and the search of the table finds exactly its rows: a name in neither family is placed
  nowhere, and the refusal says whether the table knew it.
\<close>

theorem zone_names_are_found:
  "zones_read iana name =
     (case iana (trim name) of Some zone \<Rightarrow> Some zone | None \<Rightarrow> Option.bind (map_of windows_zones (trim name)) iana)
   \<and> (place iana name = Inl u \<longleftrightarrow>
        iana (trim name) = None \<and> Option.bind (map_of windows_zones (trim name)) iana = None
        \<and> u = \<lparr>tzid = trim name, windows = trim name \<in> fst ` set windows_zones\<rparr>)"
proof -
  have read: "zones_read iana name =
      (case iana (trim name) of Some zone \<Rightarrow> Some zone | None \<Rightarrow> Option.bind (map_of windows_zones (trim name)) iana)"
    unfolding zones_read_def Let_def by (simp only: windows_zones_search [of "trim name" iana])
  have "binary_search windows_zones (trim name) \<noteq> None \<longleftrightarrow> trim name \<in> fst ` set windows_zones"
    by (simp add: binary_search_None [OF windows_zones_sorted] map_of_eq_None_iff)
  with read show ?thesis
    by (auto simp: place_def ok_or_Inl_iff split: option.splits)
qed

text \<open>
  When no calendar declares a zone, the zone of the events is the one most of them are
  written in, the first by name where several are, whatever the order the events are read
  in; there is none only when no event carries one.
\<close>

theorem zone_of_the_events_is_the_mode:
  "zone_of_their_events published = Some (name, source) \<longleftrightarrow>
     source = OfEvents \<and> name \<in> set (published_zones published)
     \<and> (\<forall>other \<in> set (published_zones published).
          count_list (published_zones published) other < count_list (published_zones published) name
          \<or> count_list (published_zones published) other = count_list (published_zones published) name \<and> name \<le> other)"
  (is "?left \<longleftrightarrow> ?right")
proof -
  let ?names = "published_zones published"
  have best: "m \<in> set ?names \<and> n = count_list ?names m
      \<and> (\<forall>other \<in> set ?names. count_list ?names other < count_list ?names m
           \<or> count_list ?names other = count_list ?names m \<and> m \<le> other)"
    if "modal_zone (tally ?names) = Some (m, n)" for m n
  proof -
    from modal_zone_best [OF that] have m: "m \<in> set ?names" "n = count_list ?names m"
      by (simp_all add: tally_members)
    have "count_list ?names other < n \<or> count_list ?names other = n \<and> m \<le> other" if "other \<in> set ?names" for other
      using modal_zone_best [OF \<open>modal_zone (tally ?names) = Some (m, n)\<close>] that
        tally_members [of other "count_list ?names other" ?names] by auto
    with m show ?thesis by simp
  qed
  show ?thesis
  proof
    assume ?left
    then show ?right using best by (auto simp: zone_of_their_events_def)
  next
    assume right: ?right
    then have "(name, count_list ?names name) \<in> set (tally ?names)" by (simp add: tally_members)
    then obtain best where "modal_zone (tally ?names) = Some best" by (cases "tally ?names") auto
    moreover obtain m n where "best = (m, n)" by (cases best)
    ultimately have modal: "modal_zone (tally ?names) = Some (m, n)" by simp
    from best [OF this] have m: "m \<in> set ?names"
      "count_list ?names name < count_list ?names m \<or> count_list ?names name = count_list ?names m \<and> m \<le> name"
      using right by auto
    moreover have "count_list ?names m < count_list ?names name \<or> count_list ?names m = count_list ?names name \<and> name \<le> m"
      using right m(1) by blast
    ultimately have "m = name" by auto
    with modal right show ?left by (simp add: zone_of_their_events_def)
  qed
qed

definition names_read_back :: "(string \<Rightarrow> zone option) \<Rightarrow> bool" where
  "names_read_back iana \<longleftrightarrow>
     (\<forall>name zone. iana name = Some zone \<longrightarrow> iana (zone_name zone) = Some zone \<and> trim (zone_name zone) = zone_name zone)"

lemma text_after_Some: "text_after needle s = Some rest \<Longrightarrow> \<exists>pre. s = pre @ needle @ rest"
proof (induction needle s rule: text_after.induct)
  case (2 needle c s)
  show ?case
  proof (cases "strip_prefix needle (c # s)")
    case None
    with 2 obtain pre where "s = pre @ needle @ rest" by auto
    then show ?thesis by (intro exI [of _ "c # pre"]) simp
  next
    case (Some r)
    with 2(2) have "c # s = [] @ needle @ rest" by (simp add: strip_prefix_Some_iff)
    then show ?thesis by blast
  qed
qed (auto simp: strip_prefix_Some_iff)

lemma zones_read_back:
  assumes "names_read_back iana" and "zones_read iana name = Some zone"
  shows "zones_read iana (zone_name zone) = Some zone"
proof -
  obtain other where "iana other = Some zone"
    using assms(2) by (auto simp: zones_read_def Let_def bind_eq_Some_conv split: option.splits)
  with assms(1) show ?thesis by (auto simp: names_read_back_def zones_read_def)
qed

text \<open>
  The zone a collection declares is kept by its IANA name, whatever family the
  declaration was written in: what \<open>tzid_in\<close> answers reads back as the same zone.
\<close>

theorem declared_zone_is_kept_by_its_iana_name:
  assumes "names_read_back iana" and "tzid_in iana body = Some name"
  shows "\<exists>pre declared rest zone. body = pre @ ''TZID:'' @ declared @ rest
           \<and> zones_read iana (trim declared) = Some zone \<and> name = zone_name zone \<and> zones_read iana name = Some zone"
proof -
  let ?ends = "\<lambda>c. c \<notin> {CHR 0x0D, CHR 0x0A, CHR ''<'', CHR ''&''}"
  obtain rest zone where rest: "text_after ''TZID:'' body = Some rest"
    and zone: "zones_read iana (trim (takeWhile ?ends rest)) = Some zone"
    and name: "name = zone_name zone"
    using assms(2) by (auto simp: tzid_in_def Let_def bind_eq_Some_conv)
  obtain pre where "body = pre @ ''TZID:'' @ rest" using text_after_Some [OF rest] by blast
  moreover have "rest = takeWhile ?ends rest
                   @ dropWhile ?ends rest" by simp
  moreover have "zones_read iana name = Some zone"
    using zones_read_back [OF assms(1) zone] name by simp
  ultimately show ?thesis using zone name by metis
qed

text \<open>A database of two zones, at fixed offsets.\<close>

definition fixed_zone :: "string \<Rightarrow> nat \<Rightarrow> zone" where
  "fixed_zone name hours =
     \<lparr>zone_name = name, date_of = \<lambda>t. (t + int hours * 3600000000000) div 86400000000000,
      earliest = \<lambda>d m. Some (d * 86400000000000 + int m * 60000000000 - int hours * 3600000000000),
      spelled = \<lambda>t. dec (nat (t div 1000000000)) @ ''+0'' @ dec hours @ '':00''\<rparr>"

definition two_zones :: "string \<Rightarrow> zone option" where
  "two_zones name =
     (if name = ''Europe/Paris'' then Some (fixed_zone name 2)
      else if name = ''UTC'' then Some (fixed_zone name 0) else None)"

lemma two_zones_read_back: "names_read_back two_zones"
proof -
  have "trim ''Europe/Paris'' = ''Europe/Paris''" "trim ''UTC'' = ''UTC''" by code_simp+
  then show ?thesis by (auto simp: names_read_back_def two_zones_def fixed_zone_def)
qed

theorem declared_zone_is_kept_by_its_iana_name_witness:
  "\<exists>pre declared rest zone. ''TZID: Romance Standard Time&#13;'' = pre @ ''TZID:'' @ declared @ rest
     \<and> zones_read two_zones (trim declared) = Some zone \<and> ''Europe/Paris'' = zone_name zone
     \<and> zones_read two_zones ''Europe/Paris'' = Some zone"
proof (rule declared_zone_is_kept_by_its_iana_name [OF two_zones_read_back])
  show "tzid_in two_zones ''TZID: Romance Standard Time&#13;'' = Some ''Europe/Paris''" by code_simp
qed

end
