(* ===== verification/Free_Busy.thy ===== *)
theory Free_Busy
  imports Working_Day Zones "HOL-Library.Code_Target_Nat"
begin

text \<open>
  The free/busy read of the collector (\<^verbatim>\<open>collector/src/freebusy.rs\<close>, the folded lines and the
  durations of \<^verbatim>\<open>caldav.rs\<close>): the window a read may ask for, the busy periods of a calendar's
  answer, their merge, the gaps they leave and the part of the gaps inside the owner's
  working day. An instant is a number of nanoseconds; \<^verbatim>\<open>chrono\<close>'s reading and rendering of
  instants are the fields of a record, and a panic of it is an error of its own.
\<close>

section \<open>The window\<close>

definition second :: int where "second = 1000000000"

definition minute :: int where "minute = 60 * second"

record chrono =
  render :: "int \<Rightarrow> string"
  read_instant :: "string \<Rightarrow> int option"
  read_naive :: "string \<Rightarrow> int option"
  representable :: "int \<Rightarrow> bool"
  last_date :: int

record window =
  win_from :: int
  win_to :: int

datatype window_error = NotAnInstant string | EmptyWindow | TooWide

fun window_code :: "window_error \<Rightarrow> string" where
  "window_code (NotAnInstant which) = ''invalid_window''"
| "window_code EmptyWindow = ''invalid_window''"
| "window_code TooWide = ''window_too_wide''"

definition max_window :: int where
  "max_window = 14 * 86400 * second"

definition window_parse :: "chrono \<Rightarrow> string \<Rightarrow> string \<Rightarrow> window_error + window" where
  "window_parse c from_at to_at =
     and_then (ok_or (NotAnInstant ''from'') (read_instant c (trim from_at))) (\<lambda>a.
     and_then (ok_or (NotAnInstant ''to'') (read_instant c (trim to_at))) (\<lambda>b.
       if b \<le> a then Inl EmptyWindow
       else if max_window < b - a then Inl TooWide
       else Inr \<lparr>win_from = a, win_to = b\<rparr>))"

section \<open>What a calendar answers\<close>

definition trim_end_cr :: "string \<Rightarrow> string" where
  "trim_end_cr s = rev (dropWhile (\<lambda>c. c = CHR 0x0D) (rev s))"

definition folded :: "string \<Rightarrow> string option" where
  "folded raw =
     (case strip_prefix '' '' raw of Some rest \<Rightarrow> Some rest | None \<Rightarrow> strip_prefix [CHR 0x09] raw)"

definition unfold_line :: "string list \<Rightarrow> string \<Rightarrow> string list" where
  "unfold_line ls line =
     (let raw = trim_end_cr line in
      case folded raw of
        Some rest \<Rightarrow> if ls \<noteq> [] then butlast ls @ [last ls @ rest] else ls @ [raw]
      | None \<Rightarrow> ls @ [raw])"

definition unfold :: "string \<Rightarrow> string list" where
  "unfold ics = foldl unfold_line [] (split_on (CHR 0x0A) ics)"

datatype duration_error =
    DurationWithoutP | UnitWithoutCount | UnknownUnit char | BareNumber | DurationPanics

definition duration_ok :: "int \<Rightarrow> bool" where
  "duration_ok d \<longleftrightarrow> \<bar>d\<bar> \<le> (2 ^ 63 - 1) * 1000000"

definition unit_seconds :: "char \<Rightarrow> bool \<Rightarrow> int option" where
  "unit_seconds c in_time =
     (if c = CHR ''W'' \<and> \<not> in_time then Some 604800
      else if c = CHR ''D'' \<and> \<not> in_time then Some 86400
      else if c = CHR ''H'' \<and> in_time then Some 3600
      else if c = CHR ''M'' \<and> in_time then Some 60
      else if c = CHR ''S'' \<and> in_time then Some 1
      else None)"

definition checked_duration :: "int \<Rightarrow> duration_error + int" where
  "checked_duration d = (if duration_ok d then Inr d else Inl DurationPanics)"

fun duration_loop :: "string \<Rightarrow> int \<Rightarrow> string \<Rightarrow> bool \<Rightarrow> duration_error + int" where
  "duration_loop [] sum_so_far number in_time = (if number = [] then Inr sum_so_far else Inl BareNumber)"
| "duration_loop (c # cs) sum_so_far number in_time =
     (if is_ascii_digit c then duration_loop cs sum_so_far (number @ [c]) in_time
      else if c = CHR ''T'' then duration_loop cs sum_so_far number True
      else
        and_then (ok_or UnitWithoutCount (parse_uint (2 ^ 63) number)) (\<lambda>count.
        and_then (ok_or (UnknownUnit c) (unit_seconds c in_time)) (\<lambda>seconds.
        and_then (checked_duration (int count * seconds * second)) (\<lambda>d.
        and_then (checked_duration (sum_so_far + d)) (\<lambda>next_sum.
          duration_loop cs next_sum [] in_time)))))"

definition parse_duration :: "string \<Rightarrow> duration_error + int" where
  "parse_duration given =
     (let v = trim given;
          (negative, rest) =
            (case strip_prefix ''-'' v of
               Some rest \<Rightarrow> (True, rest)
             | None \<Rightarrow> (False, case strip_prefix ''+'' v of Some rest \<Rightarrow> rest | None \<Rightarrow> v)) in
      and_then (ok_or DurationWithoutP (strip_prefix ''P'' rest)) (\<lambda>body.
      and_then (duration_loop body 0 [] False) (\<lambda>sum_so_far.
        Inr (if negative then - sum_so_far else sum_so_far))))"

datatype period_error =
    NotAPeriod | NotUtc | NotADateTime | BadDuration duration_error | InstantPanics

definition utc_instant :: "chrono \<Rightarrow> string \<Rightarrow> period_error + int" where
  "utc_instant c v =
     and_then (ok_or NotUtc (strip_suffix ''Z'' (trim v))) (\<lambda>bare. ok_or NotADateTime (read_naive c bare))"

definition bad_duration :: "duration_error + int \<Rightarrow> period_error + int" where
  "bad_duration r = (case r of Inl e \<Rightarrow> Inl (BadDuration e) | Inr d \<Rightarrow> Inr d)"

definition read_period :: "chrono \<Rightarrow> string \<Rightarrow> period_error + int \<times> int" where
  "read_period c period =
     and_then (ok_or NotAPeriod (split_once (CHR ''/'') period)) (\<lambda>(start, end).
     and_then (utc_instant c start) (\<lambda>a.
       if strip_prefix ''P'' (trim end) \<noteq> None \<or> strip_prefix ''-P'' (trim end) \<noteq> None then
         and_then (bad_duration (parse_duration end)) (\<lambda>d.
           if representable c (a + d) then Inr (a, a + d) else Inl InstantPanics)
       else and_then (utc_instant c end) (\<lambda>b. Inr (a, b))))"

definition is_busy_head :: "string \<Rightarrow> bool" where
  "is_busy_head head =
     (case split_on (CHR '';'') head of
        [] \<Rightarrow> False
      | name # params \<Rightarrow>
          eq_ignore_ascii_case name ''FREEBUSY''
          \<and> \<not> list_ex (\<lambda>param. case split_once (CHR ''='') param of
                         None \<Rightarrow> False
                       | Some (name, v) \<Rightarrow>
                           eq_ignore_ascii_case name ''FBTYPE'' \<and> eq_ignore_ascii_case v ''FREE'') params)"

definition line_periods :: "chrono \<Rightarrow> string \<Rightarrow> period_error + (int \<times> int) list" where
  "line_periods c line =
     (case split_once (CHR '':'') line of
        None \<Rightarrow> Inr []
      | Some (head, v) \<Rightarrow>
          if is_busy_head head then traverse (read_period c) (split_on (CHR '','') v) else Inr [])"

definition answer_periods :: "chrono \<Rightarrow> string \<Rightarrow> period_error + (int \<times> int) list" where
  "answer_periods c ics = and_then (traverse (line_periods c) (unfold ics)) (\<lambda>pss. Inr (concat pss))"

section \<open>The merge\<close>

record busy =
  b_start :: string
  b_end :: string

definition clip :: "window \<Rightarrow> (int \<times> int) list \<Rightarrow> (int \<times> int) list" where
  "clip w periods =
     filter (\<lambda>(a, b). a < b) (map (\<lambda>(a, b). (max a (win_from w), min b (win_to w))) periods)"

definition absorb :: "(int \<times> int) list \<Rightarrow> int \<times> int \<Rightarrow> (int \<times> int) list" where
  "absorb merged p =
     (if merged \<noteq> [] \<and> fst p \<le> snd (last merged) then
        if snd (last merged) < snd p then butlast merged @ [(fst (last merged), snd p)] else merged
      else merged @ [p])"

definition merged_periods :: "(int \<times> int) list \<Rightarrow> window \<Rightarrow> (int \<times> int) list" where
  "merged_periods periods w = foldl absorb [] (sort (clip w periods))"

definition busy_of :: "chrono \<Rightarrow> int \<times> int \<Rightarrow> busy" where
  "busy_of c p = \<lparr>b_start = render c (fst p), b_end = render c (snd p)\<rparr>"

definition merge :: "chrono \<Rightarrow> (int \<times> int) list \<Rightarrow> window \<Rightarrow> busy list" where
  "merge c periods w = map (busy_of c) (merged_periods periods w)"

definition parse_free_busy :: "chrono \<Rightarrow> string \<Rightarrow> window \<Rightarrow> period_error + busy list" where
  "parse_free_busy c ics w = and_then (answer_periods c ics) (\<lambda>periods. Inr (merge c periods w))"

definition read_busy :: "chrono \<Rightarrow> busy \<Rightarrow> (int \<times> int) option" where
  "read_busy c b =
     Option.bind (read_instant c (b_start b)) (\<lambda>start.
     Option.bind (read_instant c (b_end b)) (\<lambda>end. Some (start, end)))"

definition merge_answers :: "chrono \<Rightarrow> busy list list \<Rightarrow> window \<Rightarrow> busy list" where
  "merge_answers c answers w = merge c (List.map_filter (read_busy c) (concat answers)) w"

section \<open>The gaps\<close>

record free =
  f_start :: string
  f_end :: string
  f_start_local :: "string option"
  f_end_local :: "string option"
  f_minutes :: int

definition num_minutes :: "int \<Rightarrow> int" where
  "num_minutes d = (if 0 \<le> d then d div minute else - ((- d) div minute))"

definition free_of :: "chrono \<Rightarrow> zone option \<Rightarrow> int \<times> int \<Rightarrow> free" where
  "free_of c z p =
     \<lparr>f_start = render c (fst p), f_end = render c (snd p),
      f_start_local = map_option (\<lambda>z. spelled z (fst p)) z,
      f_end_local = map_option (\<lambda>z. spelled z (snd p)) z,
      f_minutes = num_minutes (snd p - fst p)\<rparr>"

definition push_gap :: "int \<Rightarrow> int \<Rightarrow> (int \<times> int) list" where
  "push_gap a b = (if num_minutes (b - a) \<le> 0 then [] else [(a, b)])"

fun gaps :: "int \<Rightarrow> (int \<times> int) list \<Rightarrow> int \<Rightarrow> (int \<times> int) list" where
  "gaps at [] to = push_gap at to"
| "gaps at ((start, end) # spans) to = push_gap at start @ gaps (max at end) spans to"

section \<open>The working day\<close>

definition hours_of :: "working_day \<Rightarrow> nat \<times> nat \<Rightarrow> nat \<Rightarrow> nat \<times> nat" where
  "hours_of day usual weekday =
     (case (wall_minutes (fst (span_of day weekday)), wall_minutes (snd (span_of day weekday))) of
        (Some a, Some b) \<Rightarrow> if a < b then (a, b) else usual
      | _ \<Rightarrow> usual)"

definition weekday_of :: "int \<Rightarrow> nat" where
  "weekday_of date = nat ((date + 3) mod 7 + 1)"

definition instant_at :: "zone \<Rightarrow> int \<Rightarrow> nat \<Rightarrow> int option" where
  "instant_at z date m = (if m * 60 < 86400 then earliest z date m else None)"

definition day_part :: "zone \<Rightarrow> working_day \<Rightarrow> nat \<times> nat \<Rightarrow> int \<Rightarrow> int \<Rightarrow> int \<Rightarrow> (int \<times> int) list" where
  "day_part z day usual start end date =
     (if weekday_of date \<in> set (d_days day) then
        let hours = hours_of day usual (weekday_of date) in
        case (instant_at z date (fst hours), instant_at z date (snd hours)) of
          (Some opens, Some closes) \<Rightarrow> push_gap (max start opens) (min end closes)
        | _ \<Rightarrow> []
      else [])"

function walk :: "int \<Rightarrow> (int \<Rightarrow> 'a list) \<Rightarrow> int \<Rightarrow> int \<Rightarrow> 'a list" where
  "walk final f date until =
     (if date \<le> until then f date @ (if date = final then [] else walk final f (date + 1) until) else [])"
  by pat_completeness auto
termination by (relation "measure (\<lambda>(_, _, date, until). nat (until + 1 - date))") auto

declare walk.simps [simp del]

definition within :: "chrono \<Rightarrow> free list \<Rightarrow> working_day \<Rightarrow> zone \<Rightarrow> free list" where
  "within c offered day z =
     (case (wall_minutes (d_starts_at day), wall_minutes (d_ends_at day)) of
        (Some a, Some b) \<Rightarrow>
          concat (map (\<lambda>gap.
            case (read_instant c (f_start gap), read_instant c (f_end gap)) of
              (Some start, Some end) \<Rightarrow>
                map (free_of c (Some z))
                  (walk (last_date c) (day_part z day (a, b) start end) (date_of z start) (date_of z end))
            | _ \<Rightarrow> [gap]) offered)
      | _ \<Rightarrow> offered)"

definition free_between ::
  "chrono \<Rightarrow> (string \<Rightarrow> zone option) \<Rightarrow> busy list \<Rightarrow> window \<Rightarrow> string option \<Rightarrow> working_day option \<Rightarrow> free list" where
  "free_between c iana busy w zone_named day =
     (let z = Option.bind zone_named (zones_read iana) in
      case those (map (read_busy c) busy) of
        None \<Rightarrow> []
      | Some spans \<Rightarrow>
          let offered = map (free_of c z) (gaps (win_from w) spans (win_to w)) in
          case (day, z) of
            (Some day, Some z) \<Rightarrow> within c offered day z
          | _ \<Rightarrow> offered)"

section \<open>Intervals\<close>

text \<open>
  A list of periods as the set of its instants, the end exclusive; \<open>apart\<close> is the normal
  form, in order with time between any two. It determines the list.
\<close>

definition inside :: "(int \<times> int) list \<Rightarrow> int \<Rightarrow> bool" where
  "inside ps t \<longleftrightarrow> list_ex (\<lambda>p. fst p \<le> t \<and> t < snd p) ps"

definition apart :: "(int \<times> int) list \<Rightarrow> bool" where
  "apart ps \<longleftrightarrow> sorted_wrt (\<lambda>p q. snd p < fst q) ps \<and> list_all (\<lambda>p. fst p < snd p) ps"

lemma inside_simps [simp]:
  "\<not> inside [] t" "inside (p # ps) t \<longleftrightarrow> fst p \<le> t \<and> t < snd p \<or> inside ps t"
  "inside (ps @ qs) t \<longleftrightarrow> inside ps t \<or> inside qs t"
  by (simp_all add: inside_def)

lemma inside_iff: "inside ps t \<longleftrightarrow> (\<exists>p \<in> set ps. fst p \<le> t \<and> t < snd p)"
  by (simp add: inside_def list_ex_iff)

lemma inside_concat: "inside (concat pss) t \<longleftrightarrow> (\<exists>ps \<in> set pss. inside ps t)"
  by (induction pss) auto

lemma inside_clip: "inside (clip w ps) t \<longleftrightarrow> win_from w \<le> t \<and> t < win_to w \<and> inside ps t"
  by (induction ps) (auto simp: clip_def)

lemma apart_snoc: "apart (ps @ [p]) \<longleftrightarrow> apart ps \<and> fst p < snd p \<and> (\<forall>q \<in> set ps. snd q < fst p)"
  by (auto simp: apart_def sorted_wrt_append)

lemma apart_Cons: "apart (p # ps) \<longleftrightarrow> apart ps \<and> fst p < snd p \<and> (\<forall>q \<in> set ps. snd p < fst q)"
  by (auto simp: apart_def)

lemma absorb_step:
  assumes "apart m" and "fst p < snd p" and "\<forall>q \<in> set m. fst q \<le> fst p"
  shows "apart (absorb m p)" and "inside (absorb m p) t \<longleftrightarrow> inside m t \<or> fst p \<le> t \<and> t < snd p"
    and "q \<in> set (absorb m p) \<Longrightarrow> fst q \<le> fst p"
    and "q \<in> set (absorb m p) \<Longrightarrow> fst q \<in> fst ` insert p (set m) \<and> snd q \<in> snd ` insert p (set m)"
proof -
  have "apart (absorb m p) \<and> (inside (absorb m p) t \<longleftrightarrow> inside m t \<or> fst p \<le> t \<and> t < snd p)
      \<and> (\<forall>q \<in> set (absorb m p). fst q \<le> fst p
           \<and> (fst q \<in> fst ` insert p (set m) \<and> snd q \<in> snd ` insert p (set m)))"
  proof (cases m rule: rev_cases)
    case Nil
    then show ?thesis using assms(2) by (auto simp: absorb_def apart_def)
  next
    case (snoc ys l)
    have ys: "apart ys" "fst l < snd l" "\<forall>q \<in> set ys. snd q < fst l" "fst l \<le> fst p"
      using assms(1,3) snoc by (auto simp: apart_snoc)
    have before: "\<forall>q \<in> set ys. snd q < snd l" using ys by force
    show ?thesis
    proof (cases "fst p \<le> snd l")
      case True
      then show ?thesis
        using snoc ys assms(3) by (auto simp: absorb_def apart_snoc)
    next
      case False
      then have "\<forall>q \<in> set m. snd q < fst p" using snoc before by auto
      moreover have "absorb m p = m @ [p]" using False snoc by (simp add: absorb_def)
      ultimately show ?thesis using assms by (auto simp: apart_snoc)
    qed
  qed
  then show "apart (absorb m p)" and "inside (absorb m p) t \<longleftrightarrow> inside m t \<or> fst p \<le> t \<and> t < snd p"
    and "q \<in> set (absorb m p) \<Longrightarrow> fst q \<le> fst p"
    and "q \<in> set (absorb m p) \<Longrightarrow> fst q \<in> fst ` insert p (set m) \<and> snd q \<in> snd ` insert p (set m)"
    by blast+
qed

lemma absorb_all:
  assumes "apart m" and "sorted ps" and "\<forall>p \<in> set ps. fst p < snd p" and "\<forall>p \<in> set ps. \<forall>q \<in> set m. fst q \<le> fst p"
  shows "apart (foldl absorb m ps) \<and> (\<forall>t. inside (foldl absorb m ps) t \<longleftrightarrow> inside m t \<or> inside ps t)
     \<and> fst ` set (foldl absorb m ps) \<subseteq> fst ` (set m \<union> set ps)
     \<and> snd ` set (foldl absorb m ps) \<subseteq> snd ` (set m \<union> set ps)"
  using assms
proof (induction ps arbitrary: m)
  case (Cons p ps)
  have m: "apart m" "fst p < snd p" "\<forall>q \<in> set m. fst q \<le> fst p" using Cons.prems by auto
  have later: "\<forall>p' \<in> set ps. fst p \<le> fst p'" using Cons.prems(2) by (force simp: less_eq_prod_def)
  have "\<forall>p' \<in> set ps. \<forall>q \<in> set (absorb m p). fst q \<le> fst p'"
    using later absorb_step(3) [OF m] by (meson order.trans)
  with Cons.IH [OF absorb_step(1) [OF m]] Cons.prems
  have "apart (foldl absorb (absorb m p) ps)"
    "\<forall>t. inside (foldl absorb (absorb m p) ps) t \<longleftrightarrow> inside (absorb m p) t \<or> inside ps t"
    "fst ` set (foldl absorb (absorb m p) ps) \<subseteq> fst ` (set (absorb m p) \<union> set ps)"
    "snd ` set (foldl absorb (absorb m p) ps) \<subseteq> snd ` (set (absorb m p) \<union> set ps)"
    by auto
  moreover have "fst ` set (absorb m p) \<subseteq> fst ` insert p (set m)" "snd ` set (absorb m p) \<subseteq> snd ` insert p (set m)"
    using absorb_step(4) [OF m] by blast+
  ultimately show ?case using absorb_step(2) [OF m] by (simp add: image_Un) blast
qed simp

lemma merged_ok:
  shows "apart (merged_periods ps w)"
    and "inside (merged_periods ps w) t \<longleftrightarrow> win_from w \<le> t \<and> t < win_to w \<and> inside ps t"
    and "q \<in> set (merged_periods ps w) \<Longrightarrow> win_from w \<le> fst q \<and> fst q < snd q \<and> snd q \<le> win_to w
           \<and> (fst q = win_from w \<or> fst q \<in> fst ` set ps) \<and> (snd q = win_to w \<or> snd q \<in> snd ` set ps)"
proof -
  have clipped: "\<forall>p \<in> set (clip w ps). fst p < snd p \<and> win_from w \<le> fst p \<and> snd p \<le> win_to w
      \<and> (fst p = win_from w \<or> fst p \<in> fst ` set ps) \<and> (snd p = win_to w \<or> snd p \<in> snd ` set ps)"
    by (force simp: clip_def max_def min_def)
  have all: "apart (foldl absorb [] (sort (clip w ps)))
     \<and> (\<forall>t. inside (foldl absorb [] (sort (clip w ps))) t \<longleftrightarrow> inside [] t \<or> inside (sort (clip w ps)) t)
     \<and> fst ` set (foldl absorb [] (sort (clip w ps))) \<subseteq> fst ` (set [] \<union> set (sort (clip w ps)))
     \<and> snd ` set (foldl absorb [] (sort (clip w ps))) \<subseteq> snd ` (set [] \<union> set (sort (clip w ps)))"
    using clipped by (intro absorb_all) (auto simp: apart_def)
  have sorted: "inside (sort (clip w ps)) t \<longleftrightarrow> inside (clip w ps) t" for t by (simp add: inside_iff)
  show "apart (merged_periods ps w)" using all by (simp add: merged_periods_def)
  show "inside (merged_periods ps w) t \<longleftrightarrow> win_from w \<le> t \<and> t < win_to w \<and> inside ps t"
    using all sorted inside_clip by (simp add: merged_periods_def)
  assume q: "q \<in> set (merged_periods ps w)"
  with all have "fst q < snd q" by (simp add: merged_periods_def apart_def list_all_iff)
  moreover have "fst q \<in> fst ` set (clip w ps)" "snd q \<in> snd ` set (clip w ps)"
    using all q by (auto simp: merged_periods_def)
  ultimately show "win_from w \<le> fst q \<and> fst q < snd q \<and> snd q \<le> win_to w
           \<and> (fst q = win_from w \<or> fst q \<in> fst ` set ps) \<and> (snd q = win_to w \<or> snd q \<in> snd ` set ps)"
    using clipped by (auto simp: image_iff) (metis fst_conv snd_conv)+
qed

lemma apart_not_before: "apart (p # ps) \<Longrightarrow> inside ps t \<Longrightarrow> snd p < t"
  by (force simp: apart_Cons inside_iff)

lemma apart_unique:
  "apart ps \<Longrightarrow> apart qs \<Longrightarrow> (\<And>t. inside ps t \<longleftrightarrow> inside qs t) \<Longrightarrow> ps = qs"
proof (induction ps arbitrary: qs)
  case Nil
  show ?case
  proof (cases qs)
    case (Cons q qs')
    with Nil(3) [of "fst q"] Nil(2) show ?thesis by (simp add: apart_Cons)
  qed simp
next
  case (Cons p ps)
  have p: "fst p < snd p" using Cons.prems(1) by (simp add: apart_Cons)
  obtain q qs' where qs: "qs = q # qs'"
    using Cons.prems(3) [of "fst p"] p by (cases qs) auto
  have q: "fst q < snd q" using Cons.prems(2) by (simp add: qs apart_Cons)
  note same = Cons.prems(3) [unfolded qs inside_simps]
  note after_p = apart_not_before [OF Cons.prems(1)] and after_q = apart_not_before [OF Cons.prems(2) [unfolded qs]]
  have "fst p = fst q"
  proof (rule antisym)
    show "fst p \<le> fst q" using same [of "fst q"] q p after_p [of "fst q"] by auto
    show "fst q \<le> fst p" using same [of "fst p"] q p after_q [of "fst p"] by auto
  qed
  moreover have "snd p = snd q"
  proof (rule antisym)
    show "snd p \<le> snd q" using same [of "snd q"] q p after_q [of "snd q"] \<open>fst p = fst q\<close> by auto
    show "snd q \<le> snd p" using same [of "snd p"] q p after_p [of "snd p"] \<open>fst p = fst q\<close> by auto
  qed
  ultimately have "p = q" by (simp add: prod_eq_iff)
  moreover have "inside ps t \<longleftrightarrow> inside qs' t" for t
    using same [of t] after_p [of t] after_q [of t] \<open>p = q\<close> by auto
  then have "ps = qs'"
    using Cons.IH [of qs'] Cons.prems(1,2) by (simp add: qs apart_Cons)
  ultimately show ?case by (simp add: qs)
qed

section \<open>Gaps\<close>

lemma num_minutes_pos: "0 < num_minutes d \<longleftrightarrow> minute \<le> d"
proof (cases "0 \<le> d")
  case True
  have "0 < minute" by (simp add: minute_def second_def)
  with True show ?thesis
    by (simp add: num_minutes_def) (metis int_one_le_iff_zero_less pos_imp_zdiv_pos_iff)
next
  case False
  have "0 < minute" by (simp add: minute_def second_def)
  with False have "0 \<le> (- d) div minute" by (simp add: pos_imp_zdiv_nonneg_iff)
  with False \<open>0 < minute\<close> show ?thesis by (simp add: num_minutes_def)
qed

lemma push_gap_iff: "p \<in> set (push_gap a b) \<longleftrightarrow> p = (a, b) \<and> minute \<le> b - a"
  using num_minutes_pos [of "b - a"] by (auto simp: push_gap_def)

lemma gaps_sound:
  assumes "p \<in> set (gaps at spans to)" and "apart spans" and "\<forall>q \<in> set spans. snd q \<le> to"
  shows "at \<le> fst p \<and> snd p \<le> to \<and> minute \<le> snd p - fst p
     \<and> (\<forall>t. fst p \<le> t \<and> t < snd p \<longrightarrow> \<not> inside spans t)"
  using assms
proof (induction spans arbitrary: at)
  case Nil
  then show ?case by (auto simp: push_gap_iff)
next
  case (Cons s spans)
  obtain start "end" where s: "s = (start, end)" by (cases s)
  have spans: "apart spans" "start < end" "\<forall>q \<in> set spans. end < fst q \<and> fst q < snd q"
    using Cons.prems(2) by (auto simp: s apart_Cons apart_def list_all_iff)
  from Cons.prems(1) consider "p = (at, start)" "minute \<le> start - at" | "p \<in> set (gaps (max at end) spans to)"
    by (auto simp: s push_gap_iff)
  then show ?case
  proof cases
    case 1
    with spans Cons.prems(3) show ?thesis by (force simp: s inside_iff)
  next
    case 2
    from Cons.IH [OF this spans(1)] Cons.prems(3) show ?thesis by (auto simp: s)
  qed
qed

lemma gaps_complete:
  assumes "at \<le> a" and "a + minute \<le> b" and "b \<le> to" and "apart spans"
    and "\<forall>t. a \<le> t \<and> t < b \<longrightarrow> \<not> inside spans t"
  shows "\<exists>p \<in> set (gaps at spans to). fst p \<le> a \<and> b \<le> snd p"
  using assms
proof (induction spans arbitrary: at)
  case Nil
  then show ?case by (auto simp: push_gap_iff)
next
  case (Cons s spans)
  have m: "0 < minute" by (simp add: minute_def second_def)
  obtain start "end" where s: "s = (start, end)" by (cases s)
  show ?case
  proof (cases "b \<le> start")
    case True
    with Cons.prems have "(at, start) \<in> set (gaps at (s # spans) to)" by (simp add: s push_gap_iff)
    with True Cons.prems(1) show ?thesis by force
  next
    case False
    have "start < end" using Cons.prems(4) by (simp add: s apart_Cons)
    have "end \<le> a"
    proof (rule ccontr)
      assume "\<not> end \<le> a"
      then have "a \<le> max a start \<and> max a start < b" "inside (s # spans) (max a start)"
        using False Cons.prems(2) m \<open>start < end\<close> by (auto simp: s)
      with Cons.prems(5) show False by blast
    qed
    with Cons.IH [of "max at end"] Cons.prems show ?thesis by (auto simp: s apart_Cons)
  qed
qed

lemma walk_dates:
  "walk final f a b = concat (map f [a .. (if a \<le> final then min b final else b)])"
proof (induction final f a b rule: walk.induct)
  case (1 final f a b)
  show ?case
  proof (cases "a \<le> b")
    case True
    show ?thesis
    proof (cases "a = final")
      case True
      with \<open>a \<le> b\<close> show ?thesis by (subst walk.simps) simp
    next
      case False
      with 1 [OF True False] True show ?thesis
        by (auto simp: walk.simps [of final f a b] upto_rec1 min_def)
    qed
  qed (auto simp: walk.simps [of final f a b])
qed

section \<open>Whole seconds\<close>

text \<open>
  An instant is spelled in whole seconds, so reading it back gives it again only there:
  \<open>spells_back\<close> is what \<^verbatim>\<open>chrono\<close> documents of the instants of a window that begins and ends
  on one. A calendar names no fraction of a second (\<open>naive_whole\<close>).
\<close>

definition whole :: "int \<Rightarrow> bool" where
  "whole t \<longleftrightarrow> t mod second = 0"

definition spells_back :: "chrono \<Rightarrow> window \<Rightarrow> bool" where
  "spells_back c w \<longleftrightarrow>
     whole (win_from w) \<and> whole (win_to w)
     \<and> (\<forall>t. win_from w \<le> t \<and> t \<le> win_to w \<and> whole t \<longrightarrow> read_instant c (render c t) = Some t)"

definition naive_whole :: "chrono \<Rightarrow> bool" where
  "naive_whole c \<longleftrightarrow> (\<forall>s t. read_naive c s = Some t \<longrightarrow> whole t)"

definition whole_periods :: "(int \<times> int) list \<Rightarrow> bool" where
  "whole_periods ps \<longleftrightarrow> list_all (\<lambda>p. whole (fst p) \<and> whole (snd p)) ps"

lemma whole_arith: "whole a \<Longrightarrow> whole b \<Longrightarrow> whole (a + b)" "whole a \<Longrightarrow> whole (- a)" "whole (n * second)" "whole 0"
  by (auto simp: whole_def mod_eq_0_iff_dvd)

lemma duration_loop_whole:
  "duration_loop cs n number in_time = Inr d \<Longrightarrow> whole n \<Longrightarrow> whole d"
proof (induction cs n number in_time rule: duration_loop.induct)
  case (2 c cs n number in_time)
  show ?case
  proof (cases "is_ascii_digit c \<or> c = CHR ''T''")
    case True
    with 2 show ?thesis by (auto split: if_splits)
  next
    case False
    with "2.prems"(1) obtain count seconds where
      loop: "duration_loop cs (n + int count * seconds * second) [] in_time = Inr d"
      and read: "parse_uint (2 ^ 63) number = Some count" "unit_seconds c in_time = Some seconds"
      and ok: "duration_ok (int count * seconds * second)" "duration_ok (n + int count * seconds * second)"
      by (auto simp: result_simps checked_duration_def split: if_splits)
    have "whole (n + int count * seconds * second)"
      using "2.prems"(2) by (intro whole_arith)
    moreover have "whole d" if "duration_loop cs m [] in_time = Inr d" "whole m" for m
      using "2.IH"(3) False that by auto
    ultimately show ?thesis using loop by blast
  qed
qed (auto split: if_splits)

lemma read_period_whole:
  assumes "naive_whole c" and "read_period c period = Inr p"
  shows "whole (fst p) \<and> whole (snd p)"
proof -
  have instant: "whole t" if "utc_instant c s = Inr t" for s t
    using that assms(1) by (auto simp: utc_instant_def result_simps naive_whole_def)
  have duration: "whole d" if "parse_duration s = Inr d" for s d
    using that duration_loop_whole [OF _ whole_arith(4)]
    by (auto simp: parse_duration_def Let_def result_simps whole_arith split: if_splits prod.splits)
  show ?thesis
    using assms(2) instant duration
    by (fastforce simp: read_period_def result_simps bad_duration_def whole_arith split: if_splits sum.splits)
qed

lemma answer_periods_whole:
  assumes "naive_whole c" and "answer_periods c ics = Inr ps"
  shows "whole_periods ps"
proof -
  obtain pss where pss: "traverse (line_periods c) (unfold ics) = Inr pss" and ps: "ps = concat pss"
    using assms(2) by (auto simp: answer_periods_def and_then_Inr_iff)
  have "whole (fst p) \<and> whole (snd p)" if qs: "qs \<in> set pss" and p: "p \<in> set qs" for qs p
  proof -
    obtain line where "line_periods c line = Inr qs" using traverse_Inr_source [OF pss qs] by blast
    then have "\<exists>periods. traverse (read_period c) periods = Inr qs"
      using p by (auto simp: line_periods_def split: option.splits if_splits)
    with p obtain period where "read_period c period = Inr p"
      using traverse_Inr_source by metis
    with assms(1) show ?thesis by (rule read_period_whole)
  qed
  then show ?thesis by (auto simp: whole_periods_def ps list_all_iff)
qed

lemma merged_whole:
  assumes "spells_back c w" and "whole_periods ps" and "q \<in> set (merged_periods ps w)"
  shows "whole (fst q) \<and> whole (snd q)"
  using merged_ok(3) [OF assms(3)] assms(1,2)
  by (auto simp: spells_back_def whole_periods_def list_all_iff)

lemma read_busy_of:
  assumes "spells_back c w" and "whole_periods ps" and "q \<in> set (merged_periods ps w)"
  shows "read_busy c (busy_of c q) = Some q"
  using merged_ok(3) [OF assms(3)] merged_whole [OF assms] assms(1)
  by (auto simp: read_busy_def busy_of_def spells_back_def)

lemma read_merge:
  assumes "spells_back c w" and "whole_periods ps"
  shows "map (read_busy c) (merge c ps w) = map Some (merged_periods ps w)"
  using read_busy_of [OF assms] by (simp add: merge_def)

lemma map_filter_Some: "map f xs = map Some ys \<Longrightarrow> List.map_filter f xs = ys"
  by (induction xs arbitrary: ys) (auto simp: map_filter_simps Cons_eq_map_conv)

lemma map_filter_append: "List.map_filter f (xs @ ys) = List.map_filter f xs @ List.map_filter f ys"
  by (simp add: List.map_filter_def)

lemma read_merge_filter:
  assumes "spells_back c w" and "whole_periods ps"
  shows "List.map_filter (read_busy c) (merge c ps w) = merged_periods ps w"
  by (rule map_filter_Some) (rule read_merge [OF assms])

lemma merge_same:
  assumes "\<forall>t. win_from w \<le> t \<and> t < win_to w \<longrightarrow> inside ps t = inside qs t"
  shows "merged_periods ps w = merged_periods qs w"
  using assms by (intro apart_unique) (auto simp: merged_ok)

lemma merge_answers_concat:
  assumes "spells_back c w" and "list_all whole_periods pss"
  shows "merge_answers c (map (\<lambda>ps. merge c ps w) pss) w = merge c (concat pss) w"
proof -
  have "List.map_filter (read_busy c) (concat (map (\<lambda>ps. merge c ps w) pss)) = concat (map (\<lambda>ps. merged_periods ps w) pss)"
    using assms(2)
    by (induction pss) (simp_all add: map_filter_append read_merge_filter [OF assms(1)] map_filter_simps)
  then show ?thesis
    unfolding merge_answers_def merge_def
    by (simp, intro arg_cong [where f = "map (busy_of c)"] merge_same) (auto simp: inside_concat merged_ok)
qed

lemma those_Some: "those (map Some xs) = Some xs"
  by (induction xs) simp_all

lemma gaps_ends:
  "p \<in> set (gaps at spans to) \<Longrightarrow> fst p \<in> insert at (snd ` set spans) \<and> snd p \<in> insert to (fst ` set spans)"
proof (induction spans arbitrary: at)
  case Nil
  then show ?case by (auto simp: push_gap_iff)
next
  case (Cons s spans)
  obtain start "end" where s: "s = (start, end)" by (cases s)
  from Cons.prems consider "p = (at, start)" | "p \<in> set (gaps (max at end) spans to)"
    by (auto simp: s push_gap_iff)
  then show ?case
    by cases (use Cons.IH [of "max at end"] in \<open>auto simp: s max_def split: if_splits\<close>)
qed

lemma gap_reads_back:
  assumes "spells_back c w" and "whole_periods ps"
    and "p \<in> set (gaps (win_from w) (merged_periods ps w) (win_to w))"
  shows "read_instant c (render c (fst p)) = Some (fst p) \<and> read_instant c (render c (snd p)) = Some (snd p)"
proof -
  have merged: "\<forall>q \<in> set (merged_periods ps w). whole (fst q) \<and> whole (snd q)"
    using merged_whole [OF assms(1,2)] by blast
  have "whole (fst p)" "whole (snd p)"
    using gaps_ends [OF assms(3)] merged assms(1) by (auto simp: spells_back_def)
  moreover have "win_from w \<le> fst p \<and> snd p \<le> win_to w \<and> minute \<le> snd p - fst p"
    using gaps_sound [OF assms(3) merged_ok(1)] merged_ok(3) by blast
  moreover have "0 < minute" by (simp add: minute_def second_def)
  ultimately show ?thesis using assms(1) by (auto simp: spells_back_def)
qed

lemma free_between_merge:
  fixes iana :: "string \<Rightarrow> zone option" and named :: "string option"
  assumes "spells_back c w" and "whole_periods ps"
  defines "offered \<equiv> gaps (win_from w) (merged_periods ps w) (win_to w)"
    and "z \<equiv> Option.bind named (zones_read iana)"
  shows "free_between c iana (merge c ps w) w named day =
     (case (day, z) of
        (Some d, Some z) \<Rightarrow>
          (case (wall_minutes (d_starts_at d), wall_minutes (d_ends_at d)) of
             (Some a, Some b) \<Rightarrow>
               map (free_of c (Some z)) (concat (map (\<lambda>p.
                 walk (last_date c) (day_part z d (a, b) (fst p) (snd p)) (date_of z (fst p)) (date_of z (snd p)))
                 offered))
           | _ \<Rightarrow> map (free_of c (Some z)) offered)
      | _ \<Rightarrow> map (free_of c z) offered)"
proof -
  have again: "\<And>p. p \<in> set offered \<Longrightarrow>
      read_instant c (render c (fst p)) = Some (fst p) \<and> read_instant c (render c (snd p)) = Some (snd p)"
    unfolding offered_def by (rule gap_reads_back [OF assms(1,2)])
  have "those (map (read_busy c) (merge c ps w)) = Some (merged_periods ps w)"
    by (simp only: read_merge [OF assms(1,2)] those_Some)
  then show ?thesis
    using again
    by (auto simp: free_between_def within_def z_def [symmetric] offered_def [symmetric] free_of_def [of c "Some _"]
        map_concat o_def split: option.split intro!: arg_cong [where f = concat] map_cong)
qed

lemma day_part_iff:
  "p \<in> set (day_part z d usual start end date) \<longleftrightarrow>
     weekday_of date \<in> set (d_days d)
     \<and> (\<exists>opens closes. instant_at z date (fst (hours_of d usual (weekday_of date))) = Some opens
          \<and> instant_at z date (snd (hours_of d usual (weekday_of date))) = Some closes
          \<and> p = (max start opens, min end closes) \<and> minute \<le> min end closes - max start opens)"
  by (cases "instant_at z date (fst (hours_of d usual (weekday_of date)))";
      cases "instant_at z date (snd (hours_of d usual (weekday_of date)))")
     (auto simp: day_part_def Let_def push_gap_iff)

lemma walk_iff: "p \<in> set (walk final f a b) \<longleftrightarrow> (\<exists>date. a \<le> date \<and> date \<le> b \<and> (a \<le> final \<longrightarrow> date \<le> final) \<and> p \<in> set (f date))"
  by (auto simp: walk_dates)

lemma free_between_source:
  assumes "spells_back c w" and "whole_periods ps"
    and "slot \<in> set (free_between c iana (merge c ps w) w named day)"
  obtains a b a' b' where "slot = free_of c (Option.bind named (zones_read iana)) (a', b')"
    and "(a, b) \<in> set (gaps (win_from w) (merged_periods ps w) (win_to w))"
    and "a \<le> a'" and "b' \<le> b" and "minute \<le> b' - a'"
proof -
  let ?z = "Option.bind named (zones_read iana)"
  let ?gaps = "gaps (win_from w) (merged_periods ps w) (win_to w)"
  have long: "minute \<le> snd p - fst p" if "p \<in> set ?gaps" for p
    using gaps_sound [OF that merged_ok(1)] merged_ok(3) by blast
  show thesis
  proof (cases "slot \<in> set (map (free_of c ?z) ?gaps)")
    case True
    then obtain p where "p \<in> set ?gaps" "slot = free_of c ?z p" by auto
    then show thesis using that [of "fst p" "snd p" "fst p" "snd p"] long by simp
  next
    case False
    with assms(3) obtain d z f final where z: "?z = Some z"
      and p: "slot \<in> free_of c (Some z) ` (\<Union>p \<in> set ?gaps. set (walk final (day_part z d f (fst p) (snd p)) (date_of z (fst p)) (date_of z (snd p))))"
      unfolding free_between_merge [OF assms(1,2)]
      by (auto split: option.splits)
    then obtain p q date where "slot = free_of c (Some z) q" "p \<in> set ?gaps" "q \<in> set (day_part z d f (fst p) (snd p) date)"
      by (auto simp: walk_iff)
    then show thesis
      using that [of "fst q" "snd q" "fst p" "snd p"] z by (auto simp: day_part_iff)
  qed
qed

section \<open>The window and the walk\<close>

text \<open>
  A read asks for at most fourteen days: a window is accepted exactly when both ends are
  instants, the second after the first and within fourteen days of it, and each refusal
  says which of these failed first.
\<close>

theorem window_is_bounded:
  "(window_parse c from_at to_at = Inr w \<longleftrightarrow>
      read_instant c (trim from_at) = Some (win_from w) \<and> read_instant c (trim to_at) = Some (win_to w)
      \<and> win_from w < win_to w \<and> win_to w - win_from w \<le> 14 * 24 * 60 * minute)
   \<and> (\<forall>e. window_parse c from_at to_at = Inl e \<longleftrightarrow>
        (case (read_instant c (trim from_at), read_instant c (trim to_at)) of
           (None, _) \<Rightarrow> e = NotAnInstant ''from''
         | (Some a, None) \<Rightarrow> e = NotAnInstant ''to''
         | (Some a, Some b) \<Rightarrow> b \<le> a \<and> e = EmptyWindow \<or> 14 * 24 * 60 * minute < b - a \<and> e = TooWide))"
proof -
  have fourteen: "max_window = 14 * 24 * 60 * minute" "0 < max_window"
    by (simp_all add: max_window_def minute_def second_def)
  then show ?thesis
    unfolding fourteen(1) [symmetric]
    by (cases "read_instant c (trim from_at)"; cases "read_instant c (trim to_at)"; cases w)
       (auto simp: window_parse_def)
qed

section \<open>Busy\<close>

text \<open>
  C36. However the owner's calendars spell their answers, and however they overlap, the merged
  answer is the busy time of all of them inside the window, spelled in order with time
  between any two intervals: it is the only list of that kind.
\<close>

theorem busy_answer_is_the_union:
  assumes "spells_back c w" and "naive_whole c"
    and "list_all2 (\<lambda>ics ps. answer_periods c ics = Inr ps) bodies pss"
  shows "\<exists>answers merged. traverse (\<lambda>ics. parse_free_busy c ics w) bodies = Inr answers
     \<and> merge_answers c answers w = map (busy_of c) merged \<and> apart merged
     \<and> (\<forall>t. inside merged t \<longleftrightarrow> win_from w \<le> t \<and> t < win_to w \<and> (\<exists>ps \<in> set pss. inside ps t))
     \<and> (\<forall>other. apart other \<and> (\<forall>t. inside other t \<longleftrightarrow> inside merged t) \<longrightarrow> other = merged)"
proof -
  have answers: "traverse (\<lambda>ics. parse_free_busy c ics w) bodies = Inr (map (\<lambda>ps. merge c ps w) pss)"
    using assms(3)
    by (simp add: traverse_Inr_iff parse_free_busy_def result_simps list_all2_conv_all_nth)
  have "list_all whole_periods pss"
    using assms(3) answer_periods_whole [OF assms(2)]
    by (auto simp: list_all2_conv_all_nth list_all_length)
  from merge_answers_concat [OF assms(1) this]
  have "merge_answers c (map (\<lambda>ps. merge c ps w) pss) w = map (busy_of c) (merged_periods (concat pss) w)"
    by (simp add: merge_def)
  with answers show ?thesis
    using apart_unique by (intro exI conjI) (auto simp: merged_ok inside_concat)
qed

text \<open>A clock that spells the seconds since the epoch, and two days of it.\<close>

definition seconds_clock :: chrono where
  "seconds_clock =
     \<lparr>render = \<lambda>t. dec (nat (t div second)),
      read_instant = \<lambda>s. map_option (\<lambda>n. int n * second) (parse_uint (2 ^ 40) s),
      read_naive = \<lambda>s. map_option (\<lambda>n. int n * second) (parse_uint (2 ^ 40) s),
      representable = \<lambda>t. True, last_date = 100000000\<rparr>"

definition first_days :: window where
  "first_days = \<lparr>win_from = 0, win_to = 172800 * second\<rparr>"

lemma seconds_clock_ok: "spells_back seconds_clock first_days" "naive_whole seconds_clock"
proof -
  have s: "0 < second" by (simp add: second_def)
  have "read_instant seconds_clock (render seconds_clock t) = Some t"
    if t: "0 \<le> t" "t \<le> 172800 * second" "whole t" for t
  proof -
    obtain n where n: "t = second * n" using t(3) unfolding whole_def using mod_eq_0_iff_dvd by blast
    have "0 \<le> n" using t(1) s by (simp add: n zero_le_mult_iff)
    moreover have "n \<le> 172800" using t(2) s by (simp add: n mult.commute)
    then have "nat n < 2 ^ 40" by simp
    then have "parse_uint (2 ^ 40) (dec (nat n)) = Some (nat n)" by (rule parse_uint_dec)
    ultimately show ?thesis
      using s by (simp add: seconds_clock_def n)
  qed
  moreover have "whole (172800 * second)" "whole 0" by (auto simp: whole_def)
  ultimately show "spells_back seconds_clock first_days" by (simp add: spells_back_def first_days_def)
  show "naive_whole seconds_clock" by (auto simp: naive_whole_def seconds_clock_def whole_def)
qed

definition two_calendars :: "string list" where
  "two_calendars =
     [''BEGIN:VFREEBUSY'' @ [CHR 0x0D, CHR 0x0A] @ ''FREEBUSY;FBTYPE=BUSY:3600Z/PT1H,10800Z/'' @ [CHR 0x0A] @ '' 14400Z'',
      ''FREEBUSY;FBTYPE=FREE:0Z/86400Z'' @ [CHR 0x0A] @ ''freebusy:7000Z/9000Z'']"

lemma two_calendars_read:
  "list_all2 (\<lambda>ics ps. answer_periods seconds_clock ics = Inr ps) two_calendars
     [[(3600 * second, 7200 * second), (10800 * second, 14400 * second)], [(7000 * second, 9000 * second)]]"
  by code_simp

theorem busy_answer_is_the_union_witness:
  "\<exists>answers merged. traverse (\<lambda>ics. parse_free_busy seconds_clock ics first_days) two_calendars = Inr answers
     \<and> merge_answers seconds_clock answers first_days = map (busy_of seconds_clock) merged \<and> apart merged
     \<and> inside merged (8000 * second)"
proof -
  have "\<exists>ps \<in> set [[(3600 * second, 7200 * second), (10800 * second, 14400 * second)], [(7000 * second, 9000 * second)]].
          inside ps (8000 * second)" "win_from first_days \<le> 8000 * second" "8000 * second < win_to first_days"
    by code_simp+
  with busy_answer_is_the_union [OF seconds_clock_ok two_calendars_read] show ?thesis by metis
qed

section \<open>Free\<close>

text \<open>
  C34. An offered slot is free: inside the window, at least a minute long, of the length it
  says, and at no instant of it is the owner busy, whatever the working day cuts.
\<close>

theorem offered_slot_is_free:
  assumes "spells_back c w" and "whole_periods periods"
    and "slot \<in> set (free_between c iana (merge c periods w) w named day)"
  shows "\<exists>a b. slot = free_of c (Option.bind named (zones_read iana)) (a, b)
     \<and> win_from w \<le> a \<and> b \<le> win_to w \<and> minute \<le> b - a \<and> (\<forall>t. a \<le> t \<and> t < b \<longrightarrow> \<not> inside periods t)"
proof -
  obtain a b a' b' where slot: "slot = free_of c (Option.bind named (zones_read iana)) (a', b')"
    and gap: "(a, b) \<in> set (gaps (win_from w) (merged_periods periods w) (win_to w))"
    and part: "a \<le> a'" "b' \<le> b" "minute \<le> b' - a'"
    by (rule free_between_source [OF assms])
  have "win_from w \<le> a \<and> b \<le> win_to w \<and> (\<forall>t. a \<le> t \<and> t < b \<longrightarrow> \<not> inside (merged_periods periods w) t)"
    using gaps_sound [OF gap merged_ok(1)] merged_ok(3) by simp
  with slot part show ?thesis by (intro exI [of _ a'] exI [of _ b']) (auto simp: merged_ok(2))
qed

definition in_hours :: "zone \<Rightarrow> working_day \<Rightarrow> int \<Rightarrow> int \<Rightarrow> int \<Rightarrow> bool" where
  "in_hours z d date a b \<longleftrightarrow>
     weekday_of date \<in> set (d_days d)
     \<and> (case (wall_minutes (fst (span_of d (weekday_of date))), wall_minutes (snd (span_of d (weekday_of date)))) of
          (Some m, Some n) \<Rightarrow>
            (case (earliest z date m, earliest z date n) of
               (Some opens, Some closes) \<Rightarrow> opens \<le> a \<and> b \<le> closes
             | _ \<Rightarrow> False)
        | _ \<Rightarrow> False)"

lemma hours_of_ok:
  assumes "day_ok d"
  obtains m n where "wall_minutes (fst (span_of d weekday)) = Some m" and "wall_minutes (snd (span_of d weekday)) = Some n"
    and "hours_of d usual weekday = (m, n)" and "m < 1440" and "n < 1440"
  using span_minutes [OF assms, of weekday] by (auto simp: hours_of_def)

lemma day_part_usual:
  assumes "day_ok d"
  shows "day_part z d u = day_part z d v"
proof -
  have "hours_of d u weekday = hours_of d v weekday" for weekday
    using span_minutes [OF assms, of weekday] by (auto simp: hours_of_def)
  then show ?thesis by (simp add: fun_eq_iff day_part_def)
qed

lemma day_part_lies:
  assumes "day_ok d" and "p \<in> set (day_part z d usual start end date)"
  shows "in_hours z d date (fst p) (snd p)"
proof -
  obtain m n where "wall_minutes (fst (span_of d (weekday_of date))) = Some m"
    "wall_minutes (snd (span_of d (weekday_of date))) = Some n"
    "hours_of d usual (weekday_of date) = (m, n)" "m < 1440" "n < 1440"
    by (rule hours_of_ok [OF assms(1)])
  with assms(2) show ?thesis by (auto simp: day_part_iff in_hours_def instant_at_def)
qed

lemma day_part_covers:
  assumes "day_ok d" and "in_hours z d date a b" and "start \<le> a" and "b \<le> end" and "a + minute \<le> b"
  shows "\<exists>q \<in> set (day_part z d usual start end date). fst q \<le> a \<and> b \<le> snd q"
proof -
  obtain m n where hours: "wall_minutes (fst (span_of d (weekday_of date))) = Some m"
    "wall_minutes (snd (span_of d (weekday_of date))) = Some n"
    "hours_of d usual (weekday_of date) = (m, n)" "m < 1440" "n < 1440"
    by (rule hours_of_ok [OF assms(1)])
  with assms(2) obtain opens closes where at: "weekday_of date \<in> set (d_days d)"
    "earliest z date m = Some opens" "earliest z date n = Some closes" "opens \<le> a" "b \<le> closes"
    by (auto simp: in_hours_def split: option.splits)
  have "(max start opens, min end closes) \<in> set (day_part z d usual start end date)"
    using hours at assms(3-5) by (simp add: day_part_iff instant_at_def)
  then show ?thesis using at assms(3,4) by (intro bexI) simp_all
qed

lemma free_between_day:
  assumes "spells_back c w" and "whole_periods periods" and "day_ok d"
    and "Option.bind named (zones_read iana) = Some z"
  shows "slot \<in> set (free_between c iana (merge c periods w) w named (Some d)) \<longleftrightarrow>
     (\<exists>p \<in> set (gaps (win_from w) (merged_periods periods w) (win_to w)). \<exists>date q.
        date_of z (fst p) \<le> date \<and> date \<le> date_of z (snd p)
        \<and> (date_of z (fst p) \<le> last_date c \<longrightarrow> date \<le> last_date c)
        \<and> q \<in> set (day_part z d (0, 0) (fst p) (snd p) date) \<and> slot = free_of c (Some z) q)"
proof -
  have "span_ok (d_starts_at d) (d_ends_at d)" using assms(3) by (simp add: day_ok_def)
  then obtain m n where mn: "wall_minutes (d_starts_at d) = Some m" "wall_minutes (d_ends_at d) = Some n"
    unfolding span_ok_def using wall_clock_reads by blast
  have "q \<in> set (concat (map (\<lambda>p. walk (last_date c) (day_part z d (m, n) (fst p) (snd p)) (date_of z (fst p)) (date_of z (snd p))) gs))
      \<longleftrightarrow> (\<exists>p \<in> set gs. \<exists>date. date_of z (fst p) \<le> date \<and> date \<le> date_of z (snd p)
        \<and> (date_of z (fst p) \<le> last_date c \<longrightarrow> date \<le> last_date c)
        \<and> q \<in> set (day_part z d (0, 0) (fst p) (snd p) date))" for q gs
    unfolding day_part_usual [OF assms(3), of z "(0, 0)" "(m, n)"] by (simp add: walk_iff)
  then show ?thesis
    unfolding free_between_merge [OF assms(1,2)] assms(4)
    by (simp only: option.case mn prod.case set_map image_iff) blast
qed

text \<open>A Thursday and a Friday of the Monday, Wednesday and Friday of \<open>short_week\<close>.\<close>

definition two_meetings :: "(int \<times> int) list" where
  "two_meetings = [(122400 * second, 126000 * second), (140000 * second, 150000 * second)]"

lemma two_meetings_whole: "whole_periods two_meetings"
  by code_simp

theorem offered_slot_is_free_witness:
  "\<exists>a b. free_of seconds_clock None (126000 * second, 140000 * second) = free_of seconds_clock (Option.bind None (zones_read two_zones)) (a, b)
     \<and> win_from first_days \<le> a \<and> b \<le> win_to first_days \<and> minute \<le> b - a
     \<and> (\<forall>t. a \<le> t \<and> t < b \<longrightarrow> \<not> inside two_meetings t)"
proof (rule offered_slot_is_free [OF seconds_clock_ok(1) two_meetings_whole])
  show "free_of seconds_clock None (126000 * second, 140000 * second)
      \<in> set (free_between seconds_clock two_zones (merge seconds_clock two_meetings first_days) first_days None None)"
    by code_simp
qed

text \<open>
  C35. What is offered lies in the owner's working day: every slot falls on an accepted day of
  the owner's own zone, between the hours that day runs there, its exception if it has one.
\<close>

theorem offered_slot_is_in_the_working_day:
  assumes "spells_back c w" and "whole_periods periods" and "day_ok d"
    and "Option.bind named (zones_read iana) = Some z"
    and "slot \<in> set (free_between c iana (merge c periods w) w named (Some d))"
  shows "\<exists>date a b. slot = free_of c (Some z) (a, b) \<and> in_hours z d date a b"
proof -
  obtain p date q where q: "q \<in> set (day_part z d (0, 0) (fst p) (snd p) date)" "slot = free_of c (Some z) q"
    using assms(5) unfolding free_between_day [OF assms(1-4)] by blast
  then have "in_hours z d date (fst q) (snd q)" by (intro day_part_lies [OF assms(3)])
  with q(2) show ?thesis by (metis prod.collapse)
qed

lemma short_week_ok: "day_ok short_week"
  by (rule accepted_day_ok [OF short_wednesday])

theorem offered_slot_is_in_the_working_day_witness:
  "\<exists>date a b. free_of seconds_clock (Some (fixed_zone ''UTC'' 0)) (118800 * second, 122400 * second)
      = free_of seconds_clock (Some (fixed_zone ''UTC'' 0)) (a, b) \<and> in_hours (fixed_zone ''UTC'' 0) short_week date a b"
proof (rule offered_slot_is_in_the_working_day [OF seconds_clock_ok(1) two_meetings_whole short_week_ok])
  show zone: "Option.bind (Some ''UTC'') (zones_read two_zones) = Some (fixed_zone ''UTC'' 0)"
    using two_zones_read_back by (simp add: zones_read_def two_zones_def names_read_back_def trim_graphic graphic_def)
  show "free_of seconds_clock (Some (fixed_zone ''UTC'' 0)) (118800 * second, 122400 * second)
      \<in> set (free_between seconds_clock two_zones (merge seconds_clock two_meetings first_days) first_days
               (Some ''UTC'') (Some short_week))"
    by code_simp
qed

text \<open>
  Nothing free is withheld: a stretch of the window of a minute or more in which the
  owner is not busy is inside an offered slot, if no working day or no zone is known, or if
  it lies in the hours of the local date it begins on.
\<close>

theorem free_time_is_offered:
  assumes "spells_back c w" and "whole_periods periods"
    and "win_from w \<le> a" and "a + minute \<le> b" and "b \<le> win_to w" and "\<forall>t. a \<le> t \<and> t < b \<longrightarrow> \<not> inside periods t"
    and "case (day, Option.bind named (zones_read iana)) of
           (Some d, Some z) \<Rightarrow>
             day_ok d \<and> in_hours z d (date_of z a) a b \<and> date_of z a \<le> last_date c
             \<and> (\<forall>s t. win_from w \<le> s \<and> s \<le> t \<and> t \<le> win_to w \<longrightarrow> date_of z s \<le> date_of z t)
         | _ \<Rightarrow> True"
  shows "\<exists>x y. free_of c (Option.bind named (zones_read iana)) (x, y)
             \<in> set (free_between c iana (merge c periods w) w named day) \<and> x \<le> a \<and> b \<le> y"
proof -
  let ?gaps = "gaps (win_from w) (merged_periods periods w) (win_to w)"
  obtain p where p: "p \<in> set ?gaps" "fst p \<le> a" "b \<le> snd p"
    using gaps_complete [OF assms(3-5) merged_ok(1), of periods] assms(6) merged_ok(2) by blast
  have bounds: "win_from w \<le> fst p" "snd p \<le> win_to w"
    using gaps_sound [OF p(1) merged_ok(1)] merged_ok(3) by blast+
  show ?thesis
  proof (cases "\<exists>d z. day = Some d \<and> Option.bind named (zones_read iana) = Some z")
    case True
    then obtain d z where d: "day = Some d" and z: "Option.bind named (zones_read iana) = Some z" by blast
    have ok: "day_ok d" and hours: "in_hours z d (date_of z a) a b" and final: "date_of z a \<le> last_date c"
      and dates: "\<forall>s t. win_from w \<le> s \<and> s \<le> t \<and> t \<le> win_to w \<longrightarrow> date_of z s \<le> date_of z t"
      using assms(7) by (simp_all add: d z)
    have m: "0 < minute" by (simp add: minute_def second_def)
    obtain q where "q \<in> set (day_part z d (0, 0) (fst p) (snd p) (date_of z a))" and q: "fst q \<le> a" "b \<le> snd q"
      using day_part_covers [OF ok hours p(2,3) assms(4)] by blast
    moreover have "date_of z (fst p) \<le> date_of z a" "date_of z a \<le> date_of z (snd p)"
      using dates bounds p(2,3) assms(4) m by simp_all
    ultimately have "free_of c (Some z) q \<in> set (free_between c iana (merge c periods w) w named (Some d))"
      unfolding free_between_day [OF assms(1,2) ok z] using p(1) final by blast
    then show ?thesis using q d z by (intro exI [of _ "fst q"] exI [of _ "snd q"]) simp
  next
    case False
    then have "free_between c iana (merge c periods w) w named day
        = map (free_of c (Option.bind named (zones_read iana))) ?gaps"
      unfolding free_between_merge [OF assms(1,2)] by (auto split: option.split)
    then show ?thesis using p by (intro exI [of _ "fst p"] exI [of _ "snd p"]) simp
  qed
qed

theorem free_time_is_offered_witness:
  "\<exists>x y. free_of seconds_clock (Some (fixed_zone ''UTC'' 0)) (x, y)
           \<in> set (free_between seconds_clock two_zones (merge seconds_clock two_meetings first_days) first_days
                    (Some ''UTC'') (Some short_week)) \<and> x \<le> 130000 * second \<and> 135000 * second \<le> y"
proof -
  have zone: "Option.bind (Some ''UTC'') (zones_read two_zones) = Some (fixed_zone ''UTC'' 0)"
    by (simp add: zones_read_def two_zones_def trim_graphic graphic_def)
  have "\<not> inside two_meetings t" if "130000 * second \<le> t" "t < 135000 * second" for t
    using that by (simp add: two_meetings_def second_def)
  moreover have "in_hours (fixed_zone ''UTC'' 0) short_week (date_of (fixed_zone ''UTC'' 0) (130000 * second))
      (130000 * second) (135000 * second) \<and> date_of (fixed_zone ''UTC'' 0) (130000 * second) \<le> last_date seconds_clock"
    by code_simp
  moreover have "win_from first_days \<le> 130000 * second" "130000 * second + minute \<le> 135000 * second"
    "135000 * second \<le> win_to first_days" by code_simp+
  moreover have "date_of (fixed_zone ''UTC'' 0) s \<le> date_of (fixed_zone ''UTC'' 0) t" if "s \<le> t" for s t
    using that by (simp add: fixed_zone_def zdiv_mono1)
  ultimately show ?thesis
    using free_time_is_offered [OF seconds_clock_ok(1) two_meetings_whole, of "130000 * second" "135000 * second"
        "Some short_week" "Some ''UTC''" two_zones, unfolded zone option.case prod.case] short_week_ok
    by blast
qed

section \<open>A duration out of range\<close>

text \<open>
  A period of fifteen billion weeks or more is not refused with the error the function
  returns: \<^verbatim>\<open>Duration::weeks\<close> panics on it. A duration with a plus sign, which
  \<open>parse_duration\<close> reads, is refused as the end of a period.
\<close>

lemma oversized_duration_panics:
  "parse_free_busy seconds_clock ''FREEBUSY:0Z/P99999999999999W'' first_days = Inl (BadDuration DurationPanics)"
  by code_simp

lemma signed_duration_is_refused:
  "parse_duration ''+PT1H'' = Inr (3600 * second)
   \<and> parse_free_busy seconds_clock ''FREEBUSY:0Z/+PT1H'' first_days = Inl NotUtc"
  by code_simp

end
