(* ===== verification/Switches.thy ===== *)
theory Switches
  imports Handoff Working_Day Chars
begin

text \<open>
  The two switches the owner decides: whether an approved reply carries the disclosure and
  whether a calendar event carries where the meeting is. \<^verbatim>\<open>switch.rs\<close>, \<^verbatim>\<open>disclosure.rs\<close>,
  \<^verbatim>\<open>calendar_location.rs\<close>, their tables in \<^verbatim>\<open>store.rs\<close> and their routes in
  \<^verbatim>\<open>settings_http.rs\<close>, all of \<^verbatim>\<open>companion-gateway/src\<close>, and the rounds of
  \<^verbatim>\<open>collector/src/main.rs\<close> that follow the second one.
\<close>

section \<open>A decision\<close>

record switch_state =
  enabled :: bool
  since :: "string option"
  decided_by :: "string option"
  why :: "string option"

definition shipped_as :: "bool \<Rightarrow> switch_state" where
  "shipped_as e = \<lparr>enabled = e, since = None, decided_by = None, why = None\<rparr>"

definition switch_word :: "bool \<Rightarrow> string" where
  "switch_word e = (if e then ''on'' else ''off'')"

definition enabled_from :: "string \<Rightarrow> bool option" where
  "enabled_from w = (if w = ''on'' then Some True else if w = ''off'' then Some False else None)"

record switch_update =
  u_enabled :: bool
  u_reason :: "string option"

datatype switch_invalid =
    SwitchNotAnObject
  | SwitchUnknownMember string
  | EnabledNotABoolean
  | EnabledMissing
  | SwitchReasonTooLong nat
  | SwitchReasonNotAString

definition switch_invalid_code :: "switch_invalid \<Rightarrow> string" where
  "switch_invalid_code e = ''malformed_request''"

text \<open>
  The members are visited in the order of \<^verbatim>\<open>serde_json\<close>'s map, which is the order of their
  names: the unknown member that is reported is the least one.
\<close>

definition parse_switch_update :: "json \<Rightarrow> switch_invalid + switch_update" where
  "parse_switch_update body =
     and_then (ok_or SwitchNotAnObject (jobj body)) (\<lambda>members.
     case sort (filter (\<lambda>k. k \<noteq> ''enabled'' \<and> k \<noteq> ''reason'') (map fst members)) of
       k # _ \<Rightarrow> Inl (SwitchUnknownMember k)
     | [] \<Rightarrow>
         and_then (case jget body ''enabled'' of
                     Some (JBool e) \<Rightarrow> Inr e
                   | Some _ \<Rightarrow> Inl EnabledNotABoolean
                   | None \<Rightarrow> Inl EnabledMissing) (\<lambda>e.
         and_then (case jget body ''reason'' of
                     None \<Rightarrow> Inr None
                   | Some JNull \<Rightarrow> Inr None
                   | Some (JStr r) \<Rightarrow>
                       if max_reason_chars < chars_count r then Inl (SwitchReasonTooLong (chars_count r))
                       else Inr (Some r)
                   | Some _ \<Rightarrow> Inl SwitchReasonNotAString) (\<lambda>r.
         Inr \<lparr>u_enabled = e, u_reason = r\<rparr>)))"

section \<open>The journals\<close>

datatype switch_kind = Disclosure | CalendarLocation

record switch_row =
  sw_new_state :: string
  sw_occurred_at :: string
  sw_actor :: string
  sw_reason :: "string option"

record switches =
  disclosure_decision :: "switch_row list"
  calendar_location_decision :: "switch_row list"

definition switches_open :: switches where
  "switches_open = \<lparr>disclosure_decision = [], calendar_location_decision = []\<rparr>"

fun shipped_enabled :: "switch_kind \<Rightarrow> bool" where
  "shipped_enabled Disclosure = True"
| "shipped_enabled CalendarLocation = False"

fun switch_rows :: "switch_kind \<Rightarrow> switches \<Rightarrow> switch_row list" where
  "switch_rows Disclosure s = disclosure_decision s"
| "switch_rows CalendarLocation s = calendar_location_decision s"

fun insert_switch_row :: "switch_kind \<Rightarrow> switch_row \<Rightarrow> switches \<Rightarrow> switches" where
  "insert_switch_row Disclosure r s = s\<lparr>disclosure_decision := disclosure_decision s @ [r]\<rparr>"
| "insert_switch_row CalendarLocation r s =
     s\<lparr>calendar_location_decision := calendar_location_decision s @ [r]\<rparr>"

text \<open>
  The last row of the table, or what the switch ships as; \<open>None\<close> is the error of a word no
  journal writes.
\<close>

definition read_switch_state :: "switch_kind \<Rightarrow> switches \<Rightarrow> switch_state option" where
  "read_switch_state k s =
     (case rev (switch_rows k s) of
        [] \<Rightarrow> Some (shipped_as (shipped_enabled k))
      | r # _ \<Rightarrow>
          map_option (\<lambda>e. \<lparr>enabled = e, since = Some (sw_occurred_at r), decided_by = Some (sw_actor r),
                           why = sw_reason r\<rparr>) (enabled_from (sw_new_state r)))"

definition record_switch_decision ::
  "switch_kind \<Rightarrow> bool \<Rightarrow> string \<Rightarrow> string \<Rightarrow> string option \<Rightarrow> switches \<Rightarrow> switch_state option \<times> switches" where
  "record_switch_decision k e occurred_at actor reason s =
     (let s' = insert_switch_row k \<lparr>sw_new_state = switch_word e, sw_occurred_at = occurred_at,
                                    sw_actor = actor, sw_reason = reason\<rparr> s
      in (read_switch_state k s', s'))"

section \<open>The routes\<close>

definition nullable :: "string option \<Rightarrow> json" where
  "nullable s = (case s of None \<Rightarrow> JNull | Some v \<Rightarrow> JStr v)"

definition switch_json :: "switch_state \<Rightarrow> json" where
  "switch_json s =
     JObj [(''enabled'', JBool (enabled s)), (''since'', nullable (since s)),
           (''actor'', nullable (decided_by s)), (''reason'', nullable (why s))]"

text \<open>
  \<open>runs\<close> tells whether SQLite runs the statements of the request. The body is the text as
  \<^verbatim>\<open>serde_json\<close> reads it, \<open>None\<close> when it is not JSON.
\<close>

definition read_switch :: "bool \<Rightarrow> switch_kind \<Rightarrow> switches option \<Rightarrow> response" where
  "read_switch runs k gateway =
     (case gateway of
        None \<Rightarrow> ApiError 503 ''consent_not_configured''
      | Some s \<Rightarrow>
          (case if runs then read_switch_state k s else None of
             None \<Rightarrow> ApiError 500 ''store_unavailable''
           | Some state \<Rightarrow> Served (switch_json state)))"

definition write_switch ::
  "bool \<Rightarrow> switch_kind \<Rightarrow> string \<Rightarrow> string \<Rightarrow> json option \<Rightarrow> switches option \<Rightarrow> response \<times> switches option" where
  "write_switch runs k owner_id now body gateway =
     (case gateway of
        None \<Rightarrow> (ApiError 503 ''consent_not_configured'', None)
      | Some s \<Rightarrow>
          (case body of
             None \<Rightarrow> (ApiError 400 ''malformed_request'', gateway)
           | Some j \<Rightarrow>
               (case parse_switch_update j of
                  Inl e \<Rightarrow> (ApiError 400 (switch_invalid_code e), gateway)
                | Inr u \<Rightarrow>
                    if \<not> runs then (ApiError 500 ''store_unavailable'', gateway)
                    else
                      (case record_switch_decision k (u_enabled u) now owner_id (u_reason u) s of
                         (None, s') \<Rightarrow> (ApiError 500 ''store_unavailable'', Some s')
                       | (Some state, s') \<Rightarrow> (Served (switch_json state), Some s')))))"

section \<open>The sentences\<close>

text \<open>
  \<^verbatim>\<open>contracts/disclosure/v1/sentences.json\<close> as the ordered map it is read into, in UTF-8.
\<close>

definition sentences :: "(string \<times> string) list" where
  "sentences =
     [(''de'', ''Verfasst mit meinem KI-Assistenten.''),
      (''en'', ''Drafted with my AI assistant.''),
      (''es'', ''Redactado con mi asistente de IA.''),
      (''fr'', ''R'' @ [CHR 0xC3, CHR 0xA9] @ ''dig'' @ [CHR 0xC3, CHR 0xA9] @ '' avec mon assistant IA.''),
      (''it'', ''Scritto con il mio assistente IA.'')]"

definition languages :: "string list" where
  "languages = map fst sentences"

definition max_disclosure_chars :: nat where
  "max_disclosure_chars = 200"

definition primary_subtag :: "string \<Rightarrow> string" where
  "primary_subtag tag = trim (hd (split_on (CHR ''-'') tag))"

definition sentence_for :: "string \<Rightarrow> string option" where
  "sentence_for tag = map_of sentences (map ascii_lower (primary_subtag tag))"

definition is_contract_sentence :: "string \<Rightarrow> bool" where
  "is_contract_sentence candidate \<longleftrightarrow> list_ex (\<lambda>p. snd p = candidate) sentences"

definition append_sentence :: "string \<Rightarrow> string \<Rightarrow> string" where
  "append_sentence body sentence = body @ [CHR 0x0A] @ sentence"

section \<open>The collector follows the location\<close>

definition collected_location :: "json \<Rightarrow> bool option" where
  "collected_location document =
     Option.bind (Option.bind (jget document ''calendar_location'') (\<lambda>s. jget s ''enabled'')) jbool"

text \<open>
  One round of calendar polling: the settings are read (\<open>None\<close> when the Gateway does not
  answer them), the shared switch follows, and the round goes on to publish or not. An
  event published in it carries its location as the switch then says.
\<close>

definition location_round :: "json option \<Rightarrow> bool \<Rightarrow> bool \<times> bool" where
  "location_round answered open_now =
     (case Option.bind answered collected_location of
        Some e \<Rightarrow> (True, e)
      | None \<Rightarrow> (\<not> open_now, False))"

text \<open>What each round publishes with, \<open>None\<close> when it publishes nothing.\<close>

fun location_rounds :: "json option list \<Rightarrow> bool \<Rightarrow> bool option list" where
  "location_rounds [] open_now = []"
| "location_rounds (a # as) open_now =
     (case location_round a open_now of
        (may_publish, e) \<Rightarrow> (if may_publish then Some e else None) # location_rounds as e)"

section \<open>The journal as a store of last decisions\<close>

lemma enabled_from_word [simp]: "enabled_from (switch_word e) = Some e"
  by (simp add: enabled_from_def switch_word_def)

lemma enabled_from_Some_iff: "enabled_from w = Some e \<longleftrightarrow> w = switch_word e"
  by (auto simp: enabled_from_def switch_word_def)

interpretation words: codec switch_word enabled_from
  by unfold_locales (auto simp: enabled_from_Some_iff)

lemma switch_rows_insert [simp]:
  "switch_rows k' (insert_switch_row k r s) = switch_rows k' s @ (if k' = k then [r] else [])"
  by (cases k; cases k') simp_all

text \<open>A write of a switch: which one, to what, and the time, the actor and the reason.\<close>

record switch_write =
  w_kind :: switch_kind
  w_state :: switch_state

definition decided :: "switch_write \<Rightarrow> bool" where
  "decided w \<longleftrightarrow> since (w_state w) \<noteq> None \<and> decided_by (w_state w) \<noteq> None"

definition put_switch :: "switch_write \<Rightarrow> switches \<Rightarrow> switches" where
  "put_switch w s =
     snd (record_switch_decision (w_kind w) (enabled (w_state w)) (the (since (w_state w)))
            (the (decided_by (w_state w))) (why (w_state w)) s)"

interpretation recorded: last_writer put_switch "\<lambda>s k. read_switch_state k s" "\<lambda>w k. w_kind w = k"
  w_state "\<lambda>s k. True" "\<lambda>s w. decided w"
proof unfold_locales
  fix s w k
  assume "decided w"
  then obtain t a where "since (w_state w) = Some t" "decided_by (w_state w) = Some a"
    by (auto simp: decided_def)
  moreover have "w_state w = \<lparr>enabled = enabled (w_state w), since = since (w_state w),
      decided_by = decided_by (w_state w), why = why (w_state w)\<rparr>" by simp
  ultimately show "read_switch_state k (put_switch w s) =
      (if w_kind w = k \<and> True then Some (w_state w) else read_switch_state k s)"
    by (auto simp: put_switch_def record_switch_decision_def read_switch_state_def Let_def)
qed simp

lemma all_decided: "list_all decided ws \<Longrightarrow> recorded.all_ok ws s"
  by (induction ws arbitrary: s) simp_all

lemma shipped_state: "read_switch_state k switches_open = Some (shipped_as (shipped_enabled k))"
  by (cases k) (simp_all add: read_switch_state_def switches_open_def)

text \<open>
  Whatever was decided of the two switches and in whatever order, each one reads as the
  last decision about it, with its date, its actor and its reason, or, when it was never
  decided, as it ships: the disclosure on, the location off, and nobody named.
\<close>

theorem switch_reads_as_last_decided:
  assumes "list_all decided ws"
  shows "read_switch_state k (fold put_switch ws switches_open) =
     Some (case last_value (\<lambda>w k. w_kind w = k) w_state ws k of
             None \<Rightarrow> \<lparr>enabled = (k = Disclosure), since = None, decided_by = None, why = None\<rparr>
           | Some state \<Rightarrow> state)"
  using recorded.get_writes [OF all_decided [OF assms], where k = k and s = switches_open]
  by (cases k) (simp_all add: shipped_state shipped_as_def split: option.split)

definition three_decisions :: "switch_write list" where
  "three_decisions =
     [\<lparr>w_kind = Disclosure, w_state = \<lparr>enabled = False, since = Some ''t1'', decided_by = Some ''@me:x'', why = None\<rparr>\<rparr>,
      \<lparr>w_kind = CalendarLocation, w_state = \<lparr>enabled = True, since = Some ''t2'', decided_by = Some ''@me:x'', why = None\<rparr>\<rparr>,
      \<lparr>w_kind = Disclosure, w_state = \<lparr>enabled = True, since = Some ''t3'', decided_by = Some ''@me:x'', why = Some ''back''\<rparr>\<rparr>]"

theorem switch_reads_as_last_decided_witness:
  "read_switch_state Disclosure (fold put_switch three_decisions switches_open) =
     Some \<lparr>enabled = True, since = Some ''t3'', decided_by = Some ''@me:x'', why = Some ''back''\<rparr>"
proof -
  have "list_all decided three_decisions" by code_simp
  from switch_reads_as_last_decided [OF this, of Disclosure] show ?thesis
    by (simp add: three_decisions_def)
qed

section \<open>The routes\<close>

lemma sort_Nil_iff [simp]: "sort xs = [] \<longleftrightarrow> xs = []"
  by (metis set_empty set_sort)

lemma parsed_switch_update:
  "parse_switch_update j = Inr u \<longleftrightarrow>
     (\<exists>members. j = JObj members \<and> fst ` set members \<subseteq> {''enabled'', ''reason''}
        \<and> jget j ''enabled'' = Some (JBool (u_enabled u))
        \<and> (case u_reason u of
             None \<Rightarrow> jget j ''reason'' \<in> {None, Some JNull}
           | Some r \<Rightarrow> jget j ''reason'' = Some (JStr r) \<and> chars_count r \<le> max_reason_chars))"
proof (cases j)
  case (JObj members)
  have "sort (filter (\<lambda>k. k \<noteq> ''enabled'' \<and> k \<noteq> ''reason'') (map fst members)) = []
      \<longleftrightarrow> fst ` set members \<subseteq> {''enabled'', ''reason''}"
    by (auto simp: filter_empty_conv)
  with JObj show ?thesis
    by (cases u)
      (auto simp: parse_switch_update_def and_then_Inr_iff split: list.split option.split json.split if_split)
qed (simp_all add: parse_switch_update_def)

text \<open>
  A decision sent to a switch is journalled or refused, never half of it: an answer
  other than a refusal means one row was appended to the journal of that switch and to no
  other, and carries the state the switch then reads; a refusal changes neither journal,
  and is a malformed request or a statement SQLite did not run.
\<close>

theorem switch_write_is_journalled_or_refused:
  "case write_switch runs k me now body (Some s) of
     (Served doc, after) \<Rightarrow>
       \<exists>j u s'. body = Some j \<and> parse_switch_update j = Inr u \<and> after = Some s' \<and> read_switch True k after = Served doc
         \<and> (\<forall>k'. switch_rows k' s' = switch_rows k' s @
              (if k' = k then [\<lparr>sw_new_state = switch_word (u_enabled u), sw_occurred_at = now,
                                sw_actor = me, sw_reason = u_reason u\<rparr>] else []))
   | (ApiError status code, after) \<Rightarrow>
       after = Some s \<and> (status, code) \<in> {(400, ''malformed_request''), (500, ''store_unavailable'')}"
proof (cases body)
  case None
  then show ?thesis by (simp add: write_switch_def)
next
  case (Some j)
  show ?thesis
  proof (cases "parse_switch_update j")
    case (Inl e)
    then show ?thesis by (simp add: Some write_switch_def switch_invalid_code_def)
  next
    case (Inr u)
    then show ?thesis
      by (auto simp: Some write_switch_def record_switch_decision_def read_switch_def read_switch_state_def Let_def)
  qed
qed

section \<open>The sentences\<close>

lemma contract_sentences:
  "(tag, s) \<in> set sentences \<Longrightarrow> 0 < chars_count s \<and> chars_count s \<le> max_disclosure_chars \<and> CHR 0x0A \<notin> set s"
proof -
  have "list_all (\<lambda>(tag, s). 0 < chars_count s \<and> chars_count s \<le> max_disclosure_chars \<and> CHR 0x0A \<notin> set s) sentences"
    by code_simp
  then show "(tag, s) \<in> set sentences \<Longrightarrow> ?thesis" by (auto simp: list_all_iff)
qed

text \<open>
  The sentence found for a language, however the tag refines it, is one of the
  contract's own; the text a contact receives is the reply followed by a last line that
  is the sentence and nothing else, so that what was disclosed can be told from what was
  said, and it is at most the contract's 200 characters and the newline longer.
\<close>

theorem disclosure_is_the_last_line:
  assumes "sentence_for tag = Some s"
  shows "is_contract_sentence s
    \<and> split_on (CHR 0x0A) (append_sentence body s) = split_on (CHR 0x0A) body @ [s]
    \<and> chars_count (append_sentence body s) \<le> chars_count body + Suc max_disclosure_chars"
    and "primary_subtag tag' = primary_subtag tag \<Longrightarrow> sentence_for tag' = Some s"
proof -
  have mem: "(map ascii_lower (primary_subtag tag), s) \<in> set sentences"
    using assms by (simp add: sentence_for_def map_of_SomeD)
  then show "is_contract_sentence s
    \<and> split_on (CHR 0x0A) (append_sentence body s) = split_on (CHR 0x0A) body @ [s]
    \<and> chars_count (append_sentence body s) \<le> chars_count body + Suc max_disclosure_chars"
    using contract_sentences [OF mem]
    by (auto simp: is_contract_sentence_def list_ex_iff append_sentence_def split_on_app split_on_single
        intro!: bexI [OF _ mem])
  show "primary_subtag tag' = primary_subtag tag \<Longrightarrow> sentence_for tag' = Some s"
    using assms by (simp add: sentence_for_def)
qed

theorem disclosure_is_the_last_line_witness:
  "is_contract_sentence ''Verfasst mit meinem KI-Assistenten.'' \<and> sentence_for ''de-AT'' = Some ''Verfasst mit meinem KI-Assistenten.''"
proof
  have de: "sentence_for ''DE-CH'' = Some ''Verfasst mit meinem KI-Assistenten.''" by code_simp
  from disclosure_is_the_last_line(1) [OF this] show "is_contract_sentence ''Verfasst mit meinem KI-Assistenten.''" by blast
  have same: "primary_subtag ''DE-AT'' = primary_subtag ''DE-CH''" by code_simp
  have "sentence_for ''de-AT'' = sentence_for ''DE-AT''" by code_simp
  with disclosure_is_the_last_line(2) [OF de same] show "sentence_for ''de-AT'' = Some ''Verfasst mit meinem KI-Assistenten.''"
    by simp
qed

section \<open>From the journal to the rounds\<close>

text \<open>
  What the collector is answered: the settings of the Gateway, when its journal can be
  read.
\<close>

definition collection_answer :: "json \<Rightarrow> json \<Rightarrow> working_day option \<Rightarrow> switches \<Rightarrow> json option" where
  "collection_answer triage undos day s =
     map_option (\<lambda>state. collection_document (enabled state) triage undos day)
       (read_switch_state CalendarLocation s)"

lemma collected_location_document [simp]:
  "collected_location (collection_document e triage undos day) = Some e"
  by (simp add: collected_location_def collection_document_def)

lemma location_rounds_nth:
  "i < length as \<Longrightarrow> location_rounds as open_now ! i = Some True \<Longrightarrow>
     Option.bind (as ! i) collected_location = Some True"
proof (induction as arbitrary: i open_now)
  case (Cons a as)
  then show ?case
    by (cases i) (auto simp: location_round_def split: option.splits if_splits)
qed simp

text \<open>
  C29. A location leaves the machine only while the owner's last decision lets it: a round
  that publishes events with their location has just read the journal, and the last
  decision in it opened the switch.
\<close>

theorem location_travels_only_when_decided:
  assumes "i < length gateways"
    and "location_rounds (map (\<lambda>g. Option.bind g (collection_answer triage undos day)) gateways) open_now ! i = Some True"
  shows "\<exists>s state. gateways ! i = Some s \<and> read_switch_state CalendarLocation s = Some state \<and> enabled state
           \<and> since state \<noteq> None"
proof -
  have "Option.bind (Option.bind (gateways ! i) (collection_answer triage undos day)) collected_location = Some True"
    using location_rounds_nth assms by (metis length_map nth_map)
  then obtain s state where s: "gateways ! i = Some s" "read_switch_state CalendarLocation s = Some state" "enabled state"
    by (auto simp: collection_answer_def bind_eq_Some_conv)
  moreover from s(2,3) have "since state \<noteq> None"
    by (auto simp: read_switch_state_def shipped_as_def split: list.splits)
  ultimately show ?thesis by blast
qed

theorem location_travels_only_when_decided_witness:
  "\<exists>s state. [None, Some (fold put_switch three_decisions switches_open)] ! 1 = Some s
     \<and> read_switch_state CalendarLocation s = Some state \<and> enabled state \<and> since state \<noteq> None"
proof (rule location_travels_only_when_decided)
  show "1 < length [None, Some (fold put_switch three_decisions switches_open)]" by simp
  show "location_rounds (map (\<lambda>g. Option.bind g (collection_answer JNull JNull None))
      [None, Some (fold put_switch three_decisions switches_open)]) False ! 1 = Some True"
    by code_simp
qed

end
