(* ===== verification/Connection_Status.thy ===== *)
theory Connection_Status
  imports Consent_Store Bridge_Debounce Chars Journals
begin

text \<open>
  What a collector says of its connections and what the Gateway holds of it: the tracker of
  \<^verbatim>\<open>collector/src/status.rs\<close>, the reader and the consumer of
  \<^verbatim>\<open>companion-gateway/src/connection_status.rs\<close>, and the table and the view behind it in
  \<^verbatim>\<open>companion-gateway/src/store.rs\<close>.
\<close>

section \<open>The tracker of the collector\<close>

datatype link_state = LinkConnected | LinkUnreachable | LinkReconnectRequired | LinkPendingOperator

fun link_state_as_str :: "link_state \<Rightarrow> string" where
  "link_state_as_str LinkConnected = ''connected''"
| "link_state_as_str LinkUnreachable = ''unreachable''"
| "link_state_as_str LinkReconnectRequired = ''reconnect_required''"
| "link_state_as_str LinkPendingOperator = ''pending_operator''"

record observation =
  o_state :: link_state
  o_service :: "string option"
  o_hint :: "string option"

definition observed_connected :: observation where
  "observed_connected = \<lparr>o_state = LinkConnected, o_service = None, o_hint = None\<rparr>"

record tracker =
  tr_connection :: string
  tr_kind :: string
  tr_host :: string
  tr_last :: "(link_state \<times> string option) option"

definition tracker_new :: "string \<Rightarrow> string \<Rightarrow> string \<Rightarrow> tracker" where
  "tracker_new c kind host = \<lparr>tr_connection = c, tr_kind = kind, tr_host = host, tr_last = None\<rparr>"

definition connection_status_changed_type :: string where
  "connection_status_changed_type = ''fr.linagora.twalk.connection.status.changed.v1''"

definition status_id :: "(string \<Rightarrow> 8 word list) \<Rightarrow> string \<Rightarrow> link_state \<Rightarrow> string \<Rightarrow> string option \<Rightarrow> string" where
  "status_id digest c st at hint =
     concat (map hex_byte (digest (c @ '':'' @ link_state_as_str st @ '':'' @ at @ '':''
                                   @ (case hint of None \<Rightarrow> [] | Some h \<Rightarrow> h))))"

definition status_data :: "tracker \<Rightarrow> observation \<Rightarrow> string \<Rightarrow> string \<Rightarrow> json" where
  "status_data tr ob at from_state =
     (let data = JObj [(''connection'', JStr (tr_connection tr)), (''kind'', JStr (tr_kind tr)),
                       (''from_state'', JStr from_state),
                       (''to_state'', JStr (link_state_as_str (o_state ob))),
                       (''occurred_at'', JStr at)];
          with_service = (case o_service ob of None \<Rightarrow> data | Some s \<Rightarrow> jset data ''service'' (JStr s))
      in case o_hint ob of None \<Rightarrow> with_service | Some h \<Rightarrow> jset with_service ''hint'' (JStr h))"

definition status_envelope ::
  "(string \<Rightarrow> 8 word list) \<Rightarrow> tracker \<Rightarrow> observation \<Rightarrow> string \<Rightarrow> string \<Rightarrow> json" where
  "status_envelope digest tr ob at from_state =
     JObj [(''specversion'', JStr ''1.0''),
           (''id'', JStr (status_id digest (tr_connection tr) (o_state ob) at (o_hint ob))),
           (''source'', JStr (''collector://'' @ tr_host tr @ ''/connections/'' @ tr_connection tr)),
           (''type'', JStr connection_status_changed_type),
           (''time'', JStr at),
           (''subject'', JStr (tr_connection tr)),
           (''datacontenttype'', JStr ''application/json''),
           (''dataschema'', JStr (''https://schemas.twalk.dev/cloudevents/v1/''
              @ ''connection.status.changed.schema.json'')),
           (''connection'', JStr (tr_connection tr)),
           (''data'', status_data tr ob at from_state)]"

text \<open>The same state with the same hint is silence; anything else is remembered and published.\<close>

definition tracker_observe ::
  "(string \<Rightarrow> 8 word list) \<Rightarrow> tracker \<Rightarrow> observation \<Rightarrow> string \<Rightarrow> json option \<times> tracker" where
  "tracker_observe digest tr ob at =
     (if tr_last tr = Some (o_state ob, o_hint ob) then (None, tr)
      else
        let from_state = (case tr_last tr of None \<Rightarrow> ''unknown'' | Some (st, _) \<Rightarrow> link_state_as_str st)
        in (Some (status_envelope digest tr ob at from_state),
            tr\<lparr>tr_last := Some (o_state ob, o_hint ob)\<rparr>))"

text \<open>
  The rounds of the collector: each observation is answered at its instant, and the bus takes
  the envelope or does not (a publication that fails is logged and not repeated).
\<close>

fun status_rounds ::
  "(string \<Rightarrow> 8 word list) \<Rightarrow> tracker \<Rightarrow> (observation \<times> string \<times> bool) list \<Rightarrow> json list" where
  "status_rounds digest tr [] = []"
| "status_rounds digest tr ((ob, at, taken) # rounds) =
     (case tracker_observe digest tr ob at of
        (None, tr') \<Rightarrow> status_rounds digest tr' rounds
      | (Some e, tr') \<Rightarrow> (if taken then [e] else []) @ status_rounds digest tr' rounds)"

section \<open>Reading a transition\<close>

record change =
  ch_event_id :: string
  ch_connection :: string
  ch_kind :: string
  ch_from_state :: string
  ch_to_state :: string
  ch_occurred_at :: string
  ch_service :: "string option"
  ch_hint :: "string option"

datatype change_error =
    NotAStatusChange
  | NoStringAt "string list"
  | UnknownToState string
  | UnknownFromState string
  | UnknownKind string
  | UnknownService "string option"

definition link_states :: "string list" where
  "link_states = [''connected'', ''unreachable'', ''reconnect_required'', ''pending_operator'']"

definition link_kinds :: "string list" where
  "link_kinds = [''whatsapp'', ''telegram'', ''signal'', ''discord'', ''sms'', ''matrix'', ''email'', ''calendar'']"

definition link_services :: "string list" where
  "link_services = [''sso'', ''jmap'', ''caldav'']"

definition string_at :: "json \<Rightarrow> string list \<Rightarrow> change_error + string" where
  "string_at event pointer = ok_or (NoStringAt pointer) (Option.bind (jpointer event pointer) jstr)"

definition optional_at :: "json \<Rightarrow> string list \<Rightarrow> string option" where
  "optional_at event pointer = Option.bind (jpointer event pointer) jstr"

definition ensure :: "bool \<Rightarrow> 'e \<Rightarrow> 'e + unit" where
  "ensure b e = (if b then Inr () else Inl e)"

definition change_parse_status :: "json \<Rightarrow> change_error + change" where
  "change_parse_status event =
     and_then (ensure (Option.bind (jget event ''type'') jstr = Some connection_status_changed_type)
                 NotAStatusChange) (\<lambda>_.
     and_then (string_at event [''data'', ''to_state'']) (\<lambda>to_state.
     and_then (ensure (to_state \<in> set link_states) (UnknownToState to_state)) (\<lambda>_.
     and_then (string_at event [''data'', ''from_state'']) (\<lambda>from_state.
     and_then (ensure (from_state = ''unknown'' \<or> from_state \<in> set link_states) (UnknownFromState from_state)) (\<lambda>_.
     and_then (string_at event [''data'', ''kind'']) (\<lambda>kind.
     and_then (ensure (kind \<in> set link_kinds) (UnknownKind kind)) (\<lambda>_.
     let service = optional_at event [''data'', ''service''] in
     and_then (ensure (case service of None \<Rightarrow> True | Some s \<Rightarrow> s \<in> set link_services) (UnknownService service)) (\<lambda>_.
     and_then (string_at event [''id'']) (\<lambda>i.
     and_then (string_at event [''data'', ''connection'']) (\<lambda>c.
     and_then (string_at event [''data'', ''occurred_at'']) (\<lambda>at.
     Inr \<lparr>ch_event_id = i, ch_connection = c, ch_kind = kind, ch_from_state = from_state,
          ch_to_state = to_state, ch_occurred_at = at, ch_service = service,
          ch_hint = map_option (take_chars 1024) (optional_at event [''data'', ''hint''])\<rparr>)))))))))))"

section \<open>The table of the Gateway\<close>

record link_row =
  l_sequence :: nat
  l_change :: change
  l_recorded_at :: string

record link_store =
  link_rows :: "link_row list"
  link_counter :: nat

definition link_store_open :: link_store where
  "link_store_open = \<lparr>link_rows = [], link_counter = 0\<rparr>"

text \<open>
  The \<^verbatim>\<open>CHECK\<close>s of the table, a violation of which \<^verbatim>\<open>INSERT OR IGNORE\<close> passes over as it
  does a repeated id.
\<close>

definition link_checks :: "change \<Rightarrow> bool" where
  "link_checks ch \<longleftrightarrow>
     ch_kind ch \<in> set link_kinds
     \<and> (ch_from_state ch = ''unknown'' \<or> ch_from_state ch \<in> set link_states)
     \<and> ch_to_state ch \<in> set link_states
     \<and> (case ch_service ch of None \<Rightarrow> True | Some s \<Rightarrow> s \<in> set link_services)"

definition record_connection_status_change ::
  "rowids \<Rightarrow> change \<Rightarrow> string \<Rightarrow> link_store \<Rightarrow> bool \<times> link_store" where
  "record_connection_status_change sq ch recorded_at st =
     (if link_checks ch \<and> \<not> list_ex (\<lambda>r. ch_event_id (l_change r) = ch_event_id ch) (link_rows st)
      then let s = allocate sq (link_counter st)
           in (True, \<lparr>link_rows = link_rows st @ [\<lparr>l_sequence = s, l_change = ch, l_recorded_at = recorded_at\<rparr>],
                      link_counter = s\<rparr>)
      else (False, st\<lparr>link_counter := after_ignored sq (link_counter st)\<rparr>))"

record current =
  cu_connection :: string
  cu_kind :: string
  cu_state :: string
  cu_occurred_at :: string
  cu_service :: "string option"
  cu_hint :: "string option"

definition current_of :: "link_row \<Rightarrow> current" where
  "current_of r =
     (let ch = l_change r in
      \<lparr>cu_connection = ch_connection ch, cu_kind = ch_kind ch, cu_state = ch_to_state ch,
       cu_occurred_at = ch_occurred_at ch, cu_service = ch_service ch, cu_hint = ch_hint ch\<rparr>)"

definition connection_status_current :: "link_store \<Rightarrow> link_row list" where
  "connection_status_current st = newest (\<lambda>r. ch_connection (l_change r)) l_sequence (link_rows st)"

definition connection_status :: "link_store \<Rightarrow> string \<Rightarrow> current option" where
  "connection_status st c =
     map_option current_of (List.find (\<lambda>r. ch_connection (l_change r) = c) (connection_status_current st))"

definition connection_statuses :: "link_store \<Rightarrow> current list" where
  "connection_statuses st = sort_key cu_connection (map current_of (connection_status_current st))"

definition is_connected :: "current \<Rightarrow> bool" where
  "is_connected cu \<longleftrightarrow> cu_state cu = ''connected''"

section \<open>The consumer\<close>

text \<open>
  A message of a fetched batch: its payload (\<open>None\<close> when it is not JSON) and whether SQLite
  runs the insert of it.
\<close>

record delivery =
  payload :: "json option"
  runs_insert :: bool

fun record_batch :: "rowids \<Rightarrow> string \<Rightarrow> delivery list \<Rightarrow> nat \<Rightarrow> link_store \<Rightarrow> nat option \<times> link_store" where
  "record_batch sq now [] n st = (Some n, st)"
| "record_batch sq now (d # ds) n st =
     (case Option.bind (payload d) (\<lambda>j. case change_parse_status j of Inl _ \<Rightarrow> None | Inr ch \<Rightarrow> Some ch) of
        None \<Rightarrow> record_batch sq now ds n st
      | Some ch \<Rightarrow>
          if runs_insert d
          then (case record_connection_status_change sq ch now st of
                  (inserted, st') \<Rightarrow> record_batch sq now ds (if inserted then n + 1 else n) st')
          else (None, st))"

text \<open>
  \<open>drain_statuses\<close>: the messages to acknowledge (all of the batch, or none when a record
  failed: the loop then waits and fetches again), and the store.
\<close>

definition drain_statuses :: "rowids \<Rightarrow> string \<Rightarrow> delivery list \<Rightarrow> link_store \<Rightarrow> delivery list \<times> link_store" where
  "drain_statuses sq now batch st =
     (case record_batch sq now batch 0 st of
        (Some n, st') \<Rightarrow> (batch, st')
      | (None, st') \<Rightarrow> ([], st'))"

fun consume_batches :: "rowids \<Rightarrow> (string \<times> delivery list) list \<Rightarrow> link_store \<Rightarrow> link_store" where
  "consume_batches sq [] st = st"
| "consume_batches sq ((now, batch) # batches) st =
     consume_batches sq batches (snd (drain_statuses sq now batch st))"

section \<open>What the table keeps\<close>

definition link_wf :: "link_store \<Rightarrow> bool" where
  "link_wf st \<longleftrightarrow> increasing l_sequence (link_rows st) \<and> (\<forall>r \<in> set (link_rows st). l_sequence r \<le> link_counter st)"

lemma link_wf_open [simp]: "link_wf link_store_open"
  by (simp add: link_wf_def link_store_open_def)

lemma link_wf_record:
  assumes "autoincrement sq" and "link_wf st"
  shows "link_wf (snd (record_connection_status_change sq ch now st))"
proof (cases "link_checks ch \<and> \<not> list_ex (\<lambda>r. ch_event_id (l_change r) = ch_event_id ch) (link_rows st)")
  case True
  have "link_counter st < allocate sq (link_counter st)" using assms(1) by (simp add: autoincrement_def)
  with True assms(2) show ?thesis
    by (auto simp: record_connection_status_change_def link_wf_def Let_def intro: le_less_trans less_imp_le)
next
  case False
  have "link_counter st \<le> after_ignored sq (link_counter st)" using assms(1) by (simp add: autoincrement_def)
  with False assms(2) show ?thesis
    by (simp add: record_connection_status_change_def link_wf_def) (meson le_trans)
qed

lemma connection_status_last:
  assumes "link_wf st"
  shows "connection_status st c = map_option current_of (List.find (\<lambda>r. ch_connection (l_change r) = c) (rev (link_rows st)))"
  using assms by (simp add: connection_status_def connection_status_current_def link_wf_def find_newest)

text \<open>The changes a history of deliveries records, when SQLite runs every insert.\<close>

definition readable :: "delivery \<Rightarrow> change option" where
  "readable d = Option.bind (payload d) (\<lambda>j. case change_parse_status j of Inl _ \<Rightarrow> None | Inr ch \<Rightarrow> Some ch)"

lemma parsed_checks: "change_parse_status j = Inr ch \<Longrightarrow> link_checks ch"
  by (auto simp: change_parse_status_def link_checks_def ensure_def and_then_Inr_iff Let_def split: if_splits)

lemma readable_checks: "readable d = Some ch \<Longrightarrow> link_checks ch"
proof -
  assume "readable d = Some ch"
  then obtain j where "(case change_parse_status j of Inl _ \<Rightarrow> None | Inr ch' \<Rightarrow> Some ch') = Some ch"
    by (auto simp: readable_def bind_eq_Some_conv)
  then have "change_parse_status j = Inr ch" by (cases "change_parse_status j") simp_all
  then show ?thesis by (rule parsed_checks)
qed

lemma record_batch_runs:
  assumes "list_all runs_insert ds" and "link_wf st" and "autoincrement sq"
    and "\<forall>r \<in> set (link_rows st). link_checks (l_change r)"
    and "map l_change (link_rows st) = keep_first ch_event_id past"
  shows "\<exists>n st'. record_batch sq now ds k st = (Some n, st') \<and> link_wf st'
      \<and> map l_change (link_rows st') = keep_first ch_event_id (past @ List.map_filter readable ds)"
  using assms
proof (induction ds arbitrary: k st past)
  case Nil
  then show ?case by (simp add: List.map_filter_def)
next
  case (Cons d ds)
  show ?case
  proof (cases "readable d")
    case None
    then show ?thesis using Cons by (simp add: readable_def List.map_filter_def)
  next
    case (Some ch)
    let ?st = "snd (record_connection_status_change sq ch now st)"
    have known: "list_ex (\<lambda>r. ch_event_id (l_change r) = ch_event_id ch) (link_rows st)
        \<longleftrightarrow> ch_event_id ch \<in> ch_event_id ` set past"
    proof -
      have "ch_event_id ` set (map l_change (link_rows st)) = ch_event_id ` set past"
        by (simp add: Cons.prems(5))
      then have "ch_event_id ch \<in> ch_event_id ` set (map l_change (link_rows st)) \<longleftrightarrow> ch_event_id ch \<in> ch_event_id ` set past"
        by simp
      moreover have "list_ex (\<lambda>r. ch_event_id (l_change r) = ch_event_id ch) (link_rows st)
          \<longleftrightarrow> ch_event_id ch \<in> ch_event_id ` set (map l_change (link_rows st))"
        unfolding list_ex_iff set_map image_image image_iff by metis
      ultimately show ?thesis by simp
    qed
    have checks: "link_checks ch" by (rule readable_checks [OF Some])
    then have rows: "map l_change (link_rows ?st) = keep_first ch_event_id (past @ [ch])"
      unfolding record_connection_status_change_def keep_first_append
      using Cons.prems(5) known by (auto simp: Let_def)
    have "\<forall>r \<in> set (link_rows ?st). link_checks (l_change r)"
      using Cons.prems(4) checks by (auto simp: record_connection_status_change_def Let_def)
    with Cons.IH [OF _ link_wf_record [OF Cons.prems(3,2)] Cons.prems(3) _ rows] Cons.prems(1) Some
    show ?thesis
      by (auto simp: readable_def List.map_filter_def split: prod.split)
  qed
qed

lemma consume_batches_rows:
  assumes "autoincrement sq" and "list_all runs_insert (concat (map snd batches))"
  shows "link_wf (consume_batches sq batches link_store_open)
    \<and> map l_change (link_rows (consume_batches sq batches link_store_open))
      = keep_first ch_event_id (List.map_filter readable (concat (map snd batches)))"
proof -
  have "link_wf (consume_batches sq batches st)
    \<and> map l_change (link_rows (consume_batches sq batches st))
      = keep_first ch_event_id (past @ List.map_filter readable (concat (map snd batches)))"
    if "link_wf st" "map l_change (link_rows st) = keep_first ch_event_id past" "list_all link_checks past" for st past
    using that assms(2)
  proof (induction batches arbitrary: st past)
    case Nil
    then show ?case by (simp add: List.map_filter_def)
  next
    case (Cons b batches)
    obtain now ds where b: "b = (now, ds)" by (cases b)
    have "set (map l_change (link_rows st)) \<subseteq> set past"
      unfolding Cons.prems(2) by (rule keep_first_subset)
    then have "\<forall>r \<in> set (link_rows st). link_checks (l_change r)"
      using Cons.prems(3) by (auto simp: list_all_iff)
    then obtain n st' where st': "record_batch sq now ds 0 st = (Some n, st')" "link_wf st'"
        "map l_change (link_rows st') = keep_first ch_event_id (past @ List.map_filter readable ds)"
      using record_batch_runs [of ds st sq past now 0] Cons.prems assms(1) b by auto
    have "list_all link_checks (past @ List.map_filter readable ds)"
      using Cons.prems(3) readable_checks by (auto simp: list_all_iff List.map_filter_def)
    with Cons.IH [OF st'(2,3)] Cons.prems(4) st'(1) show ?case
      by (simp add: b drain_statuses_def List.map_filter_def)
  qed
  from this [of link_store_open "[]"] show ?thesis
    by (simp add: link_store_open_def link_wf_def)
qed

section \<open>From the tracker to the view\<close>

text \<open>What the tracker's envelopes say to the reader.\<close>

definition tracked_change :: "(string \<Rightarrow> 8 word list) \<Rightarrow> tracker \<Rightarrow> observation \<Rightarrow> string \<Rightarrow> change" where
  "tracked_change digest tr ob at =
     \<lparr>ch_event_id = status_id digest (tr_connection tr) (o_state ob) at (o_hint ob),
      ch_connection = tr_connection tr, ch_kind = tr_kind tr,
      ch_from_state = (case tr_last tr of None \<Rightarrow> ''unknown'' | Some (st, _) \<Rightarrow> link_state_as_str st),
      ch_to_state = link_state_as_str (o_state ob), ch_occurred_at = at, ch_service = o_service ob,
      ch_hint = map_option (take_chars 1024) (o_hint ob)\<rparr>"

definition observation_ok :: "observation \<Rightarrow> bool" where
  "observation_ok ob \<longleftrightarrow> (case o_service ob of None \<Rightarrow> True | Some s \<Rightarrow> s \<in> set link_services)"

lemma link_state_as_str_known [simp]: "link_state_as_str st \<in> set link_states"
  by (cases st) (simp_all add: link_states_def)

lemma link_state_as_str_inj [simp]: "link_state_as_str a = link_state_as_str b \<longleftrightarrow> a = b"
  by (cases a; cases b) simp_all

lemma envelope_is_read_back:
  assumes "observation_ok ob" and "tr_kind tr \<in> set link_kinds"
  shows "change_parse_status (status_envelope digest tr ob at
           (case tr_last tr of None \<Rightarrow> ''unknown'' | Some (st, _) \<Rightarrow> link_state_as_str st))
         = Inr (tracked_change digest tr ob at)"
  using assms
  by (auto simp: change_parse_status_def status_envelope_def status_data_def tracked_change_def string_at_def
      optional_at_def ensure_def observation_ok_def Let_def split: option.split)

text \<open>
  The rounds of one tracker, and the instant since which its last answer holds: where the
  last run of rounds with the same state and hint begins.
\<close>

definition round_answer :: "observation \<times> string \<times> bool \<Rightarrow> link_state \<times> string option" where
  "round_answer r = (o_state (fst r), o_hint (fst r))"

definition round_instant :: "observation \<times> string \<times> bool \<Rightarrow> string" where
  "round_instant r = fst (snd r)"

fun published_rounds :: "(link_state \<times> string option) option \<Rightarrow> (observation \<times> string \<times> bool) list
    \<Rightarrow> ((link_state \<times> string option) option \<times> observation \<times> string \<times> bool) list" where
  "published_rounds was [] = []"
| "published_rounds was (r # rs) =
     (if was = Some (round_answer r) then published_rounds was rs
      else (was, r) # published_rounds (Some (round_answer r)) rs)"

definition round_change :: "(string \<Rightarrow> 8 word list) \<Rightarrow> tracker
    \<Rightarrow> (link_state \<times> string option) option \<times> observation \<times> string \<times> bool \<Rightarrow> change" where
  "round_change digest tr = (\<lambda>(was, ob, at, taken). tracked_change digest (tr\<lparr>tr_last := was\<rparr>) ob at)"

lemma rounds_are_read_back:
  assumes "tr_kind tr \<in> set link_kinds" and "list_all (\<lambda>r. observation_ok (fst r) \<and> snd (snd r)) rounds"
  shows "map change_parse_status (status_rounds digest tr rounds)
       = map (\<lambda>p. Inr (round_change digest tr p)) (published_rounds (tr_last tr) rounds)"
  using assms
proof (induction rounds arbitrary: tr)
  case (Cons r rounds)
  obtain ob at taken where r: "r = (ob, at, taken)" by (cases r)
  let ?tr = "tr\<lparr>tr_last := Some (o_state ob, o_hint ob)\<rparr>"
  have again: "round_change digest ?tr = round_change digest tr"
    by (auto simp: round_change_def fun_eq_iff)
  have self: "tr\<lparr>tr_last := tr_last tr\<rparr> = tr" by simp
  from Cons.prems r have ok: "observation_ok ob" "taken" by simp_all
  show ?case
    using Cons.IH [of tr] Cons.IH [of ?tr] Cons.prems envelope_is_read_back [OF ok(1) Cons.prems(1), of digest at] ok
    by (auto simp: r tracker_observe_def Let_def round_answer_def again round_change_def)
qed simp

lemma published_rounds_Nil: "published_rounds was rounds = [] \<longleftrightarrow> (\<forall>r \<in> set rounds. was = Some (round_answer r))"
  by (induction rounds arbitrary: was) auto

lemma published_rounds_last:
  "published_rounds was rounds \<noteq> [] \<Longrightarrow>
     \<exists>i < length rounds. \<exists>w. last (published_rounds was rounds) = (w, rounds ! i)
       \<and> (\<forall>r \<in> set (drop i rounds). round_answer r = round_answer (rounds ! i))
       \<and> w = (if i = 0 then was else Some (round_answer (rounds ! (i - 1)))) \<and> w \<noteq> Some (round_answer (rounds ! i))"
proof (induction rounds arbitrary: was)
  case (Cons r rs)
  show ?case
  proof (cases "published_rounds (Some (round_answer r)) rs = []")
    case True
    then have same: "\<forall>x \<in> set rs. round_answer x = round_answer r" by (auto simp: published_rounds_Nil)
    moreover have "was \<noteq> Some (round_answer r)" using Cons.prems True by auto
    ultimately show ?thesis using True by (intro exI [of _ "0 :: nat"]) simp
  next
    case False
    obtain i where i: "i < length rs" "last (published_rounds (Some (round_answer r)) rs)
          = (if i = 0 then Some (round_answer r) else Some (round_answer (rs ! (i - 1))), rs ! i)"
        "\<forall>x \<in> set (drop i rs). round_answer x = round_answer (rs ! i)"
        "(if i = 0 then Some (round_answer r) else Some (round_answer (rs ! (i - 1)))) \<noteq> Some (round_answer (rs ! i))"
      using Cons.IH [OF False] by blast
    have "last (published_rounds was (r # rs)) = last (published_rounds (Some (round_answer r)) rs)"
      using False by auto
    moreover have was: "(if i = 0 then Some (round_answer r) else Some (round_answer (rs ! (i - 1)))) = Some (round_answer ((r # rs) ! (Suc i - 1)))"
      by (cases i) simp_all
    ultimately have "last (published_rounds was (r # rs)) = (Some (round_answer ((r # rs) ! (Suc i - 1))), (r # rs) ! Suc i)"
      unfolding i(2) by simp
    moreover have "\<forall>x \<in> set (drop (Suc i) (r # rs)). round_answer x = round_answer ((r # rs) ! Suc i)" using i(3) by simp
    moreover have "Some (round_answer ((r # rs) ! (Suc i - 1))) \<noteq> Some (round_answer ((r # rs) ! Suc i))"
      using i(4) unfolding was by simp
    moreover have "Suc i < length (r # rs)" using i(1) by simp
    moreover have "(if Suc i = 0 then was else Some (round_answer ((r # rs) ! (Suc i - 1)))) = Some (round_answer ((r # rs) ! (Suc i - 1)))"
      by simp
    ultimately show ?thesis by metis
  qed
qed simp

lemma published_rounds_subset: "snd ` set (published_rounds was rounds) \<subseteq> set rounds"
proof (induction rounds arbitrary: was)
  case (Cons r rs)
  show ?case using Cons.IH [of was] Cons.IH [of "Some (round_answer r)"] by auto
qed simp

lemma distinct_published_rounds:
  "distinct (map round_instant rounds) \<Longrightarrow> distinct (map (\<lambda>p. round_instant (snd p)) (published_rounds was rounds))"
proof (induction rounds arbitrary: was)
  case (Cons r rs)
  then show ?case using published_rounds_subset [of _ rs] by (auto simp: image_subset_iff)
qed simp

lemma status_id_at:
  assumes "inj digest" and "length at = length at'"
    and "status_id digest c st at hint = status_id digest c st' at' hint'"
  shows "at = at'"
proof -
  let ?key = "\<lambda>st at hint. c @ '':'' @ link_state_as_str st @ '':'' @ at @ '':''
                 @ (case hint of None \<Rightarrow> [] | Some h \<Rightarrow> h)"
  have "digest (?key st at hint) = digest (?key st' at' hint')"
    using assms(3) by (simp add: status_id_def hex_bytes_inj)
  then have "?key st at hint = ?key st' at' hint'" by (rule injD [OF assms(1)])
  then show ?thesis using assms(2) by (cases st; cases st') simp_all
qed

lemma published_ids_distinct:
  assumes "inj digest" and "distinct (map round_instant rounds)" and "\<forall>r \<in> set rounds. length (round_instant r) = n"
  shows "distinct (map (\<lambda>p. ch_event_id (round_change digest tr p)) (published_rounds was rounds))"
proof -
  let ?P = "published_rounds was rounds"
  have "inj_on (\<lambda>p. ch_event_id (round_change digest tr p)) (set ?P)"
  proof (rule inj_onI)
    fix p q
    assume pq: "p \<in> set ?P" "q \<in> set ?P"
      and "ch_event_id (round_change digest tr p) = ch_event_id (round_change digest tr q)"
    then have "status_id digest (tr_connection tr) (o_state (fst (snd p))) (round_instant (snd p)) (o_hint (fst (snd p)))
        = status_id digest (tr_connection tr) (o_state (fst (snd q))) (round_instant (snd q)) (o_hint (fst (snd q)))"
      by (simp add: round_change_def tracked_change_def round_instant_def case_prod_unfold)
    moreover have "length (round_instant (snd p)) = length (round_instant (snd q))"
    proof -
      have "snd p \<in> set rounds" "snd q \<in> set rounds"
        using published_rounds_subset [of was rounds] pq by blast+
      then show ?thesis using assms(3) by simp
    qed
    ultimately have "round_instant (snd p) = round_instant (snd q)" by (rule status_id_at [OF assms(1), rotated])
    then show "p = q"
      using distinct_published_rounds [OF assms(2), of was] pq by (auto simp: distinct_map dest: inj_onD)
  qed
  moreover have "distinct ?P"
    using distinct_published_rounds [OF assms(2), of was] by (simp add: distinct_map)
  ultimately show ?thesis by (simp add: distinct_map)
qed

lemma recorded_rounds:
  assumes "autoincrement sq" and "list_all runs_insert ds"
    and "tr_kind tr \<in> set link_kinds" and "list_all (\<lambda>r. observation_ok (fst r) \<and> snd (snd r)) rounds"
    and "distinct (map round_instant rounds)" and "\<forall>r \<in> set rounds. length (round_instant r) = n" and "inj digest"
    and "keep_first (\<lambda>x. x) (map payload ds) = map Some (status_rounds digest tr rounds)"
  shows "keep_first ch_event_id (List.map_filter readable ds)
       = map (round_change digest tr) (published_rounds (tr_last tr) rounds)"
proof -
  let ?E = "status_rounds digest tr rounds" and ?P = "published_rounds (tr_last tr) rounds"
  let ?g = "\<lambda>j. projr (change_parse_status j)"
  have E: "map change_parse_status ?E = map (\<lambda>p. Inr (round_change digest tr p)) ?P"
    by (rule rounds_are_read_back [OF assms(3,4)])
  have "set (map payload ds) = Some ` set ?E"
    using keys_keep_first [of "\<lambda>x. x" "map payload ds"] by (simp add: assms(8))
  then have pay: "\<And>d. d \<in> set ds \<Longrightarrow> \<exists>j \<in> set ?E. payload d = Some j" by auto
  have g: "map ?g ?E = map (round_change digest tr) ?P"
  proof -
    have "map ?g ?E = map projr (map change_parse_status ?E)" by simp
    then show ?thesis unfolding E by simp
  qed
  have right: "\<exists>ch. change_parse_status j = Inr ch" if "j \<in> set ?E" for j
  proof -
    have "change_parse_status j \<in> set (map change_parse_status ?E)" using that by simp
    then show ?thesis unfolding E by auto
  qed
  have read: "readable d = Some (?g (the (payload d)))" if mem: "d \<in> set ds" for d
  proof -
    obtain j where j: "j \<in> set ?E" "payload d = Some j" using pay [OF mem] by blast
    then obtain ch where "change_parse_status j = Inr ch" using right by blast
    with j show ?thesis by (simp add: readable_def)
  qed
  have filtered: "List.map_filter readable ds = map ?g (map (the \<circ> payload) ds)"
    unfolding List.map_filter_def
  proof -
    have "filter (\<lambda>d. readable d \<noteq> None) ds = ds" using read by (auto simp: filter_id_conv)
    then show "map (the \<circ> readable) (filter (\<lambda>d. readable d \<noteq> None) ds) = map ?g (map (the \<circ> payload) ds)"
      using read by simp
  qed
  have somes: "map payload ds = map Some (map (the \<circ> payload) ds)" using pay by fastforce
  have "map Some (keep_first (\<lambda>x. x) (map (the \<circ> payload) ds)) = map Some ?E"
    unfolding assms(8) [symmetric] somes by (rule keep_first_map [symmetric]) simp
  then have js: "keep_first (\<lambda>x. x) (map (the \<circ> payload) ds) = ?E"
    by (rule map_injective) simp
  have "inj_on (\<lambda>j. ch_event_id (?g j)) (set ?E)"
  proof -
    have "distinct (map ch_event_id (map ?g ?E))"
      unfolding g using published_ids_distinct [OF assms(7,5,6)] by (simp add: comp_def)
    then show ?thesis by (simp add: distinct_map comp_def)
  qed
  moreover have "set (map (the \<circ> payload) ds) = set ?E"
    using keys_keep_first [of "\<lambda>x. x" "map (the \<circ> payload) ds"] by (simp add: js)
  ultimately have "keep_first ch_event_id (map ?g (map (the \<circ> payload) ds)) = map ?g ?E"
    using keep_first_map [of ch_event_id ?g "map (the \<circ> payload) ds"] by (simp add: js)
  then show ?thesis by (simp add: filtered g)
qed


definition refused_by_sso :: observation where
  "refused_by_sso = \<lparr>o_state = LinkReconnectRequired, o_service = Some ''sso'', o_hint = Some ''renew''\<rparr>"

definition three_rounds :: "(observation \<times> string \<times> bool) list" where
  "three_rounds = [(observed_connected, ''t1'', True), (refused_by_sso, ''t2'', True), (refused_by_sso, ''t3'', True)]"

definition redelivered :: "(string \<times> delivery list) list" where
  "redelivered =
     (let es = map (\<lambda>e. \<lparr>payload = Some e, runs_insert = True\<rparr>)
                 (status_rounds byte_digest (tracker_new ''mail'' ''email'' ''h'') three_rounds)
      in [(''n1'', es), (''n2'', es)])"


section \<open>Where the view goes wrong\<close>

text \<open>
  A transition whose publication fails is never published again: the tracker has
  remembered it, so for as long as the connection stays as it was then seen nothing more is
  said of it, and the Gateway goes on showing the state before.
\<close>

theorem lost_transition_is_not_repeated:
  "status_rounds digest tr ((ob, at, False) # map (\<lambda>t. (ob, t, True)) later) = []"
proof -
  have "status_rounds digest tr (map (\<lambda>t. (ob, t, True)) later) = []"
    if "tr_last tr = Some (o_state ob, o_hint ob)" for tr
    using that by (induction later) (simp_all add: tracker_observe_def)
  then show ?thesis by (simp add: tracker_observe_def Let_def)
qed

text \<open>
  A record that SQLite refuses once makes an old state the current one: the batch is not
  acknowledged, the next one is recorded meanwhile, and when the bus delivers the first
  again its row, though the older transition, is the newest of the journal. The connection
  that recovered is shown as refused.
\<close>

theorem late_redelivery_becomes_the_current_state:
  "let messages = status_rounds byte_digest (tracker_new ''mail'' ''email'' ''h'')
                    [(refused_by_sso, ''t1'', True), (observed_connected, ''t2'', True)];
       first = \<lparr>payload = Some (messages ! 0), runs_insert = False\<rparr>;
       second = \<lparr>payload = Some (messages ! 1), runs_insert = True\<rparr>;
       again = \<lparr>payload = Some (messages ! 0), runs_insert = True\<rparr>;
       st = consume_batches bundled_sqlite [(''n1'', [first]), (''n2'', [second]), (''n3'', [again])] link_store_open
   in fst (drain_statuses bundled_sqlite ''n1'' [first] link_store_open) = []
      \<and> map_option cu_state (connection_status st ''mail'') = Some ''reconnect_required''
      \<and> map_option cu_occurred_at (connection_status st ''mail'') = Some ''t1''
      \<and> map (ch_occurred_at \<circ> l_change) (link_rows st) = [''t2'', ''t1'']"
  by code_simp

end
