(* ===== verification/Ical.thy ===== *)
theory Ical
  imports Free_Busy Chars
begin

text \<open>
  Reading one resource of a calendar: the content lines, the VEVENT and the facts of
  \<^verbatim>\<open>collector/src/caldav.rs\<close> (\<open>parse_vevent\<close>, \<open>facts_of\<close>). What \<^verbatim>\<open>chrono\<close> reads and writes of a
  local date is the record \<open>naive_clock\<close>; the zones are those of \<open>Zones\<close>.
\<close>

section \<open>Content lines\<close>

definition ascii_upper :: "char \<Rightarrow> char" where
  "ascii_upper c = (let n = of_char c :: nat in if 97 \<le> n \<and> n \<le> 122 then char_of (n - 32) else c)"

text \<open>The head and the value at the first colon outside quotes.\<close>

fun split_head :: "bool \<Rightarrow> string \<Rightarrow> (string \<times> string) option" where
  "split_head quoted [] = None"
| "split_head quoted (c # s) =
     (if c = CHR '':'' \<and> \<not> quoted then Some ([], s)
      else map_option (\<lambda>(h, v). (c # h, v)) (split_head (if c = CHR 0x22 then \<not> quoted else quoted) s))"

fun split_unquoted :: "char \<Rightarrow> bool \<Rightarrow> string \<Rightarrow> string list" where
  "split_unquoted separator quoted [] = [[]]"
| "split_unquoted separator quoted (c # s) =
     (if c \<noteq> CHR 0x22 \<and> c = separator \<and> \<not> quoted then [] # split_unquoted separator quoted s
      else (case split_unquoted separator (if c = CHR 0x22 then \<not> quoted else quoted) s of
              p # ps \<Rightarrow> (c # p) # ps
            | [] \<Rightarrow> [[c]]))"

definition trim_quotes :: "string \<Rightarrow> string" where
  "trim_quotes s = rev (dropWhile (\<lambda>c. c = CHR 0x22) (rev (dropWhile (\<lambda>c. c = CHR 0x22) s)))"

record content_line =
  cl_name :: string
  cl_params :: "(string \<times> string) list"
  cl_value :: string

definition content_line_parse :: "string \<Rightarrow> content_line option" where
  "content_line_parse line =
     map_option (\<lambda>(head, v).
       let parts = split_unquoted (CHR '';'') False head in
       \<lparr>cl_name = map ascii_upper (hd parts),
        cl_params = List.map_filter (\<lambda>p. map_option (\<lambda>(n, v). (map ascii_upper n, trim_quotes v))
                      (split_once (CHR ''='') p)) (tl parts),
        cl_value = v\<rparr>)
       (split_head False line)"

definition param :: "content_line \<Rightarrow> string \<Rightarrow> string option" where
  "param l n = map_of (cl_params l) n"

definition is_date :: "content_line \<Rightarrow> bool" where
  "is_date l \<longleftrightarrow> param l ''VALUE'' = Some ''DATE'' \<or> length (cl_value l) = 8"

fun unescape_text :: "string \<Rightarrow> string" where
  "unescape_text [] = []"
| "unescape_text [c] = (if c = CHR 0x5C then [] else [c])"
| "unescape_text (c # d # s) =
     (if c = CHR 0x5C then (if d = CHR ''n'' \<or> d = CHR ''N'' then CHR 0x0A else d) # unescape_text s
      else c # unescape_text (d # s))"

section \<open>The events of a resource\<close>

text \<open>
  The lines between \<^verbatim>\<open>BEGIN:VEVENT\<close> and \<^verbatim>\<open>END:VEVENT\<close>, whatever is nested in them.
\<close>

fun vevents :: "content_line list \<Rightarrow> content_line list option \<Rightarrow> content_line list list" where
  "vevents [] current = []"
| "vevents (l # ls) current =
     (if cl_name l = ''BEGIN'' \<and> cl_value l = ''VEVENT'' then vevents ls (Some [])
      else if cl_name l = ''END'' \<and> cl_value l = ''VEVENT'' then
        (case current of None \<Rightarrow> vevents ls None | Some e \<Rightarrow> e # vevents ls None)
      else vevents ls (map_option (\<lambda>e. e @ [l]) current))"

definition is_exception :: "content_line list \<Rightarrow> bool" where
  "is_exception e \<longleftrightarrow> list_ex (\<lambda>l. cl_name l = ''RECURRENCE-ID'') e"

definition master_of :: "content_line list list \<Rightarrow> content_line list option" where
  "master_of es =
     (case List.find (\<lambda>e. \<not> is_exception e) es of
        Some e \<Rightarrow> Some e
      | None \<Rightarrow> (case es of [] \<Rightarrow> None | e # _ \<Rightarrow> Some e))"

definition property_of :: "content_line list \<Rightarrow> string \<Rightarrow> content_line option" where
  "property_of e n = List.find (\<lambda>l. cl_name l = n) e"

section \<open>Moments\<close>

record naive_clock =
  read_date :: "string \<Rightarrow> int option"
  read_local :: "string \<Rightarrow> int option"
  show_date :: "int \<Rightarrow> string"
  show_local :: "int \<Rightarrow> string"
  zoned_text :: "zone \<Rightarrow> int \<Rightarrow> string option"
  date_ok :: "int \<Rightarrow> bool"
  local_ok :: "int \<Rightarrow> bool"

datatype ical_moment = DateMoment int | ZonedMoment int zone | UtcMoment int

datatype vevent_error =
    NoVevent | NoUid | NoDtstart
  | NotADate | NotALocal | ZoneRefused unplaceable | DurationRefused duration_error
  | VeventPanics

definition moment_parse ::
  "naive_clock \<Rightarrow> (string \<Rightarrow> zone option) \<Rightarrow> string \<Rightarrow> string option \<Rightarrow> bool \<Rightarrow> vevent_error + ical_moment" where
  "moment_parse nc iana given tzid_param all_day =
     (let v = trim given in
      if all_day then and_then (ok_or NotADate (read_date nc v)) (\<lambda>d. Inr (DateMoment d))
      else
        case strip_suffix ''Z'' v of
          Some utc \<Rightarrow> and_then (ok_or NotALocal (read_local nc utc)) (\<lambda>t. Inr (UtcMoment t))
        | None \<Rightarrow>
            and_then (ok_or NotALocal (read_local nc v)) (\<lambda>t.
              case tzid_param of
                None \<Rightarrow> Inr (UtcMoment t)
              | Some n \<Rightarrow> (case place iana n of
                             Inl u \<Rightarrow> Inl (ZoneRefused u)
                           | Inr z \<Rightarrow> Inr (ZonedMoment t z))))"

text \<open>A date moves by whole days, truncated towards zero; out of range is a panic.\<close>

fun moment_plus :: "naive_clock \<Rightarrow> ical_moment \<Rightarrow> int \<Rightarrow> vevent_error + ical_moment" where
  "moment_plus nc (DateMoment d) duration =
     (let e = d + (if 0 \<le> duration then duration div (86400 * second) else - ((- duration) div (86400 * second)))
      in if date_ok nc e then Inr (DateMoment e) else Inl VeventPanics)"
| "moment_plus nc (ZonedMoment t z) duration =
     (if local_ok nc (t + duration) then Inr (ZonedMoment (t + duration) z) else Inl VeventPanics)"
| "moment_plus nc (UtcMoment t) duration =
     (if local_ok nc (t + duration) then Inr (UtcMoment (t + duration)) else Inl VeventPanics)"

fun moment_render :: "naive_clock \<Rightarrow> ical_moment \<Rightarrow> string" where
  "moment_render nc (DateMoment d) = show_date nc d"
| "moment_render nc (ZonedMoment t z) =
     (case zoned_text nc z t of Some text \<Rightarrow> text | None \<Rightarrow> show_local nc t @ ''Z'')"
| "moment_render nc (UtcMoment t) = show_local nc t @ ''Z''"

section \<open>The event\<close>

record person =
  p_identity :: string
  p_name :: "string option"

record participant =
  pa_identity :: string
  pa_name :: "string option"
  pa_role :: string
  pa_partstat :: string

record vevent =
  v_uid :: string
  v_title :: string
  v_location :: "string option"
  v_start :: string
  v_end :: string
  v_all_day :: bool
  v_timezone :: "string option"
  v_status :: string
  v_recurrence :: "string option"
  v_organizer :: "person option"
  v_participants :: "participant list"

text \<open>
  \<^verbatim>\<open>trimmed[..7]\<close> slices the text by bytes, and panics when the seventh byte ends within_event
  a character.
\<close>

definition mailto_of :: "string \<Rightarrow> vevent_error + string option" where
  "mailto_of given =
     (let trimmed = trim given in
      if 7 < length trimmed then
        if continues (trimmed ! 7) then Inl VeventPanics
        else if eq_ignore_ascii_case (take 7 trimmed) ''mailto:'' then
          let address = trim (drop 7 trimmed) in
          Inr (if CHR ''@'' \<in> set address then Some (''mailto:'' @ map ascii_lower address) else None)
        else Inr None
      else Inr None)"

definition role_of :: "string option \<Rightarrow> string" where
  "role_of given =
     (case map_option (map ascii_upper) given of
        None \<Rightarrow> ''required''
      | Some r \<Rightarrow> if r = ''CHAIR'' then ''chair''
                  else if r = ''OPT-PARTICIPANT'' then ''optional''
                  else if r = ''NON-PARTICIPANT'' then ''non-participant''
                  else ''required'')"

definition partstat_of :: "string option \<Rightarrow> string" where
  "partstat_of given =
     (case map_option (map ascii_upper) given of
        None \<Rightarrow> ''needs-action''
      | Some s \<Rightarrow> if s = ''ACCEPTED'' then ''accepted''
                  else if s = ''DECLINED'' then ''declined''
                  else if s = ''TENTATIVE'' then ''tentative''
                  else if s = ''DELEGATED'' then ''delegated''
                  else ''needs-action'')"

definition status_of :: "string option \<Rightarrow> string" where
  "status_of given =
     (case map_option (map ascii_upper) given of
        None \<Rightarrow> ''confirmed''
      | Some s \<Rightarrow> if s = ''TENTATIVE'' then ''tentative''
                  else if s = ''CANCELLED'' then ''cancelled'' else ''confirmed'')"

definition read_organizer :: "content_line list \<Rightarrow> vevent_error + person option" where
  "read_organizer e =
     (case property_of e ''ORGANIZER'' of
        None \<Rightarrow> Inr None
      | Some l \<Rightarrow>
          and_then (mailto_of (cl_value l)) (\<lambda>i.
            Inr (map_option (\<lambda>i. \<lparr>p_identity = i, p_name = map_option unescape_text (param l ''CN'')\<rparr>) i)))"

definition read_participant :: "content_line \<Rightarrow> vevent_error + participant option" where
  "read_participant l =
     and_then (mailto_of (cl_value l)) (\<lambda>i.
       Inr (map_option (\<lambda>i. \<lparr>pa_identity = i, pa_name = map_option unescape_text (param l ''CN''),
                             pa_role = role_of (param l ''ROLE''),
                             pa_partstat = partstat_of (param l ''PARTSTAT'')\<rparr>) i))"

definition read_participants :: "content_line list \<Rightarrow> vevent_error + participant list" where
  "read_participants e =
     and_then (traverse read_participant (filter (\<lambda>l. cl_name l = ''ATTENDEE'') e)) (\<lambda>ps.
       Inr (List.map_filter (\<lambda>p. p) ps))"

definition refused_duration :: "duration_error + int \<Rightarrow> vevent_error + int" where
  "refused_duration r =
     (case r of
        Inr d \<Rightarrow> Inr d
      | Inl e \<Rightarrow> Inl (if e = DurationPanics then VeventPanics else DurationRefused e))"

definition read_end ::
  "naive_clock \<Rightarrow> (string \<Rightarrow> zone option) \<Rightarrow> content_line list \<Rightarrow> ical_moment \<Rightarrow> bool \<Rightarrow> string option
    \<Rightarrow> vevent_error + ical_moment" where
  "read_end nc iana e start all_day tzid_param =
     (case property_of e ''DTEND'' of
        Some l \<Rightarrow>
          moment_parse nc iana (cl_value l)
            (case param l ''TZID'' of Some n \<Rightarrow> Some n | None \<Rightarrow> tzid_param) (is_date l)
      | None \<Rightarrow>
          (case property_of e ''DURATION'' of
             Some l \<Rightarrow> and_then (refused_duration (parse_duration (cl_value l))) (\<lambda>d. moment_plus nc start d)
           | None \<Rightarrow> if all_day then moment_plus nc start (86400 * second) else Inr start))"

definition nonempty_text :: "string option \<Rightarrow> string option" where
  "nonempty_text s = (case s of Some v \<Rightarrow> if v = [] then None else Some v | None \<Rightarrow> None)"

definition read_master :: "naive_clock \<Rightarrow> (string \<Rightarrow> zone option) \<Rightarrow> content_line list \<Rightarrow> vevent_error + vevent" where
  "read_master nc iana e =
     and_then (ok_or NoUid (nonempty_text (map_option cl_value (property_of e ''UID'')))) (\<lambda>uid.
     and_then (ok_or NoDtstart (property_of e ''DTSTART'')) (\<lambda>dtstart.
     let all_day = is_date dtstart;
         tzid_param = (if all_day then None else param dtstart ''TZID'') in
     and_then (moment_parse nc iana (cl_value dtstart) tzid_param all_day) (\<lambda>start.
     and_then (read_end nc iana e start all_day tzid_param) (\<lambda>end.
     and_then (read_organizer e) (\<lambda>organizer.
     and_then (read_participants e) (\<lambda>participants.
     Inr \<lparr>v_uid = uid,
          v_title = (case property_of e ''SUMMARY'' of None \<Rightarrow> [] | Some l \<Rightarrow> unescape_text (cl_value l)),
          v_location = nonempty_text (map_option (\<lambda>l. trim (unescape_text (cl_value l))) (property_of e ''LOCATION'')),
          v_start = moment_render nc start, v_end = moment_render nc end, v_all_day = all_day,
          v_timezone = (case start of ZonedMoment t z \<Rightarrow> Some (zone_name z) | _ \<Rightarrow> None),
          v_status = status_of (map_option cl_value (property_of e ''STATUS'')),
          v_recurrence = nonempty_text (map_option cl_value (property_of e ''RRULE'')),
          v_organizer = organizer, v_participants = participants\<rparr>))))))"

definition parse_vevent :: "naive_clock \<Rightarrow> (string \<Rightarrow> zone option) \<Rightarrow> string \<Rightarrow> vevent_error + vevent" where
  "parse_vevent nc iana ics =
     and_then (ok_or NoVevent (master_of (vevents (List.map_filter content_line_parse (unfold ics)) None)))
       (read_master nc iana)"

section \<open>The facts\<close>

record facts =
  conference :: "string option"
  description_characters :: "nat option"
  attachments :: nat

definition has_whitespace :: "string \<Rightarrow> bool" where
  "has_whitespace s \<longleftrightarrow> list_ex (\<lambda>i. ws_width (drop i s) \<noteq> 0) [0..<length s]"

definition is_http_url :: "string \<Rightarrow> bool" where
  "is_http_url v \<longleftrightarrow>
     (let lower = map ascii_lower v in
      (strip_prefix ''https://'' lower \<noteq> None \<or> strip_prefix ''http://'' lower \<noteq> None) \<and> \<not> has_whitespace v)"

text \<open>The flag, the lines of the event being read and the master so far.\<close>

fun facts_master ::
  "content_line list \<Rightarrow> bool \<Rightarrow> content_line list \<Rightarrow> content_line list \<Rightarrow> content_line list" where
  "facts_master [] within_event current master = master"
| "facts_master (l # ls) within_event current master =
     (if cl_name l = ''BEGIN'' \<and> cl_value l = ''VEVENT'' then facts_master ls True [] master
      else if cl_name l = ''END'' \<and> cl_value l = ''VEVENT'' then
        (if master = [] \<or> \<not> is_exception current then facts_master ls False [] current
         else facts_master ls False current master)
      else facts_master ls within_event (if within_event then current @ [l] else current) master)"

definition facts_of :: "string \<Rightarrow> facts option" where
  "facts_of ics =
     (let master = facts_master (List.map_filter content_line_parse (unfold ics)) False [] [] in
      if master = [] then None
      else Some
        \<lparr>conference =
           (case (case property_of master ''CONFERENCE'' of
                    Some l \<Rightarrow> Some l | None \<Rightarrow> property_of master ''X-GOOGLE-CONFERENCE'') of
              None \<Rightarrow> None
            | Some l \<Rightarrow> (let url = trim (unescape_text (cl_value l)) in if is_http_url url then Some url else None)),
         description_characters =
           (case property_of master ''DESCRIPTION'' of
              None \<Rightarrow> None
            | Some l \<Rightarrow> (let n = chars_count (trim (unescape_text (cl_value l))) in if 0 < n then Some n else None)),
         attachments = length (filter (\<lambda>l. cl_name l = ''ATTACH'') master)\<rparr>)"

section \<open>What is read of an event\<close>

lemma moment_parse_zoned:
  "moment_parse nc iana given tz all_day = Inr (ZonedMoment t z) \<Longrightarrow> \<exists>n. place iana n = Inr z"
proof -
  assume read: "moment_parse nc iana given tz all_day = Inr (ZonedMoment t z)"
  then have "\<not> all_day" "strip_suffix ''Z'' (trim given) = None"
    by (auto simp: moment_parse_def Let_def and_then_Inr_iff split: if_splits option.splits)
  with read obtain n u where n: "tz = Some n" and
    "(case place iana n of Inl u \<Rightarrow> Inl (ZoneRefused u) | Inr z \<Rightarrow> Inr (ZonedMoment u z)) = (Inr (ZonedMoment t z) :: vevent_error + ical_moment)"
    by (cases tz) (auto simp: moment_parse_def Let_def and_then_Inr_iff)
  then show ?thesis by (cases "place iana n") auto
qed

lemma read_master_start:
  assumes "read_master nc iana e = Inr v"
  obtains given tz all_day start where "moment_parse nc iana given tz all_day = Inr start"
    and "v_timezone v = (case start of ZonedMoment t z \<Rightarrow> Some (zone_name z) | _ \<Rightarrow> None)"
  using assms unfolding read_master_def Let_def and_then_Inr_iff by force

text \<open>
  The zone an event is published with is the IANA name of the zone its start was placed
  in, whatever family the calendar wrote it in, and reads back as that zone.
\<close>

theorem event_zone_is_iana:
  assumes "names_read_back iana" and "parse_vevent nc iana ics = Inr v" and "v_timezone v = Some n"
  shows "\<exists>z. zones_read iana n = Some z \<and> zone_name z = n"
proof -
  obtain e where "read_master nc iana e = Inr v"
    using assms(2) by (auto simp: parse_vevent_def and_then_Inr_iff)
  then obtain given tz all_day start' where read: "moment_parse nc iana given tz all_day = Inr start'"
    and "v_timezone v = (case start' of ZonedMoment t z \<Rightarrow> Some (zone_name z) | _ \<Rightarrow> None)"
    by (rule read_master_start)
  then obtain t z where start: "moment_parse nc iana given tz all_day = Inr (ZonedMoment t z)" "zone_name z = n"
    using assms(3) by (cases start') auto
  then obtain m where "place iana m = Inr z" using moment_parse_zoned by blast
  then have "zones_read iana m = Some z" by (simp add: place_def ok_or_Inr_iff)
  from zones_read_back [OF assms(1) this] start(2) show ?thesis by auto
qed

text \<open>A clock that reads two dates and writes numbers in decimal.\<close>

definition two_dates :: naive_clock where
  "two_dates =
     \<lparr>read_date = (\<lambda>s. if s = ''20260921'' then Some 20717 else None),
      read_local = (\<lambda>s. if s = ''20260921T140000'' then Some 0 else None),
      show_date = (\<lambda>d. dec (nat d)), show_local = (\<lambda>t. dec (nat t)), zoned_text = (\<lambda>z t. Some (spelled z t)),
      date_ok = (\<lambda>d. True), local_ok = (\<lambda>t. True)\<rparr>"

definition crlf :: "string list \<Rightarrow> string" where
  "crlf ls = join_with [CHR 0x0D, CHR 0x0A] ls"

definition in_paris :: string where
  "in_paris = crlf [''BEGIN:VEVENT'', ''UID:u'', ''DTSTART;TZID=Europe/Paris:20260921T140000'', ''END:VEVENT'']"

lemma in_paris_lines:
  "master_of (vevents (List.map_filter content_line_parse (unfold in_paris)) None) = Some
     [\<lparr>cl_name = ''UID'', cl_params = [], cl_value = ''u''\<rparr>,
      \<lparr>cl_name = ''DTSTART'', cl_params = [(''TZID'', ''Europe/Paris'')], cl_value = ''20260921T140000''\<rparr>]"
  by code_simp

lemma in_paris_zone: "\<exists>v. parse_vevent two_dates two_zones in_paris = Inr v \<and> v_timezone v = Some ''Europe/Paris''"
proof -
  have "trim ''Europe/Paris'' = ''Europe/Paris''" "trim ''20260921T140000'' = ''20260921T140000''"
    "strip_suffix ''Z'' ''20260921T140000'' = None" by code_simp+
  then show ?thesis
    unfolding parse_vevent_def in_paris_lines
    by (simp add: read_master_def property_of_def nonempty_text_def is_date_def
        param_def moment_parse_def place_def zones_read_def two_zones_def two_dates_def fixed_zone_def read_end_def
        read_organizer_def read_participants_def List.map_filter_def Let_def)
qed

theorem event_zone_is_iana_witness:
  "\<exists>z. zones_read two_zones ''Europe/Paris'' = Some z \<and> zone_name z = ''Europe/Paris''"
proof -
  obtain v where v: "parse_vevent two_dates two_zones in_paris = Inr v" "v_timezone v = Some ''Europe/Paris''"
    using in_paris_zone by blast
  show ?thesis by (rule event_zone_is_iana [OF two_zones_read_back v])
qed

section \<open>What goes wrong\<close>

text \<open>
  An invitation can take the collector down: an organizer or an attendee whose address
  has a character across its seventh byte makes the reading of the resource panic, whatever
  the rest of it says.
\<close>

theorem organizer_with_an_accent_panics:
  assumes "property_of e ''UID'' = Some uid" and "cl_value uid \<noteq> []" and "property_of e ''DTSTART'' = Some dtstart"
    and "moment_parse nc iana (cl_value dtstart) (if is_date dtstart then None else param dtstart ''TZID'') (is_date dtstart) = Inr start"
    and "read_end nc iana e start (is_date dtstart) (if is_date dtstart then None else param dtstart ''TZID'') = Inr stop"
    and "property_of e ''ORGANIZER'' = Some organizer"
    and "7 < length (trim (cl_value organizer))" and "continues (trim (cl_value organizer) ! 7)"
  shows "read_master nc iana e = Inl VeventPanics"
proof -
  have uid: "ok_or NoUid (nonempty_text (map_option cl_value (property_of e ''UID''))) = Inr (cl_value uid)"
    using assms(1,2) by (simp add: nonempty_text_def)
  have "mailto_of (cl_value organizer) = Inl VeventPanics"
    using assms(7,8) by (simp add: mailto_of_def Let_def)
  then have "read_organizer e = Inl VeventPanics"
    using assms(6) by (simp add: read_organizer_def)
  then show ?thesis
    by (simp only: read_master_def Let_def uid assms(3-5) ok_or.simps and_then.simps)
qed

lemma date_moment_read:
  "(case r of Inr (DateMoment d) \<Rightarrow> d = k | _ \<Rightarrow> False) \<Longrightarrow> r = Inr (DateMoment k)"
  by (auto split: sum.splits ical_moment.splits)

definition accented :: "content_line list" where
  "accented =
     List.map_filter content_line_parse
       [''UID:u'', ''DTSTART;VALUE=DATE:20260921'', ''ORGANIZER:Jeremi'' @ [CHR 0xC3, CHR 0xA9] @ ''@x'']"

theorem organizer_with_an_accent_panics_witness:
  "read_master two_dates two_zones accented = Inl VeventPanics"
proof -
  define l where "l i = accented ! i" for i
  show ?thesis
  proof (rule organizer_with_an_accent_panics)
    show "property_of accented ''UID'' = Some (l 0)" unfolding l_def by code_simp
    show "cl_value (l 0) \<noteq> []" unfolding l_def by code_simp
    show "property_of accented ''DTSTART'' = Some (l 1)" unfolding l_def by code_simp
    show "moment_parse two_dates two_zones (cl_value (l 1)) (if is_date (l 1) then None else param (l 1) ''TZID'') (is_date (l 1))
        = Inr (DateMoment 20717)"
      unfolding l_def by (rule date_moment_read) code_simp
    show "read_end two_dates two_zones accented (DateMoment 20717) (is_date (l 1))
        (if is_date (l 1) then None else param (l 1) ''TZID'') = Inr (DateMoment 20718)"
      unfolding l_def by (rule date_moment_read) code_simp
    show "property_of accented ''ORGANIZER'' = Some (l 2)" unfolding l_def by code_simp
    show "7 < length (trim (cl_value (l 2)))" unfolding l_def by code_simp
    show "continues (trim (cl_value (l 2)) ! 7)" unfolding l_def by code_simp
  qed
qed

text \<open>
  The alarm of an event is read as the event: nothing tells the lines of a nested
  component from the event's own, so an event without a title takes the one of its alarm,
  the address an alarm is mailed to is published as a participant, and an event without a
  description is answered to have one, as long as its reminder.
\<close>

definition reminded :: string where
  "reminded =
     crlf [''BEGIN:VEVENT'', ''UID:u'', ''DTSTART;VALUE=DATE:20260921'', ''BEGIN:VALARM'', ''SUMMARY:Mail me'',
           ''DESCRIPTION:Reminder'', ''ATTENDEE:mailto:me@x'', ''END:VALARM'', ''END:VEVENT'']"

theorem alarm_is_read_as_the_event:
  "map_sum (\<lambda>e. ()) (\<lambda>v. (v_title v, map pa_identity (v_participants v))) (parse_vevent two_dates two_zones reminded)
     = Inr (''Mail me'', [''mailto:me@x''])
   \<and> map_option description_characters (facts_of reminded) = Some (Some 8)"
  by code_simp

end
