(* ===== verification/Calendar_Publication.thy ===== *)
theory Calendar_Publication
  imports Ical Switches Ordered_Maps
begin

text \<open>
  What the collector publishes of a calendar: the owner's addresses (\<^verbatim>\<open>collector/src/owner.rs\<close>),
  the reduction of an event by the consent of the people in it, the cursor and the diff
  against a listing (\<^verbatim>\<open>collector/src/caldav.rs\<close>), one poll of the calendars
  (\<^verbatim>\<open>collector/src/calendars.rs\<close>) and the round that publishes and commits it
  (\<^verbatim>\<open>collector/src/main.rs\<close>). The side service, the disk and the bus are parameters.
\<close>

section \<open>The owner's addresses\<close>

record mail_owner =
  primary :: string
  aliases :: "string list"

definition normalise :: "string \<Rightarrow> string" where
  "normalise email = map ascii_lower (trim email)"

definition mail_owner_new :: "string \<Rightarrow> string list \<Rightarrow> mail_owner" where
  "mail_owner_new primary_given given =
     (let p = normalise primary_given in
      \<lparr>primary = p,
       aliases = fold (\<lambda>a kept. let alias = normalise a in
                   if alias = [] \<or> alias = p \<or> alias \<in> set kept then kept else kept @ [alias]) given []\<rparr>)"

definition holds :: "mail_owner \<Rightarrow> string \<Rightarrow> bool" where
  "holds ow email =
     (let e = normalise email in e \<noteq> [] \<and> (e = primary ow \<or> e \<in> set (aliases ow)))"

definition addresses :: "mail_owner \<Rightarrow> string list" where
  "addresses ow = primary ow # aliases ow"

definition owner_mailto :: "string \<Rightarrow> string" where
  "owner_mailto given =
     (let address = trim given;
          bare = (if 7 \<le> length address \<and> \<not> (7 < length address \<and> continues (address ! 7))
                     \<and> eq_ignore_ascii_case (take 7 address) ''mailto:''
                  then drop 7 address else address)
      in ''mailto:'' @ map ascii_lower (trim bare))"

definition holds_mailto :: "mail_owner \<Rightarrow> string \<Rightarrow> bool" where
  "holds_mailto ow subject_uri \<longleftrightarrow> owner_mailto subject_uri \<in> set (map owner_mailto (addresses ow))"

section \<open>The reduction\<close>

datatype location_decision = LocationCarried | LocationWithheld

definition person_withheld :: "mail_owner \<Rightarrow> (string \<Rightarrow> consent) \<Rightarrow> string \<Rightarrow> bool" where
  "person_withheld ow decide i \<longleftrightarrow> \<not> holds_mailto ow i \<and> reduces_publication (decide i)"

definition participant_json :: "participant \<Rightarrow> json" where
  "participant_json p =
     JObj [(''identity'', JStr (pa_identity p)), (''name'', nullable (pa_name p)),
           (''role'', JStr (pa_role p)), (''partstat'', JStr (pa_partstat p))]"

definition person_json :: "person \<Rightarrow> json" where
  "person_json p = JObj [(''identity'', JStr (p_identity p)), (''name'', nullable (p_name p))]"

definition reduce :: "vevent \<Rightarrow> mail_owner \<Rightarrow> location_decision \<Rightarrow> (string \<Rightarrow> consent) \<Rightarrow> json" where
  "reduce e ow location decide =
     (let participants = filter (\<lambda>p. \<not> person_withheld ow decide (pa_identity p)) (v_participants e);
          organizer_withheld = (case v_organizer e of None \<Rightarrow> False | Some p \<Rightarrow> person_withheld ow decide (p_identity p));
          withheld = length (filter (\<lambda>p. person_withheld ow decide (pa_identity p)) (v_participants e))
                     + (if organizer_withheld then 1 else 0);
          (organizer, title) =
            (case v_organizer e of
               Some p \<Rightarrow> if organizer_withheld then (JNull, []) else (person_json p, v_title e)
             | None \<Rightarrow> (JNull, v_title e));
          place_json = (if location = LocationCarried \<and> \<not> organizer_withheld
                        then nullable (v_location e) else JNull)
      in JObj [(''uid'', JStr (v_uid e)), (''title'', JStr title), (''location'', place_json),
               (''start'', JStr (v_start e)), (''end'', JStr (v_end e)), (''all_day'', JBool (v_all_day e)),
               (''timezone'', nullable (v_timezone e)), (''status'', JStr (v_status e)),
               (''recurrence'', nullable (v_recurrence e)), (''organizer'', organizer),
               (''participants'', JArr (map participant_json participants)),
               (''participants_withheld'', JNum (int withheld))])"

definition field_or_null :: "json \<Rightarrow> string \<Rightarrow> json" where
  "field_or_null event field = (case jget event field of None \<Rightarrow> JNull | Some v \<Rightarrow> v)"

definition event_fields :: "string list" where
  "event_fields =
     [''title'', ''location'', ''start'', ''end'', ''all_day'', ''timezone'', ''status'', ''recurrence'',
      ''organizer'', ''participants'']"

definition changed_fields :: "json \<Rightarrow> json \<Rightarrow> string list" where
  "changed_fields before after =
     filter (\<lambda>f. field_or_null before f \<noteq> field_or_null after f) event_fields"

section \<open>The cursor\<close>

record known_event =
  kn_etag :: string
  kn_published :: json

record cursor =
  cu_ctag :: "string option"
  cu_known :: "(string \<times> known_event) list"

definition cursor_default :: cursor where
  "cursor_default = \<lparr>cu_ctag = None, cu_known = []\<rparr>"

record listing =
  li_ctag :: "string option"
  li_etags :: "(string \<times> string) list"

record changes =
  created :: "string list"
  changed :: "string list"
  removed :: "string list"

definition to_read :: "changes \<Rightarrow> string list" where
  "to_read ch = created ch @ changed ch"

definition diff :: "cursor \<Rightarrow> listing \<Rightarrow> changes" where
  "diff cu li =
     \<lparr>created = map fst (filter (\<lambda>(href, etag). map_of (cu_known cu) href = None) (li_etags li)),
      changed = map fst (filter (\<lambda>(href, etag). case map_of (cu_known cu) href of
                                    None \<Rightarrow> False | Some k \<Rightarrow> kn_etag k \<noteq> etag) (li_etags li)),
      removed = filter (\<lambda>href. map_of (li_etags li) href = None) (map fst (cu_known cu))\<rparr>"

record resource =
  re_href :: string
  re_etag :: string
  re_ics :: string

section \<open>The envelopes\<close>

record envelopes =
  en_connection :: string
  en_owner :: string
  en_source :: string

definition created_type :: string where
  "created_type = ''fr.linagora.twalk.calendar.event.created.v1''"

definition changed_type :: string where
  "changed_type = ''fr.linagora.twalk.calendar.event.changed.v1''"

definition removed_type :: string where
  "removed_type = ''fr.linagora.twalk.calendar.event.removed.v1''"

definition sha256_hex :: "(string \<Rightarrow> 8 word list) \<Rightarrow> string \<Rightarrow> string" where
  "sha256_hex digest s = concat (map hex_byte (digest s))"

definition calendar_envelope :: "envelopes \<Rightarrow> string \<Rightarrow> string \<Rightarrow> string \<Rightarrow> string \<Rightarrow> json \<Rightarrow> json" where
  "calendar_envelope en event_type schema i time data =
     JObj [(''specversion'', JStr ''1.0''), (''id'', JStr i), (''source'', JStr (en_source en)),
           (''type'', JStr event_type), (''time'', JStr time), (''subject'', JStr (en_owner en)),
           (''datacontenttype'', JStr ''application/json''),
           (''dataschema'', JStr (''https://schemas.twalk.dev/cloudevents/v1/'' @ schema @ ''.schema.json'')),
           (''connection'', JStr (en_connection en)), (''data'', data)]"

definition created_envelope ::
  "(string \<Rightarrow> 8 word list) \<Rightarrow> envelopes \<Rightarrow> string \<Rightarrow> string \<Rightarrow> json \<Rightarrow> string \<Rightarrow> json" where
  "created_envelope digest en href etag published time =
     calendar_envelope en created_type ''calendar.event.created''
       (sha256_hex digest (''caldav:'' @ href @ '':'' @ etag)) time published"

definition changed_envelope ::
  "(string \<Rightarrow> 8 word list) \<Rightarrow> envelopes \<Rightarrow> string \<Rightarrow> string \<Rightarrow> json \<Rightarrow> string list \<Rightarrow> string \<Rightarrow> json" where
  "changed_envelope digest en href etag published names time =
     calendar_envelope en changed_type ''calendar.event.changed''
       (sha256_hex digest (''caldav:'' @ href @ '':'' @ etag)) time
       (JObj [(''event'', published), (''changed_fields'', JArr (map JStr names))])"

definition removed_envelope ::
  "(string \<Rightarrow> 8 word list) \<Rightarrow> envelopes \<Rightarrow> string \<Rightarrow> string \<Rightarrow> string \<Rightarrow> string \<Rightarrow> string \<Rightarrow> json" where
  "removed_envelope digest en href ctag uid title time =
     calendar_envelope en removed_type ''calendar.event.removed''
       (sha256_hex digest (''caldav:'' @ href @ '':removed:'' @ ctag)) time
       (JObj [(''uid'', JStr uid), (''title'', JStr title)])"

section \<open>One calendar of a poll\<close>

text \<open>What the process holds: its configuration, the consent cache and the libraries.\<close>

record calendars =
  ca_connection :: string
  ca_owner :: mail_owner
  ca_mail_connection :: "string option"
  ca_consent :: consent_cache
  ca_host :: string
  ca_digest :: "string \<Rightarrow> 8 word list"
  ca_clock :: naive_clock
  ca_iana :: "string \<Rightarrow> zone option"

definition decide_person :: "calendars \<Rightarrow> string \<Rightarrow> consent" where
  "decide_person ca i =
     (case ca_mail_connection ca of
        Some mail \<Rightarrow> cache_state (ca_consent ca) i mail
      | None \<Rightarrow> Pending)"

definition envelopes_new :: "calendars \<Rightarrow> string \<Rightarrow> envelopes" where
  "envelopes_new ca collection =
     \<lparr>en_connection = ca_connection ca, en_owner = owner_mailto (primary (ca_owner ca)),
      en_source = ''caldav://'' @ ca_host ca @ collection\<rparr>"

datatype refusal = RefusedZone unplaceable | RefusedUnreadable

definition refusal_of :: "vevent_error \<Rightarrow> refusal" where
  "refusal_of e = (case e of ZoneRefused u \<Rightarrow> RefusedZone u | _ \<Rightarrow> RefusedUnreadable)"

fun refusal_reason :: "refusal \<Rightarrow> string" where
  "refusal_reason (RefusedZone u) = unplaceable_reason u"
| "refusal_reason RefusedUnreadable = ''unreadable''"

definition publishable :: "calendars \<Rightarrow> bool \<Rightarrow> resource \<Rightarrow> vevent_error + json" where
  "publishable ca may_travel r =
     and_then (parse_vevent (ca_clock ca) (ca_iana ca) (re_ics r)) (\<lambda>e.
       Inr (reduce e (ca_owner ca) (if may_travel then LocationCarried else LocationWithheld) (decide_person ca)))"

text \<open>
  The envelopes so far, the cursor that follows and the refusals; \<open>None\<close> when the process
  panicked over a resource.
\<close>

type_synonym reading = "json list \<times> (string \<times> known_event) list \<times> refusal list"

definition before_of :: "cursor \<Rightarrow> string \<Rightarrow> json option" where
  "before_of cu href =
     Option.bind (map_of (cu_known cu) href) (\<lambda>k. if kn_published k = JNull then None else Some (kn_published k))"

definition event_envelopes ::
  "calendars \<Rightarrow> envelopes \<Rightarrow> resource \<Rightarrow> json option \<Rightarrow> json \<Rightarrow> string \<Rightarrow> json list" where
  "event_envelopes ca en r before published now =
     (case before of
        Some was \<Rightarrow>
          (let names = changed_fields was published in
           if names = [] then []
           else [changed_envelope (ca_digest ca) en (re_href r) (re_etag r) published names now])
      | None \<Rightarrow> [created_envelope (ca_digest ca) en (re_href r) (re_etag r) published now])"

definition read_one ::
  "calendars \<Rightarrow> bool \<Rightarrow> envelopes \<Rightarrow> cursor \<Rightarrow> (string \<Rightarrow> resource option) \<Rightarrow> string \<Rightarrow> string
    \<Rightarrow> reading option \<Rightarrow> reading option" where
  "read_one ca may_travel en cu by_href now href so_far =
     (case so_far of
        None \<Rightarrow> None
      | Some (out, nxt, refused) \<Rightarrow>
          (case by_href href of
             None \<Rightarrow> so_far
           | Some r \<Rightarrow>
               (case publishable ca may_travel r of
                  Inr published \<Rightarrow>
                    Some (out @ event_envelopes ca en (r\<lparr>re_href := href\<rparr>) (before_of cu href) published now,
                          btree_insert href \<lparr>kn_etag = re_etag r, kn_published = published\<rparr> nxt, refused)
                | Inl e \<Rightarrow>
                    if e = VeventPanics then None
                    else Some (out, btree_insert href \<lparr>kn_etag = re_etag r, kn_published = JNull\<rparr> nxt,
                               refused @ [refusal_of e]))))"

definition removal_envelopes :: "calendars \<Rightarrow> envelopes \<Rightarrow> cursor \<Rightarrow> listing \<Rightarrow> string \<Rightarrow> string \<Rightarrow> json list" where
  "removal_envelopes ca en cu li now href =
     (case map_of (cu_known cu) href of
        None \<Rightarrow> []
      | Some k \<Rightarrow>
          (case (Option.bind (jget (kn_published k) ''uid'') jstr, Option.bind (jget (kn_published k) ''title'') jstr) of
             (Some uid, Some title) \<Rightarrow>
               [removed_envelope (ca_digest ca) en href (case li_ctag li of None \<Rightarrow> [] | Some c \<Rightarrow> c) uid title now]
           | _ \<Rightarrow> []))"

definition remove_one ::
  "calendars \<Rightarrow> envelopes \<Rightarrow> cursor \<Rightarrow> listing \<Rightarrow> string \<Rightarrow> string \<Rightarrow> reading \<Rightarrow> reading" where
  "remove_one ca en cu li now href = (\<lambda>(out, nxt, refused).
     (out @ removal_envelopes ca en cu li now href, btree_remove href nxt, refused))"

definition reconcile_calendar ::
  "calendars \<Rightarrow> bool \<Rightarrow> string \<Rightarrow> cursor \<Rightarrow> listing \<Rightarrow> changes \<Rightarrow> resource list \<Rightarrow> string
    \<Rightarrow> (json list \<times> cursor \<times> refusal list) option" where
  "reconcile_calendar ca may_travel collection cu li ch resources now =
     (let en = envelopes_new ca collection;
          by_href = map_of (rev (map (\<lambda>r. (re_href r, r)) resources)) in
      case fold (read_one ca may_travel en cu by_href now) (to_read ch) (Some ([], cu_known cu, [])) of
        None \<Rightarrow> None
      | Some reading \<Rightarrow>
          (case fold (remove_one ca en cu li now) (removed ch) reading of
             (out, nxt, refused) \<Rightarrow> Some (out, \<lparr>cu_ctag = li_ctag li, cu_known = nxt\<rparr>, refused)))"

section \<open>One poll\<close>

record calendar =
  cal_id :: string
  cal_ctag :: "string option"

text \<open>
  The side service: the calendars, the listing of a collection in the window, the resources
  of a list of hrefs; \<open>None\<close> when it refuses or does not answer.
\<close>

record side =
  side_calendars :: "calendar list option"
  side_listing :: "string \<Rightarrow> listing option"
  side_read :: "string \<Rightarrow> string list \<Rightarrow> resource list option"

definition collection_path :: "string \<Rightarrow> string \<Rightarrow> string" where
  "collection_path owner_id calendar_id = ''/dav/calendars/'' @ owner_id @ ''/'' @ calendar_id @ ''/''"

record poll =
  po_envelopes :: "json list"
  po_cursors :: "(string \<times> cursor) list"
  po_refused :: "refusal list"

datatype poll_error = SideFailed | PollPanics

definition poll_listed ::
  "calendars \<Rightarrow> bool \<Rightarrow> side \<Rightarrow> string \<Rightarrow> string \<Rightarrow> string \<Rightarrow> cursor \<Rightarrow> listing \<Rightarrow> poll \<Rightarrow> poll_error + poll" where
  "poll_listed ca may_travel sd collection now i cu li p =
     (if li_ctag li \<noteq> None \<and> li_ctag li = cu_ctag cu then Inr p
      else
        let ch = diff cu li in
        and_then (ok_or SideFailed (side_read sd collection (to_read ch))) (\<lambda>resources.
        and_then (ok_or PollPanics (reconcile_calendar ca may_travel collection cu li ch resources now)) (\<lambda>(out, nxt, refused).
        let first_poll = cu_ctag cu = None \<and> cu_known cu = [] in
        Inr \<lparr>po_envelopes = po_envelopes p @ (if first_poll then [] else out),
             po_cursors = po_cursors p @ [(i, nxt)],
             po_refused = po_refused p @ refused\<rparr>)))"

text \<open>\<open>disk\<close> gives the cursor file of a calendar: \<open>None\<close> when it cannot be read.\<close>

definition poll_one ::
  "calendars \<Rightarrow> bool \<Rightarrow> side \<Rightarrow> (string \<Rightarrow> cursor option) \<Rightarrow> string \<Rightarrow> string \<Rightarrow> calendar \<Rightarrow> poll
    \<Rightarrow> poll_error + poll" where
  "poll_one ca may_travel sd disk owner_id now c p =
     (case disk (cal_id c) of
        None \<Rightarrow> Inr p
      | Some cu \<Rightarrow>
          if cal_ctag c \<noteq> None \<and> cal_ctag c = cu_ctag cu then Inr p
          else
            let collection = collection_path owner_id (cal_id c) in
            and_then (ok_or SideFailed (side_listing sd collection)) (\<lambda>answered.
              poll_listed ca may_travel sd collection now (cal_id c) cu
                (answered\<lparr>li_ctag := (case cal_ctag c of Some t \<Rightarrow> Some t | None \<Rightarrow> li_ctag answered)\<rparr>) p))"

fun poll_calendars ::
  "calendars \<Rightarrow> bool \<Rightarrow> side \<Rightarrow> (string \<Rightarrow> cursor option) \<Rightarrow> string \<Rightarrow> string \<Rightarrow> calendar list \<Rightarrow> poll
    \<Rightarrow> poll_error + poll" where
  "poll_calendars ca may_travel sd disk owner_id now [] p = Inr p"
| "poll_calendars ca may_travel sd disk owner_id now (c # cs) p =
     and_then (poll_one ca may_travel sd disk owner_id now c p)
       (poll_calendars ca may_travel sd disk owner_id now cs)"

definition poll_all ::
  "calendars \<Rightarrow> bool \<Rightarrow> side \<Rightarrow> (string \<Rightarrow> cursor option) \<Rightarrow> string \<Rightarrow> string \<Rightarrow> poll_error + poll" where
  "poll_all ca may_travel sd disk owner_id now =
     and_then (ok_or SideFailed (side_calendars sd)) (\<lambda>cs.
       poll_calendars ca may_travel sd disk owner_id now cs
         \<lparr>po_envelopes = [], po_cursors = [], po_refused = []\<rparr>)"

section \<open>The round\<close>

definition commit :: "(string \<times> cursor) list \<Rightarrow> (string \<Rightarrow> cursor option) \<Rightarrow> string \<Rightarrow> cursor option" where
  "commit cursors disk = fold (\<lambda>(i, cu) d. d(i \<mapsto> cu)) cursors disk"

text \<open>
  A round: the poll, the publication of each envelope (\<open>taken\<close> tells whether the bus took
  it; the failure is logged), then the commit, which \<open>written\<close> tells the success of. The
  answer is what reached the bus and the disk after.
\<close>

definition calendar_round ::
  "calendars \<Rightarrow> bool \<Rightarrow> side \<Rightarrow> string \<Rightarrow> string \<Rightarrow> (json \<Rightarrow> bool) \<Rightarrow> nat \<Rightarrow> (string \<Rightarrow> cursor option)
    \<Rightarrow> json list \<times> (string \<Rightarrow> cursor option)" where
  "calendar_round ca may_travel sd owner_id now taken written disk =
     (case poll_all ca may_travel sd disk owner_id now of
        Inl e \<Rightarrow> ([], disk)
      | Inr p \<Rightarrow> (filter taken (po_envelopes p), commit (take written (po_cursors p)) disk))"

section \<open>Who is published\<close>

definition withheld_count :: "vevent \<Rightarrow> mail_owner \<Rightarrow> (string \<Rightarrow> consent) \<Rightarrow> nat" where
  "withheld_count e ow decide =
     length (filter (person_withheld ow decide)
       (map pa_identity (v_participants e) @ (case v_organizer e of None \<Rightarrow> [] | Some p \<Rightarrow> [p_identity p])))"

text \<open>The people a published event names: its organizer and its participants.\<close>

definition identity_in :: "json \<Rightarrow> string list" where
  "identity_in j = (case Option.bind (jget j ''identity'') jstr of None \<Rightarrow> [] | Some i \<Rightarrow> [i])"

definition identities_in :: "json \<Rightarrow> string list" where
  "identities_in event =
     identity_in (field_or_null event ''organizer'')
     @ (case jarr (field_or_null event ''participants'') of None \<Rightarrow> [] | Some ps \<Rightarrow> concat (map identity_in ps))"

definition published_event :: "json \<Rightarrow> json" where
  "published_event env =
     (case jget env ''data'' of
        None \<Rightarrow> JNull
      | Some data \<Rightarrow> (case jget data ''event'' of None \<Rightarrow> data | Some event \<Rightarrow> event))"

lemma identity_in_person [simp]: "identity_in (person_json p) = [p_identity p]"
  by (simp add: identity_in_def person_json_def)

lemma identity_in_participant [simp]: "identity_in (participant_json p) = [pa_identity p]"
  by (simp add: identity_in_def participant_json_def)

lemma identity_in_null [simp]: "identity_in JNull = []"
  by (simp add: identity_in_def)

lemma reduce_spec:
  "set (identities_in (reduce e ow location decide)) =
     {i \<in> set (map pa_identity (v_participants e)) \<union> set_option (map_option p_identity (v_organizer e)).
        holds_mailto ow i \<or> \<not> reduces_publication (decide i)}
   \<and> field_or_null (reduce e ow location decide) ''participants_withheld'' = JNum (int (withheld_count e ow decide))
   \<and> (\<forall>p \<in> set_option (v_organizer e). person_withheld ow decide (p_identity p) \<longrightarrow>
        field_or_null (reduce e ow location decide) ''title'' = JStr []
        \<and> field_or_null (reduce e ow location decide) ''location'' = JNull)
   \<and> (location = LocationWithheld \<longrightarrow> field_or_null (reduce e ow location decide) ''location'' = JNull)"
proof -
  have fields: "field_or_null (reduce e ow location decide) ''participants''
      = JArr (map participant_json (filter (\<lambda>p. \<not> person_withheld ow decide (pa_identity p)) (v_participants e)))"
    "field_or_null (reduce e ow location decide) ''organizer''
      = (case v_organizer e of None \<Rightarrow> JNull
         | Some p \<Rightarrow> if person_withheld ow decide (p_identity p) then JNull else person_json p)"
    "field_or_null (reduce e ow location decide) ''title''
      = JStr (case v_organizer e of None \<Rightarrow> v_title e
         | Some p \<Rightarrow> if person_withheld ow decide (p_identity p) then [] else v_title e)"
    "field_or_null (reduce e ow location decide) ''location''
      = (if location = LocationCarried \<and> (case v_organizer e of None \<Rightarrow> True | Some p \<Rightarrow> \<not> person_withheld ow decide (p_identity p))
         then nullable (v_location e) else JNull)"
    "field_or_null (reduce e ow location decide) ''participants_withheld'' = JNum (int (withheld_count e ow decide))"
    by (auto simp: field_or_null_def reduce_def withheld_count_def filter_map comp_def Let_def split: option.split)
  have ids: "set (identities_in (reduce e ow location decide)) =
     {i \<in> set (map pa_identity (v_participants e)) \<union> set_option (map_option p_identity (v_organizer e)).
        holds_mailto ow i \<or> \<not> reduces_publication (decide i)}"
    unfolding identities_in_def fields
    by (cases "v_organizer e") (auto simp: person_withheld_def)
  show ?thesis
    unfolding ids fields by (auto split: option.split)
qed

text \<open>
  A published event names no withheld person and says how many it withheld: those it
  names are the people of the event whose consent is not revoked or who are the owner, in
  the event's order; a withheld organizer takes the title and the place along; and the
  place is never said while the switch is shut.
\<close>

theorem reduction_withholds_the_revoked:
  "set (identities_in (reduce e ow location decide)) =
     {i \<in> set (map pa_identity (v_participants e)) \<union> set_option (map_option p_identity (v_organizer e)).
        holds_mailto ow i \<or> \<not> reduces_publication (decide i)}
   \<and> field_or_null (reduce e ow location decide) ''participants_withheld'' = JNum (int (withheld_count e ow decide))
   \<and> (\<forall>p \<in> set_option (v_organizer e). person_withheld ow decide (p_identity p) \<longrightarrow>
        field_or_null (reduce e ow location decide) ''title'' = JStr []
        \<and> field_or_null (reduce e ow location decide) ''location'' = JNull)
   \<and> (location = LocationWithheld \<longrightarrow> field_or_null (reduce e ow location decide) ''location'' = JNull)"
  by (rule reduce_spec)

theorem reduction_withholds_the_revoked_witness:
  "field_or_null
     (reduce \<lparr>v_uid = ''u'', v_title = ''Their words'', v_location = Some ''Salle B'', v_start = [], v_end = [],
              v_all_day = False, v_timezone = None, v_status = ''confirmed'', v_recurrence = None,
              v_organizer = Some \<lparr>p_identity = ''mailto:them@x'', p_name = None\<rparr>, v_participants = []\<rparr>
        (mail_owner_new ''me@x'' []) LocationCarried (\<lambda>i. Revoked)) ''location'' = JNull"
    (is "field_or_null (reduce ?e ?ow ?l ?d) ''location'' = JNull")
proof -
  have "person_withheld ?ow ?d ''mailto:them@x''" by code_simp
  with reduction_withholds_the_revoked [of ?e ?ow ?l ?d] show ?thesis by simp
qed

text \<open>What an envelope of a poll may carry: a reduced event, or the name of a removed one.\<close>

definition carries_reduced :: "calendars \<Rightarrow> bool \<Rightarrow> json \<Rightarrow> bool" where
  "carries_reduced ca may_travel e \<longleftrightarrow>
     (\<exists>v. published_event e = reduce v (ca_owner ca)
            (if may_travel then LocationCarried else LocationWithheld) (decide_person ca))
     \<or> (\<exists>uid title. published_event e = JObj [(''uid'', JStr uid), (''title'', JStr title)])"

lemma published_event_envelopes [simp]:
  "published_event (created_envelope digest en href etag (reduce v ow l d) now) = reduce v ow l d"
  "published_event (changed_envelope digest en href etag j names now) = j"
  "published_event (removed_envelope digest en href ctag uid title now) = JObj [(''uid'', JStr uid), (''title'', JStr title)]"
  by (simp_all add: published_event_def created_envelope_def changed_envelope_def removed_envelope_def
      calendar_envelope_def reduce_def Let_def split: option.split prod.split)

lemma publishable_reduced:
  "publishable ca may_travel r = Inr j \<Longrightarrow>
     \<exists>v. j = reduce v (ca_owner ca) (if may_travel then LocationCarried else LocationWithheld) (decide_person ca)"
  by (auto simp: publishable_def and_then_Inr_iff)

lemma event_envelopes_carry:
  assumes "publishable ca may_travel r' = Inr published"
  shows "\<forall>e \<in> set (event_envelopes ca en r before published now). carries_reduced ca may_travel e"
proof -
  obtain v where "published = reduce v (ca_owner ca) (if may_travel then LocationCarried else LocationWithheld) (decide_person ca)"
    using publishable_reduced [OF assms] by blast
  then show ?thesis
    by (auto simp: event_envelopes_def carries_reduced_def Let_def split: option.split)
qed

lemma read_one_simps:
  "read_one ca may_travel en cu by_href now href None = None"
  "by_href href = None \<Longrightarrow> read_one ca may_travel en cu by_href now href (Some x) = Some x"
  "by_href href = Some r \<Longrightarrow> publishable ca may_travel r = Inl e \<Longrightarrow>
     read_one ca may_travel en cu by_href now href (Some (out, nxt, refused)) =
       (if e = VeventPanics then None
        else Some (out, btree_insert href \<lparr>kn_etag = re_etag r, kn_published = JNull\<rparr> nxt, refused @ [refusal_of e]))"
  "by_href href = Some r \<Longrightarrow> publishable ca may_travel r = Inr published \<Longrightarrow>
     read_one ca may_travel en cu by_href now href (Some (out, nxt, refused)) =
       Some (out @ event_envelopes ca en (r\<lparr>re_href := href\<rparr>) (before_of cu href) published now,
             btree_insert href \<lparr>kn_etag = re_etag r, kn_published = published\<rparr> nxt, refused)"
  by (simp_all add: read_one_def split: prod.split)

lemma read_all_None: "fold (read_one ca may_travel en cu by_href now) hrefs None = None"
  by (induction hrefs) (simp_all add: read_one_simps)

text \<open>One step of the reading, as its three outcomes.\<close>

lemma read_one_cases:
  assumes "fold (read_one ca may_travel en cu by_href now) (href # hrefs) (Some (out, nxt, refused)) = Some res"
  obtains (absent) "by_href href = None"
      "fold (read_one ca may_travel en cu by_href now) hrefs (Some (out, nxt, refused)) = Some res"
    | (refused) r e where "by_href href = Some r" "publishable ca may_travel r = Inl e"
      "fold (read_one ca may_travel en cu by_href now) hrefs
         (Some (out, btree_insert href \<lparr>kn_etag = re_etag r, kn_published = JNull\<rparr> nxt, refused @ [refusal_of e])) = Some res"
    | (read) r published where "by_href href = Some r" "publishable ca may_travel r = Inr published"
      "fold (read_one ca may_travel en cu by_href now) hrefs
         (Some (out @ event_envelopes ca en (r\<lparr>re_href := href\<rparr>) (before_of cu href) published now,
                btree_insert href \<lparr>kn_etag = re_etag r, kn_published = published\<rparr> nxt, refused)) = Some res"
proof (cases "by_href href")
  case None
  with assms show ?thesis by (intro absent) (simp_all only: fold_simps read_one_simps)
next
  case (Some r)
  show ?thesis
  proof (cases "publishable ca may_travel r")
    case (Inl e)
    have "e \<noteq> VeventPanics"
      using assms unfolding fold_simps read_one_simps(3) [of by_href, OF Some Inl] by (auto simp: read_all_None)
    with assms Some Inl show ?thesis
      by (intro refused) (simp_all only: fold_simps read_one_simps(3) [of by_href, OF Some Inl] if_False)
  next
    case (Inr published)
    with assms Some show ?thesis
      by (intro read) (simp_all only: fold_simps read_one_simps(4) [of by_href, OF Some Inr])
  qed
qed

lemma read_all_carry:
  assumes "fold (read_one ca may_travel en cu by_href now) hrefs (Some (out, nxt, refused)) = Some (out', nxt', refused')"
    and "\<forall>e \<in> set out. carries_reduced ca may_travel e"
  shows "\<forall>e \<in> set out'. carries_reduced ca may_travel e"
  using assms
proof (induction hrefs arbitrary: out nxt refused)
  case (Cons href hrefs)
  from Cons.prems(1) show ?case
  proof (cases rule: read_one_cases)
    case absent
    then show ?thesis using Cons.IH Cons.prems(2) by blast
  next
    case (refused r e)
    then show ?thesis using Cons.IH Cons.prems(2) by blast
  next
    case (read r published)
    have "\<forall>e \<in> set (out @ event_envelopes ca en (r\<lparr>re_href := href\<rparr>) (before_of cu href) published now).
            carries_reduced ca may_travel e"
      using event_envelopes_carry [OF read(2)] Cons.prems(2) by auto
    with read(3) show ?thesis by (rule Cons.IH)
  qed
qed simp

lemma removal_envelopes_carry:
  "e \<in> set (removal_envelopes ca en cu li now href) \<Longrightarrow> carries_reduced ca may_travel e"
  by (auto simp: removal_envelopes_def carries_reduced_def split: option.splits)

lemma remove_all:
  "fold (remove_one ca en cu li now) hrefs (out, nxt, refused) =
     (out @ concat (map (removal_envelopes ca en cu li now) hrefs),
      filter (\<lambda>e. fst e \<notin> set hrefs) nxt, refused)"
  by (induction hrefs arbitrary: out nxt) (auto simp: remove_one_def btree_remove_def intro!: filter_cong)

lemma reconcile_split:
  assumes "reconcile_calendar ca may_travel collection cu li ch resources now = Some (out, nxt, refused)"
  obtains out1 nxt1 where
    "fold (read_one ca may_travel (envelopes_new ca collection) cu (map_of (rev (map (\<lambda>r. (re_href r, r)) resources))) now)
       (to_read ch) (Some ([], cu_known cu, [])) = Some (out1, nxt1, refused)"
    and "out = out1 @ concat (map (removal_envelopes ca (envelopes_new ca collection) cu li now) (removed ch))"
    and "nxt = \<lparr>cu_ctag = li_ctag li, cu_known = filter (\<lambda>e. fst e \<notin> set (removed ch)) nxt1\<rparr>"
  using assms unfolding reconcile_calendar_def Let_def
  by (auto simp: remove_all split: option.splits)

lemma reconcile_carries:
  assumes "reconcile_calendar ca may_travel collection cu li ch resources now = Some (out, nxt, refused)" and "e \<in> set out"
  shows "carries_reduced ca may_travel e"
proof -
  from assms(1) obtain out1 nxt1 where one:
      "fold (read_one ca may_travel (envelopes_new ca collection) cu (map_of (rev (map (\<lambda>r. (re_href r, r)) resources))) now)
         (to_read ch) (Some ([], cu_known cu, [])) = Some (out1, nxt1, refused)"
    and out: "out = out1 @ concat (map (removal_envelopes ca (envelopes_new ca collection) cu li now) (removed ch))"
    by (rule reconcile_split)
  show ?thesis using read_all_carry [OF one] removal_envelopes_carry assms(2) by (auto simp: out)
qed

text \<open>The calendars whose cursor already holds what the side service says of them.\<close>

definition up_to_date :: "(string \<Rightarrow> cursor option) \<Rightarrow> calendar \<Rightarrow> bool" where
  "up_to_date disk c \<longleftrightarrow>
     (case disk (cal_id c) of None \<Rightarrow> True | Some cu \<Rightarrow> cal_ctag c \<noteq> None \<and> cal_ctag c = cu_ctag cu)"

lemma poll_one_up_to_date:
  assumes "up_to_date disk c"
  shows "poll_one ca may_travel sd disk owner_id now c p = Inr p"
proof (cases "disk (cal_id c)")
  case None
  then show ?thesis by (simp add: poll_one_def)
next
  case (Some cu)
  then have same: "cal_ctag c \<noteq> None \<and> cal_ctag c = cu_ctag cu"
    using assms unfolding up_to_date_def Some option.case by blast
  show ?thesis unfolding poll_one_def Some option.case if_P [OF same] ..
qed

lemma poll_one_cases:
  assumes "poll_one ca may_travel sd disk owner_id now c p = Inr q"
  obtains (still) "q = p" "cal_ctag c = None \<or> up_to_date disk c"
    | (moved) cu li resources out nxt refused where
      "disk (cal_id c) = Some cu" "cal_ctag c = None \<or> li_ctag li = cal_ctag c"
      "reconcile_calendar ca may_travel (collection_path owner_id (cal_id c)) cu li (diff cu li) resources now = Some (out, nxt, refused)"
      "q = \<lparr>po_envelopes = po_envelopes p @ (if cu_ctag cu = None \<and> cu_known cu = [] then [] else out),
            po_cursors = po_cursors p @ [(cal_id c, nxt)], po_refused = po_refused p @ refused\<rparr>"
proof (cases "up_to_date disk c")
  case True
  then show ?thesis using assms by (intro still) (simp_all add: poll_one_up_to_date)
next
  case False
  then obtain cu where cu: "disk (cal_id c) = Some cu" and not_held: "\<not> (cal_ctag c \<noteq> None \<and> cal_ctag c = cu_ctag cu)"
    by (auto simp: up_to_date_def split: option.splits)
  from assms [unfolded poll_one_def cu option.case if_not_P [OF not_held] Let_def and_then_Inr_iff]
  obtain answered where "poll_listed ca may_travel sd (collection_path owner_id (cal_id c)) now (cal_id c) cu
      (answered\<lparr>li_ctag := (case cal_ctag c of Some t \<Rightarrow> Some t | None \<Rightarrow> li_ctag answered)\<rparr>) p = Inr q"
    by blast
  then obtain li where listed: "poll_listed ca may_travel sd (collection_path owner_id (cal_id c)) now (cal_id c) cu li p = Inr q"
    and ctag: "cal_ctag c = None \<or> li_ctag li = cal_ctag c"
    by (rule that) (cases "cal_ctag c"; simp)
  show ?thesis
  proof (cases "li_ctag li \<noteq> None \<and> li_ctag li = cu_ctag cu")
    case True
    from listed [unfolded poll_listed_def if_P [OF True]] have "q = p" by simp
    moreover have "cal_ctag c = None" using True ctag not_held by auto
    ultimately show ?thesis by (intro still) simp_all
  next
    case False
    from listed [unfolded poll_listed_def if_not_P [OF False] Let_def and_then_Inr_iff ok_or_Inr_iff]
    obtain resources out nxt refused where
        "reconcile_calendar ca may_travel (collection_path owner_id (cal_id c)) cu li (diff cu li) resources now = Some (out, nxt, refused)"
        "q = \<lparr>po_envelopes = po_envelopes p @ (if cu_ctag cu = None \<and> cu_known cu = [] then [] else out),
              po_cursors = po_cursors p @ [(cal_id c, nxt)], po_refused = po_refused p @ refused\<rparr>"
      by auto
    then show ?thesis using moved [OF cu ctag] by blast
  qed
qed

lemma poll_one_carries:
  assumes "poll_one ca may_travel sd disk owner_id now c p = Inr q"
    and "\<forall>e \<in> set (po_envelopes p). carries_reduced ca may_travel e"
  shows "\<forall>e \<in> set (po_envelopes q). carries_reduced ca may_travel e"
  using assms(1)
proof (cases rule: poll_one_cases)
  case still
  then show ?thesis using assms(2) by simp
next
  case (moved cu li resources out nxt refused)
  then show ?thesis using assms(2) reconcile_carries [OF moved(3)] by auto
qed

lemma poll_calendars_carry:
  "poll_calendars ca may_travel sd disk owner_id now cs p = Inr q \<Longrightarrow>
     \<forall>e \<in> set (po_envelopes p). carries_reduced ca may_travel e \<Longrightarrow>
     \<forall>e \<in> set (po_envelopes q). carries_reduced ca may_travel e"
proof (induction cs arbitrary: p)
  case (Cons c cs)
  then obtain p1 where "poll_one ca may_travel sd disk owner_id now c p = Inr p1"
      "poll_calendars ca may_travel sd disk owner_id now cs p1 = Inr q"
    by (auto simp: and_then_Inr_iff)
  with Cons show ?case using poll_one_carries by blast
qed simp

text \<open>
  C28. Nothing a poll hands to the bus names a person whose decision on the mail connection
  is revoked, the owner apart, and nothing it hands over says where a meeting is while the
  switch is shut.
\<close>

theorem revoked_people_are_not_published:
  assumes "poll_all ca may_travel sd disk owner_id now = Inr p" and "e \<in> set (po_envelopes p)"
    and "ca_mail_connection ca = Some mail"
  shows "(\<forall>i \<in> set (identities_in (published_event e)).
           holds_mailto (ca_owner ca) i \<or> cache_state (ca_consent ca) i mail \<noteq> Revoked)
    \<and> (\<not> may_travel \<longrightarrow> field_or_null (published_event e) ''location'' = JNull)"
proof -
  have "\<forall>e \<in> set (po_envelopes p). carries_reduced ca may_travel e"
    using assms(1) poll_calendars_carry by (fastforce simp: poll_all_def and_then_Inr_iff)
  then consider v where "published_event e = reduce v (ca_owner ca)
      (if may_travel then LocationCarried else LocationWithheld) (decide_person ca)"
    | uid title where "published_event e = JObj [(''uid'', JStr uid), (''title'', JStr title)]"
    using assms(2) by (auto simp: carries_reduced_def)
  then show ?thesis
  proof cases
    case 1
    show ?thesis
      unfolding 1
      using reduce_spec [of v "ca_owner ca" "if may_travel then LocationCarried else LocationWithheld" "decide_person ca"]
      by (auto simp: decide_person_def assms(3))
  next
    case 2
    show ?thesis unfolding 2 by (simp add: identities_in_def field_or_null_def identity_in_def)
  qed
qed

text \<open>An owner, a contact whose mail is revoked, and an all-day meeting of both and a third.\<close>

definition my_calendars :: calendars where
  "my_calendars =
     \<lparr>ca_connection = ''cal'', ca_owner = mail_owner_new ''me@x'' [], ca_mail_connection = Some ''mail'',
      ca_consent =
        \<lparr>cache_states = \<lparr>contacts = Map.empty((''mailto:them@x'', ''mail'') \<mapsto> Revoked), defaults = Map.empty\<rparr>,
         cache_owner = None, cache_bots = bots_new []\<rparr>,
      ca_host = ''h'', ca_digest = (\<lambda>s. []), ca_clock = two_dates, ca_iana = two_zones\<rparr>"

definition their_meeting :: resource where
  "their_meeting =
     \<lparr>re_href = ''/e'', re_etag = ''1'',
      re_ics = crlf [''BEGIN:VEVENT'', ''UID:u'', ''SUMMARY:Their words'', ''DTSTART;VALUE=DATE:20260921'',
                     ''ORGANIZER:mailto:them@x'', ''ATTENDEE:mailto:Me@x'', ''ATTENDEE:mailto:bob@x'', ''END:VEVENT'']\<rparr>"

definition my_side :: side where
  "my_side =
     \<lparr>side_calendars = Some [\<lparr>cal_id = ''c'', cal_ctag = Some ''2''\<rparr>],
      side_listing = (\<lambda>path. Some \<lparr>li_ctag = None, li_etags = [(''/e'', ''1'')]\<rparr>),
      side_read = (\<lambda>path hrefs. Some [their_meeting])\<rparr>"

definition my_disk :: "string \<Rightarrow> cursor option" where
  "my_disk i = Some \<lparr>cu_ctag = Some ''1'', cu_known = []\<rparr>"

lemma my_poll:
  "case poll_all my_calendars False my_side my_disk ''me'' ''now'' of
     Inr p \<Rightarrow> length (po_cursors p) = 1 \<and> map (identities_in \<circ> published_event) (po_envelopes p) = [[''mailto:me@x'', ''mailto:bob@x'']]
   | Inl e \<Rightarrow> False"
  by code_simp

theorem revoked_people_are_not_published_witness:
  "\<exists>p e. poll_all my_calendars False my_side my_disk ''me'' ''now'' = Inr p \<and> e \<in> set (po_envelopes p)
     \<and> (\<forall>i \<in> set (identities_in (published_event e)).
          holds_mailto (ca_owner my_calendars) i \<or> cache_state (ca_consent my_calendars) i ''mail'' \<noteq> Revoked)
     \<and> field_or_null (published_event e) ''location'' = JNull"
proof -
  obtain p where p: "poll_all my_calendars False my_side my_disk ''me'' ''now'' = Inr p"
      and one: "map (identities_in \<circ> published_event) (po_envelopes p) = [[''mailto:me@x'', ''mailto:bob@x'']]"
    using my_poll by (auto split: sum.splits)
  then obtain e where e: "e \<in> set (po_envelopes p)" by (cases "po_envelopes p") auto
  have mail: "ca_mail_connection my_calendars = Some ''mail''" by (simp add: my_calendars_def)
  from revoked_people_are_not_published [OF p e mail] p e show ?thesis by blast
qed

section \<open>The cursor\<close>

lemma read_all_etags:
  assumes "fold (read_one ca may_travel en cu by_href now) hrefs (Some (out, nxt, refused)) = Some (out', nxt', refused')"
  shows "map_option kn_etag (map_of nxt' h) =
     (if h \<in> set hrefs \<and> by_href h \<noteq> None then map_option re_etag (by_href h) else map_option kn_etag (map_of nxt h))"
  using assms
proof (induction hrefs arbitrary: out nxt refused)
  case (Cons href hrefs)
  from Cons.prems(1) show ?case
  proof (cases rule: read_one_cases)
    case absent
    with Cons.IH [OF absent(2)] show ?thesis by auto
  next
    case (refused r e)
    with Cons.IH [OF refused(3)] show ?thesis by auto
  next
    case (read r published)
    with Cons.IH [OF read(3)] show ?thesis by auto
  qed
qed simp

lemma map_of_filter_keys: "map_of (filter (\<lambda>e. fst e \<notin> R) m) h = (if h \<in> R then None else map_of m h)"
  by (induction m) auto

text \<open>
  C31. After a poll the cursor follows the listing: a resource the side service answered is kept
  with the ETag it answered, one that needed no reading with the ETag listed, and one that was gone
  between the listing and its reading as the cursor had it, so that it is asked for again while it
  is listed. When every resource was answered as it was listed, the entries the cursor keeps are
  those of the listing, and the next poll of the same listing finds nothing to say.
\<close>

theorem cursor_follows_the_listing:
  fixes resources :: "resource list"
  defines "answered \<equiv> map_of (rev (map (\<lambda>r. (re_href r, r)) resources))"
  assumes "reconcile_calendar ca may_travel collection cu li (diff cu li) resources now = Some (out, nxt, refused)"
    and "distinct (map fst (li_etags li))"
  shows "map_option kn_etag (map_of (cu_known nxt) h) =
      (if h \<notin> set (to_read (diff cu li)) then map_of (li_etags li) h
       else case answered h of Some r \<Rightarrow> Some (re_etag r) | None \<Rightarrow> map_option kn_etag (map_of (cu_known cu) h))
    \<and> cu_ctag nxt = li_ctag li
    \<and> (h \<in> set (to_read (diff cu li)) \<and> answered h = None \<longrightarrow> h \<in> set (to_read (diff nxt li)))
    \<and> ((\<forall>h \<in> set (to_read (diff cu li)). map_option re_etag (answered h) = map_of (li_etags li) h) \<longrightarrow>
         map_option kn_etag (map_of (cu_known nxt) h) = map_of (li_etags li) h
         \<and> diff nxt li = \<lparr>created = [], changed = [], removed = []\<rparr>)"
proof -
  from assms(2) obtain out1 nxt1 where one:
      "fold (read_one ca may_travel (envelopes_new ca collection) cu answered now) (to_read (diff cu li)) (Some ([], cu_known cu, []))
         = Some (out1, nxt1, refused)"
    and nxt: "nxt = \<lparr>cu_ctag = li_ctag li, cu_known = filter (\<lambda>e. fst e \<notin> set (removed (diff cu li))) nxt1\<rparr>"
    unfolding answered_def by (rule reconcile_split)
  have read: "map_of (li_etags li) h \<noteq> None" if "h \<in> set (to_read (diff cu li))" for h
  proof -
    have "h \<in> fst ` set (li_etags li)"
      using that by (auto simp: to_read_def diff_def intro: rev_image_eqI)
    then show ?thesis by (simp add: map_of_eq_None_iff)
  qed
  have etags: "map_option kn_etag (map_of (cu_known nxt) h) =
      (if h \<notin> set (to_read (diff cu li)) then map_of (li_etags li) h
       else case answered h of Some r \<Rightarrow> Some (re_etag r) | None \<Rightarrow> map_option kn_etag (map_of (cu_known cu) h))" for h
  proof (cases "map_of (li_etags li) h")
    case None
    then have "h \<notin> set (to_read (diff cu li))" using read by blast
    moreover have "h \<in> set (removed (diff cu li)) \<or> map_of (cu_known cu) h = None"
      using None by (auto simp: diff_def map_of_eq_None_iff)
    ultimately show ?thesis
      using read_all_etags [OF one, of h] None by (auto simp: nxt map_of_filter_keys)
  next
    case (Some t)
    then have "h \<notin> set (removed (diff cu li))" by (auto simp: diff_def)
    then have kept: "map_of (cu_known nxt) h = map_of nxt1 h" by (simp add: nxt map_of_filter_keys)
    show ?thesis
    proof (cases "h \<in> set (to_read (diff cu li))")
      case True
      then show ?thesis using read_all_etags [OF one, of h] by (simp add: kept split: option.split)
    next
      case False
      then have "\<exists>k. map_of (cu_known cu) h = Some k \<and> kn_etag k = t"
        using map_of_SomeD [OF Some]
        by (cases "map_of (cu_known cu) h") (force simp: to_read_def diff_def image_iff)+
      then show ?thesis using read_all_etags [OF one, of h] False Some by (auto simp: kept)
    qed
  qed
  have to_read_iff: "h \<in> set (to_read (diff c li)) \<longleftrightarrow>
      (\<exists>t. map_of (li_etags li) h = Some t \<and> map_option kn_etag (map_of (cu_known c) h) \<noteq> Some t)" for c h
  proof -
    have listed: "map_of (li_etags li) h = Some t \<longleftrightarrow> (h, t) \<in> set (li_etags li)" for t
      by (rule map_of_eq_Some_iff [OF assms(3)])
    show ?thesis
      unfolding listed
      by (cases "map_of (cu_known c) h") (auto simp: to_read_def diff_def intro: rev_image_eqI)
  qed
  have again: "h \<in> set (to_read (diff nxt li))" if "h \<in> set (to_read (diff cu li))" "answered h = None"
    using that etags [of h] unfolding to_read_iff [of h nxt] to_read_iff [of h cu] by auto
  have quiet: "diff nxt li = \<lparr>created = [], changed = [], removed = []\<rparr>"
    if all: "\<forall>h \<in> set (to_read (diff cu li)). map_option re_etag (answered h) = map_of (li_etags li) h"
  proof -
    have same: "map_option kn_etag (map_of (cu_known nxt) h) = map_of (li_etags li) h" for h
    proof (cases "h \<in> set (to_read (diff cu li))")
      case True
      then have "map_option re_etag (answered h) = map_of (li_etags li) h" using all by blast
      then show ?thesis using etags [of h] read [OF True] True by (cases "answered h") auto
    qed (use etags [of h] in simp)
    have "map_of (cu_known nxt) href \<noteq> None \<and> kn_etag (the (map_of (cu_known nxt) href)) = etag"
      if "(href, etag) \<in> set (li_etags li)" for href etag
      using same [of href] map_of_is_SomeI [OF assms(3) that] by auto
    moreover have "map_of (li_etags li) href \<noteq> None" if "href \<in> fst ` set (cu_known nxt)" for href
    proof -
      have "map_of (cu_known nxt) href \<noteq> None" using that by (simp add: map_of_eq_None_iff)
      then show ?thesis using same [of href] by (metis option.map_disc_iff)
    qed
    ultimately show ?thesis by (force simp: diff_def filter_empty_conv split: option.split)
  qed
  have same: "map_option kn_etag (map_of (cu_known nxt) h) = map_of (li_etags li) h"
    if all: "\<forall>h \<in> set (to_read (diff cu li)). map_option re_etag (answered h) = map_of (li_etags li) h"
    using etags [of h] all read [of h] by (cases "answered h") (auto split: option.splits)
  show ?thesis using etags [of h] again quiet same by (simp add: nxt) 
qed

theorem cursor_follows_the_listing_witness:
  "\<exists>out nxt refused. reconcile_calendar my_calendars False ''/c/'' cursor_default \<lparr>li_ctag = Some ''2'', li_etags = [(''/e'', ''1'')]\<rparr>
       (diff cursor_default \<lparr>li_ctag = Some ''2'', li_etags = [(''/e'', ''1'')]\<rparr>) [their_meeting] ''now'' = Some (out, nxt, refused)
     \<and> map_option kn_etag (map_of (cu_known nxt) ''/e'') = Some ''1''"
proof -
  let ?li = "\<lparr>li_ctag = Some ''2'', li_etags = [(''/e'', ''1'')]\<rparr>"
  have "reconcile_calendar my_calendars False ''/c/'' cursor_default ?li (diff cursor_default ?li) [their_meeting] ''now'' \<noteq> None"
    by code_simp
  then obtain out nxt refused where
      r: "reconcile_calendar my_calendars False ''/c/'' cursor_default ?li (diff cursor_default ?li) [their_meeting] ''now'' = Some (out, nxt, refused)"
    by (metis not_None_eq prod_cases3)
  have "\<forall>h \<in> set (to_read (diff cursor_default ?li)).
      map_option re_etag (map_of (rev (map (\<lambda>r. (re_href r, r)) [their_meeting])) h) = map_of (li_etags ?li) h"
    by code_simp
  moreover have "distinct (map fst (li_etags ?li))" by simp
  ultimately show ?thesis using cursor_follows_the_listing [OF r, of "''/e''"] r by auto
qed

section \<open>What the bus did not take\<close>

lemma commit_append: "commit (xs @ ys) disk = commit ys (commit xs disk)"
  by (simp add: commit_def)

lemma commit_other: "i \<notin> fst ` set cursors \<Longrightarrow> commit cursors disk i = disk i"
  by (induction cursors arbitrary: disk) (auto simp: commit_def)

lemma commit_known: "i \<in> fst ` set cursors \<Longrightarrow> commit cursors disk i = commit cursors disk' i"
proof (induction cursors arbitrary: disk disk')
  case (Cons x cursors)
  then show ?case
    by (cases "i \<in> fst ` set cursors") (auto simp: commit_def commit_other [unfolded commit_def] split: prod.split)
qed simp

lemma poll_one_then_up_to_date:
  assumes "poll_one ca may_travel sd disk owner_id now c p = Inr q" and "cal_ctag c \<noteq> None"
  shows "\<exists>new. po_cursors q = po_cursors p @ new \<and> fst ` set new \<subseteq> {cal_id c} \<and> up_to_date (commit new disk) c"
  using assms(1)
proof (cases rule: poll_one_cases)
  case still
  then have "up_to_date disk c" using assms(2) by simp
  with still show ?thesis by (intro exI [of _ "[]"]) (simp add: commit_def)
next
  case (moved cu li resources out nxt refused)
  from moved(3) obtain out1 nxt1 where "nxt = \<lparr>cu_ctag = li_ctag li, cu_known = nxt1\<rparr>"
    by (rule reconcile_split) blast
  then have "up_to_date (commit [(cal_id c, nxt)] disk) c"
    using moved(2) assms(2) by (simp add: up_to_date_def commit_def)
  with moved(4) show ?thesis by (intro exI [of _ "[(cal_id c, nxt)]"]) simp
qed

lemma up_to_date_other: "cal_id c \<notin> fst ` set cursors \<Longrightarrow> up_to_date (commit cursors disk) c = up_to_date disk c"
  by (simp add: up_to_date_def commit_other)

lemma poll_calendars_then_up_to_date:
  assumes "poll_calendars ca may_travel sd disk owner_id now cs p = Inr q"
    and "\<forall>c \<in> set cs. cal_ctag c \<noteq> None" and "distinct (map cal_id cs)"
  shows "\<exists>new. po_cursors q = po_cursors p @ new \<and> fst ` set new \<subseteq> cal_id ` set cs
           \<and> (\<forall>c \<in> set cs. up_to_date (commit new disk) c)"
  using assms
proof (induction cs arbitrary: p)
  case Nil
  then show ?case by (intro exI [of _ "[]"]) simp
next
  case (Cons c cs)
  from Cons.prems(1) obtain p1 where one: "poll_one ca may_travel sd disk owner_id now c p = Inr p1"
      and rest: "poll_calendars ca may_travel sd disk owner_id now cs p1 = Inr q"
    by (auto simp: and_then_Inr_iff)
  obtain new1 where new1: "po_cursors p1 = po_cursors p @ new1" "fst ` set new1 \<subseteq> {cal_id c}" "up_to_date (commit new1 disk) c"
    using poll_one_then_up_to_date [OF one] Cons.prems(2) by auto
  obtain new2 where new2: "po_cursors q = po_cursors p1 @ new2" "fst ` set new2 \<subseteq> cal_id ` set cs"
      "\<forall>d \<in> set cs. up_to_date (commit new2 disk) d"
    using Cons.IH [OF rest] Cons.prems(2,3) by auto
  have "up_to_date (commit (new1 @ new2) disk) c"
    using new1(3) new2(2) Cons.prems(3) by (subst commit_append, subst up_to_date_other) auto
  moreover have "up_to_date (commit (new1 @ new2) disk) d" if d: "d \<in> set cs" for d
  proof -
    have "cal_id c \<notin> cal_id ` set cs" using Cons.prems(3) by simp
    then have "cal_id d \<noteq> cal_id c" using d by (metis imageI)
    then have "cal_id d \<notin> fst ` set new1" using new1(2) by auto
    then have "commit (new1 @ new2) disk (cal_id d) = commit new2 disk (cal_id d)"
      unfolding commit_append
      by (cases "cal_id d \<in> fst ` set new2") (auto simp: commit_known commit_other)
    then show ?thesis using new2(3) d by (simp add: up_to_date_def)
  qed
  ultimately show ?case using new1(1,2) new2(1,2)
    by (intro exI [of _ "new1 @ new2"]) auto
qed

lemma poll_calendars_up_to_date:
  "\<forall>c \<in> set cs. up_to_date disk c \<Longrightarrow> poll_calendars ca may_travel sd disk owner_id now cs p = Inr p"
  by (induction cs) (simp_all add: poll_one_up_to_date)

text \<open>
  An event the bus did not take is never published: the cursors are committed whether
  the publication succeeded or not, and the round after a round whose every publication
  failed, of calendars that did not move meanwhile, publishes nothing.
\<close>

theorem events_the_bus_refused_are_lost:
  assumes "side_calendars sd = Some cs" and "\<forall>c \<in> set cs. cal_ctag c \<noteq> None" and "distinct (map cal_id cs)"
    and "poll_all ca may_travel sd disk owner_id now = Inr p" and "length (po_cursors p) \<le> written"
  shows "case calendar_round ca may_travel sd owner_id now (\<lambda>e. False) written disk of
           (published, disk') \<Rightarrow>
             published = [] \<and> fst (calendar_round ca' may_travel' sd owner_id now' taken written' disk') = []"
proof -
  obtain new where new: "po_cursors p = new" "\<forall>c \<in> set cs. up_to_date (commit new disk) c"
  proof -
    have "poll_calendars ca may_travel sd disk owner_id now cs \<lparr>po_envelopes = [], po_cursors = [], po_refused = []\<rparr> = Inr p"
      using assms(1,4) by (simp add: poll_all_def)
    from poll_calendars_then_up_to_date [OF this assms(2,3)] show ?thesis using that by auto
  qed
  have first: "calendar_round ca may_travel sd owner_id now (\<lambda>e. False) written disk = ([], commit new disk)"
    using assms(4,5) new(1) by (simp add: calendar_round_def)
  have "poll_all ca' may_travel' sd (commit new disk) owner_id now' = Inr \<lparr>po_envelopes = [], po_cursors = [], po_refused = []\<rparr>"
    using assms(1) poll_calendars_up_to_date [OF new(2)] by (simp add: poll_all_def)
  then have "fst (calendar_round ca' may_travel' sd owner_id now' taken written' (commit new disk)) = []"
    by (simp add: calendar_round_def)
  with first show ?thesis by simp
qed

theorem events_the_bus_refused_are_lost_witness:
  "\<exists>disk'. calendar_round my_calendars False my_side ''me'' ''now'' (\<lambda>e. False) 1 my_disk = ([], disk')
     \<and> fst (calendar_round my_calendars False my_side ''me'' ''later'' (\<lambda>e. True) 1 disk') = []"
proof -
  obtain p where p: "poll_all my_calendars False my_side my_disk ''me'' ''now'' = Inr p" "length (po_cursors p) \<le> 1"
    using my_poll by (auto split: sum.splits)
  have "side_calendars my_side = Some [\<lparr>cal_id = ''c'', cal_ctag = Some ''2''\<rparr>]" by (simp add: my_side_def)
  from events_the_bus_refused_are_lost [OF this _ _ p, of my_calendars False "''later''" "\<lambda>e. True" 1]
  show ?thesis
    by (cases "calendar_round my_calendars False my_side ''me'' ''now'' (\<lambda>e. False) 1 my_disk") simp
qed

text \<open>
  A calendar that carries no CTag and begins empty swallows its first event: as long as
  its cursor is empty every poll of it counts as its first, of which nothing is published.
\<close>

theorem first_event_of_an_empty_calendar_is_swallowed:
  assumes "disk (cal_id c) = Some cursor_default"
    and "poll_one ca may_travel sd disk owner_id now c p = Inr q"
  shows "po_envelopes q = po_envelopes p"
    and "reconcile_calendar ca may_travel collection cursor_default \<lparr>li_ctag = None, li_etags = []\<rparr>
           (diff cursor_default \<lparr>li_ctag = None, li_etags = []\<rparr>) resources now = Some ([], cursor_default, [])"
proof -
  show "po_envelopes q = po_envelopes p"
    using assms(2)
  proof (cases rule: poll_one_cases)
    case (moved cu li resources out nxt refused)
    then have "cu = cursor_default" using assms(1) by simp
    then show ?thesis by (simp add: moved(4) cursor_default_def)
  qed simp
  show "reconcile_calendar ca may_travel collection cursor_default \<lparr>li_ctag = None, li_etags = []\<rparr>
           (diff cursor_default \<lparr>li_ctag = None, li_etags = []\<rparr>) resources now = Some ([], cursor_default, [])"
    by (simp add: reconcile_calendar_def diff_def to_read_def cursor_default_def Let_def)
qed

theorem first_event_of_an_empty_calendar_is_swallowed_witness:
  "case poll_one my_calendars False my_side (\<lambda>i. Some cursor_default) ''me'' ''now'' \<lparr>cal_id = ''c'', cal_ctag = None\<rparr>
          \<lparr>po_envelopes = [], po_cursors = [], po_refused = []\<rparr> of
     Inr q \<Rightarrow> po_envelopes q = [] \<and> length (po_cursors q) = 1
   | Inl e \<Rightarrow> False"
proof -
  have "case poll_one my_calendars False my_side (\<lambda>i. Some cursor_default) ''me'' ''now'' \<lparr>cal_id = ''c'', cal_ctag = None\<rparr>
          \<lparr>po_envelopes = [], po_cursors = [], po_refused = []\<rparr> of Inr q \<Rightarrow> length (po_cursors q) = 1 | Inl e \<Rightarrow> False"
    by code_simp
  then obtain q where q: "poll_one my_calendars False my_side (\<lambda>i. Some cursor_default) ''me'' ''now'' \<lparr>cal_id = ''c'', cal_ctag = None\<rparr>
          \<lparr>po_envelopes = [], po_cursors = [], po_refused = []\<rparr> = Inr q" "length (po_cursors q) = 1"
    by (auto split: sum.splits)
  from first_event_of_an_empty_calendar_is_swallowed(1) [OF _ q(1)] q show ?thesis by simp
qed

text \<open>
  A switch that stays unreadable makes a meeting nobody moved change place: the first
  round that cannot read it publishes nothing, the second publishes with the place withheld,
  and an event whose place was carried before is announced with its location among the
  fields that changed.
\<close>

theorem second_unreadable_round_announces_a_move:
  assumes "v_location v = Some place_name" and "v_location v' = Some place_name"
    and "\<forall>p \<in> set_option (v_organizer v). \<not> person_withheld ow decide (p_identity p)"
  shows "location_rounds [None, None] True = [None, Some False]
    \<and> ''location'' \<in> set (changed_fields (reduce v ow LocationCarried decide) (reduce v' ow LocationWithheld decide'))"
proof -
  have "field_or_null (reduce v ow LocationCarried decide) ''location'' = JStr place_name"
    using assms(1,3)
    by (auto simp: field_or_null_def reduce_def nullable_def Let_def split: option.split)
  moreover have "field_or_null (reduce v' ow LocationWithheld decide') ''location'' = JNull"
    using reduce_spec [of v' ow LocationWithheld decide'] by blast
  ultimately show ?thesis
    by (simp add: changed_fields_def event_fields_def location_round_def)
qed

theorem second_unreadable_round_announces_a_move_witness:
  "let v = \<lparr>v_uid = ''u'', v_title = ''Sync'', v_location = Some ''Salle B'', v_start = [], v_end = [],
              v_all_day = False, v_timezone = None, v_status = ''confirmed'', v_recurrence = None,
              v_organizer = None, v_participants = []\<rparr>
   in ''location'' \<in> set (changed_fields (reduce v (mail_owner_new ''me@x'' []) LocationCarried (\<lambda>i. Granted))
                          (reduce (v\<lparr>v_title := ''Sync, moved''\<rparr>) (mail_owner_new ''me@x'' []) LocationWithheld (\<lambda>i. Granted)))"
  unfolding Let_def
  by (rule second_unreadable_round_announces_a_move [where place_name = "''Salle B''", THEN conjunct2]) simp_all

end
