(* ===== verification/Suggestions.thy ===== *)
theory Suggestions
  imports Connections Decisions Switches Chars Journals "HOL-Library.Monad_Syntax"
begin

text \<open>
  What an approval is asked and what it reads, \<^verbatim>\<open>companion-gateway/src/approval.rs\<close>: the
  request, the bounded reads of the bus, the suggestion and the message it answers. The text
  of a refusal is left out; a refusal keeps what its text is made of.
\<close>

section \<open>The request\<close>

datatype reply_format = PlainText | Markdown | Html

fun format_as_str :: "reply_format \<Rightarrow> string" where
  "format_as_str PlainText = ''text/plain''"
| "format_as_str Markdown = ''text/markdown''"
| "format_as_str Html = ''text/html''"

definition format_parse :: "string \<Rightarrow> reply_format option" where
  "format_parse s =
     (if s = ''text/plain'' then Some PlainText else if s = ''text/markdown'' then Some Markdown
      else if s = ''text/html'' then Some Html else None)"

interpretation reply_format: codec format_as_str format_parse
proof unfold_locales
  show "format_parse (format_as_str f) = Some f" for f
    by (cases f) (simp_all add: format_parse_def)
  show "s = format_as_str f" if "format_parse s = Some f" for s f
    using that by (auto simp: format_parse_def split: if_splits)
qed

record content =
  ct_body :: string
  ct_format :: reply_format

datatype authorship = ByPersona | ByOwner

fun authorship_as_str :: "authorship \<Rightarrow> string" where
  "authorship_as_str ByPersona = ''persona''"
| "authorship_as_str ByOwner = ''owner''"

definition authorship_parse :: "string \<Rightarrow> authorship option" where
  "authorship_parse s =
     (if s = ''persona'' then Some ByPersona else if s = ''owner'' then Some ByOwner else None)"

interpretation authorship: codec authorship_as_str authorship_parse
proof unfold_locales
  show "authorship_parse (authorship_as_str w) = Some w" for w
    by (cases w) (simp_all add: authorship_parse_def)
  show "s = authorship_as_str w" if "authorship_parse s = Some w" for s w
    using that by (auto simp: authorship_parse_def split: if_splits)
qed

definition contract_max_body :: nat where
  "contract_max_body = 65536"

text \<open>The contract's cap less a newline and the longest sentence of disclosure.\<close>

definition max_body :: nat where
  "max_body = contract_max_body - 1 - max_disclosure_chars"

record approval_request =
  rq_suggestion :: string
  rq_approved_by :: "string option"
  rq_edited :: "content option"
  rq_written_by :: authorship

datatype approval_invalid =
    ApprovalNotAnObject
  | ApprovalIsABatch
  | ApprovalUnknownMember string
  | MissingSuggestion
  | SuggestionNotAnEventId string
  | ApprovedByNotAString
  | FinalNotAnObject
  | MissingFinalBody
  | EmptyFinalBody
  | FinalBodyTooLong nat
  | UnknownFormat json
  | UnknownWrittenBy json

definition approval_invalid_code :: "approval_invalid \<Rightarrow> string" where
  "approval_invalid_code e =
     (case e of
        ApprovalIsABatch \<Rightarrow> ''approval_is_not_a_batch''
      | UnknownFormat v \<Rightarrow> ''unknown_value''
      | UnknownWrittenBy v \<Rightarrow> ''unknown_value''
      | _ \<Rightarrow> ''malformed_request'')"

definition is_event_id :: "string \<Rightarrow> bool" where
  "is_event_id s \<longleftrightarrow>
     length s = 64 \<and> list_all (\<lambda>c. is_ascii_digit c \<or> CHR ''a'' \<le> c \<and> c \<le> CHR ''f'') s"

text \<open>
  The members of an object are visited in the order of their names: the unknown one that is
  reported is the least.
\<close>

definition unknown_member :: "string list \<Rightarrow> (string \<times> json) list \<Rightarrow> string option" where
  "unknown_member known_members members =
     (case sort (filter (\<lambda>k. k \<notin> set known_members) (map fst members)) of [] \<Rightarrow> None | k # _ \<Rightarrow> Some k)"

definition read_written_by :: "json \<Rightarrow> approval_invalid + authorship" where
  "read_written_by j =
     (case jget j ''written_by'' of
        None \<Rightarrow> Inr ByPersona
      | Some JNull \<Rightarrow> Inr ByPersona
      | Some v \<Rightarrow> ok_or (UnknownWrittenBy v) (Option.bind (jstr v) authorship_parse))"

definition read_format :: "json \<Rightarrow> approval_invalid + reply_format" where
  "read_format j =
     (case jget j ''format'' of
        None \<Rightarrow> Inr PlainText
      | Some v \<Rightarrow> ok_or (UnknownFormat v) (Option.bind (jstr v) format_parse))"

definition parse_content :: "json \<Rightarrow> approval_invalid + content \<times> authorship" where
  "parse_content j =
     and_then (ok_or FinalNotAnObject (jobj j)) (\<lambda>members.
     case unknown_member [''body'', ''format'', ''written_by''] members of
       Some k \<Rightarrow> Inl (ApprovalUnknownMember (''final.'' @ k))
     | None \<Rightarrow>
         and_then (read_written_by j) (\<lambda>w.
         and_then (ok_or MissingFinalBody (Option.bind (jget j ''body'') jstr)) (\<lambda>body.
         if body = [] then Inl EmptyFinalBody
         else if max_body < chars_count body then Inl (FinalBodyTooLong (chars_count body))
         else and_then (read_format j) (\<lambda>f. Inr (\<lparr>ct_body = body, ct_format = f\<rparr>, w)))))"

definition read_suggestion_id :: "json \<Rightarrow> approval_invalid + string" where
  "read_suggestion_id body =
     (case jget body ''suggestion_event_id'' of
        None \<Rightarrow> Inl MissingSuggestion
      | Some (JArr xs) \<Rightarrow> Inl ApprovalIsABatch
      | Some v \<Rightarrow>
          and_then (ok_or MissingSuggestion (jstr v)) (\<lambda>i.
          if is_event_id i then Inr i else Inl (SuggestionNotAnEventId i)))"

definition read_approved_by :: "json \<Rightarrow> approval_invalid + string option" where
  "read_approved_by body =
     (case jget body ''approved_by'' of
        None \<Rightarrow> Inr None
      | Some JNull \<Rightarrow> Inr None
      | Some (JStr s) \<Rightarrow> Inr (Some s)
      | Some _ \<Rightarrow> Inl ApprovedByNotAString)"

definition read_final :: "json \<Rightarrow> approval_invalid + content option \<times> authorship" where
  "read_final body =
     (case jget body ''final'' of
        None \<Rightarrow> Inr (None, ByPersona)
      | Some JNull \<Rightarrow> Inr (None, ByPersona)
      | Some v \<Rightarrow> and_then (parse_content v) (\<lambda>(c, w). Inr (Some c, w)))"

definition approval_request_parse :: "json \<Rightarrow> approval_invalid + approval_request" where
  "approval_request_parse body =
     and_then (ok_or (if jarr body \<noteq> None then ApprovalIsABatch else ApprovalNotAnObject) (jobj body)) (\<lambda>members.
     case unknown_member [''suggestion_event_id'', ''approved_by'', ''final''] members of
       Some k \<Rightarrow> Inl (ApprovalUnknownMember k)
     | None \<Rightarrow>
         and_then (read_suggestion_id body) (\<lambda>i.
         and_then (read_approved_by body) (\<lambda>by.
         and_then (read_final body) (\<lambda>(edited, w).
           Inr \<lparr>rq_suggestion = i, rq_approved_by = by, rq_edited = edited, rq_written_by = w\<rparr>))))"

section \<open>Bounded reads of the bus\<close>

text \<open>
  The stream as the bus describes it: the first and the last sequence, and the retained
  messages in order. A message is read as a document (\<open>None\<close> when its payload is not JSON).
\<close>

record retained =
  bm_sequence :: nat
  bm_subject :: string
  bm_document :: "json option"
  bm_headers :: "(string \<times> string) list"

record stream_state =
  ss_first :: nat
  ss_last :: nat
  ss_messages :: "retained list"

text \<open>
  \<open>given\<close> is how many messages the batch handed over before it ended or failed, which the loop
  that drains it does not tell apart.
\<close>

definition fetched :: "string \<Rightarrow> nat \<Rightarrow> nat \<Rightarrow> nat \<Rightarrow> stream_state \<Rightarrow> retained list" where
  "fetched event_subject start most given ss =
     take (min given most) (filter (\<lambda>m. bm_subject m = event_subject \<and> start \<le> bm_sequence m) (ss_messages ss))"

fun first_hit :: "(retained \<Rightarrow> 'a option) \<Rightarrow> nat \<Rightarrow> retained list \<Rightarrow> ('a \<times> nat) option" where
  "first_hit matches ceiling [] = None"
| "first_hit matches ceiling (m # ms) =
     (if ceiling < bm_sequence m then None
      else (case matches m of
              Some hit \<Rightarrow> Some (hit, bm_sequence m)
            | None \<Rightarrow> first_hit matches ceiling ms))"

datatype 'a found = Match 'a nat | NoMatch bool

definition scan ::
  "nat \<Rightarrow> string \<Rightarrow> nat option \<Rightarrow> (retained \<Rightarrow> 'a option) \<Rightarrow> stream_state \<times> nat \<Rightarrow> 'a found" where
  "scan window event_subject anchor matches = (\<lambda>(ss, given).
     (let first = max (ss_first ss) 1;
          ceiling = (case anchor of Some a \<Rightarrow> a | None \<Rightarrow> ss_last ss) in
      if ss_last ss = 0 \<or> ceiling < first then NoMatch True
      else
        let start = max (ceiling - window) first in
        case first_hit matches ceiling (fetched event_subject start (ceiling - start + 1) given ss) of
          Some (hit, s) \<Rightarrow> Match hit s
        | None \<Rightarrow> NoMatch (start \<le> first)))"

definition scan_forward ::
  "nat \<Rightarrow> string \<Rightarrow> nat \<Rightarrow> (retained \<Rightarrow> 'a option) \<Rightarrow> stream_state \<times> nat \<Rightarrow> 'a option" where
  "scan_forward window event_subject start matches = (\<lambda>(ss, given).
     (if ss_last ss < start then None
      else
        let ceiling = min (min (start + window) (2 ^ 64 - 1)) (ss_last ss) in
        map_option fst (first_hit matches ceiling (fetched event_subject start (ceiling - start + 1) given ss))))"

definition default_lookup_window :: nat where
  "default_lookup_window = 20000"

definition suggest_subject :: string where
  "suggest_subject = ''twalk.persona.suggest.produced.v1''"

definition inbound_subject :: string where
  "inbound_subject = ''twalk.inbound.message.received.v1''"

definition approved_subject :: string where
  "approved_subject = ''twalk.persona.reply.approved.v1''"

lemma subjects_of_their_types:
  "bus_subject ''fr.linagora.twalk.persona.suggest.produced.v1'' = Some suggest_subject"
  "bus_subject ''fr.linagora.twalk.inbound.message.received.v1'' = Some inbound_subject"
  "bus_subject ''fr.linagora.twalk.persona.reply.approved.v1'' = Some approved_subject"
  by code_simp+

section \<open>What is read off the bus\<close>

text \<open>
  The structs \<^verbatim>\<open>serde\<close> fills: a required string, an optional one (absent or null, but not
  of another type), an object that may be absent.
\<close>

definition text_at :: "json \<Rightarrow> string \<Rightarrow> string option" where
  "text_at j k = Option.bind (jget j k) jstr"

definition optional_text :: "json \<Rightarrow> string \<Rightarrow> string option option" where
  "optional_text j k =
     (case jget j k of
        None \<Rightarrow> Some None
      | Some JNull \<Rightarrow> Some None
      | Some (JStr s) \<Rightarrow> Some (Some s)
      | Some _ \<Rightarrow> None)"

definition object_at :: "json \<Rightarrow> string \<Rightarrow> json option" where
  "object_at j k = Option.bind (jget j k) (\<lambda>v. map_option JObj (jobj v))"

definition defaulted_object :: "json \<Rightarrow> string \<Rightarrow> json option" where
  "defaulted_object j k = (if jget j k = None then Some (JObj []) else object_at j k)"

definition optional_object :: "json \<Rightarrow> string \<Rightarrow> json option option" where
  "optional_object j k =
     (case jget j k of None \<Rightarrow> Some None | Some JNull \<Rightarrow> Some None | Some v \<Rightarrow> map_option Some (object_at j k))"

record suggestion_document =
  sd_id :: string
  sd_source :: string
  sd_subject :: string
  sd_network :: string
  sd_connection :: "string option"
  sd_consent :: string
  sd_traceparent :: "string option"
  sd_persona_id :: string
  sd_body :: string
  sd_format :: string
  sd_disclosure :: "string option"
  sd_expires_at :: "string option"

definition read_suggestion_document :: "json \<Rightarrow> suggestion_document option" where
  "read_suggestion_document j =
     do {
       i \<leftarrow> text_at j ''id'';
       source \<leftarrow> text_at j ''source'';
       subject \<leftarrow> text_at j ''subject'';
       n \<leftarrow> text_at j ''network'';
       c \<leftarrow> optional_text j ''connection'';
       label \<leftarrow> text_at j ''consent'';
       trace \<leftarrow> optional_text j ''traceparent'';
       data \<leftarrow> object_at j ''data'';
       persona \<leftarrow> text_at data ''persona_id'';
       proposed \<leftarrow> object_at data ''suggestion'';
       body \<leftarrow> text_at proposed ''body'';
       f \<leftarrow> text_at proposed ''format'';
       sentence \<leftarrow> optional_text data ''disclosure'';
       expires \<leftarrow> optional_text data ''expires_at'';
       Some \<lparr>sd_id = i, sd_source = source, sd_subject = subject, sd_network = n, sd_connection = c,
             sd_consent = label, sd_traceparent = trace, sd_persona_id = persona, sd_body = body,
             sd_format = f, sd_disclosure = sentence, sd_expires_at = expires\<rparr>
     }"

record trigger_document =
  td_id :: string
  td_source :: string
  td_subject :: string
  td_network :: string
  td_connection :: "string option"
  td_message_id :: "string option"

definition read_trigger_document :: "json \<Rightarrow> trigger_document option" where
  "read_trigger_document j =
     do {
       i \<leftarrow> text_at j ''id'';
       source \<leftarrow> text_at j ''source'';
       subject \<leftarrow> text_at j ''subject'';
       n \<leftarrow> text_at j ''network'';
       c \<leftarrow> optional_text j ''connection'';
       data \<leftarrow> defaulted_object j ''data'';
       message_id \<leftarrow> optional_text data ''message_id'';
       Some \<lparr>td_id = i, td_source = source, td_subject = subject, td_network = n, td_connection = c,
             td_message_id = message_id\<rparr>
     }"

text \<open>A message whose document does not fill the struct is passed over.\<close>

definition with_id :: "(json \<Rightarrow> 'd option) \<Rightarrow> ('d \<Rightarrow> string) \<Rightarrow> string \<Rightarrow> retained \<Rightarrow> 'd option" where
  "with_id document id_of wanted m =
     Option.bind (Option.bind (bm_document m) document) (\<lambda>d. if id_of d = wanted then Some d else None)"

section \<open>Refusals\<close>

datatype unreadable =
    NetworkUnknown string
  | ConsentUnknown string
  | BodyFormatUnknown string
  | ConnectionUntold unresolved
  | NotAContractSentence nat
  | MailWithoutMessageId
  | MailSubjectNotMailto string
  | NoRoomForTheDisclosure nat

record recorded_approval =
  ar_event_id :: string
  ar_suggestion :: string
  ar_approved_by :: string
  ar_persona_id :: string
  ar_network :: network
  ar_contact :: string
  ar_edited :: bool
  ar_written_by :: string
  ar_approved_at :: string
  ar_published_at :: "string option"
  ar_stream_sequence :: "nat option"

datatype approval_refusal =
    InvalidRequest approval_invalid
  | NotTheOwner string string
  | SuggestionNotFound
  | SuggestionOutOfReach nat
  | TriggerNotFound string
  | TriggerOutOfReach string nat
  | TriggerHasNoRoom string
  | SuggestionUnreadable unreadable
  | SuggestionExpired string string
  | NeverConsented gstate
  | ConsentRevoked string network
  | ConsentPending string network
  | ConnectionNotConnected string string "string option"
  | AlreadyApproved recorded_approval
  | BusUnreachable
  | StoreUnavailable
  | Unrecorded

fun refusal_code :: "approval_refusal \<Rightarrow> string" where
  "refusal_code (InvalidRequest e) = approval_invalid_code e"
| "refusal_code (NotTheOwner stated o_id) = ''approved_by_is_not_the_owner''"
| "refusal_code SuggestionNotFound = ''suggestion_not_found''"
| "refusal_code (SuggestionOutOfReach w) = ''suggestion_out_of_reach''"
| "refusal_code (TriggerNotFound t) = ''trigger_not_found''"
| "refusal_code (TriggerOutOfReach t w) = ''trigger_out_of_reach''"
| "refusal_code (TriggerHasNoRoom s) = ''trigger_has_no_room''"
| "refusal_code (SuggestionUnreadable u) = ''suggestion_unreadable''"
| "refusal_code (SuggestionExpired e n) = ''suggestion_expired''"
| "refusal_code (NeverConsented l) = ''suggestion_was_never_consented''"
| "refusal_code (ConsentRevoked c n) = ''consent_revoked''"
| "refusal_code (ConsentPending c n) = ''consent_pending''"
| "refusal_code (ConnectionNotConnected c s h) = ''connection_not_connected''"
| "refusal_code (AlreadyApproved r) = ''already_approved''"
| "refusal_code BusUnreachable = ''bus_unreachable''"
| "refusal_code StoreUnavailable = ''store_unavailable''"
| "refusal_code Unrecorded = ''approval_published_but_not_recorded''"

fun refusal_status :: "approval_refusal \<Rightarrow> nat" where
  "refusal_status (InvalidRequest e) = 400"
| "refusal_status (NotTheOwner stated o_id) = 403"
| "refusal_status SuggestionNotFound = 404"
| "refusal_status (SuggestionOutOfReach w) = 410"
| "refusal_status (TriggerNotFound t) = 404"
| "refusal_status (TriggerOutOfReach t w) = 410"
| "refusal_status (TriggerHasNoRoom s) = 409"
| "refusal_status (SuggestionUnreadable u) = 409"
| "refusal_status (SuggestionExpired e n) = 409"
| "refusal_status (NeverConsented l) = 409"
| "refusal_status (ConsentRevoked c n) = 409"
| "refusal_status (ConsentPending c n) = 409"
| "refusal_status (ConnectionNotConnected c s h) = 409"
| "refusal_status (AlreadyApproved r) = 409"
| "refusal_status BusUnreachable = 502"
| "refusal_status StoreUnavailable = 500"
| "refusal_status Unrecorded = 500"

section \<open>The suggestion and the message it answers\<close>

record suggestion =
  sg_event_id :: string
  sg_source :: string
  sg_persona_id :: string
  sg_trigger :: string
  sg_network :: network
  sg_connection :: string
  sg_label :: gstate
  sg_content :: content
  sg_disclosure :: "string option"
  sg_expires_at :: "string option"
  sg_traceparent :: "string option"
  sg_stream_sequence :: nat

datatype target =
    Room string
  | MailTarget string string string

fun target_json :: "target \<Rightarrow> json" where
  "target_json (Room r) = JObj [(''room_id'', JStr r)]"
| "target_json (MailTarget c m r) =
     JObj [(''connection'', JStr c), (''in_reply_to'', JStr m), (''recipient'', JStr r)]"

record trigger =
  tg_contact :: string
  tg_connection :: string
  tg_network :: network
  tg_target :: target

definition connection_of :: "connection list \<Rightarrow> string option \<Rightarrow> network \<Rightarrow> approval_refusal + string" where
  "connection_of registry carried n =
     (case registry_resolve registry carried (network_as_str n) of
        Inl e \<Rightarrow> Inl (SuggestionUnreadable (ConnectionUntold e))
      | Inr c \<Rightarrow> Inr (conn_id c))"

definition room_from_source :: "string \<Rightarrow> string option" where
  "room_from_source source =
     Option.bind (strip_prefix ''matrix://'' source) (\<lambda>rest.
     Option.bind (split_once (CHR ''/'') rest) (\<lambda>(homeserver, room).
     if strip_prefix ''!'' room = None \<or> CHR '':'' \<notin> set room \<or> CHR ''/'' \<in> set room then None
     else Some room))"

definition contract_sentence :: "string option \<Rightarrow> approval_refusal + string option" where
  "contract_sentence member =
     (case member of
        None \<Rightarrow> Inr None
      | Some s \<Rightarrow> if is_contract_sentence s then Inr (Some s)
                  else Inl (SuggestionUnreadable (NotAContractSentence (chars_count s))))"

definition known_or :: "unreadable \<Rightarrow> 'a option \<Rightarrow> approval_refusal + 'a" where
  "known_or u x = ok_or (SuggestionUnreadable u) x"

definition read_suggestion :: "connection list \<Rightarrow> suggestion_document \<Rightarrow> nat \<Rightarrow> approval_refusal + suggestion" where
  "read_suggestion registry d s =
     and_then (known_or (NetworkUnknown (sd_network d)) (network_parse (sd_network d))) (\<lambda>n.
     and_then (known_or (ConsentUnknown (sd_consent d)) (gstate_parse (sd_consent d))) (\<lambda>label.
     and_then (known_or (BodyFormatUnknown (sd_format d)) (format_parse (sd_format d))) (\<lambda>f.
     and_then (connection_of registry (sd_connection d) n) (\<lambda>c.
     and_then (contract_sentence (sd_disclosure d)) (\<lambda>sentence.
       Inr \<lparr>sg_event_id = sd_id d, sg_source = sd_source d, sg_persona_id = sd_persona_id d,
            sg_trigger = sd_subject d, sg_network = n, sg_connection = c, sg_label = label,
            sg_content = \<lparr>ct_body = sd_body d, ct_format = f\<rparr>, sg_disclosure = sentence,
            sg_expires_at = sd_expires_at d, sg_traceparent = sd_traceparent d,
            sg_stream_sequence = s\<rparr>)))))"

text \<open>\<open>looked\<close> is what the read of the stream got: \<open>None\<close> when a call of it failed.\<close>

definition find_suggestion ::
  "nat \<Rightarrow> connection list \<Rightarrow> (stream_state \<times> nat) option \<Rightarrow> string \<Rightarrow> approval_refusal + suggestion" where
  "find_suggestion window registry looked i =
     and_then (ok_or BusUnreachable looked) (\<lambda>r.
     case scan window suggest_subject None (with_id read_suggestion_document sd_id i) r of
       Match d s \<Rightarrow> read_suggestion registry d s
     | NoMatch exhaustive \<Rightarrow>
         Inl (if exhaustive then SuggestionNotFound else SuggestionOutOfReach window))"

definition trigger_lookup ::
  "nat \<Rightarrow> (json \<Rightarrow> 'd option) \<Rightarrow> ('d \<Rightarrow> string) \<Rightarrow> (stream_state \<times> nat) option \<Rightarrow> nat option \<Rightarrow> string
    \<Rightarrow> approval_refusal + 'd" where
  "trigger_lookup window document id_of looked anchor i =
     and_then (ok_or BusUnreachable looked) (\<lambda>r.
     case scan window inbound_subject anchor (with_id document id_of i) r of
       Match d s \<Rightarrow> Inr d
     | NoMatch exhaustive \<Rightarrow>
         Inl (if exhaustive then TriggerNotFound i else TriggerOutOfReach i window))"

definition target_of :: "string \<Rightarrow> trigger_document \<Rightarrow> approval_refusal + target" where
  "target_of c d =
     (case room_from_source (td_source d) of
        Some room \<Rightarrow> Inr (Room room)
      | None \<Rightarrow>
          if strip_prefix ''jmap://'' (td_source d) = None then Inl (TriggerHasNoRoom (td_source d))
          else
            and_then (known_or MailWithoutMessageId (td_message_id d)) (\<lambda>m.
            if strip_prefix ''mailto:'' (td_subject d) = None
            then Inl (SuggestionUnreadable (MailSubjectNotMailto (td_subject d)))
            else Inr (MailTarget c m (td_subject d))))"

definition find_trigger ::
  "nat \<Rightarrow> connection list \<Rightarrow> (stream_state \<times> nat) option \<Rightarrow> suggestion \<Rightarrow> approval_refusal + trigger" where
  "find_trigger window registry looked sg =
     and_then (trigger_lookup window read_trigger_document td_id looked (Some (sg_stream_sequence sg)) (sg_trigger sg)) (\<lambda>d.
     let n = (case network_parse (td_network d) of Some n \<Rightarrow> n | None \<Rightarrow> sg_network sg) in
     and_then (connection_of registry (td_connection d) n) (\<lambda>c.
     and_then (target_of c d) (\<lambda>t.
       Inr \<lparr>tg_contact = td_subject d, tg_connection = c, tg_network = n, tg_target = t\<rparr>)))"

section \<open>What the reads find\<close>

definition stream_ok :: "stream_state \<Rightarrow> bool" where
  "stream_ok ss \<longleftrightarrow>
     increasing bm_sequence (ss_messages ss)
     \<and> list_all (\<lambda>m. 1 \<le> bm_sequence m \<and> ss_first ss \<le> bm_sequence m \<and> bm_sequence m \<le> ss_last ss) (ss_messages ss)"

lemma first_hit_Some:
  "first_hit matches ceiling ms = Some (h, s) \<Longrightarrow>
     \<exists>m \<in> set ms. matches m = Some h \<and> bm_sequence m = s \<and> s \<le> ceiling"
  by (induction ms) (auto split: if_splits option.splits)

lemma first_hit_None:
  "first_hit matches ceiling ms = None \<Longrightarrow> increasing bm_sequence ms \<Longrightarrow> m \<in> set ms
     \<Longrightarrow> bm_sequence m \<le> ceiling \<Longrightarrow> matches m = None"
  by (induction ms) (auto simp: increasing_def split: if_splits option.splits)

lemma increasing_filter: "increasing f xs \<Longrightarrow> increasing f (filter p xs)"
  by (simp add: increasing_def sorted_wrt_filter)

lemma increasing_take: "increasing f xs \<Longrightarrow> increasing f (take n xs)"
  by (simp add: increasing_def sorted_wrt_take)

lemma increasing_runs_ahead:
  "increasing f xs \<Longrightarrow> \<forall>x \<in> set xs. start \<le> f x \<Longrightarrow> n < length xs \<Longrightarrow> start + n \<le> f (xs ! n)"
proof (induction n)
  case (Suc n)
  then have "start + n \<le> f (xs ! n)" by simp
  moreover have "f (xs ! n) < f (xs ! Suc n)"
    using Suc.prems by (simp add: increasing_def sorted_wrt_iff_nth_less)
  ultimately show ?case by simp
qed simp

lemma fetched_window:
  assumes "increasing bm_sequence (ss_messages ss)" and "length (ss_messages ss) \<le> given"
    and "m \<in> set (ss_messages ss)" and "bm_subject m = subj" and "start \<le> bm_sequence m"
    and "bm_sequence m < start + most"
  shows "m \<in> set (fetched subj start most given ss)"
proof -
  let ?xs = "filter (\<lambda>m. bm_subject m = subj \<and> start \<le> bm_sequence m) (ss_messages ss)"
  obtain n where n: "n < length ?xs" "?xs ! n = m"
  proof -
    have "m \<in> set ?xs" using assms(3-5) by simp
    then show ?thesis using that unfolding in_set_conv_nth by blast
  qed
  have "start + n \<le> bm_sequence (?xs ! n)"
    by (rule increasing_runs_ahead [OF increasing_filter [OF assms(1)] _ n(1)]) simp
  then have "n < most" using n(2) assms(6) by simp
  moreover have "n < given" using n(1) assms(2) length_filter_le [of _ "ss_messages ss"] by (meson le_trans less_le_trans)
  ultimately show ?thesis using n by (auto simp: fetched_def in_set_conv_nth)
qed

lemma fetched_subset: "set (fetched subj start most given ss) \<subseteq> set (ss_messages ss)"
  unfolding fetched_def using set_take_subset by fastforce

lemma fetched_subject: "m \<in> set (fetched subj start most given ss) \<Longrightarrow> bm_subject m = subj"
  unfolding fetched_def using in_set_takeD by fastforce

lemma scan_Match:
  assumes "scan window subj anchor matches (ss, given) = Match h s"
  shows "\<exists>m \<in> set (ss_messages ss). bm_subject m = subj \<and> matches m = Some h \<and> bm_sequence m = s
           \<and> (\<forall>a. anchor = Some a \<longrightarrow> s \<le> a)"
proof -
  obtain start most ceiling where
    "first_hit matches ceiling (fetched subj start most given ss) = Some (h, s)"
    and "ceiling = (case anchor of Some a \<Rightarrow> a | None \<Rightarrow> ss_last ss)"
    using assms by (auto simp: scan_def Let_def split: if_splits option.splits)
  then show ?thesis
    using first_hit_Some [of matches ceiling _ h s] fetched_subset fetched_subject by fastforce
qed

lemma scan_NoMatch:
  assumes "scan window subj anchor matches (ss, given) = NoMatch True"
    and "stream_ok ss" and "length (ss_messages ss) \<le> given"
    and "m \<in> set (ss_messages ss)" and "bm_subject m = subj" and "\<And>a. anchor = Some a \<Longrightarrow> bm_sequence m \<le> a"
  shows "matches m = None"
proof -
  let ?first = "max (ss_first ss) 1" and ?c = "case anchor of Some a \<Rightarrow> a | None \<Rightarrow> ss_last ss"
  let ?start = "max (?c - window) ?first"
  have m: "1 \<le> bm_sequence m" "ss_first ss \<le> bm_sequence m" "bm_sequence m \<le> ss_last ss"
    using assms(2,4) by (auto simp: stream_ok_def list_all_iff)
  have top: "bm_sequence m \<le> ?c" using assms(6) m by (simp split: option.split)
  then have some: "\<not> (ss_last ss = 0 \<or> ?c < ?first)" using m by auto
  then have none: "first_hit matches ?c (fetched subj ?start (?c - ?start + 1) given ss) = None"
    and edge: "?start \<le> ?first"
    using assms(1) unfolding scan_def prod.case Let_def if_not_P [OF some]
    by (auto split: option.splits prod.splits)
  have "?start \<le> bm_sequence m" using edge m by simp
  moreover from this have "bm_sequence m < ?start + (?c - ?start + 1)" using top by simp
  ultimately have "m \<in> set (fetched subj ?start (?c - ?start + 1) given ss)"
    using assms(2-5) by (intro fetched_window) (simp_all add: stream_ok_def)
  moreover have "increasing bm_sequence (fetched subj ?start (?c - ?start + 1) given ss)"
    using assms(2) by (simp add: fetched_def stream_ok_def increasing_take increasing_filter)
  ultimately show ?thesis using first_hit_None [OF none] top by blast
qed

lemma with_id_SomeD:
  "with_id document id_of i m = Some d \<Longrightarrow> id_of d = i \<and> Option.bind (bm_document m) document = Some d"
  by (auto simp: with_id_def split: bind_splits if_splits)

lemma find_suggestion_Inr_iff:
  "find_suggestion window registry looked i = Inr sg \<longleftrightarrow>
     (\<exists>r d s. looked = Some r \<and> scan window suggest_subject None (with_id read_suggestion_document sd_id i) r = Match d s
        \<and> read_suggestion registry d s = Inr sg)"
proof (cases looked)
  case (Some r)
  then show ?thesis
    by (cases "scan window suggest_subject None (with_id read_suggestion_document sd_id i) r")
      (auto simp: find_suggestion_def)
qed (simp add: find_suggestion_def)

lemma connection_of_Inl: "connection_of registry c n = Inl e \<Longrightarrow> \<exists>u. e = SuggestionUnreadable u"
  by (auto simp: connection_of_def split: sum.splits)

lemma read_suggestion_Inl: "read_suggestion registry d s = Inl e \<Longrightarrow> \<exists>u. e = SuggestionUnreadable u"
  by (auto simp: read_suggestion_def known_or_def contract_sentence_def result_simps
      split: option.splits if_splits dest: connection_of_Inl)

lemma read_suggestion_Inr:
  assumes "read_suggestion registry d s = Inr sg"
  shows "sg_event_id sg = sd_id d" and "sg_stream_sequence sg = s" and "sg_trigger sg = sd_subject d"
    and "gstate_parse (sd_consent d) = Some (sg_label sg)" and "ct_body (sg_content sg) = sd_body d"
    and "sg_disclosure sg = sd_disclosure d" and "\<And>t. sg_disclosure sg = Some t \<Longrightarrow> is_contract_sentence t"
    and "sg_expires_at sg = sd_expires_at d"
  using assms
  by (auto simp: read_suggestion_def known_or_def contract_sentence_def result_simps split: option.splits if_splits)

section \<open>Properties\<close>

text \<open>
  C19. A request that is accepted names one suggestion by an event id and, when it brings a text,
  a non-empty one that the disclosure still fits after; without a text it claims nothing about
  who wrote it.
\<close>

theorem accepted_approval_is_one_suggestion:
  assumes "approval_request_parse body = Inr rq"
  shows "is_event_id (rq_suggestion rq) \<and> jget body ''suggestion_event_id'' = Some (JStr (rq_suggestion rq))
    \<and> (case rq_edited rq of
          None \<Rightarrow> rq_written_by rq = ByPersona
        | Some c \<Rightarrow> ct_body c \<noteq> [] \<and> chars_count (ct_body c) \<le> max_body)"
proof -
  have parts: "read_suggestion_id body = Inr (rq_suggestion rq)"
      "read_final body = Inr (rq_edited rq, rq_written_by rq)"
    using assms by (auto simp: approval_request_parse_def result_simps split: option.splits)
  have "is_event_id (rq_suggestion rq) \<and> jget body ''suggestion_event_id'' = Some (JStr (rq_suggestion rq))"
    using parts(1)
    by (auto simp: read_suggestion_id_def result_simps split: option.splits json.splits if_splits elim: jstr.elims)
  moreover have "case rq_edited rq of
      None \<Rightarrow> rq_written_by rq = ByPersona
    | Some c \<Rightarrow> ct_body c \<noteq> [] \<and> chars_count (ct_body c) \<le> max_body"
    using parts(2)
    by (auto simp: read_final_def parse_content_def result_simps split: option.splits json.splits if_splits)
  ultimately show ?thesis by blast
qed

definition some_event_id :: string where
  "some_event_id = replicate 64 (CHR ''a'')"

definition edited_request :: json where
  "edited_request = JObj
     [(''suggestion_event_id'', JStr some_event_id),
      (''final'', JObj [(''body'', JStr ''See you at 8''), (''written_by'', JStr ''owner'')])]"

theorem accepted_approval_is_one_suggestion_witness:
  "case approval_request_parse edited_request of
     Inr rq \<Rightarrow> is_event_id (rq_suggestion rq) \<and> rq_edited rq = Some \<lparr>ct_body = ''See you at 8'', ct_format = PlainText\<rparr>
   | Inl e \<Rightarrow> False"
proof -
  let ?rq = "\<lparr>rq_suggestion = some_event_id, rq_approved_by = None,
              rq_edited = Some \<lparr>ct_body = ''See you at 8'', ct_format = PlainText\<rparr>, rq_written_by = ByOwner\<rparr>"
  have "approval_request_parse edited_request = Inr ?rq" by code_simp
  with accepted_approval_is_one_suggestion [of edited_request ?rq] show ?thesis by simp
qed

text \<open>
  C18. What a lookup that was not cut short answers is about the bus: the suggestion it finds is
  retained under that id, and \<^verbatim>\<open>suggestion_not_found\<close> means that no retained message is a
  suggestion of that id.
\<close>

theorem lookup_answers_for_the_stream:
  assumes "stream_ok ss" and "length (ss_messages ss) \<le> given"
  shows "case find_suggestion window registry (Some (ss, given)) i of
      Inr sg \<Rightarrow> sg_event_id sg = i
        \<and> (\<exists>m \<in> set (ss_messages ss). bm_subject m = suggest_subject \<and> bm_sequence m = sg_stream_sequence sg
             \<and> with_id read_suggestion_document sd_id i m \<noteq> None)
    | Inl e \<Rightarrow> e = SuggestionNotFound \<longrightarrow>
        (\<forall>m \<in> set (ss_messages ss). bm_subject m = suggest_subject \<longrightarrow> with_id read_suggestion_document sd_id i m = None)"
proof (cases "find_suggestion window registry (Some (ss, given)) i")
  case (Inr sg)
  then obtain d s where found: "scan window suggest_subject None (with_id read_suggestion_document sd_id i) (ss, given) = Match d s"
      "read_suggestion registry d s = Inr sg"
    by (auto simp: find_suggestion_Inr_iff)
  from scan_Match [OF found(1)] obtain m where m: "m \<in> set (ss_messages ss)" "bm_subject m = suggest_subject"
      "with_id read_suggestion_document sd_id i m = Some d" "bm_sequence m = s"
    by blast
  then have "sg_event_id sg = i \<and> bm_sequence m = sg_stream_sequence sg"
    using read_suggestion_Inr(1,2) [OF found(2)] with_id_SomeD [OF m(3)] by simp
  with m Inr show ?thesis by auto
next
  case (Inl e)
  show ?thesis unfolding Inl sum.case
  proof (intro impI ballI)
    fix m
    assume e: "e = SuggestionNotFound" and m: "m \<in> set (ss_messages ss)" "bm_subject m = suggest_subject"
    have "scan window suggest_subject None (with_id read_suggestion_document sd_id i) (ss, given) = NoMatch True"
      using Inl e
      by (cases "scan window suggest_subject None (with_id read_suggestion_document sd_id i) (ss, given)")
        (auto simp: find_suggestion_def dest: read_suggestion_Inl split: if_splits)
    then show "with_id read_suggestion_document sd_id i m = None"
      using assms m by (rule scan_NoMatch) simp
  qed
qed

text \<open>
  A small stream: a message from a contact on WhatsApp, then the reply a persona suggests.
\<close>

definition some_message :: json where
  "some_message = JObj
     [(''id'', JStr ''m1''), (''source'', JStr ''matrix://x/!r:x''), (''subject'', JStr ''@whatsapp_1:x''),
      (''network'', JStr ''whatsapp''), (''connection'', JStr ''whatsapp'')]"

definition some_suggestion :: json where
  "some_suggestion = JObj
     [(''id'', JStr some_event_id), (''source'', JStr ''hermes://x/personas/p''), (''subject'', JStr ''m1''),
      (''network'', JStr ''whatsapp''), (''connection'', JStr ''whatsapp''), (''consent'', JStr ''granted''),
      (''data'', JObj
         [(''persona_id'', JStr ''p''),
          (''suggestion'', JObj [(''body'', JStr ''At 8''), (''format'', JStr ''text/plain'')]),
          (''disclosure'', JStr ''Drafted with my AI assistant.'')])]"

definition some_stream :: stream_state where
  "some_stream = \<lparr>ss_first = 1, ss_last = 2, ss_messages =
     [\<lparr>bm_sequence = 1, bm_subject = inbound_subject, bm_document = Some some_message, bm_headers = []\<rparr>,
      \<lparr>bm_sequence = 2, bm_subject = suggest_subject, bm_document = Some some_suggestion, bm_headers = []\<rparr>]\<rparr>"

definition some_registry :: "connection list" where
  "some_registry =
     [\<lparr>conn_id = ''whatsapp'', conn_kind = ''whatsapp'', conn_label = ''WhatsApp'', conn_bridge_id = None,
       conn_bridge_bot = None\<rparr>]"

theorem lookup_answers_for_the_stream_witness:
  "\<exists>sg. find_suggestion 20000 some_registry (Some (some_stream, 2)) some_event_id = Inr sg
     \<and> sg_event_id sg = some_event_id \<and> sg_stream_sequence sg = 2"
proof -
  have "stream_ok some_stream" "length (ss_messages some_stream) \<le> 2"
    by (simp_all add: stream_ok_def some_stream_def increasing_def)
  note answers = lookup_answers_for_the_stream
    [OF this, where window = 20000 and registry = some_registry and i = some_event_id]
  have "case find_suggestion 20000 some_registry (Some (some_stream, 2)) some_event_id of
      Inr sg \<Rightarrow> sg_stream_sequence sg = 2 | Inl e \<Rightarrow> False"
    by code_simp
  with answers show ?thesis by (auto split: sum.splits)
qed

text \<open>
  A batch that ends or fails before it handed over the messages is not told apart from one
  that was read to its end: where the window reaches the first retained message, a suggestion
  that is on the bus is answered as not being there, the whole stream having been read.
\<close>

theorem broken_read_is_taken_for_a_whole_one:
  assumes "ss_last ss - window \<le> max (ss_first ss) 1"
  shows "find_suggestion window registry (Some (ss, 0)) i = Inl SuggestionNotFound"
  using assms by (simp add: find_suggestion_def scan_def fetched_def Let_def)

theorem broken_read_is_taken_for_a_whole_one_witness:
  "find_suggestion 20000 some_registry (Some (some_stream, 0)) some_event_id = Inl SuggestionNotFound
   \<and> (\<exists>m \<in> set (ss_messages some_stream). with_id read_suggestion_document sd_id some_event_id m \<noteq> None)"
proof -
  have "ss_last some_stream - 20000 \<le> max (ss_first some_stream) 1" by (simp add: some_stream_def)
  moreover have "\<exists>m \<in> set (ss_messages some_stream). with_id read_suggestion_document sd_id some_event_id m \<noteq> None"
    by code_simp
  ultimately show ?thesis using broken_read_is_taken_for_a_whole_one [of some_stream 20000] by blast
qed

end
