(* ===== verification/Approvals.thy ===== *)
theory Approvals
  imports Suggestions Consent_Store Connection_Status
begin

text \<open>
  The act of \<^verbatim>\<open>companion-gateway/src/approval.rs\<close> that turns a suggestion into a reply on
  the bus, its table in \<^verbatim>\<open>store.rs\<close>, the reads beside it and the routes of
  \<^verbatim>\<open>approval_http.rs\<close>.
\<close>

section \<open>The table\<close>

text \<open>
  The rows are in the order of their sequence, which nothing else reads. An insert under an
  event id that is there is ignored; another row of the same suggestion and approver violates
  the second unique constraint.
\<close>

definition record_approval :: "recorded_approval \<Rightarrow> recorded_approval list \<Rightarrow> recorded_approval list option" where
  "record_approval row rows =
     (if list_ex (\<lambda>r. ar_event_id r = ar_event_id row) rows then Some rows
      else if list_ex (\<lambda>r. ar_suggestion r = ar_suggestion row \<and> ar_approved_by r = ar_approved_by row) rows
      then None
      else Some (rows @ [row]))"

definition stored_position :: "nat \<Rightarrow> nat" where
  "stored_position s = min s (2 ^ 63 - 1)"

definition mark_approval_published ::
  "string \<Rightarrow> string \<Rightarrow> nat \<Rightarrow> recorded_approval list \<Rightarrow> recorded_approval list" where
  "mark_approval_published i at s =
     map (\<lambda>r. if ar_event_id r = i \<and> ar_published_at r = None
               then r\<lparr>ar_published_at := Some at, ar_stream_sequence := Some (stored_position s)\<rparr>
               else r)"

definition approval_of :: "recorded_approval list \<Rightarrow> string \<Rightarrow> recorded_approval option" where
  "approval_of rows i = List.find (\<lambda>r. ar_suggestion r = i) rows"

definition publication :: "recorded_approval \<Rightarrow> string" where
  "publication r = (if ar_published_at r = None then ''unpublished'' else ''published'')"

section \<open>The approved reply\<close>

record approval =
  av_suggestion :: suggestion
  av_trigger :: trigger
  av_approved_by :: string
  av_content :: content
  av_edited :: bool
  av_written_by :: authorship
  av_disclosure :: "string option"

definition approval_id :: "(string \<Rightarrow> 8 word list) \<Rightarrow> string \<Rightarrow> string \<Rightarrow> string" where
  "approval_id digest suggestion_id approved_by =
     concat (map hex_byte (digest (suggestion_id @ '':'' @ approved_by)))"

definition final_body :: "approval \<Rightarrow> string" where
  "final_body av =
     (case av_disclosure av of
        Some sentence \<Rightarrow> append_sentence (ct_body (av_content av)) sentence
      | None \<Rightarrow> ct_body (av_content av))"

definition approval_data :: "approval \<Rightarrow> json" where
  "approval_data av =
     (let sg = av_suggestion av;
          data = JObj
            [(''persona_id'', JStr (sg_persona_id sg)),
             (''suggestion_event_id'', JStr (sg_event_id sg)),
             (''approved_by'', JStr (av_approved_by av)),
             (''final'', JObj [(''body'', JStr (final_body av)),
                               (''format'', JStr (format_as_str (ct_format (av_content av))))]),
             (''edited'', JBool (av_edited av)),
             (''written_by'', JStr (authorship_as_str (av_written_by av))),
             (''target'', target_json (tg_target (av_trigger av)))]
      in case av_disclosure av of
           None \<Rightarrow> data
         | Some sentence \<Rightarrow> jset data ''disclosure'' (JStr sentence))"

definition approval_envelope :: "(string \<Rightarrow> 8 word list) \<Rightarrow> approval \<Rightarrow> string \<Rightarrow> json" where
  "approval_envelope digest av produced_at =
     (let sg = av_suggestion av;
          event = JObj
            [(''specversion'', JStr ''1.0''),
             (''id'', JStr (approval_id digest (sg_event_id sg) (av_approved_by av))),
             (''source'', JStr (sg_source sg)),
             (''type'', JStr ''fr.linagora.twalk.persona.reply.approved.v1''),
             (''time'', JStr produced_at),
             (''subject'', JStr (sg_event_id sg)),
             (''datacontenttype'', JStr ''application/json''),
             (''dataschema'', JStr (''https://schemas.twalk.dev/cloudevents/v1/''
                @ ''persona.reply.approved.schema.json'')),
             (''network'', JStr (network_as_str (sg_network sg))),
             (''connection'', JStr (sg_connection sg)),
             (''consent'', JStr (gstate_as_str (sg_label sg))),
             (''data'', approval_data av)]
      in case sg_traceparent sg of
           None \<Rightarrow> event
         | Some trace \<Rightarrow> jset event ''traceparent'' (JStr trace))"

text \<open>What is handed to the bus: the subject, the headers with the id first, the document.\<close>

record outgoing =
  og_subject :: string
  og_headers :: "(string \<times> string) list"
  og_payload :: json

definition publish_envelope :: "string \<Rightarrow> string \<Rightarrow> json \<Rightarrow> (string \<times> string) list \<Rightarrow> outgoing" where
  "publish_envelope event_subject i document extensions =
     \<lparr>og_subject = event_subject, og_headers = (''Nats-Msg-Id'', i) # extensions, og_payload = document\<rparr>"

definition publish_approval :: "string \<Rightarrow> json \<Rightarrow> approval \<Rightarrow> outgoing" where
  "publish_approval i document av =
     (let sg = av_suggestion av in
      publish_envelope approved_subject i document
        ([(''network'', network_as_str (sg_network sg)), (''connection'', sg_connection sg),
          (''consent'', gstate_as_str (sg_label sg))]
         @ (case sg_traceparent sg of None \<Rightarrow> [] | Some trace \<Rightarrow> [(''traceparent'', trace)])))"

section \<open>The checks\<close>

record approvals =
  ap_consent :: store
  ap_switches :: switches
  ap_links :: link_store
  ap_registry :: "connection list"
  ap_owner :: string
  ap_window :: nat
  ap_rows :: "recorded_approval list"

text \<open>
  The circumstances of a call: whether the bus could be connected to, what its two reads
  got, the two readings of the clock, which statements SQLite runs, and what became of the
  publication.
\<close>

datatype bus_answer = NotSent | Unanswered | Stored nat

record circumstances =
  ci_connected :: bool
  ci_suggestions :: "(stream_state \<times> nat) option"
  ci_inbound :: "(stream_state \<times> nat) option"
  ci_now :: string
  ci_marked_at :: string
  ci_consent_read :: bool
  ci_switch_read :: bool
  ci_rows_read :: bool
  ci_links_read :: bool
  ci_recorded :: bool
  ci_marked :: bool
  ci_bus :: bus_answer

text \<open>
  \<open>rfc3339\<close> is the reader of the \<^verbatim>\<open>time\<close> crate, as instants.
\<close>

definition has_passed :: "(string \<Rightarrow> int option) \<Rightarrow> string \<Rightarrow> string \<Rightarrow> bool" where
  "has_passed rfc3339 expires_at now =
     (case (rfc3339 expires_at, rfc3339 now) of
        (Some e, Some n) \<Rightarrow> e \<le> n
      | _ \<Rightarrow> False)"

definition check_expiry :: "(string \<Rightarrow> int option) \<Rightarrow> suggestion \<Rightarrow> string \<Rightarrow> approval_refusal + unit" where
  "check_expiry rfc3339 sg now =
     (case sg_expires_at sg of
        None \<Rightarrow> Inr ()
      | Some e \<Rightarrow> if has_passed rfc3339 e now then Inl (SuggestionExpired e now) else Inr ())"

definition check_label :: "suggestion \<Rightarrow> approval_refusal + unit" where
  "check_label sg = (if sg_label sg = SGranted then Inr () else Inl (NeverConsented (sg_label sg)))"

definition check_owner :: "string option \<Rightarrow> string \<Rightarrow> approval_refusal + unit" where
  "check_owner stated o_id =
     (case stated of
        None \<Rightarrow> Inr ()
      | Some s \<Rightarrow> if s = o_id then Inr () else Inl (NotTheOwner s o_id))"

definition consent_now :: "bool \<Rightarrow> store \<Rightarrow> string \<Rightarrow> string \<Rightarrow> network \<Rightarrow> approval_refusal + unit" where
  "consent_now reads st contact c n =
     (if \<not> reads then Inl StoreUnavailable
      else (case eff_state (store_effective st contact c n) of
              SGranted \<Rightarrow> Inr ()
            | SRevoked \<Rightarrow> Inl (ConsentRevoked contact n)
            | SPending \<Rightarrow> Inl (ConsentPending contact n)))"

definition connection_can_send ::
  "bool \<Rightarrow> link_store \<Rightarrow> connection list \<Rightarrow> string \<Rightarrow> approval_refusal + unit" where
  "connection_can_send reads links registry c =
     (if \<not> reads then Inl StoreUnavailable
      else
        (case connection_status links c of
           Some cu \<Rightarrow>
             if is_connected cu then Inr () else Inl (ConnectionNotConnected c (cu_state cu) (cu_hint cu))
         | None \<Rightarrow>
             (case registry_get registry c of
                None \<Rightarrow> Inr ()
              | Some k \<Rightarrow>
                  if conn_kind k = ''email'' \<or> conn_kind k = ''calendar''
                  then Inl (ConnectionNotConnected c ''unknown''
                         (Some (''No collector has reported this connection yet: start the collector ''
                                @ ''that holds it, or check its log'')))
                  else Inr ())))"

definition authored :: "authorship \<Rightarrow> content \<Rightarrow> content \<Rightarrow> authorship" where
  "authored claimed chosen draft = (if claimed = ByOwner \<and> chosen \<noteq> draft then ByOwner else ByPersona)"

definition fits_with_disclosure :: "string \<Rightarrow> string \<Rightarrow> bool" where
  "fits_with_disclosure body sentence \<longleftrightarrow> chars_count body + 1 + chars_count sentence \<le> contract_max_body"

definition check_fits :: "string \<Rightarrow> string option \<Rightarrow> approval_refusal + unit" where
  "check_fits body sentence =
     (case sentence of
        None \<Rightarrow> Inr ()
      | Some s \<Rightarrow> if fits_with_disclosure body s then Inr ()
                  else Inl (SuggestionUnreadable (NoRoomForTheDisclosure (chars_count body))))"

definition build_approval ::
  "string \<Rightarrow> approval_request \<Rightarrow> suggestion \<Rightarrow> trigger \<Rightarrow> bool \<Rightarrow> approval" where
  "build_approval o_id rq sg tg switch_on =
     (let chosen = (case rq_edited rq of Some c \<Rightarrow> c | None \<Rightarrow> sg_content sg);
          by = authored (rq_written_by rq) chosen (sg_content sg)
      in \<lparr>av_suggestion = sg, av_trigger = tg, av_approved_by = o_id, av_content = chosen,
          av_edited = (chosen \<noteq> sg_content sg), av_written_by = by,
          av_disclosure = (if switch_on \<and> by = ByPersona then sg_disclosure sg else None)\<rparr>)"

definition check_not_approved :: "bool \<Rightarrow> recorded_approval list \<Rightarrow> string \<Rightarrow> approval_refusal + unit" where
  "check_not_approved reads rows i =
     (if \<not> reads then Inl StoreUnavailable
      else (case approval_of rows i of
              Some r \<Rightarrow> if ar_published_at r \<noteq> None then Inl (AlreadyApproved r) else Inr ()
            | None \<Rightarrow> Inr ()))"

definition read_disclosure_switch :: "bool \<Rightarrow> switches \<Rightarrow> approval_refusal + bool" where
  "read_disclosure_switch reads sw =
     and_then (ok_or StoreUnavailable (if reads then read_switch_state Disclosure sw else None)) (\<lambda>s.
       Inr (enabled s))"

text \<open>Everything before the write, in the order of the code.\<close>

definition found_suggestion ::
  "(string \<Rightarrow> int option) \<Rightarrow> circumstances \<Rightarrow> approval_request \<Rightarrow> approvals \<Rightarrow> approval_refusal + suggestion" where
  "found_suggestion rfc3339 ci rq ap =
     and_then (check_owner (rq_approved_by rq) (ap_owner ap)) (\<lambda>_.
     and_then (if ci_connected ci then Inr () else Inl BusUnreachable) (\<lambda>_.
     and_then (find_suggestion (ap_window ap) (ap_registry ap) (ci_suggestions ci) (rq_suggestion rq)) (\<lambda>sg.
     and_then (check_expiry rfc3339 sg (ci_now ci)) (\<lambda>_.
     and_then (check_label sg) (\<lambda>_. Inr sg)))))"

definition prepare_approval ::
  "(string \<Rightarrow> int option) \<Rightarrow> circumstances \<Rightarrow> approval_request \<Rightarrow> approvals \<Rightarrow> approval_refusal + approval" where
  "prepare_approval rfc3339 ci rq ap =
     and_then (found_suggestion rfc3339 ci rq ap) (\<lambda>sg.
     and_then (find_trigger (ap_window ap) (ap_registry ap) (ci_inbound ci) sg) (\<lambda>tg.
     and_then (consent_now (ci_consent_read ci) (ap_consent ap) (tg_contact tg) (tg_connection tg) (tg_network tg)) (\<lambda>_.
     and_then (read_disclosure_switch (ci_switch_read ci) (ap_switches ap)) (\<lambda>switch_on.
     let av = build_approval (ap_owner ap) rq sg tg switch_on in
     and_then (check_fits (ct_body (av_content av)) (av_disclosure av)) (\<lambda>_.
     and_then (check_not_approved (ci_rows_read ci) (ap_rows ap) (sg_event_id sg)) (\<lambda>_.
     and_then (connection_can_send (ci_links_read ci) (ap_links ap) (ap_registry ap) (tg_connection tg)) (\<lambda>_.
       Inr av)))))))"

section \<open>The act\<close>

definition approval_row :: "(string \<Rightarrow> 8 word list) \<Rightarrow> approval \<Rightarrow> string \<Rightarrow> recorded_approval" where
  "approval_row digest av now =
     \<lparr>ar_event_id = approval_id digest (sg_event_id (av_suggestion av)) (av_approved_by av),
      ar_suggestion = sg_event_id (av_suggestion av), ar_approved_by = av_approved_by av,
      ar_persona_id = sg_persona_id (av_suggestion av), ar_network = tg_network (av_trigger av),
      ar_contact = tg_contact (av_trigger av), ar_edited = av_edited av,
      ar_written_by = authorship_as_str (av_written_by av), ar_approved_at = now,
      ar_published_at = None, ar_stream_sequence = None\<rparr>"

record approved =
  ad_event_id :: string
  ad_approval :: approval
  ad_approved_at :: string
  ad_stream_sequence :: nat

text \<open>The answer, what was handed to the bus, and the state after.\<close>

definition send_approval ::
  "(string \<Rightarrow> 8 word list) \<Rightarrow> circumstances \<Rightarrow> approval \<Rightarrow> recorded_approval list \<Rightarrow> approvals
    \<Rightarrow> (approval_refusal + approved) \<times> outgoing list \<times> approvals" where
  "send_approval digest ci av rows ap =
     (let i = approval_id digest (sg_event_id (av_suggestion av)) (av_approved_by av);
          m = publish_approval i (approval_envelope digest av (ci_now ci)) av;
          ap' = ap\<lparr>ap_rows := rows\<rparr>
      in case ci_bus ci of
           NotSent \<Rightarrow> (Inl BusUnreachable, [], ap')
         | Unanswered \<Rightarrow> (Inl BusUnreachable, [m], ap')
         | Stored s \<Rightarrow>
             if \<not> ci_marked ci then (Inl Unrecorded, [m], ap')
             else (Inr \<lparr>ad_event_id = i, ad_approval = av, ad_approved_at = ci_now ci, ad_stream_sequence = s\<rparr>,
                   [m], ap\<lparr>ap_rows := mark_approval_published i (ci_marked_at ci) s rows\<rparr>))"

definition approve ::
  "(string \<Rightarrow> 8 word list) \<Rightarrow> (string \<Rightarrow> int option) \<Rightarrow> circumstances \<Rightarrow> approval_request \<Rightarrow> approvals
    \<Rightarrow> (approval_refusal + approved) \<times> outgoing list \<times> approvals" where
  "approve digest rfc3339 ci rq ap =
     (case prepare_approval rfc3339 ci rq ap of
        Inl e \<Rightarrow> (Inl e, [], ap)
      | Inr av \<Rightarrow>
          (case if ci_recorded ci then record_approval (approval_row digest av (ci_now ci)) (ap_rows ap) else None of
             None \<Rightarrow> (Inl StoreUnavailable, [], ap)
           | Some rows \<Rightarrow> send_approval digest ci av rows ap))"

section \<open>The reads beside it\<close>

text \<open>The message a suggestion answers, as the screen of the owner may read it.\<close>

record answered =
  an_contact :: "string option"
  an_received_at :: "string option"
  an_body :: string
  an_format :: string
  an_attachments :: nat

record answered_document =
  nd_id :: string
  nd_subject :: string
  nd_network :: string
  nd_connection :: "string option"
  nd_answered :: answered

definition display_name_in :: "json \<Rightarrow> string option option" where
  "display_name_in data =
     do {
       contact \<leftarrow> optional_object data ''contact'';
       (case contact of None \<Rightarrow> Some None | Some c \<Rightarrow> optional_text c ''display_name'')
     }"

definition read_answered_document :: "json \<Rightarrow> answered_document option" where
  "read_answered_document j =
     do {
       i \<leftarrow> text_at j ''id'';
       subject \<leftarrow> text_at j ''subject'';
       n \<leftarrow> text_at j ''network'';
       c \<leftarrow> optional_text j ''connection'';
       data \<leftarrow> defaulted_object j ''data'';
       body \<leftarrow> optional_text data ''body'';
       f \<leftarrow> optional_text data ''format'';
       at \<leftarrow> optional_text data ''network_timestamp'';
       name \<leftarrow> display_name_in data;
       files \<leftarrow> (case jget data ''attachments'' of None \<Rightarrow> Some [] | Some v \<Rightarrow> jarr v);
       Some \<lparr>nd_id = i, nd_subject = subject, nd_network = n, nd_connection = c,
             nd_answered = \<lparr>an_contact = name, an_received_at = at,
               an_body = (case body of None \<Rightarrow> [] | Some b \<Rightarrow> b),
               an_format = (case f of None \<Rightarrow> format_as_str PlainText | Some x \<Rightarrow> x),
               an_attachments = length files\<rparr>\<rparr>
     }"

definition answered_message :: "circumstances \<Rightarrow> string \<Rightarrow> approvals \<Rightarrow> approval_refusal + answered" where
  "answered_message ci i ap =
     and_then (if ci_connected ci then Inr () else Inl BusUnreachable) (\<lambda>_.
     and_then (find_suggestion (ap_window ap) (ap_registry ap) (ci_suggestions ci) i) (\<lambda>sg.
     and_then (check_label sg) (\<lambda>_.
     and_then (trigger_lookup (ap_window ap) read_answered_document nd_id (ci_inbound ci)
                 (Some (sg_stream_sequence sg)) (sg_trigger sg)) (\<lambda>d.
     let n = (case network_parse (nd_network d) of Some n \<Rightarrow> n | None \<Rightarrow> sg_network sg) in
     and_then (connection_of (ap_registry ap) (nd_connection d) n) (\<lambda>c.
     and_then (consent_now (ci_consent_read ci) (ap_consent ap) (nd_subject d) c n) (\<lambda>_.
       Inr (nd_answered d)))))))"

text \<open>The message an answer from Hermes is about, without its words.\<close>

record trigger_envelope =
  te_connection :: string
  te_event_id :: string
  te_event_type :: string
  te_contact :: string
  te_display_name :: "string option"
  te_network :: network
  te_label :: gstate
  te_traceparent :: "string option"

record envelope_document =
  ed_id :: string
  ed_type :: string
  ed_subject :: string
  ed_network :: string
  ed_connection :: "string option"
  ed_consent :: string
  ed_traceparent :: "string option"
  ed_display_name :: "string option"

definition read_envelope_document :: "json \<Rightarrow> envelope_document option" where
  "read_envelope_document j =
     do {
       i \<leftarrow> text_at j ''id'';
       t \<leftarrow> text_at j ''type'';
       subject \<leftarrow> text_at j ''subject'';
       n \<leftarrow> text_at j ''network'';
       c \<leftarrow> optional_text j ''connection'';
       label \<leftarrow> text_at j ''consent'';
       trace \<leftarrow> optional_text j ''traceparent'';
       data \<leftarrow> optional_object j ''data'';
       name \<leftarrow> (case data of None \<Rightarrow> Some None | Some d \<Rightarrow> display_name_in d);
       Some \<lparr>ed_id = i, ed_type = t, ed_subject = subject, ed_network = n, ed_connection = c,
             ed_consent = label, ed_traceparent = trace, ed_display_name = name\<rparr>
     }"

definition nonempty_name :: "string option \<Rightarrow> string option" where
  "nonempty_name name = Option.bind name (\<lambda>s. if trim s = [] then None else Some (trim s))"

definition read_trigger_envelope :: "connection list \<Rightarrow> envelope_document \<Rightarrow> approval_refusal + trigger_envelope" where
  "read_trigger_envelope registry d =
     and_then (known_or (NetworkUnknown (ed_network d)) (network_parse (ed_network d))) (\<lambda>n.
     and_then (known_or (ConsentUnknown (ed_consent d)) (gstate_parse (ed_consent d))) (\<lambda>label.
     and_then (connection_of registry (ed_connection d) n) (\<lambda>c.
       Inr \<lparr>te_connection = c, te_event_id = ed_id d, te_event_type = ed_type d, te_contact = ed_subject d,
            te_display_name = nonempty_name (ed_display_name d), te_network = n, te_label = label,
            te_traceparent = ed_traceparent d\<rparr>)))"

definition trigger_envelope_of :: "circumstances \<Rightarrow> string \<Rightarrow> approvals \<Rightarrow> approval_refusal + trigger_envelope" where
  "trigger_envelope_of ci i ap =
     and_then (if ci_connected ci then Inr () else Inl BusUnreachable) (\<lambda>_.
     and_then (trigger_lookup (ap_window ap) read_envelope_document ed_id (ci_inbound ci) None i)
       (read_trigger_envelope (ap_registry ap)))"

text \<open>
  The reports about a reply: the copy of the approval the Sensor or the collector put on a
  sibling subject, found forward from the position of the publication. \<open>looked\<close> is the read,
  \<open>None\<close> when the bus did not answer.
\<close>

record posted =
  po_reach :: string
  po_posted_as :: string
  po_stream_sequence :: nat

record given_up =
  gu_reason :: "string option"
  gu_stream_sequence :: nat

definition report_id :: "json \<Rightarrow> string option" where
  "report_id j = text_at j ''id''"

definition sibling_report ::
  "nat \<Rightarrow> (stream_state \<times> nat) option \<Rightarrow> recorded_approval \<Rightarrow> string \<Rightarrow> (retained \<Rightarrow> 'a option) \<Rightarrow> 'a option" where
  "sibling_report window looked row sibling read =
     Option.bind (ar_stream_sequence row) (\<lambda>s.
     Option.bind looked
       (scan_forward window (approved_subject @ ''.'' @ sibling) s
          (\<lambda>m. if Option.bind (bm_document m) report_id = Some (ar_event_id row) then read m else None)))"

definition read_posted :: "retained \<Rightarrow> posted option" where
  "read_posted m =
     do {
       reach \<leftarrow> map_of (bm_headers m) ''reach'';
       by_whom \<leftarrow> map_of (bm_headers m) ''posted-as'';
       Some \<lparr>po_reach = reach, po_posted_as = by_whom, po_stream_sequence = bm_sequence m\<rparr>
     }"

definition posted_report :: "nat \<Rightarrow> (stream_state \<times> nat) option \<Rightarrow> recorded_approval \<Rightarrow> posted option" where
  "posted_report window looked row = sibling_report window looked row ''posted'' read_posted"

definition header_reason :: "(string \<times> string) list \<Rightarrow> string option" where
  "header_reason headers = nonempty_name (map_of headers ''reason'')"

definition given_up_report :: "nat \<Rightarrow> (stream_state \<times> nat) option \<Rightarrow> recorded_approval \<Rightarrow> given_up option" where
  "given_up_report window looked row =
     sibling_report window looked row ''dead''
       (\<lambda>m. Some \<lparr>gu_reason = header_reason (bm_headers m), gu_stream_sequence = bm_sequence m\<rparr>)"

section \<open>The routes\<close>

definition recorded_json :: "recorded_approval \<Rightarrow> json" where
  "recorded_json r =
     JObj [(''event_id'', JStr (ar_event_id r)), (''suggestion_event_id'', JStr (ar_suggestion r)),
           (''approved_by'', JStr (ar_approved_by r)), (''persona_id'', JStr (ar_persona_id r)),
           (''network'', JStr (network_as_str (ar_network r))), (''contact'', JStr (ar_contact r)),
           (''edited'', JBool (ar_edited r)), (''written_by'', JStr (ar_written_by r)),
           (''approved_at'', JStr (ar_approved_at r)), (''publication'', JStr (publication r)),
           (''stream_sequence'', (case ar_stream_sequence r of None \<Rightarrow> JNull | Some s \<Rightarrow> JNum (int s))),
           (''published_at'', nullable (ar_published_at r))]"

definition approved_row :: "approved \<Rightarrow> recorded_approval" where
  "approved_row a =
     (let av = ad_approval a in
      \<lparr>ar_event_id = ad_event_id a, ar_suggestion = sg_event_id (av_suggestion av),
       ar_approved_by = av_approved_by av, ar_persona_id = sg_persona_id (av_suggestion av),
       ar_network = tg_network (av_trigger av), ar_contact = tg_contact (av_trigger av),
       ar_edited = av_edited av, ar_written_by = authorship_as_str (av_written_by av),
       ar_approved_at = ad_approved_at a, ar_published_at = Some (ad_approved_at a),
       ar_stream_sequence = Some (ad_stream_sequence a)\<rparr>)"

definition approved_json :: "approved \<Rightarrow> json" where
  "approved_json a = recorded_json (approved_row a)"

text \<open>An answer of these routes: a document with its status, or an error with the record it is about.\<close>

datatype approval_answer =
    Answer nat json
  | Refusal nat string "recorded_approval option"

definition answer_refusal :: "approval_refusal \<Rightarrow> approval_answer" where
  "answer_refusal e =
     Refusal (refusal_status e) (refusal_code e) (case e of AlreadyApproved r \<Rightarrow> Some r | _ \<Rightarrow> None)"

definition approve_route ::
  "(string \<Rightarrow> 8 word list) \<Rightarrow> (string \<Rightarrow> int option) \<Rightarrow> circumstances \<Rightarrow> json option \<Rightarrow> approvals option
    \<Rightarrow> approval_answer \<times> outgoing list \<times> approvals option" where
  "approve_route digest rfc3339 ci body gateway =
     (case gateway of
        None \<Rightarrow> (Refusal 503 ''approvals_not_configured'' None, [], None)
      | Some ap \<Rightarrow>
          (case body of
             None \<Rightarrow> (Refusal 400 ''malformed_request'' None, [], gateway)
           | Some j \<Rightarrow>
               (case approval_request_parse j of
                  Inl e \<Rightarrow> (answer_refusal (InvalidRequest e), [], gateway)
                | Inr rq \<Rightarrow>
                    (case approve digest rfc3339 ci rq ap of
                       (Inr a, sent, ap') \<Rightarrow> (Answer 201 (approved_json a), sent, Some ap')
                     | (Inl e, sent, ap') \<Rightarrow> (answer_refusal e, sent, Some ap')))))"

definition posted_json :: "posted \<Rightarrow> json" where
  "posted_json p =
     JObj [(''reach'', JStr (po_reach p)), (''posted_as'', JStr (po_posted_as p)),
           (''stream_sequence'', JNum (int (po_stream_sequence p)))]"

definition given_up_json :: "given_up \<Rightarrow> json" where
  "given_up_json g =
     JObj [(''reason'', nullable (gu_reason g)), (''stream_sequence'', JNum (int (gu_stream_sequence g)))]"

definition json_or_null :: "json option \<Rightarrow> json" where
  "json_or_null j = (case j of None \<Rightarrow> JNull | Some v \<Rightarrow> v)"

text \<open>The two reports are read one after the other, each from the bus as it then is.\<close>

definition approval_of_suggestion ::
  "bool \<Rightarrow> (stream_state \<times> nat) option \<Rightarrow> (stream_state \<times> nat) option \<Rightarrow> string \<Rightarrow> approvals option
    \<Rightarrow> approval_answer" where
  "approval_of_suggestion reads for_posted for_dead i gateway =
     (case gateway of
        None \<Rightarrow> Refusal 503 ''approvals_not_configured'' None
      | Some ap \<Rightarrow>
          if \<not> is_event_id i then Refusal 400 ''malformed_request'' None
          else if \<not> reads then Refusal 500 ''store_unavailable'' None
          else
            (case approval_of (ap_rows ap) i of
               None \<Rightarrow> Refusal 404 ''approval_not_found'' None
             | Some r \<Rightarrow>
                 Answer 200
                   (jset (jset (recorded_json r) ''posted''
                            (json_or_null (map_option posted_json (posted_report (ap_window ap) for_posted r))))
                      ''given_up''
                      (json_or_null (map_option given_up_json (given_up_report (ap_window ap) for_dead r))))))"

section \<open>What a publication implies\<close>

lemma check_simps [result_simps]:
  "check_owner stated o_id = Inr u \<longleftrightarrow> (\<forall>s. stated = Some s \<longrightarrow> s = o_id)"
  "check_label sg = Inr u \<longleftrightarrow> sg_label sg = SGranted"
  "check_expiry rfc3339 sg now = Inr u \<longleftrightarrow> (\<forall>e. sg_expires_at sg = Some e \<longrightarrow> \<not> has_passed rfc3339 e now)"
  "check_fits body sentence = Inr u \<longleftrightarrow> (\<forall>s. sentence = Some s \<longrightarrow> fits_with_disclosure body s)"
  "check_not_approved reads rows i = Inr u \<longleftrightarrow>
     reads \<and> (\<forall>r. approval_of rows i = Some r \<longrightarrow> ar_published_at r = None)"
  "consent_now reads st contact c n = Inr u \<longleftrightarrow> reads \<and> eff_state (store_effective st contact c n) = SGranted"
  by (auto simp: check_owner_def check_label_def check_expiry_def check_fits_def check_not_approved_def consent_now_def
      split: option.splits if_splits gstate.splits)

lemma prepare_approval_Inr:
  assumes "prepare_approval rfc3339 ci rq ap = Inr av"
  obtains sg tg switch_on where
    "found_suggestion rfc3339 ci rq ap = Inr sg"
    "find_trigger (ap_window ap) (ap_registry ap) (ci_inbound ci) sg = Inr tg"
    "eff_state (store_effective (ap_consent ap) (tg_contact tg) (tg_connection tg) (tg_network tg)) = SGranted"
    "read_disclosure_switch (ci_switch_read ci) (ap_switches ap) = Inr switch_on"
    "av = build_approval (ap_owner ap) rq sg tg switch_on"
    "\<forall>s. av_disclosure av = Some s \<longrightarrow> fits_with_disclosure (ct_body (av_content av)) s"
    "\<forall>r. approval_of (ap_rows ap) (sg_event_id sg) = Some r \<longrightarrow> ar_published_at r = None"
    "connection_can_send (ci_links_read ci) (ap_links ap) (ap_registry ap) (tg_connection tg) = Inr ()"
  using assms by (auto simp: prepare_approval_def result_simps Let_def)

lemma found_suggestion_Inr:
  assumes "found_suggestion rfc3339 ci rq ap = Inr sg"
  shows "find_suggestion (ap_window ap) (ap_registry ap) (ci_suggestions ci) (rq_suggestion rq) = Inr sg"
    and "\<And>s. rq_approved_by rq = Some s \<Longrightarrow> s = ap_owner ap"
    and "\<And>e. sg_expires_at sg = Some e \<Longrightarrow> \<not> has_passed rfc3339 e (ci_now ci)"
    and "sg_label sg = SGranted"
  using assms by (auto simp: found_suggestion_def result_simps split: if_splits)

lemma find_suggestion_id: "find_suggestion window registry looked i = Inr sg \<Longrightarrow> sg_event_id sg = i"
proof -
  assume "find_suggestion window registry looked i = Inr sg"
  then obtain r d s where found: "scan window suggest_subject None (with_id read_suggestion_document sd_id i) r = Match d s"
      "read_suggestion registry d s = Inr sg"
    by (auto simp: find_suggestion_Inr_iff)
  obtain ss given where "r = (ss, given)" by (cases r)
  with scan_Match [of window suggest_subject None _ ss given d s] found(1) obtain m where
    "with_id read_suggestion_document sd_id i m = Some d" by blast
  then show ?thesis using read_suggestion_Inr(1) [OF found(2)] with_id_SomeD by fastforce
qed

lemma send_approval_sent:
  "send_approval digest ci av rows ap = (r, sent, ap') \<Longrightarrow> m \<in> set sent \<Longrightarrow>
     m = publish_approval (approval_id digest (sg_event_id (av_suggestion av)) (av_approved_by av))
           (approval_envelope digest av (ci_now ci)) av"
  by (auto simp: send_approval_def Let_def split: bus_answer.splits if_splits)

lemma approve_sent:
  assumes "approve digest rfc3339 ci rq ap = (r, sent, ap')" and "m \<in> set sent"
  obtains av where "prepare_approval rfc3339 ci rq ap = Inr av"
    and "m = publish_approval (approval_id digest (sg_event_id (av_suggestion av)) (av_approved_by av))
               (approval_envelope digest av (ci_now ci)) av"
  using assms send_approval_sent
  by (auto simp: approve_def split: sum.splits option.splits if_splits)

lemma build_approval_simps [simp]:
  "av_suggestion (build_approval o_id rq sg tg e) = sg"
  "av_trigger (build_approval o_id rq sg tg e) = tg"
  "av_approved_by (build_approval o_id rq sg tg e) = o_id"
  by (simp_all add: build_approval_def Let_def)

lemma build_approval_disclosure:
  "av_disclosure (build_approval o_id rq sg tg e) =
     (if e \<and> av_written_by (build_approval o_id rq sg tg e) = ByPersona then sg_disclosure sg else None)"
  by (simp add: build_approval_def Let_def)

lemma envelope_reads [json_simps]:
  "jget (approval_envelope digest av now) ''data'' = Some (approval_data av)"
  "jget (approval_envelope digest av now) ''subject'' = Some (JStr (sg_event_id (av_suggestion av)))"
  "jget (approval_envelope digest av now) ''id'' =
     Some (JStr (approval_id digest (sg_event_id (av_suggestion av)) (av_approved_by av)))"
  "jget (approval_data av) ''target'' = Some (target_json (tg_target (av_trigger av)))"
  "jget (approval_data av) ''approved_by'' = Some (JStr (av_approved_by av))"
  "Option.bind (jget (approval_data av) ''final'') (\<lambda>f. jget f ''body'') = Some (JStr (final_body av))"
  "jget (approval_data av) ''written_by'' = Some (JStr (authorship_as_str (av_written_by av)))"
  "jget (approval_data av) ''edited'' = Some (JBool (av_edited av))"
  "jget (approval_data av) ''disclosure'' = map_option JStr (av_disclosure av)"
  by (simp_all add: approval_envelope_def approval_data_def Let_def split: option.split)

lemma publish_approval_simps [simp]:
  "og_payload (publish_approval i doc av) = doc"
  "og_headers (publish_approval i doc av) = (''Nats-Msg-Id'', i) # tl (og_headers (publish_approval i doc av))"
  by (simp_all add: publish_approval_def publish_envelope_def Let_def)

section \<open>Properties\<close>

text \<open>
  C10. Nothing is handed to the bus unless the suggestion asked for and the message it answers
  were found there, the suggestion is not past its instant, the message was observed
  \<^verbatim>\<open>granted\<close> and the contact is effectively granted in the store as it is read for this very
  call, on the connection the message came by, no approval of the suggestion is marked
  published, and the connection can send. What is handed over is approved by the owner and
  addressed where that message came from.
\<close>

theorem reply_leaves_only_with_consent:
  assumes "approve digest rfc3339 ci rq ap = (r, sent, ap')" and "m \<in> set sent"
  shows "\<exists>sg tg. find_suggestion (ap_window ap) (ap_registry ap) (ci_suggestions ci) (rq_suggestion rq) = Inr sg
     \<and> find_trigger (ap_window ap) (ap_registry ap) (ci_inbound ci) sg = Inr tg
     \<and> eff_state (store_effective (ap_consent ap) (tg_contact tg) (tg_connection tg) (tg_network tg)) = SGranted
     \<and> sg_label sg = SGranted \<and> (\<forall>e. sg_expires_at sg = Some e \<longrightarrow> \<not> has_passed rfc3339 e (ci_now ci))
     \<and> (\<forall>row. approval_of (ap_rows ap) (rq_suggestion rq) = Some row \<longrightarrow> ar_published_at row = None)
     \<and> connection_can_send (ci_links_read ci) (ap_links ap) (ap_registry ap) (tg_connection tg) = Inr ()
     \<and> jpointer (og_payload m) [''data'', ''target''] = Some (target_json (tg_target tg))
     \<and> jpointer (og_payload m) [''data'', ''approved_by''] = Some (JStr (ap_owner ap))
     \<and> jget (og_payload m) ''subject'' = Some (JStr (rq_suggestion rq))"
proof -
  obtain av where av: "prepare_approval rfc3339 ci rq ap = Inr av"
    and m: "m = publish_approval (approval_id digest (sg_event_id (av_suggestion av)) (av_approved_by av))
               (approval_envelope digest av (ci_now ci)) av"
    using approve_sent [OF assms] by blast
  from av obtain sg tg switch_on where parts:
    "found_suggestion rfc3339 ci rq ap = Inr sg"
    "find_trigger (ap_window ap) (ap_registry ap) (ci_inbound ci) sg = Inr tg"
    "eff_state (store_effective (ap_consent ap) (tg_contact tg) (tg_connection tg) (tg_network tg)) = SGranted"
    "av = build_approval (ap_owner ap) rq sg tg switch_on"
    "\<forall>r. approval_of (ap_rows ap) (sg_event_id sg) = Some r \<longrightarrow> ar_published_at r = None"
    "connection_can_send (ci_links_read ci) (ap_links ap) (ap_registry ap) (tg_connection tg) = Inr ()"
    by (rule prepare_approval_Inr)
  note found = found_suggestion_Inr [OF parts(1)]
  have "sg_event_id sg = rq_suggestion rq" using found(1) by (rule find_suggestion_id)
  then show ?thesis
    using parts found m by (intro exI [of _ sg] exI [of _ tg]) (simp add: json_simps)
qed

text \<open>
  C12. The reply carries the disclosure of the suggestion, as its last line and as a member,
  exactly when the switch reads on and the text counts as the persona's, and a text counts as
  the owner's only if the owner claimed it and it differs from the draft. With a disclosure
  the body is within the contract's cap.
\<close>

theorem drafted_reply_is_disclosed:
  assumes "approve digest rfc3339 ci rq ap = (r, sent, ap')" and "m \<in> set sent"
  shows "\<exists>sg switch_on chosen. find_suggestion (ap_window ap) (ap_registry ap) (ci_suggestions ci) (rq_suggestion rq) = Inr sg
     \<and> map_option enabled (read_switch_state Disclosure (ap_switches ap)) = Some switch_on
     \<and> chosen = (case rq_edited rq of Some c \<Rightarrow> c | None \<Rightarrow> sg_content sg)
     \<and> jpointer (og_payload m) [''data'', ''edited''] = Some (JBool (chosen \<noteq> sg_content sg))
     \<and> jpointer (og_payload m) [''data'', ''written_by''] =
         Some (JStr (if rq_written_by rq = ByOwner \<and> chosen \<noteq> sg_content sg then ''owner'' else ''persona''))
     \<and> (case if switch_on \<and> \<not> (rq_written_by rq = ByOwner \<and> chosen \<noteq> sg_content sg) then sg_disclosure sg else None of
          None \<Rightarrow> jpointer (og_payload m) [''data'', ''final'', ''body''] = Some (JStr (ct_body chosen))
            \<and> jpointer (og_payload m) [''data'', ''disclosure''] = None
        | Some sentence \<Rightarrow>
            jpointer (og_payload m) [''data'', ''final'', ''body''] = Some (JStr (append_sentence (ct_body chosen) sentence))
            \<and> jpointer (og_payload m) [''data'', ''disclosure''] = Some (JStr sentence)
            \<and> is_contract_sentence sentence
            \<and> chars_count (append_sentence (ct_body chosen) sentence) \<le> contract_max_body)"
proof -
  obtain av where av: "prepare_approval rfc3339 ci rq ap = Inr av"
    and m: "m = publish_approval (approval_id digest (sg_event_id (av_suggestion av)) (av_approved_by av))
               (approval_envelope digest av (ci_now ci)) av"
    using approve_sent [OF assms] by blast
  from av obtain sg tg switch_on where parts:
    "found_suggestion rfc3339 ci rq ap = Inr sg"
    "read_disclosure_switch (ci_switch_read ci) (ap_switches ap) = Inr switch_on"
    "av = build_approval (ap_owner ap) rq sg tg switch_on"
    "\<forall>s. av_disclosure av = Some s \<longrightarrow> fits_with_disclosure (ct_body (av_content av)) s"
    by (rule prepare_approval_Inr)
  note found = found_suggestion_Inr(1) [OF parts(1)]
  from found have contract: "\<And>t. sg_disclosure sg = Some t \<Longrightarrow> is_contract_sentence t"
    by (auto simp: find_suggestion_Inr_iff dest: read_suggestion_Inr(7))
  have switch: "map_option enabled (read_switch_state Disclosure (ap_switches ap)) = Some switch_on"
    using parts(2) by (auto simp: read_disclosure_switch_def result_simps split: if_splits)
  let ?chosen = "case rq_edited rq of Some c \<Rightarrow> c | None \<Rightarrow> sg_content sg"
  have av_is: "av_content av = ?chosen" "av_edited av = (?chosen \<noteq> sg_content sg)"
      "av_written_by av = authored (rq_written_by rq) ?chosen (sg_content sg)"
      "av_disclosure av = (if switch_on \<and> av_written_by av = ByPersona then sg_disclosure sg else None)"
    unfolding parts(3) by (simp_all add: build_approval_def Let_def)
  show ?thesis
  proof (intro exI conjI)
    show "jpointer (og_payload m) [''data'', ''written_by''] =
         Some (JStr (if rq_written_by rq = ByOwner \<and> ?chosen \<noteq> sg_content sg then ''owner'' else ''persona''))"
      using m av_is by (simp add: json_simps authored_def)
    show "case if switch_on \<and> \<not> (rq_written_by rq = ByOwner \<and> ?chosen \<noteq> sg_content sg) then sg_disclosure sg else None of
          None \<Rightarrow> jpointer (og_payload m) [''data'', ''final'', ''body''] = Some (JStr (ct_body ?chosen))
            \<and> jpointer (og_payload m) [''data'', ''disclosure''] = None
        | Some sentence \<Rightarrow>
            jpointer (og_payload m) [''data'', ''final'', ''body''] = Some (JStr (append_sentence (ct_body ?chosen) sentence))
            \<and> jpointer (og_payload m) [''data'', ''disclosure''] = Some (JStr sentence)
            \<and> is_contract_sentence sentence
            \<and> chars_count (append_sentence (ct_body ?chosen) sentence) \<le> contract_max_body"
    proof (cases "av_disclosure av")
      case None
      then show ?thesis
        using m av_is(1,3,4) by (auto simp: json_simps authored_def final_body_def split: option.split if_splits)
    next
      case (Some t)
      then have t: "sg_disclosure sg = Some t" "switch_on" "\<not> (rq_written_by rq = ByOwner \<and> ?chosen \<noteq> sg_content sg)"
        using av_is(3,4) by (auto simp: authored_def split: if_splits)
      have "fits_with_disclosure (ct_body ?chosen) t" using parts(4) Some av_is(1) by metis
      with Some t m contract show ?thesis
        by (simp add: json_simps final_body_def av_is(1) append_sentence_def fits_with_disclosure_def)
    qed
  qed (use found switch m av_is in \<open>simp_all add: json_simps\<close>)
qed

section \<open>At most one approval\<close>

definition rows_wf :: "(string \<Rightarrow> 8 word list) \<Rightarrow> string \<Rightarrow> recorded_approval list \<Rightarrow> bool" where
  "rows_wf digest o_id rows \<longleftrightarrow>
     distinct (map ar_suggestion rows)
     \<and> list_all (\<lambda>r. ar_approved_by r = o_id \<and> ar_event_id r = approval_id digest (ar_suggestion r) o_id) rows"

lemma approval_id_inj: "inj digest \<Longrightarrow> approval_id digest i o_id = approval_id digest i' o_id \<longleftrightarrow> i = i'"
  by (auto simp: approval_id_def hex_bytes_inj dest: injD)

lemma approval_of_Some:
  "distinct (map ar_suggestion rows) \<Longrightarrow> approval_of rows i = Some r \<longleftrightarrow> r \<in> set rows \<and> ar_suggestion r = i"
proof (induction rows)
  case (Cons x rows)
  then show ?case by (cases "ar_suggestion x = i") (auto simp: approval_of_def image_iff)
qed (simp add: approval_of_def)

lemma approval_of_None: "approval_of rows i = None \<longleftrightarrow> i \<notin> ar_suggestion ` set rows"
  by (auto simp: approval_of_def find_None_iff image_iff)

lemma mark_wf [simp]: "rows_wf digest o_id (mark_approval_published i at s rows) \<longleftrightarrow> rows_wf digest o_id rows"
proof -
  have "map ar_suggestion (mark_approval_published i at s rows) = map ar_suggestion rows"
    by (simp add: mark_approval_published_def)
  moreover have "list_all (\<lambda>r. ar_approved_by r = o_id \<and> ar_event_id r = approval_id digest (ar_suggestion r) o_id)
       (mark_approval_published i at s rows)
     \<longleftrightarrow> list_all (\<lambda>r. ar_approved_by r = o_id \<and> ar_event_id r = approval_id digest (ar_suggestion r) o_id) rows"
    unfolding mark_approval_published_def list_all_iff set_map ball_simps by (intro ball_cong) simp_all
  ultimately show ?thesis by (simp add: rows_wf_def)
qed

lemma find_mapped: "(\<And>r. p (f r) = p r) \<Longrightarrow> List.find p (map f xs) = map_option f (List.find p xs)"
  by (induction xs) simp_all

lemma approval_of_mark:
  "approval_of (mark_approval_published i at s rows) k =
     map_option (\<lambda>r. if ar_event_id r = i \<and> ar_published_at r = None
                      then r\<lparr>ar_published_at := Some at, ar_stream_sequence := Some (stored_position s)\<rparr>
                      else r) (approval_of rows k)"
  unfolding approval_of_def mark_approval_published_def by (rule find_mapped) simp

text \<open>What a write of the row of an approval leaves, on a table of this owner's.\<close>

lemma record_approval_spec:
  assumes "rows_wf digest o_id rows" and "inj digest" and "ar_approved_by row = o_id"
    and "ar_event_id row = approval_id digest (ar_suggestion row) o_id"
  shows "record_approval row rows =
    Some (case approval_of rows (ar_suggestion row) of None \<Rightarrow> rows @ [row] | Some r \<Rightarrow> rows)"
proof -
  have same: "ar_event_id r = ar_event_id row \<longleftrightarrow> ar_suggestion r = ar_suggestion row" if "r \<in> set rows" for r
    using assms(1,4) that by (simp add: rows_wf_def list_all_iff approval_id_inj [OF assms(2)])
  show ?thesis
  proof (cases "approval_of rows (ar_suggestion row)")
    case None
    then have "ar_suggestion r \<noteq> ar_suggestion row" if "r \<in> set rows" for r
      using that unfolding approval_of_None by (metis imageI)
    then show ?thesis using None same by (auto simp: record_approval_def list_ex_iff)
  next
    case (Some r)
    then have "r \<in> set rows" "ar_suggestion r = ar_suggestion row"
      using assms(1) by (auto simp: rows_wf_def approval_of_Some)
    then have "list_ex (\<lambda>r. ar_event_id r = ar_event_id row) rows" using same by (auto simp: list_ex_iff)
    then show ?thesis using Some by (simp add: record_approval_def)
  qed
qed

lemma record_approval_wf:
  assumes "rows_wf digest o_id rows" and "inj digest" and "ar_approved_by row = o_id"
    and "ar_event_id row = approval_id digest (ar_suggestion row) o_id" and "record_approval row rows = Some rows'"
  shows "rows_wf digest o_id rows'"
  using assms by (auto simp: record_approval_spec [OF assms(1-4)] rows_wf_def approval_of_None split: option.splits)

lemma approval_row_simps [simp]:
  "ar_event_id (approval_row digest av now) = approval_id digest (sg_event_id (av_suggestion av)) (av_approved_by av)"
  "ar_suggestion (approval_row digest av now) = sg_event_id (av_suggestion av)"
  "ar_approved_by (approval_row digest av now) = av_approved_by av"
  "ar_published_at (approval_row digest av now) = None"
  by (simp_all add: approval_row_def)

text \<open>The rows a call leaves, and what it sent, in one case distinction.\<close>

lemma approve_cases:
  assumes "approve digest rfc3339 ci rq ap = (r, sent, ap')"
  obtains (refused) e where "r = Inl e" "sent = []" "ap' = ap"
  | (recorded) av rows where "prepare_approval rfc3339 ci rq ap = Inr av"
      "record_approval (approval_row digest av (ci_now ci)) (ap_rows ap) = Some rows"
      "send_approval digest ci av rows ap = (r, sent, ap')"
  using assms by (auto simp: approve_def split: sum.splits option.splits if_splits)

lemma prepared_by_the_owner:
  assumes "prepare_approval rfc3339 ci rq ap = Inr av"
  shows "av_approved_by av = ap_owner ap" and "sg_event_id (av_suggestion av) = rq_suggestion rq"
    and "\<And>r. approval_of (ap_rows ap) (rq_suggestion rq) = Some r \<Longrightarrow> ar_published_at r = None"
proof -
  obtain sg tg switch_on where parts: "found_suggestion rfc3339 ci rq ap = Inr sg"
    "av = build_approval (ap_owner ap) rq sg tg switch_on"
    "\<forall>r. approval_of (ap_rows ap) (sg_event_id sg) = Some r \<longrightarrow> ar_published_at r = None"
    by (rule prepare_approval_Inr [OF assms])
  have "sg_event_id sg = rq_suggestion rq"
    using found_suggestion_Inr(1) [OF parts(1)] by (rule find_suggestion_id)
  with parts show "av_approved_by av = ap_owner ap" "sg_event_id (av_suggestion av) = rq_suggestion rq"
    "\<And>r. approval_of (ap_rows ap) (rq_suggestion rq) = Some r \<Longrightarrow> ar_published_at r = None"
    by simp_all
qed

lemma send_approval_rows:
  "send_approval digest ci av rows ap = (r, sent, ap') \<Longrightarrow>
     ap_owner ap' = ap_owner ap \<and>
     (ap_rows ap' = rows \<and> (\<forall>a. r \<noteq> Inr a)
      \<or> (\<exists>s a. r = Inr a \<and> ad_approval a = av \<and> ad_approved_at a = ci_now ci \<and> ad_stream_sequence a = s
           \<and> ad_event_id a = approval_id digest (sg_event_id (av_suggestion av)) (av_approved_by av)
           \<and> ap_rows ap' = mark_approval_published (ad_event_id a) (ci_marked_at ci) s rows))"
  by (auto simp: send_approval_def Let_def split: bus_answer.splits if_splits)

lemma approve_keeps_wf:
  assumes "approve digest rfc3339 ci rq ap = (r, sent, ap')" and "inj digest"
    and "rows_wf digest (ap_owner ap) (ap_rows ap)"
  shows "rows_wf digest (ap_owner ap) (ap_rows ap')"
  using assms(1)
proof (cases rule: approve_cases)
  case (refused e)
  then show ?thesis using assms(3) by simp
next
  case (recorded av rows)
  note owner = prepared_by_the_owner [OF recorded(1)]
  have "rows_wf digest (ap_owner ap) rows"
    by (rule record_approval_wf [OF assms(3,2) _ _ recorded(2)]) (simp_all add: owner)
  then show ?thesis using send_approval_rows [OF recorded(3)] by auto
qed

text \<open>A published row stays and keeps its publication.\<close>

definition published_row :: "approvals \<Rightarrow> string \<Rightarrow> bool" where
  "published_row ap i \<longleftrightarrow> (\<exists>r. approval_of (ap_rows ap) i = Some r \<and> ar_published_at r \<noteq> None)"

lemma approval_of_append:
  "approval_of (rows @ [row]) i =
     (case approval_of rows i of None \<Rightarrow> if ar_suggestion row = i then Some row else None | Some r \<Rightarrow> Some r)"
  by (simp add: approval_of_def find_app split: option.split)

lemma record_approval_keeps:
  "record_approval row rows = Some rows' \<Longrightarrow> approval_of rows i = Some r \<Longrightarrow> approval_of rows' i = Some r"
  by (auto simp: record_approval_def approval_of_append split: if_splits)

lemma approve_keeps_published:
  assumes "approve digest rfc3339 ci rq ap = (r, sent, ap')" and "published_row ap i"
  shows "published_row ap' i" and "rq_suggestion rq = i \<Longrightarrow> sent = []"
proof -
  obtain row where row: "approval_of (ap_rows ap) i = Some row" "ar_published_at row \<noteq> None"
    using assms(2) by (auto simp: published_row_def)
  show "published_row ap' i" using assms(1)
  proof (cases rule: approve_cases)
    case (recorded av rows)
    have "approval_of rows i = Some row" using record_approval_keeps [OF recorded(2) row(1)] .
    then show ?thesis
      using send_approval_rows [OF recorded(3)] row(2)
      by (auto simp: published_row_def approval_of_mark)
  qed (use assms(2) in simp)
  show "sent = []" if "rq_suggestion rq = i"
    using assms(1)
  proof (cases rule: approve_cases)
    case (recorded av rows)
    then show ?thesis using prepared_by_the_owner(3) [OF recorded(1)] row that by simp
  qed
qed

lemma approved_row_is_published:
  assumes "approve digest rfc3339 ci rq ap = (Inr a, sent, ap')" and "inj digest"
    and "rows_wf digest (ap_owner ap) (ap_rows ap)"
  shows "approval_of (ap_rows ap') (rq_suggestion rq) = Some
     ((case approval_of (ap_rows ap) (rq_suggestion rq) of
         None \<Rightarrow> approval_row digest (ad_approval a) (ad_approved_at a) | Some r \<Rightarrow> r)
      \<lparr>ar_published_at := Some (ci_marked_at ci), ar_stream_sequence := Some (stored_position (ad_stream_sequence a))\<rparr>)"
  using assms(1)
proof (cases rule: approve_cases)
  case (recorded av rows)
  note owner = prepared_by_the_owner [OF recorded(1)]
  have a: "ad_approval a = av" "ad_approved_at a = ci_now ci" "ad_event_id a = approval_id digest (rq_suggestion rq) (ap_owner ap)"
    "ap_rows ap' = mark_approval_published (ad_event_id a) (ci_marked_at ci) (ad_stream_sequence a) rows"
    using send_approval_rows [OF recorded(3)] owner by auto
  have "record_approval (approval_row digest av (ci_now ci)) (ap_rows ap) =
      Some (case approval_of (ap_rows ap) (rq_suggestion rq) of
              None \<Rightarrow> ap_rows ap @ [approval_row digest av (ci_now ci)] | Some r \<Rightarrow> ap_rows ap)"
    using record_approval_spec [OF assms(3,2), of "approval_row digest av (ci_now ci)"] owner by simp
  then have rows: "rows = (case approval_of (ap_rows ap) (rq_suggestion rq) of
              None \<Rightarrow> ap_rows ap @ [approval_row digest av (ci_now ci)] | Some r \<Rightarrow> ap_rows ap)"
    using recorded(2) by simp
  show ?thesis
  proof (cases "approval_of (ap_rows ap) (rq_suggestion rq)")
    case None
    then show ?thesis using rows owner by (simp add: a approval_of_mark approval_of_append)
  next
    case (Some r)
    then have "ar_event_id r = approval_id digest (rq_suggestion rq) (ap_owner ap)" "ar_published_at r = None"
      using assms(3) owner(3) by (auto simp: rows_wf_def approval_of_Some list_all_iff)
    then show ?thesis using Some rows by (simp add: a approval_of_mark)
  qed
qed simp

text \<open>
  The calls of a run, each on whatever the rest of the Gateway then holds; the table goes from
  one to the next. What is sent is collected in order.
\<close>

fun approve_all ::
  "(string \<Rightarrow> 8 word list) \<Rightarrow> (string \<Rightarrow> int option) \<Rightarrow> (approvals \<times> circumstances \<times> approval_request) list
    \<Rightarrow> recorded_approval list \<Rightarrow> outgoing list \<times> recorded_approval list" where
  "approve_all digest rfc3339 [] rows = ([], rows)"
| "approve_all digest rfc3339 ((world, ci, rq) # calls) rows =
     (case approve digest rfc3339 ci rq (world\<lparr>ap_rows := rows\<rparr>) of
        (r, sent, ap') \<Rightarrow>
          (case approve_all digest rfc3339 calls (ap_rows ap') of
             (later, rows') \<Rightarrow> (sent @ later, rows')))"

lemma sent_subject:
  assumes "approve digest rfc3339 ci rq ap = (r, sent, ap')" and "m \<in> set sent"
  shows "jget (og_payload m) ''subject'' = Some (JStr (rq_suggestion rq))"
proof -
  obtain av where "prepare_approval rfc3339 ci rq ap = Inr av"
    and "m = publish_approval (approval_id digest (sg_event_id (av_suggestion av)) (av_approved_by av))
               (approval_envelope digest av (ci_now ci)) av"
    using approve_sent [OF assms] by blast
  then show ?thesis using prepared_by_the_owner(2) by (simp add: json_simps)
qed

lemma published_is_not_sent_again:
  "published_row (world\<lparr>ap_rows := rows\<rparr>) i \<Longrightarrow> m \<in> set (fst (approve_all digest rfc3339 calls rows))
     \<Longrightarrow> jget (og_payload m) ''subject'' \<noteq> Some (JStr i)"
proof (induction calls arbitrary: rows world)
  case (Cons call calls)
  obtain w ci rq where call: "call = (w, ci, rq)" by (cases call)
  obtain r sent ap' where act: "approve digest rfc3339 ci rq (w\<lparr>ap_rows := rows\<rparr>) = (r, sent, ap')"
    by (cases "approve digest rfc3339 ci rq (w\<lparr>ap_rows := rows\<rparr>)") auto
  have there: "published_row (w\<lparr>ap_rows := rows\<rparr>) i" using Cons.prems(1) by (simp add: published_row_def)
  note kept = approve_keeps_published [OF act there]
  have next_rows: "published_row (ap'\<lparr>ap_rows := ap_rows ap'\<rparr>) i" using kept(1) by simp
  from Cons.prems(2) consider "m \<in> set sent" | "m \<in> set (fst (approve_all digest rfc3339 calls (ap_rows ap')))"
    by (auto simp: call act split: prod.splits)
  then show ?case
  proof cases
    case 1
    then have "rq_suggestion rq \<noteq> i" using kept(2) by auto
    then show ?thesis using sent_subject [OF act 1] by simp
  next
    case 2
    show ?thesis by (rule Cons.IH [OF next_rows 2])
  qed
qed simp

text \<open>
  C11. Once an approval was answered as made, no later call sends a reply to that suggestion
  again, whatever the rest of the Gateway holds by then and whatever is asked, on a table
  that the approvals of one owner made.
\<close>

theorem suggestion_is_approved_at_most_once:
  assumes "approve digest rfc3339 ci rq ap = (Inr a, sent, ap')" and "inj digest"
    and "rows_wf digest (ap_owner ap) (ap_rows ap)"
    and "m \<in> set (fst (approve_all digest rfc3339 calls (ap_rows ap')))"
  shows "jget (og_payload m) ''subject'' \<noteq> Some (JStr (rq_suggestion rq))"
proof -
  have "published_row ap' (rq_suggestion rq)"
    using approved_row_is_published [OF assms(1-3)] by (simp add: published_row_def)
  then have "published_row (ap'\<lparr>ap_rows := ap_rows ap'\<rparr>) (rq_suggestion rq)" by simp
  then show ?thesis using assms(4) by (rule published_is_not_sent_again)
qed

text \<open>
  What \<^verbatim>\<open>GET\<close> reads back of a first approval is what \<^verbatim>\<open>POST\<close> answered, but for the instant
  of the publication, which the first gives as the instant of the call.
\<close>

theorem approval_is_read_back:
  assumes "approve digest rfc3339 ci rq ap = (Inr a, sent, ap')" and "inj digest"
    and "rows_wf digest (ap_owner ap) (ap_rows ap)" and "approval_of (ap_rows ap) (rq_suggestion rq) = None"
  shows "approval_of (ap_rows ap') (rq_suggestion rq) =
     Some ((approved_row a)\<lparr>ar_published_at := Some (ci_marked_at ci),
                            ar_stream_sequence := Some (stored_position (ad_stream_sequence a))\<rparr>)"
proof -
  have "ad_event_id a = approval_id digest (sg_event_id (av_suggestion (ad_approval a))) (av_approved_by (ad_approval a))"
    using assms(1)
  proof (cases rule: approve_cases)
    case (recorded av rows)
    then show ?thesis using send_approval_rows [OF recorded(3)] by auto
  qed simp
  then have "approval_row digest (ad_approval a) (ad_approved_at a)
      = (approved_row a)\<lparr>ar_published_at := None, ar_stream_sequence := None\<rparr>"
    by (simp add: approval_row_def approved_row_def Let_def)
  then show ?thesis using approved_row_is_published [OF assms(1-3)] assms(4) by simp
qed

text \<open>
  An approval whose first publication was not acknowledged is repaired by the next one, but
  its row keeps the account of the first: who wrote the text, whether it was edited and when it
  was approved are those of the text that was not sent, or not known to be.
\<close>

theorem repaired_approval_keeps_the_first_account:
  assumes "approve digest rfc3339 ci rq ap = (Inr a, sent, ap')" and "inj digest"
    and "rows_wf digest (ap_owner ap) (ap_rows ap)" and "approval_of (ap_rows ap) (rq_suggestion rq) = Some row"
  shows "approval_of (ap_rows ap') (rq_suggestion rq) =
     Some (row\<lparr>ar_published_at := Some (ci_marked_at ci),
                ar_stream_sequence := Some (stored_position (ad_stream_sequence a))\<rparr>)"
  using approved_row_is_published [OF assms(1-3)] assms(4) by simp

text \<open>
  The message a suggestion answers is shown only while its contact is effectively granted
  on the connection it came by, and only if it was observed granted.
\<close>

theorem message_is_shown_only_with_consent:
  assumes "answered_message ci i ap = Inr an"
  shows "\<exists>sg d c n. find_suggestion (ap_window ap) (ap_registry ap) (ci_suggestions ci) i = Inr sg
     \<and> sg_label sg = SGranted
     \<and> trigger_lookup (ap_window ap) read_answered_document nd_id (ci_inbound ci)
         (Some (sg_stream_sequence sg)) (sg_trigger sg) = Inr d
     \<and> connection_of (ap_registry ap) (nd_connection d) n = Inr c
     \<and> eff_state (store_effective (ap_consent ap) (nd_subject d) c n) = SGranted
     \<and> an = nd_answered d"
  using assms unfolding answered_message_def Let_def and_then_Inr_iff check_simps by (metis sum.inject(2))

text \<open>
  A refusal that follows a hand-over to the bus is one of two: the bus did not answer, or the
  mark could not be written. Every other answer but \<^verbatim>\<open>201\<close> means that nothing left.
\<close>

theorem refusals_send_nothing:
  "case approve_route digest rfc3339 ci body gateway of
     (Answer status doc, sent, gateway') \<Rightarrow> status = 201 \<and> length sent = 1
   | (Refusal status code about, sent, gateway') \<Rightarrow>
       sent = [] \<or> length sent = 1 \<and> code \<in> {''bus_unreachable'', ''approval_published_but_not_recorded''}"
proof (cases gateway)
  case None
  then show ?thesis by (simp add: approve_route_def)
next
  case (Some ap)
  show ?thesis
  proof (cases "\<exists>j rq. body = Some j \<and> approval_request_parse j = Inr rq")
    case False
    then show ?thesis
      by (auto simp: Some approve_route_def answer_refusal_def split: option.split sum.split)
  next
    case True
    then obtain j rq where body: "body = Some j" "approval_request_parse j = Inr rq" by blast
    obtain r sent ap' where act: "approve digest rfc3339 ci rq ap = (r, sent, ap')"
      by (cases "approve digest rfc3339 ci rq ap") auto
    have "(case r of Inr a \<Rightarrow> length sent = 1
           | Inl e \<Rightarrow> sent = [] \<or> length sent = 1 \<and> (e = BusUnreachable \<or> e = Unrecorded))"
      using act
    proof (cases rule: approve_cases)
      case (recorded av rows)
      then show ?thesis
        by (auto simp: send_approval_def Let_def split: bus_answer.splits if_splits)
    qed simp
    then show ?thesis
      by (auto simp: Some approve_route_def body act answer_refusal_def split: sum.split)
  qed
qed

section \<open>Concrete calls\<close>

definition some_granted :: store where
  "some_granted =
     fold (run_store_op bundled_sqlite byte_digest)
       [RecordConnections some_registry,
        Record (sample_decision ''@whatsapp_1:x'' SGranted [''whatsapp'']) ''@me:x'' noon ''d'' noon]
       (store_open (gowner_new ''@me:x'' []))"

definition some_approvals :: approvals where
  "some_approvals =
     \<lparr>ap_consent = some_granted, ap_switches = switches_open, ap_links = link_store_open,
      ap_registry = some_registry, ap_owner = ''@me:x'', ap_window = 20000, ap_rows = []\<rparr>"

definition some_call :: "bus_answer \<Rightarrow> circumstances" where
  "some_call b =
     \<lparr>ci_connected = True, ci_suggestions = Some (some_stream, 2), ci_inbound = Some (some_stream, 2),
      ci_now = noon, ci_marked_at = one_pm, ci_consent_read = True, ci_switch_read = True,
      ci_rows_read = True, ci_links_read = True, ci_recorded = True, ci_marked = True, ci_bus = b\<rparr>"

definition as_it_stands :: approval_request where
  "as_it_stands =
     \<lparr>rq_suggestion = some_event_id, rq_approved_by = None, rq_edited = None, rq_written_by = ByPersona\<rparr>"

definition rewritten :: approval_request where
  "rewritten = as_it_stands\<lparr>rq_edited := Some \<lparr>ct_body = ''No'', ct_format = PlainText\<rparr>, rq_written_by := ByOwner\<rparr>"

definition no_clock :: "string \<Rightarrow> int option" where
  "no_clock s = None"

lemma some_prepared: "case prepare_approval no_clock (some_call b) as_it_stands some_approvals of Inl e \<Rightarrow> False | Inr av \<Rightarrow> True"
  by code_simp

lemma some_simps:
  "ci_recorded (some_call b) = True" "ci_marked (some_call b) = True" "ci_bus (some_call b) = b"
  "ci_now (some_call b) = noon" "ci_marked_at (some_call b) = one_pm"
  "ap_rows some_approvals = []" "ap_owner some_approvals = ''@me:x''"
  by (simp_all add: some_call_def some_approvals_def)

lemma first_record: "record_approval row [] = Some [row]"
  by (simp add: record_approval_def)

lemma some_sent:
  "\<exists>m ap'. approve byte_digest no_clock (some_call Unanswered) as_it_stands some_approvals = (Inl BusUnreachable, [m], ap')
     \<and> (\<exists>row. ap_rows ap' = [row] \<and> ar_edited row = False \<and> ar_written_by row = ''persona'' \<and> ar_published_at row = None
          \<and> ar_suggestion row = some_event_id \<and> ar_approved_by row = ''@me:x''
          \<and> ar_event_id row = approval_id byte_digest some_event_id ''@me:x'')
     \<and> ap' = some_approvals\<lparr>ap_rows := ap_rows ap'\<rparr>"
proof -
  obtain av where av: "prepare_approval no_clock (some_call Unanswered) as_it_stands some_approvals = Inr av"
    using some_prepared [of Unanswered] by (auto split: sum.splits)
  note owner = prepared_by_the_owner [OF av]
  obtain sg tg switch_on where "av = build_approval (ap_owner some_approvals) as_it_stands sg tg switch_on"
    by (rule prepare_approval_Inr [OF av])
  then have "av_edited av = False" "av_written_by av = ByPersona"
    by (simp_all add: build_approval_def as_it_stands_def Let_def authored_def)
  then show ?thesis
    using owner
    by (simp add: approve_def av send_approval_def some_simps first_record Let_def)
      (simp add: approval_row_def as_it_stands_def some_simps)
qed

lemma some_approved:
  "\<exists>a m ap'. approve byte_digest no_clock (some_call (Stored 3)) as_it_stands some_approvals = (Inr a, [m], ap')"
proof -
  obtain av where av: "prepare_approval no_clock (some_call (Stored 3)) as_it_stands some_approvals = Inr av"
    using some_prepared [of "Stored 3"] by (auto split: sum.splits)
  show ?thesis by (simp add: approve_def av send_approval_def some_simps first_record Let_def)
qed

lemma no_rows_wf: "rows_wf byte_digest (ap_owner some_approvals) (ap_rows some_approvals)"
  by (simp add: rows_wf_def some_simps)

theorem reply_leaves_only_with_consent_witness:
  "\<exists>m r ap'. approve byte_digest no_clock (some_call Unanswered) as_it_stands some_approvals = (r, [m], ap')
     \<and> jpointer (og_payload m) [''data'', ''approved_by''] = Some (JStr ''@me:x'')
     \<and> jget (og_payload m) ''subject'' = Some (JStr some_event_id)"
proof -
  obtain m ap' where sent: "approve byte_digest no_clock (some_call Unanswered) as_it_stands some_approvals = (Inl BusUnreachable, [m], ap')"
    using some_sent by blast
  then show ?thesis
    using reply_leaves_only_with_consent [OF sent, of m] by (fastforce simp: some_simps as_it_stands_def)
qed

theorem drafted_reply_is_disclosed_witness:
  "\<exists>m r ap'. approve byte_digest no_clock (some_call Unanswered) as_it_stands some_approvals = (r, [m], ap')
     \<and> jpointer (og_payload m) [''data'', ''written_by''] = Some (JStr ''persona'')"
proof -
  obtain m ap' where sent: "approve byte_digest no_clock (some_call Unanswered) as_it_stands some_approvals = (Inl BusUnreachable, [m], ap')"
    using some_sent by blast
  then show ?thesis
    using drafted_reply_is_disclosed [OF sent, of m] by (fastforce simp: as_it_stands_def)
qed

theorem suggestion_is_approved_at_most_once_witness:
  "\<exists>a m ap'. approve byte_digest no_clock (some_call (Stored 3)) as_it_stands some_approvals = (Inr a, [m], ap')
     \<and> (\<forall>m' \<in> set (fst (approve_all byte_digest no_clock [(some_approvals, some_call (Stored 4), rewritten)] (ap_rows ap'))).
          jget (og_payload m') ''subject'' \<noteq> Some (JStr some_event_id))"
proof -
  obtain a m ap' where act: "approve byte_digest no_clock (some_call (Stored 3)) as_it_stands some_approvals = (Inr a, [m], ap')"
    using some_approved by blast
  then show ?thesis
    using suggestion_is_approved_at_most_once [OF act inj_byte_digest no_rows_wf]
    by (fastforce simp: as_it_stands_def)
qed

theorem approval_is_read_back_witness:
  "\<exists>a m ap'. approve byte_digest no_clock (some_call (Stored 3)) as_it_stands some_approvals = (Inr a, [m], ap')
     \<and> approval_of (ap_rows ap') some_event_id =
         Some ((approved_row a)\<lparr>ar_published_at := Some one_pm, ar_stream_sequence := Some (stored_position (ad_stream_sequence a))\<rparr>)"
proof -
  obtain a m ap' where act: "approve byte_digest no_clock (some_call (Stored 3)) as_it_stands some_approvals = (Inr a, [m], ap')"
    using some_approved by blast
  then show ?thesis
    using approval_is_read_back [OF act inj_byte_digest no_rows_wf]
    by (simp add: some_simps approval_of_def as_it_stands_def)
qed

text \<open>
  The draft is approved as it stands and the bus does not answer; the owner then writes a reply
  in its place, and that is what is sent. The record says the persona's draft went out unedited.
\<close>

definition one_unpublished :: recorded_approval where
  "one_unpublished =
     \<lparr>ar_event_id = approval_id byte_digest some_event_id ''@me:x'', ar_suggestion = some_event_id,
      ar_approved_by = ''@me:x'', ar_persona_id = ''p'', ar_network = Whatsapp, ar_contact = ''@whatsapp_1:x'',
      ar_edited = False, ar_written_by = ''persona'', ar_approved_at = noon, ar_published_at = None,
      ar_stream_sequence = None\<rparr>"

lemma rewritten_prepared:
  "case prepare_approval no_clock (some_call b) rewritten (some_approvals\<lparr>ap_rows := [one_unpublished]\<rparr>) of
     Inl e \<Rightarrow> False | Inr av \<Rightarrow> av_edited av \<and> av_written_by av = ByOwner"
  by code_simp

theorem repaired_approval_keeps_the_first_account_witness:
  "\<exists>a m ap' row. approve byte_digest no_clock (some_call (Stored 3)) rewritten (some_approvals\<lparr>ap_rows := [one_unpublished]\<rparr>)
       = (Inr a, [m], ap')
     \<and> av_edited (ad_approval a) \<and> av_written_by (ad_approval a) = ByOwner
     \<and> approval_of (ap_rows ap') some_event_id = Some row
     \<and> \<not> ar_edited row \<and> ar_written_by row = ''persona'' \<and> ar_published_at row = Some one_pm"
proof -
  let ?ap = "some_approvals\<lparr>ap_rows := [one_unpublished]\<rparr>"
  obtain av where av: "prepare_approval no_clock (some_call (Stored 3)) rewritten ?ap = Inr av"
    and made: "av_edited av" "av_written_by av = ByOwner"
    using rewritten_prepared [of "Stored 3"] by (auto split: sum.splits)
  have wf: "rows_wf byte_digest (ap_owner ?ap) (ap_rows ?ap)"
    by (simp add: rows_wf_def some_simps one_unpublished_def)
  have there: "approval_of (ap_rows ?ap) (rq_suggestion rewritten) = Some one_unpublished"
    by (simp add: approval_of_def rewritten_def as_it_stands_def one_unpublished_def)
  have "\<exists>a m ap'. approve byte_digest no_clock (some_call (Stored 3)) rewritten ?ap = (Inr a, [m], ap') \<and> ad_approval a = av"
    using record_approval_spec [OF wf inj_byte_digest, of "approval_row byte_digest av noon"]
      prepared_by_the_owner [OF av]
    by (simp add: approve_def av send_approval_def some_simps Let_def split: option.split)
  then obtain a m ap' where act: "approve byte_digest no_clock (some_call (Stored 3)) rewritten ?ap = (Inr a, [m], ap')"
    and a: "ad_approval a = av" by blast
  show ?thesis
    using repaired_approval_keeps_the_first_account [OF act inj_byte_digest wf there] act made
    by (simp add: a some_simps rewritten_def as_it_stands_def one_unpublished_def)
qed

theorem message_is_shown_only_with_consent_witness:
  "\<exists>an. answered_message (some_call NotSent) some_event_id some_approvals = Inr an
     \<and> eff_state (store_effective some_granted ''@whatsapp_1:x'' ''whatsapp'' Whatsapp) = SGranted"
proof -
  have "case answered_message (some_call NotSent) some_event_id some_approvals of Inl e \<Rightarrow> False | Inr an \<Rightarrow> True"
    by code_simp
  then obtain an where an: "answered_message (some_call NotSent) some_event_id some_approvals = Inr an"
    by (auto split: sum.splits)
  have "eff_state (store_effective some_granted ''@whatsapp_1:x'' ''whatsapp'' Whatsapp) = SGranted"
    by code_simp
  then show ?thesis using an message_is_shown_only_with_consent [OF an] by blast
qed

text \<open>
  A body over the contract's cap is refused when it is brought by the request, or when a
  sentence is to follow it; the draft of a persona that goes without one is not measured.
\<close>

lemma long_draft_is_not_measured:
  "check_fits (ct_body (av_content (build_approval o_id as_it_stands sg tg False)))
     (av_disclosure (build_approval o_id as_it_stands sg tg False)) = Inr ()
   \<and> final_body (build_approval o_id as_it_stands sg tg False) = ct_body (sg_content sg)"
  by (simp add: build_approval_def as_it_stands_def check_fits_def final_body_def Let_def)

end
