(* ===== verification/Contacts.thy ===== *)
theory Contacts
  imports Suggestions Handoff Ordered_Maps
begin

text \<open>
  The contacts waiting for a decision: \<^verbatim>\<open>companion-gateway/src/contacts.rs\<close>, its table and
  view in \<^verbatim>\<open>store.rs\<close> and the routes of \<^verbatim>\<open>contacts_http.rs\<close>. The \<^verbatim>\<open>time\<close> crate is a parameter:
  \<open>tc_parse\<close> reads an RFC 3339 text as an instant and \<open>tc_utc\<close> gives the parts of an instant
  in UTC.
\<close>

section \<open>Instants\<close>

record utc_parts =
  up_year :: int
  up_month :: nat
  up_day :: nat
  up_hour :: nat
  up_minute :: nat
  up_second :: nat
  up_millisecond :: nat

record time_crate =
  tc_parse :: "string \<Rightarrow> int option"
  tc_utc :: "int \<Rightarrow> utc_parts"

definition padded :: "nat \<Rightarrow> nat \<Rightarrow> string" where
  "padded w n = replicate (w - length (dec n)) (CHR ''0'') @ dec n"

text \<open>\<^verbatim>\<open>{:04}\<close> of a signed year: the sign takes a place of the width.\<close>

definition padded_year :: "int \<Rightarrow> string" where
  "padded_year y = (if 0 \<le> y then padded 4 (nat y) else ''-'' @ padded 3 (nat (- y)))"

definition render_parts :: "utc_parts \<Rightarrow> string" where
  "render_parts t =
     padded_year (up_year t) @ ''-'' @ padded 2 (up_month t) @ ''-'' @ padded 2 (up_day t) @ ''T'' @
     padded 2 (up_hour t) @ '':'' @ padded 2 (up_minute t) @ '':'' @ padded 2 (up_second t) @ ''.'' @
     padded 3 (up_millisecond t) @ ''Z''"

definition canonical_instant :: "time_crate \<Rightarrow> string \<Rightarrow> string option" where
  "canonical_instant tc raw = map_option (\<lambda>t. render_parts (tc_utc tc t)) (tc_parse tc raw)"

section \<open>A sighting\<close>

record inbound_header =
  ih_subject :: string
  ih_network :: string
  ih_connection :: "string option"
  ih_time :: string

definition read_inbound_header :: "json \<Rightarrow> inbound_header option" where
  "read_inbound_header j =
     do {
       subject \<leftarrow> text_at j ''subject'';
       n \<leftarrow> text_at j ''network'';
       c \<leftarrow> optional_text j ''connection'';
       t \<leftarrow> text_at j ''time'';
       Some \<lparr>ih_subject = subject, ih_network = n, ih_connection = c, ih_time = t\<rparr>
     }"

datatype not_a_sighting =
    NotAContact
  | UnknownNetworkOf string
  | UnreadableTime string
  | Unplaced unresolved

record correspondent =
  co_contact :: string
  co_connection :: string
  co_network :: network
  co_at :: string

definition correspondent_read ::
  "time_crate \<Rightarrow> gateway_owner \<Rightarrow> connection list \<Rightarrow> inbound_header
    \<Rightarrow> not_a_sighting + correspondent" where
  "correspondent_read tc ow registry h =
     (if gowner_is_owner ow (ih_subject h) \<or> ih_subject h = [] then Inl NotAContact
      else
        and_then (ok_or (UnknownNetworkOf (ih_network h)) (network_parse (ih_network h))) (\<lambda>n.
        case registry_resolve registry (ih_connection h) (network_as_str n) of
          Inl why_not \<Rightarrow> Inl (Unplaced why_not)
        | Inr c \<Rightarrow>
            and_then (ok_or (UnreadableTime (ih_time h)) (canonical_instant tc (ih_time h))) (\<lambda>at.
              Inr \<lparr>co_contact = ih_subject h, co_connection = conn_id c, co_network = n, co_at = at\<rparr>)))"

section \<open>The table\<close>

text \<open>One row per contact and connection; text compares byte by byte.\<close>

record contact_row =
  cr_contact :: string
  cr_connection :: string
  cr_first_seen :: string
  cr_last_seen :: string

type_synonym seen_contacts = "contact_row list"

definition row_at :: "seen_contacts \<Rightarrow> string \<times> string \<Rightarrow> contact_row option" where
  "row_at rows k = List.find (\<lambda>r. (cr_contact r, cr_connection r) = k) rows"

definition observe_one :: "string \<times> string \<times> string \<Rightarrow> seen_contacts \<Rightarrow> seen_contacts" where
  "observe_one = (\<lambda>(contact, c, at) rows.
     (if row_at rows (contact, c) = None
      then rows @ [\<lparr>cr_contact = contact, cr_connection = c, cr_first_seen = at, cr_last_seen = at\<rparr>]
      else map (\<lambda>r. if (cr_contact r, cr_connection r) = (contact, c)
                     then r\<lparr>cr_first_seen := min (cr_first_seen r) at, cr_last_seen := max (cr_last_seen r) at\<rparr>
                     else r) rows))"

text \<open>
  One transaction: a connection that is not in the table the rows refer to fails it as a whole,
  and so does a statement SQLite does not run.
\<close>

definition observe_contacts ::
  "bool \<Rightarrow> store \<Rightarrow> (string \<times> string \<times> string) list \<Rightarrow> seen_contacts \<Rightarrow> seen_contacts option" where
  "observe_contacts runs st sightings rows =
     (if sightings = [] then Some rows
      else if runs \<and> list_all (\<lambda>(contact, c, at). map_of (registered st) c \<noteq> None) sightings
      then Some (fold observe_one sightings rows)
      else None)"

section \<open>The consumer\<close>

text \<open>What one batch has to record; a message that cannot be read is passed over.\<close>

definition sighting_of ::
  "time_crate \<Rightarrow> gateway_owner \<Rightarrow> connection list \<Rightarrow> json option
    \<Rightarrow> (string \<times> string \<times> string) option" where
  "sighting_of tc ow registry document =
     do {
       j \<leftarrow> document;
       h \<leftarrow> read_inbound_header j;
       (case correspondent_read tc ow registry h of
          Inl e \<Rightarrow> None
        | Inr s \<Rightarrow> Some (co_contact s, co_connection s, co_at s))
     }"

definition batch_sightings ::
  "time_crate \<Rightarrow> gateway_owner \<Rightarrow> connection list \<Rightarrow> json option list
    \<Rightarrow> (string \<times> string \<times> string) list" where
  "batch_sightings tc ow registry documents = List.map_filter (sighting_of tc ow registry) documents"

text \<open>
  A batch is recorded and then acknowledged; what is not acknowledged comes again in a later
  one. The answer says whether the batch may be acknowledged.
\<close>

definition drain_contacts ::
  "time_crate \<Rightarrow> connection list \<Rightarrow> bool \<Rightarrow> store \<Rightarrow> json option list \<Rightarrow> seen_contacts
    \<Rightarrow> bool \<times> seen_contacts" where
  "drain_contacts tc registry runs st documents rows =
     (case observe_contacts runs st (batch_sightings tc (store_owner st) registry documents) rows of
        None \<Rightarrow> (False, rows)
      | Some rows' \<Rightarrow> (True, rows'))"

section \<open>The contacts waiting for a decision\<close>

record seen_contact =
  sc_contact :: string
  sc_connection :: string
  sc_network :: network
  sc_first_seen :: string
  sc_last_seen :: string

definition decided_about :: "store \<Rightarrow> contact_row \<Rightarrow> string \<Rightarrow> bool" where
  "decided_about st r kind \<longleftrightarrow>
     list_ex (\<lambda>(d, c). c = cr_connection r
        \<and> (row_subject d = \<lparr>subject_kind = ContactSubject, subject_id = cr_contact r\<rparr>
           \<or> row_subject d = \<lparr>subject_kind = NetworkSubject, subject_id = kind\<rparr>)) (consent_state_view st)"

definition pending_contact_view :: "store \<Rightarrow> seen_contacts \<Rightarrow> (contact_row \<times> string) list" where
  "pending_contact_view st rows =
     List.map_filter (\<lambda>r. case map_of (registered st) (cr_connection r) of
                            None \<Rightarrow> None
                          | Some kind \<Rightarrow> if decided_about st r kind then None else Some (r, kind)) rows"

definition pending_rows :: "store \<Rightarrow> seen_contacts \<Rightarrow> (contact_row \<times> string) list" where
  "pending_rows st rows =
     filter (\<lambda>(r, kind). \<not> gowner_is_owner (store_owner st) (cr_contact r)) (pending_contact_view st rows)"

definition pending_order :: "contact_row \<times> string \<Rightarrow> string \<times> string \<times> string" where
  "pending_order = (\<lambda>(r, kind). (cr_first_seen r, cr_contact r, cr_connection r))"

definition read_pending_row :: "contact_row \<times> string \<Rightarrow> store_error + seen_contact" where
  "read_pending_row = (\<lambda>(r, kind).
     and_then (ok_or UnreadableRow (network_parse kind)) (\<lambda>n.
       Inr \<lparr>sc_contact = cr_contact r, sc_connection = cr_connection r, sc_network = n,
            sc_first_seen = cr_first_seen r, sc_last_seen = cr_last_seen r\<rparr>))"

definition pending_contacts :: "store \<Rightarrow> seen_contacts \<Rightarrow> store_error + seen_contact list" where
  "pending_contacts st rows = traverse read_pending_row (sort_key pending_order (pending_rows st rows))"

definition pending_contact_count :: "store \<Rightarrow> seen_contacts \<Rightarrow> nat" where
  "pending_contact_count st rows = length (pending_rows st rows)"

section \<open>What a grant would answer\<close>

text \<open>A count per key, one key at a time; the entries in the order of the keys.\<close>

definition tick :: "'k :: linorder \<Rightarrow> ('k \<times> nat) list \<Rightarrow> ('k \<times> nat) list" where
  "tick k m = btree_insert k ((case map_of m k of None \<Rightarrow> 0 | Some n \<Rightarrow> n) + 1) m"

definition tally_by :: "('a \<Rightarrow> 'k :: linorder) \<Rightarrow> 'a list \<Rightarrow> ('k \<times> nat) list" where
  "tally_by key xs = fold (\<lambda>x. tick (key x)) xs []"

definition waiting_read_back_limit :: nat where
  "waiting_read_back_limit = 5000"

text \<open>
  The label of a message and its header; \<open>arrived\<close> is when the bus stored a message, by which
  it starts a read at an instant. \<open>given\<close> is how many messages the batch handed over.
\<close>

definition waiting_key ::
  "time_crate \<Rightarrow> int \<Rightarrow> gateway_owner \<Rightarrow> connection list \<Rightarrow> json \<Rightarrow> (string \<times> string) option" where
  "waiting_key tc cutoff ow registry j =
     do {
       h \<leftarrow> read_inbound_header j;
       label \<leftarrow> optional_text j ''consent'';
       (if label = Some ''pending'' then Some () else None);
       t \<leftarrow> tc_parse tc (ih_time h);
       (if t < cutoff then None else Some ());
       (case correspondent_read tc ow registry h of
          Inl e \<Rightarrow> None
        | Inr s \<Rightarrow> Some (co_contact s, co_connection s))
     }"

definition since_instant :: "(nat \<Rightarrow> int) \<Rightarrow> int \<Rightarrow> nat \<Rightarrow> nat \<Rightarrow> stream_state \<Rightarrow> retained list" where
  "since_instant arrived cutoff most given ss =
     take (min given most)
       (filter (\<lambda>m. bm_subject m = inbound_subject \<and> cutoff \<le> arrived (bm_sequence m)) (ss_messages ss))"

definition waiting ::
  "time_crate \<Rightarrow> gateway_owner \<Rightarrow> connection list \<Rightarrow> int \<Rightarrow> int \<Rightarrow> (nat \<Rightarrow> int) \<Rightarrow> stream_state \<times> nat
    \<Rightarrow> ((string \<times> string) \<times> nat) list" where
  "waiting tc ow registry now reach arrived = (\<lambda>(ss, given).
     (if reach = 0 \<or> ss_last ss = 0 then []
      else
        let cutoff = now - reach in
        tally_by id
          (List.map_filter (\<lambda>m. Option.bind (bm_document m) (waiting_key tc cutoff ow registry))
            (since_instant arrived cutoff waiting_read_back_limit given ss))))"

section \<open>The names on the bus\<close>

definition display_name_window :: nat where
  "display_name_window = 1000"

definition read_display_name :: "json \<Rightarrow> (string \<times> string) option" where
  "read_display_name j =
     do {
       subject \<leftarrow> text_at j ''subject'';
       d \<leftarrow> jget j ''data'';
       c \<leftarrow> jget d ''contact'';
       name \<leftarrow> optional_text c ''display_name'';
       n \<leftarrow> name;
       Some (subject, n)
     }"

definition note_name :: "string list \<Rightarrow> retained \<Rightarrow> (string \<rightharpoonup> string) \<Rightarrow> (string \<rightharpoonup> string)" where
  "note_name asked m found_names =
     (case Option.bind (bm_document m) read_display_name of
        None \<Rightarrow> found_names
      | Some (subject, name) \<Rightarrow>
          if subject \<in> set asked then found_names(subject \<mapsto> name) else found_names)"

definition name_window_start :: "stream_state \<Rightarrow> nat" where
  "name_window_start ss = max (ss_last ss - display_name_window) 1"

definition display_names :: "string list \<Rightarrow> stream_state \<times> nat \<Rightarrow> (string \<times> string option) list" where
  "display_names asked = (\<lambda>(ss, given).
     (let found_names =
        (if 0 < ss_last ss \<and> asked \<noteq> []
         then fold (note_name asked)
                (fetched inbound_subject (name_window_start ss) display_name_window given ss) Map.empty
         else Map.empty)
      in map (\<lambda>c. (c, found_names c)) asked))"

section \<open>The routes\<close>

definition pending_json :: "seen_contact \<Rightarrow> ((string \<times> string) \<times> nat) list option \<Rightarrow> json" where
  "pending_json s counted =
     JObj [(''contact'', JStr (sc_contact s)),
           (''connection'', JStr (sc_connection s)),
           (''network'', JStr (network_as_str (sc_network s))),
           (''first_seen'', JStr (sc_first_seen s)),
           (''last_seen'', JStr (sc_last_seen s)),
           (''waiting'',
              case counted of
                None \<Rightarrow> JNull
              | Some m \<Rightarrow> JNum (int (case map_of m (sc_contact s, sc_connection s) of None \<Rightarrow> 0 | Some n \<Rightarrow> n)))]"

datatype contact_filter = OfConnection string | OfNetwork network

fun filter_admits :: "contact_filter \<Rightarrow> seen_contact \<Rightarrow> bool" where
  "filter_admits (OfConnection i) s \<longleftrightarrow> sc_connection s = i"
| "filter_admits (OfNetwork n) s \<longleftrightarrow> n = sc_network s"

definition shown :: "contact_filter option \<Rightarrow> seen_contact list \<Rightarrow> seen_contact list" where
  "shown fl pending = filter (\<lambda>s. case fl of None \<Rightarrow> True | Some f \<Rightarrow> filter_admits f s) pending"

definition by_connection :: "seen_contact list \<Rightarrow> ((string \<times> string) \<times> nat) list" where
  "by_connection pending = tally_by (\<lambda>s. (network_as_str (sc_network s), sc_connection s)) pending"

definition by_network :: "seen_contact list \<Rightarrow> ((string \<times> string) \<times> nat) list" where
  "by_network pending = tally_by (\<lambda>s. (network_as_str (sc_network s), [])) pending"

definition pending_document ::
  "seen_contact list \<Rightarrow> contact_filter option \<Rightarrow> nat \<Rightarrow> ((string \<times> string) \<times> nat) list option \<Rightarrow> json" where
  "pending_document pending fl reach_seconds counted =
     JObj [(''total'', JNum (int (length pending))),
           (''reach_seconds'', JNum (int reach_seconds)),
           (''connections'', JArr (map (\<lambda>((n, c), count).
              JObj [(''connection'', JStr c), (''network'', JStr n), (''count'', JNum (int count))])
              (by_connection pending))),
           (''networks'', JArr (map (\<lambda>((n, _), count).
              JObj [(''network'', JStr n), (''count'', JNum (int count))]) (by_network pending))),
           (''contacts'', JArr (map (\<lambda>s. pending_json s counted) (shown fl pending)))]"

text \<open>A query keeps one value per key; an empty value is none.\<close>

definition query_value :: "(string \<rightharpoonup> string) \<Rightarrow> string \<Rightarrow> string option" where
  "query_value query k = (case query k of Some v \<Rightarrow> if v = [] then None else Some v | None \<Rightarrow> None)"

definition read_filter :: "connection list \<Rightarrow> (string \<rightharpoonup> string) \<Rightarrow> unit + contact_filter option" where
  "read_filter registry query =
     (case query_value query ''connection'' of
        Some c \<Rightarrow> (case registry_get registry c of None \<Rightarrow> Inl () | Some _ \<Rightarrow> Inr (Some (OfConnection c)))
      | None \<Rightarrow>
          (case query_value query ''network'' of
             Some n \<Rightarrow> and_then (ok_or () (network_parse n)) (\<lambda>n. Inr (Some (OfNetwork n)))
           | None \<Rightarrow> Inr None))"

text \<open>\<open>counted\<close> is what a count would answer, \<open>None\<close> when the bus cannot be read.\<close>

definition pending_route ::
  "bool \<Rightarrow> connection list \<Rightarrow> (string \<rightharpoonup> string) \<Rightarrow> nat \<Rightarrow> ((string \<times> string) \<times> nat) list option
    \<Rightarrow> store_error + seen_contact list \<Rightarrow> response" where
  "pending_route configured registry query reach_seconds counted pending =
     (if \<not> configured then ApiError 503 ''contacts_not_configured''
      else
        case read_filter registry query of
          Inl _ \<Rightarrow> ApiError 400 ''unknown_value''
        | Inr fl \<Rightarrow>
            let asked = query_value query ''waiting'' in
            if asked \<noteq> None \<and> asked \<noteq> Some ''true'' then ApiError 400 ''unknown_value''
            else
              case pending of
                Inl e \<Rightarrow> ApiError 500 ''store_unavailable''
              | Inr rows \<Rightarrow>
                  Served (pending_document rows fl reach_seconds (if asked = None then None else counted)))"

definition max_display_name_lookups :: nat where
  "max_display_name_lookups = 200"

text \<open>The decoded pairs of the query, in order.\<close>

definition contact_parameters :: "(string \<times> string) list \<Rightarrow> string list" where
  "contact_parameters pairs =
     fold (\<lambda>(k, v) asked. if k \<noteq> ''contact'' \<or> v = [] \<or> v \<in> set asked then asked else asked @ [v]) pairs []"

definition display_names_route ::
  "bool \<Rightarrow> (string \<times> string) list \<Rightarrow> (stream_state \<times> nat) option \<Rightarrow> response" where
  "display_names_route configured pairs looked =
     (if \<not> configured then ApiError 503 ''contacts_not_configured''
      else
        let asked = contact_parameters pairs in
        if asked = [] \<or> max_display_name_lookups < length asked then ApiError 400 ''malformed_request''
        else
          case looked of
            None \<Rightarrow> ApiError 502 ''bus_unreachable''
          | Some r \<Rightarrow>
              Served (JObj [(''contacts'', JArr (map (\<lambda>(c, name).
                 JObj [(''contact'', JStr c),
                       (''display_name'', case name of None \<Rightarrow> JNull | Some n \<Rightarrow> JStr n)])
                 (display_names asked r)))]))"

section \<open>Rows and their extremes\<close>

lemma row_at_Some_iff_key: "row_at rows k = Some r \<Longrightarrow> (cr_contact r, cr_connection r) = k \<and> r \<in> set rows"
  unfolding row_at_def by (auto simp: find_Some_iff in_set_conv_nth)

lemma row_at_append:
  "row_at (rows @ rows') k = (case row_at rows k of Some r \<Rightarrow> Some r | None \<Rightarrow> row_at rows' k)"
  by (induction rows) (auto simp: row_at_def)

lemma row_at_single [simp]: "row_at [r] k = (if (cr_contact r, cr_connection r) = k then Some r else None)"
  by (simp add: row_at_def)

lemma row_at_map:
  assumes "\<And>r. (cr_contact (f r), cr_connection (f r)) = (cr_contact r, cr_connection r)"
  shows "row_at (map f rows) k = map_option f (row_at rows k)"
  using assms by (induction rows) (simp_all add: row_at_def)

text \<open>The row the recorded instants of one key make.\<close>

definition extremes :: "string \<times> string \<Rightarrow> string list \<Rightarrow> contact_row option" where
  "extremes k ts =
     (if ts = [] then None
      else Some \<lparr>cr_contact = fst k, cr_connection = snd k,
                 cr_first_seen = Min (set ts), cr_last_seen = Max (set ts)\<rparr>)"

definition instants_at :: "string \<times> string \<Rightarrow> (string \<times> string \<times> string) list \<Rightarrow> string list" where
  "instants_at k sightings = map (\<lambda>(contact, c, at). at) (filter (\<lambda>(contact, c, at). (contact, c) = k) sightings)"

lemma extremes_snoc:
  "extremes k (ts @ [at]) =
     (case extremes k ts of
        None \<Rightarrow> Some \<lparr>cr_contact = fst k, cr_connection = snd k, cr_first_seen = at, cr_last_seen = at\<rparr>
      | Some r \<Rightarrow> Some (r\<lparr>cr_first_seen := min (cr_first_seen r) at, cr_last_seen := max (cr_last_seen r) at\<rparr>))"
  by (auto simp: extremes_def min.commute max.commute)

lemma row_at_observe_one:
  "row_at (observe_one (contact, c, at) rows) k =
     (if k \<noteq> (contact, c) then row_at rows k
      else Some (case row_at rows k of
             None \<Rightarrow> \<lparr>cr_contact = contact, cr_connection = c, cr_first_seen = at, cr_last_seen = at\<rparr>
           | Some r \<Rightarrow> r\<lparr>cr_first_seen := min (cr_first_seen r) at, cr_last_seen := max (cr_last_seen r) at\<rparr>))"
proof (cases "row_at rows (contact, c)")
  case None
  then show ?thesis by (auto simp: observe_one_def row_at_append split: option.split)
next
  case (Some r)
  then show ?thesis
    by (cases "row_at rows k") (auto simp: observe_one_def row_at_map dest: row_at_Some_iff_key)
qed

lemma row_at_fold_observe:
  "row_at rows k = extremes k ts \<Longrightarrow>
     row_at (fold observe_one sightings rows) k = extremes k (ts @ instants_at k sightings)"
proof (induction sightings arbitrary: rows ts)
  case (Cons s sightings)
  obtain contact c at where s: "s = (contact, c, at)" by (cases s) auto
  have "row_at (observe_one s rows) k = extremes k (ts @ instants_at k [s])"
    using Cons.prems by (auto simp: s instants_at_def row_at_observe_one extremes_snoc split: option.split)
  from Cons.IH [OF this] show ?case by (simp add: instants_at_def)
qed (simp add: instants_at_def)

text \<open>Batches in the order they are drained, each with whether the store runs its transaction.\<close>

definition sightings_recorded ::
  "time_crate \<Rightarrow> connection list \<Rightarrow> store \<Rightarrow> (bool \<times> json option list) list \<Rightarrow> (string \<times> string \<times> string) list" where
  "sightings_recorded tc registry st rounds =
     concat (map (\<lambda>(runs, documents).
       (if fst (drain_contacts tc registry runs st documents [])
        then batch_sightings tc (store_owner st) registry documents else [])) rounds)"

lemma observe_contacts_Some_iff:
  "observe_contacts runs st sightings rows = Some rows' \<longleftrightarrow>
     rows' = fold observe_one sightings rows \<and> fst (drain_contacts tc registry runs st documents []) "
  if "batch_sightings tc (store_owner st) registry documents = sightings"
  using that by (auto simp: observe_contacts_def drain_contacts_def)

lemma drain_contacts_rows:
  "snd (drain_contacts tc registry runs st documents rows) =
     fold observe_one (sightings_recorded tc registry st [(runs, documents)]) rows"
  by (auto simp: drain_contacts_def observe_contacts_def sightings_recorded_def)

lemma sightings_recorded_Cons:
  "sightings_recorded tc registry st (x # xs) = sightings_recorded tc registry st [x] @ sightings_recorded tc registry st xs"
  by (simp add: sightings_recorded_def)

lemma drains_rows:
  "fold (\<lambda>(runs, documents) rows. snd (drain_contacts tc registry runs st documents rows)) rounds rows =
     fold observe_one (sightings_recorded tc registry st rounds) rows"
proof (induction rounds arbitrary: rows)
  case (Cons x rounds)
  then show ?case
    by (subst sightings_recorded_Cons) (simp add: case_prod_unfold drain_contacts_rows)
qed (simp add: sightings_recorded_def)

text \<open>
  C21. After any batches, read or failed, redelivered or not, the row of a contact on a
  connection holds the least and the greatest of the instants recorded of it, and there is no
  row when there is none: the order of the batches and their repetition do not matter.
\<close>

theorem seen_contacts_are_the_extremes:
  "row_at (fold (\<lambda>(runs, documents) rows. snd (drain_contacts tc registry runs st documents rows)) rounds []) k =
     extremes k (instants_at k (sightings_recorded tc registry st rounds))"
  using row_at_fold_observe [of "[]" k "[]"] by (simp add: drains_rows extremes_def row_at_def)

section \<open>Instants compare as their texts\<close>

lemma append_less_same_length:
  fixes a b c d :: "char list"
  assumes "length a = length b"
  shows "a @ c < b @ d \<longleftrightarrow> a < b \<or> a = b \<and> c < d"
  using assms by (induction a b rule: list_induct2) auto

lemma digits_value_snoc: "digits_value (s @ [c]) = 10 * digits_value s + digit_value c"
  by (simp add: digits_value_def)

lemma digit_value_less: "is_ascii_digit c \<Longrightarrow> digit_value c < 10"
  by (auto simp: is_ascii_digit_def digit_value_def)

lemma digit_value_mono: "is_ascii_digit c \<Longrightarrow> is_ascii_digit d \<Longrightarrow> c < d \<longleftrightarrow> digit_value c < digit_value d"
  by (auto simp: is_ascii_digit_def digit_value_def less_char_def)

lemma digits_order:
  assumes "length a = length b" and "list_all is_ascii_digit a" and "list_all is_ascii_digit b"
  shows "(a < b \<longleftrightarrow> digits_value a < digits_value b) \<and> (a = b \<longleftrightarrow> digits_value a = digits_value b)"
  using assms
proof (induction a arbitrary: b rule: rev_induct)
  case Nil
  then show ?case by simp
next
  case (snoc c a)
  then obtain b' d where b: "b = b' @ [d]" "length a = length b'" by (cases b rule: rev_cases) auto
  have dig: "is_ascii_digit c" "is_ascii_digit d" "list_all is_ascii_digit a" "list_all is_ascii_digit b'"
    using snoc.prems b by simp_all
  note IH = snoc.IH [OF b(2) dig(3,4)]
  have eq: "c = d \<longleftrightarrow> digit_value c = digit_value d"
    using digit_value_mono [OF dig(1,2)] digit_value_mono [OF dig(2,1)] by (metis neq_iff)
  have "digit_value c < 10" "digit_value d < 10" using dig by (simp_all add: digit_value_less)
  moreover have "[c] < [d] \<longleftrightarrow> digit_value c < digit_value d"
    using digit_value_mono [OF dig(1,2)] by simp
  ultimately show ?case
    using IH eq unfolding b(1) append_less_same_length [OF b(2)] digits_value_snoc append1_eq_conv by arith
qed

lemma dec_length: "n < 10 ^ Suc w \<Longrightarrow> length (dec n) \<le> Suc w"
proof (induction w arbitrary: n)
  case 0
  then show ?case by (simp add: dec.simps [of n])
next
  case (Suc w)
  have "n div 10 < 10 ^ Suc w" using Suc.prems by (simp add: div_less_iff_less_mult)
  from Suc.IH [OF this] show ?case by (simp add: dec.simps [of n])
qed

lemma digits_value_zeros: "digits_value (replicate k (CHR ''0'') @ s) = digits_value s"
  by (induction k) (simp_all add: digits_value_def digit_value_def)

lemma padded_spec:
  assumes "n < 10 ^ w" and "0 < w"
  shows "length (padded w n) = w" and "list_all is_ascii_digit (padded w n)" and "digits_value (padded w n) = n"
proof -
  obtain v where v: "w = Suc v" using assms(2) by (cases w) auto
  show "length (padded w n) = w" using dec_length [of n v] assms(1) by (simp add: padded_def v)
  show "list_all is_ascii_digit (padded w n)"
    using dec_digits [of n] by (auto simp: padded_def list_all_iff is_ascii_digit_def)
  show "digits_value (padded w n) = n" using dec_digits [of n] by (simp add: padded_def digits_value_zeros)
qed

lemma padded_order:
  assumes "m < 10 ^ w" and "n < 10 ^ w" and "0 < w"
  shows "(padded w m < padded w n \<longleftrightarrow> m < n)" and "(padded w m = padded w n \<longleftrightarrow> m = n)"
  using digits_order [of "padded w m" "padded w n"] padded_spec [OF assms(1,3)] padded_spec [OF assms(2,3)]
  by simp_all

definition parts_ok :: "utc_parts \<Rightarrow> bool" where
  "parts_ok t \<longleftrightarrow>
     0 \<le> up_year t \<and> up_year t < 10000 \<and> up_month t < 100 \<and> up_day t < 100 \<and> up_hour t < 100
     \<and> up_minute t < 100 \<and> up_second t < 100 \<and> up_millisecond t < 1000"

definition parts_key :: "utc_parts \<Rightarrow> int \<times> nat \<times> nat \<times> nat \<times> nat \<times> nat \<times> nat" where
  "parts_key t = (up_year t, up_month t, up_day t, up_hour t, up_minute t, up_second t, up_millisecond t)"

lemma field_order:
  assumes "m < 10 ^ w" and "n < 10 ^ w" and "0 < w"
  shows "padded w m @ c < padded w n @ d \<longleftrightarrow> m < n \<or> m = n \<and> c < d"
  using append_less_same_length [of "padded w m" "padded w n" c d] padded_order [OF assms]
    padded_spec(1) [OF assms(1,3)] padded_spec(1) [OF assms(2,3)] by simp

lemma lex_step: "(a :: 'a :: linorder, x :: 'b :: linorder) < (b, y) \<longleftrightarrow> a < b \<or> a = b \<and> x < y"
  by auto

text \<open>
  Between the years 0 and 9999 the texts of two instants compare as the instants do, so
  the earliest and the latest the store keeps of texts are those of instants.
\<close>

theorem instants_compare_as_texts:
  assumes "parts_ok s" and "parts_ok t"
  shows "render_parts s < render_parts t \<longleftrightarrow> parts_key s < parts_key t"
proof -
  obtain a b where y: "up_year s = int a" "up_year t = int b"
    using assms by (auto simp: parts_ok_def elim!: nonneg_int_cases)
  then have "a < 10000" "b < 10000" using assms by (simp_all add: parts_ok_def)
  then show ?thesis
    using assms
    by (simp add: render_parts_def padded_year_def parts_ok_def parts_key_def field_order lex_step y
      del: less_prod_simp)
qed

theorem instants_compare_as_texts_witness:
  "render_parts \<lparr>up_year = 2026, up_month = 9, up_day = 9, up_hour = 10, up_minute = 0, up_second = 0, up_millisecond = 0\<rparr>
   < render_parts \<lparr>up_year = 2026, up_month = 9, up_day = 10, up_hour = 9, up_minute = 0, up_second = 0, up_millisecond = 0\<rparr>"
  by (subst instants_compare_as_texts) (simp_all add: parts_ok_def parts_key_def less_prod_simp)

section \<open>The waiting list\<close>

lemma decided_about_iff:
  "decided_about st r kind \<longleftrightarrow>
     state_of_subject st \<lparr>subject_kind = ContactSubject, subject_id = cr_contact r\<rparr> (cr_connection r) \<noteq> None
   \<or> state_of_subject st \<lparr>subject_kind = NetworkSubject, subject_id = kind\<rparr> (cr_connection r) \<noteq> None"
  by (auto simp: decided_about_def state_of_subject_def list_ex_iff find_None_iff)

lemma effective_undecided:
  assumes "\<not> gowner_is_owner (store_owner st) (cr_contact r)" and "network_parse kind = Some n"
  shows "eff_decided_by (store_effective st (cr_contact r) (cr_connection r) n) = None \<longleftrightarrow> \<not> decided_about st r kind"
  using assms
  by (auto simp: decided_about_iff store_effective_def effective_resolve_def network.parse_Some_iff split: option.split)

lemma pending_rows_iff:
  "(r, kind) \<in> set (pending_rows st rows) \<longleftrightarrow>
     r \<in> set rows \<and> map_of (registered st) (cr_connection r) = Some kind \<and> \<not> decided_about st r kind
     \<and> \<not> gowner_is_owner (store_owner st) (cr_contact r)"
  by (auto simp: pending_rows_def pending_contact_view_def set_map_filter split: option.splits if_splits)

lemma read_pending_row_Inr_iff:
  "read_pending_row (r, kind) = Inr s \<longleftrightarrow>
     network_parse kind = Some (sc_network s) \<and> sc_contact s = cr_contact r \<and> sc_connection s = cr_connection r
     \<and> sc_first_seen s = cr_first_seen r \<and> sc_last_seen s = cr_last_seen r"
  by (cases s) (auto simp: read_pending_row_def result_simps)

text \<open>Somebody was seen on a connection of a network, is not the owner, and nobody decided about them.\<close>

definition unanswered :: "store \<Rightarrow> seen_contacts \<Rightarrow> seen_contact \<Rightarrow> bool" where
  "unanswered st rows s \<longleftrightarrow>
     \<lparr>cr_contact = sc_contact s, cr_connection = sc_connection s,
      cr_first_seen = sc_first_seen s, cr_last_seen = sc_last_seen s\<rparr> \<in> set rows
     \<and> Option.bind (map_of (registered st) (sc_connection s)) network_parse = Some (sc_network s)
     \<and> \<not> gowner_is_owner (store_owner st) (sc_contact s)
     \<and> eff_decided_by (store_effective st (sc_contact s) (sc_connection s) (sc_network s)) = None"

lemma unanswered_iff:
  "unanswered st rows s \<longleftrightarrow> (\<exists>x \<in> set (pending_rows st rows). read_pending_row x = Inr s)"
proof
  assume u: "unanswered st rows s"
  let ?r = "\<lparr>cr_contact = sc_contact s, cr_connection = sc_connection s,
      cr_first_seen = sc_first_seen s, cr_last_seen = sc_last_seen s\<rparr>"
  obtain kind where k: "map_of (registered st) (sc_connection s) = Some kind" "network_parse kind = Some (sc_network s)"
    using u by (auto simp: unanswered_def bind_eq_Some_conv)
  have "(?r, kind) \<in> set (pending_rows st rows)"
    using u k effective_undecided [of st ?r kind "sc_network s"] by (simp add: pending_rows_iff unanswered_def)
  moreover have "read_pending_row (?r, kind) = Inr s" using k by (simp add: read_pending_row_Inr_iff)
  ultimately show "\<exists>x \<in> set (pending_rows st rows). read_pending_row x = Inr s" by blast
next
  assume "\<exists>x \<in> set (pending_rows st rows). read_pending_row x = Inr s"
  then obtain r kind where rk: "(r, kind) \<in> set (pending_rows st rows)" "read_pending_row (r, kind) = Inr s"
    by (metis surj_pair)
  have "r = \<lparr>cr_contact = sc_contact s, cr_connection = sc_connection s,
      cr_first_seen = sc_first_seen s, cr_last_seen = sc_last_seen s\<rparr>"
    using rk(2) by (cases r) (simp add: read_pending_row_Inr_iff)
  then show "unanswered st rows s"
    using rk effective_undecided [of st r kind "sc_network s"]
    by (auto simp: unanswered_def pending_rows_iff read_pending_row_Inr_iff)
qed

lemma traverse_values: "traverse f xs = Inr ys \<Longrightarrow> set ys = {y. \<exists>x \<in> set xs. f x = Inr y}"
  by (induction xs arbitrary: ys) (auto simp: result_simps)

lemma traverse_length: "traverse f xs = Inr ys \<Longrightarrow> length ys = length xs"
  by (induction xs arbitrary: ys) (auto simp: result_simps)

text \<open>
  C20. The list is what nobody decided about: either a seen contact on a connection whose
  kind is no network makes it fail, or it holds exactly the contacts seen on a connection that
  are not the owner and for whom the effective state is decided by nobody, as many as the gauge
  counts, in the order of their first sighting.
\<close>

theorem pending_is_what_nobody_decided:
  "case pending_contacts st rows of
     Inl e \<Rightarrow> (\<exists>r kind. (r, kind) \<in> set (pending_rows st rows) \<and> network_parse kind = None)
   | Inr ss \<Rightarrow> set ss = {s. unanswered st rows s}
       \<and> length ss = pending_contact_count st rows
       \<and> sorted (map (\<lambda>s. (sc_first_seen s, sc_contact s, sc_connection s)) ss)"
proof (cases "pending_contacts st rows")
  case (Inl e)
  then obtain us x vs where x: "sort_key pending_order (pending_rows st rows) = us @ x # vs" "read_pending_row x = Inl e"
    by (auto simp: pending_contacts_def traverse_Inl_iff)
  have "x \<in> set (sort_key pending_order (pending_rows st rows))" unfolding x(1) by simp
  moreover obtain r kind where rk: "x = (r, kind)" by (cases x)
  ultimately have "(r, kind) \<in> set (pending_rows st rows)" by simp
  moreover have "network_parse kind = None" using x(2) by (simp add: rk read_pending_row_def result_simps)
  ultimately show ?thesis using Inl by auto
next
  case (Inr ss)
  then have t: "traverse read_pending_row (sort_key pending_order (pending_rows st rows)) = Inr ss"
    by (simp add: pending_contacts_def)
  have l: "list_all2 (\<lambda>x s. read_pending_row x = Inr s) (sort_key pending_order (pending_rows st rows)) ss"
    using t by (simp add: traverse_Inr_iff)
  have "map (\<lambda>s. (sc_first_seen s, sc_contact s, sc_connection s)) ss
      = map pending_order (sort_key pending_order (pending_rows st rows))"
    using l by (induction rule: list_all2_induct) (auto simp: pending_order_def read_pending_row_Inr_iff)
  then show ?thesis
    using Inr traverse_values [OF t] traverse_length [OF t]
    by (simp add: pending_contact_count_def flip: unanswered_iff)
qed

section \<open>A sighting on a connection of no network\<close>

lemma unreadable_row_fails_the_list:
  assumes "(r, kind) \<in> set (pending_rows st rows)" and "network_parse kind = None"
  shows "pending_contacts st rows = Inl UnreadableRow"
proof (cases "pending_contacts st rows")
  case (Inl e)
  then obtain us x vs where "read_pending_row x = Inl e"
    by (auto simp: pending_contacts_def traverse_Inl_iff)
  then show ?thesis using Inl by (cases x) (auto simp: read_pending_row_def result_simps)
next
  case (Inr ss)
  then have "list_all2 (\<lambda>x s. read_pending_row x = Inr s) (sort_key pending_order (pending_rows st rows)) ss"
    by (simp add: pending_contacts_def traverse_Inr_iff)
  moreover have "(r, kind) \<in> set (sort_key pending_order (pending_rows st rows))" using assms(1) by simp
  ultimately have "\<exists>s. read_pending_row (r, kind) = Inr s"
    unfolding list_all2_conv_all_nth in_set_conv_nth by force
  then show ?thesis using assms(2) by (auto simp: read_pending_row_Inr_iff)
qed

lemma drain_one:
  assumes "sighting_of tc (store_owner st) registry (Some j) = Some (contact, c, at)"
    and "map_of (registered st) c \<noteq> None"
  shows "drain_contacts tc registry True st [Some j] rows = (True, observe_one (contact, c, at) rows)"
  using assms by (simp add: drain_contacts_def batch_sightings_def List.map_filter_def observe_contacts_def)

text \<open>
  An inbound event whose network is the contract's and whose connection is one of the
  registry of another kind (a calendar) is recorded and acknowledged: as long as nobody decides
  about it the whole list cannot be read, while the gauge still counts it.
\<close>

theorem misplaced_sighting_fails_the_list:
  assumes "read_inbound_header j = Some h" and "ih_connection h = Some c" and "c = conn_id conn"
    and "nonblank (Some c) = Some c" and "registry_get registry c = Some conn"
    and "network_parse (ih_network h) = Some n" and "tc_parse tc (ih_time h) = Some t"
    and "ih_subject h \<noteq> []" and "\<not> gowner_is_owner (store_owner st) (ih_subject h)"
    and "map_of (registered st) c = Some kind" and "network_parse kind = None"
    and "state_of_subject st \<lparr>subject_kind = ContactSubject, subject_id = ih_subject h\<rparr> c = None"
    and "state_of_subject st \<lparr>subject_kind = NetworkSubject, subject_id = kind\<rparr> c = None"
  shows "let (acked, rows') = drain_contacts tc registry True st [Some j] rows in
     acked \<and> pending_contacts st rows' = Inl UnreadableRow \<and> 0 < pending_contact_count st rows'"
proof -
  let ?at = "render_parts (tc_utc tc t)"
  have s: "sighting_of tc (store_owner st) registry (Some j) = Some (ih_subject h, c, ?at)"
    using assms(1-9) by (simp add: sighting_of_def correspondent_read_def registry_resolve_def canonical_instant_def)
  let ?rows = "observe_one (ih_subject h, c, ?at) rows"
  obtain r where "row_at ?rows (ih_subject h, c) = Some r" by (simp add: row_at_observe_one)
  from row_at_Some_iff_key [OF this] have r: "r \<in> set ?rows" "cr_contact r = ih_subject h" "cr_connection r = c"
    by simp_all
  have p: "(r, kind) \<in> set (pending_rows st ?rows)"
    using r assms(9,10,12,13) by (simp add: pending_rows_iff decided_about_iff)
  then have "0 < pending_contact_count st ?rows"
    by (auto simp: pending_contact_count_def)
  then show ?thesis
    using drain_one [OF s] assms(10) unreadable_row_fails_the_list [OF p assms(11)] by simp
qed

definition sample_parts :: utc_parts where
  "sample_parts = \<lparr>up_year = 2026, up_month = 9, up_day = 10, up_hour = 9, up_minute = 0, up_second = 0, up_millisecond = 0\<rparr>"

definition sample_crate :: time_crate where
  "sample_crate = \<lparr>tc_parse = (\<lambda>s. if s = [] then None else Some (int (length s))), tc_utc = (\<lambda>t. sample_parts)\<rparr>"

definition calendar_connection :: connection where
  "calendar_connection =
     \<lparr>conn_id = ''cal'', conn_kind = ''calendar'', conn_label = ''Calendar'', conn_bridge_id = None, conn_bridge_bot = None\<rparr>"

definition misplaced_header :: inbound_header where
  "misplaced_header = \<lparr>ih_subject = ''@z:x'', ih_network = ''whatsapp'', ih_connection = Some ''cal'', ih_time = noon\<rparr>"

definition misplaced_event :: json where
  "misplaced_event =
     JObj [(''subject'', JStr ''@z:x''), (''network'', JStr ''whatsapp''), (''connection'', JStr ''cal''), (''time'', JStr noon)]"

definition calendar_store :: store where
  "calendar_store = snd (record_connections [calendar_connection] sample_store)"

theorem misplaced_sighting_fails_the_list_witness:
  "let (acked, rows') = drain_contacts sample_crate (calendar_connection # sample_registry) True calendar_store [Some misplaced_event] [] in
     acked \<and> pending_contacts calendar_store rows' = Inl UnreadableRow \<and> 0 < pending_contact_count calendar_store rows'"
proof (rule misplaced_sighting_fails_the_list [where h = misplaced_header and c = "''cal''" and conn = calendar_connection
      and n = Whatsapp and t = "int (length noon)" and kind = "''calendar''"])
  show "read_inbound_header misplaced_event = Some misplaced_header" by code_simp
  show "ih_connection misplaced_header = Some ''cal''" by code_simp
  show "''cal'' = conn_id calendar_connection" by code_simp
  show "nonblank (Some ''cal'') = Some ''cal''" by code_simp
  show "registry_get (calendar_connection # sample_registry) ''cal'' = Some calendar_connection" by code_simp
  show "network_parse (ih_network misplaced_header) = Some Whatsapp" by code_simp
  show "tc_parse sample_crate (ih_time misplaced_header) = Some (int (length noon))" by code_simp
  show "ih_subject misplaced_header \<noteq> []" by code_simp
  show "\<not> gowner_is_owner (store_owner calendar_store) (ih_subject misplaced_header)" by code_simp
  show "map_of (registered calendar_store) ''cal'' = Some ''calendar''" by code_simp
  show "network_parse ''calendar'' = None" by code_simp
  show "state_of_subject calendar_store \<lparr>subject_kind = ContactSubject, subject_id = ih_subject misplaced_header\<rparr> ''cal'' = None"
    by code_simp
  show "state_of_subject calendar_store \<lparr>subject_kind = NetworkSubject, subject_id = ''calendar''\<rparr> ''cal'' = None"
    by code_simp
qed

section \<open>Counts\<close>

lemma map_of_tick:
  "map_of (tick k m) k' = (if k' = k then Some ((case map_of m k of None \<Rightarrow> 0 | Some n \<Rightarrow> n) + 1) else map_of m k')"
  by (simp add: tick_def)

definition occurs :: "('k \<rightharpoonup> nat) \<Rightarrow> 'k \<Rightarrow> nat" where
  "occurs m k = (case m k of None \<Rightarrow> 0 | Some n \<Rightarrow> n)"

lemma occurs_tick: "occurs (map_of (tick k m)) k' = occurs (map_of m) k' + (if k = k' then 1 else 0)"
  by (auto simp: occurs_def map_of_tick)

lemma occurs_tally: "occurs (map_of (tally_by key xs)) k = length (filter (\<lambda>x. key x = k) xs)"
proof -
  have "occurs (map_of (fold (\<lambda>x. tick (key x)) xs m)) k = occurs (map_of m) k + length (filter (\<lambda>x. key x = k) xs)" for m
    by (induction xs arbitrary: m) (simp_all add: occurs_tick)
  from this [of "[]"] show ?thesis by (simp add: tally_by_def occurs_def)
qed

lemma keys_ok_tick: "keys_ok m \<Longrightarrow> keys_ok (tick k m)"
  by (simp add: tick_def keys_ok_insert)

lemma keys_ok_tally_by: "keys_ok (tally_by key xs)"
proof -
  have "keys_ok m \<Longrightarrow> keys_ok (fold (\<lambda>x. tick (key x)) xs m)" for m
    by (induction xs arbitrary: m) (simp_all add: keys_ok_tick)
  then show ?thesis by (simp add: tally_by_def keys_ok_def)
qed

lemma sum_tick: "keys_ok m \<Longrightarrow> sum_list (map snd (tick k m)) = Suc (sum_list (map snd m))"
proof (induction m)
  case (Cons e m)
  have "keys_ok m" using Cons.prems by (simp add: keys_ok_def)
  moreover have "map_of m k = None" if "k < fst e"
    using Cons.prems that by (auto simp: keys_ok_def map_of_eq_None_iff)
  ultimately show ?case using Cons.IH by (cases e) (auto simp: tick_def)
qed (simp add: tick_def)

lemma sum_tally: "sum_list (map snd (tally_by key xs)) = length xs"
proof -
  have "keys_ok m \<Longrightarrow> sum_list (map snd (fold (\<lambda>x. tick (key x)) xs m)) = sum_list (map snd m) + length xs" for m
    by (induction xs arbitrary: m) (simp_all add: sum_tick keys_ok_tick)
  from this [of "[]"] show ?thesis by (simp add: tally_by_def keys_ok_def)
qed

text \<open>
  A message about which a decision is pending: the contact wrote it and is not the owner, the
  registry places it on the connection, and \<open>t\<close> is its own time. It waits when that is not before
  the start of the reach; a persona answers it after a grant when the grant is not before it
  either, and the distance is within the reach (\<^verbatim>\<open>GrantReach.reaches\<close>).
\<close>

definition pending_at ::
  "time_crate \<Rightarrow> gateway_owner \<Rightarrow> connection list \<Rightarrow> string \<times> string \<Rightarrow> retained \<Rightarrow> int \<Rightarrow> bool" where
  "pending_at tc ow registry k m t \<longleftrightarrow>
     (\<exists>j network_name n given c s. bm_document m = Some j
        \<and> text_at j ''consent'' = Some ''pending''
        \<and> text_at j ''subject'' = Some (fst k) \<and> fst k \<noteq> [] \<and> \<not> gowner_is_owner ow (fst k)
        \<and> text_at j ''network'' = Some network_name \<and> network_parse network_name = Some n
        \<and> optional_text j ''connection'' = Some given
        \<and> registry_resolve registry given (network_as_str n) = Inr c \<and> conn_id c = snd k
        \<and> text_at j ''time'' = Some s \<and> tc_parse tc s = Some t)"

definition waits ::
  "time_crate \<Rightarrow> gateway_owner \<Rightarrow> connection list \<Rightarrow> int \<Rightarrow> string \<times> string \<Rightarrow> retained \<Rightarrow> bool" where
  "waits tc ow registry cutoff k m \<longleftrightarrow> (\<exists>t. pending_at tc ow registry k m t \<and> cutoff \<le> t)"

definition reached ::
  "time_crate \<Rightarrow> gateway_owner \<Rightarrow> connection list \<Rightarrow> int \<Rightarrow> int \<Rightarrow> string \<times> string \<Rightarrow> retained \<Rightarrow> bool" where
  "reached tc ow registry granted_at reach k m \<longleftrightarrow>
     (\<exists>t. pending_at tc ow registry k m t \<and> 0 \<le> granted_at - t \<and> granted_at - t \<le> reach)"

lemma pending_at_unique: "pending_at tc ow registry k m t \<Longrightarrow> pending_at tc ow registry k m t' \<Longrightarrow> t = t'"
  by (auto simp: pending_at_def)

lemma correspondent_read_Inr:
  "correspondent_read tc ow registry h = Inr s \<longleftrightarrow>
     \<not> gowner_is_owner ow (ih_subject h) \<and> ih_subject h \<noteq> []
     \<and> (\<exists>n c t. network_parse (ih_network h) = Some n \<and> registry_resolve registry (ih_connection h) (network_as_str n) = Inr c
          \<and> tc_parse tc (ih_time h) = Some t
          \<and> s = \<lparr>co_contact = ih_subject h, co_connection = conn_id c, co_network = n,
                 co_at = render_parts (tc_utc tc t)\<rparr>)"
  by (cases "network_parse (ih_network h)"; cases "tc_parse tc (ih_time h)")
    (auto simp: correspondent_read_def canonical_instant_def result_simps split: sum.split)

lemma waiting_key_Some:
  "waiting_key tc cutoff ow registry j = Some k \<longleftrightarrow>
     (\<exists>h t s. read_inbound_header j = Some h \<and> optional_text j ''consent'' = Some (Some ''pending'')
        \<and> tc_parse tc (ih_time h) = Some t \<and> cutoff \<le> t
        \<and> correspondent_read tc ow registry h = Inr s \<and> k = (co_contact s, co_connection s))"
proof -
  have placed: "(case x of Inl e \<Rightarrow> None | Inr s \<Rightarrow> Some (co_contact s, co_connection s)) = Some k
      \<longleftrightarrow> (\<exists>s. x = Inr s \<and> k = (co_contact s, co_connection s))" for x :: "not_a_sighting + correspondent"
    by (cases x) auto
  show ?thesis by (auto simp: waiting_key_def bind_eq_Some_conv placed not_less split: if_splits)
qed

lemma waiting_key_waits:
  "Option.bind (bm_document m) (waiting_key tc cutoff ow registry) = Some k \<longleftrightarrow> waits tc ow registry cutoff k m"
proof -
  have given: "optional_text j a = Some (Some s) \<longleftrightarrow> text_at j a = Some s" for j a s
    by (auto simp: optional_text_def text_at_def split: option.splits json.splits)
  show ?thesis
    unfolding bind_eq_Some_conv waiting_key_Some given waits_def pending_at_def correspondent_read_Inr
    by (cases k) (auto simp: read_inbound_header_def bind_eq_Some_conv)
qed

lemma filter_map_filter: "filter (\<lambda>y. y = k) (List.map_filter f xs) = map (the \<circ> f) (filter (\<lambda>x. f x = Some k) xs)"
  by (induction xs) (auto simp: List.map_filter_def)


definition whatsapp_header :: json where
  "whatsapp_header =
     JObj [(''subject'', JStr ''@z:x''), (''network'', JStr ''whatsapp''), (''connection'', JStr ''whatsapp''),
           (''time'', JStr noon), (''consent'', JStr ''pending'')]"

definition two_waiting :: stream_state where
  "two_waiting =
     \<lparr>ss_first = 1, ss_last = 2,
      ss_messages = map (\<lambda>i. \<lparr>bm_sequence = i, bm_subject = inbound_subject, bm_document = Some whatsapp_header,
                               bm_headers = []\<rparr>) [1, 2]\<rparr>"

definition arrived_late :: "nat \<Rightarrow> int" where
  "arrived_late i = int i + 20"

abbreviation sample_key :: "string \<times> string" where
  "sample_key \<equiv> (''@z:x'', ''whatsapp'')"

abbreviation sample_owner :: gateway_owner where
  "sample_owner \<equiv> gowner_new ''@me:x'' []"


section \<open>Badges\<close>

text \<open>
  The badges count the whole list, by connection and by network, whatever the filter.
\<close>

theorem badges_count_the_whole_list:
  "sum_list (map snd (by_connection pending)) = length pending
   \<and> sum_list (map snd (by_network pending)) = length pending
   \<and> occurs (map_of (by_connection pending)) (network_as_str n, c)
       = length (filter (\<lambda>s. sc_network s = n \<and> sc_connection s = c) pending)
   \<and> occurs (map_of (by_network pending)) (network_as_str n, []) = length (shown (Some (OfNetwork n)) pending)
   \<and> keys_ok (by_connection pending) \<and> keys_ok (by_network pending)"
  by (simp add: by_connection_def by_network_def sum_tally keys_ok_tally_by occurs_tally shown_def
      network.as_str_inj eq_commute [of n])

section \<open>Names\<close>

text \<open>
  A name read goes back one sequence further than the messages it takes: when the tail
  of the stream is all inbound messages the newest message is not read, and the name it carries
  is not shown.
\<close>

theorem newest_name_can_be_missed:
  assumes "ss_messages ss = ms @ [m]"
    and "display_name_window \<le>
      length (filter (\<lambda>x. bm_subject x = inbound_subject \<and> name_window_start ss \<le> bm_sequence x) ms)"
  shows "display_names asked (ss, given) = display_names asked (ss\<lparr>ss_messages := ms\<rparr>, given)"
  using assms by (simp add: display_names_def fetched_def name_window_start_def)

definition crowd :: "retained list" where
  "crowd = map (\<lambda>i. \<lparr>bm_sequence = Suc i, bm_subject = inbound_subject, bm_document = None, bm_headers = []\<rparr>) [0..<1000]"

definition newest_message :: retained where
  "newest_message =
     \<lparr>bm_sequence = 1001, bm_subject = inbound_subject,
      bm_document = Some (JObj [(''subject'', JStr ''@a:x''),
        (''data'', JObj [(''contact'', JObj [(''display_name'', JStr ''Alice'')])])]),
      bm_headers = []\<rparr>"

definition crowded_stream :: stream_state where
  "crowded_stream = \<lparr>ss_first = 1, ss_last = 1001, ss_messages = crowd @ [newest_message]\<rparr>"

lemma crowd_spec:
  "m \<in> set crowd \<Longrightarrow> bm_document m = None \<and> bm_subject m = inbound_subject \<and> 1 \<le> bm_sequence m \<and> bm_sequence m < 1001"
  by (auto simp: crowd_def)

lemma crowded_stream_ok: "stream_ok crowded_stream"
proof -
  have "increasing bm_sequence crowd"
    by (simp add: crowd_def increasing_def sorted_wrt_map sorted_wrt_upt)
  then show ?thesis
    using crowd_spec
    by (fastforce simp: stream_ok_def crowded_stream_def increasing_def sorted_wrt_append list_all_iff newest_message_def)
qed

lemma note_nothing: "\<forall>m \<in> set ms. bm_document m = None \<Longrightarrow> fold (note_name asked) ms f = f"
  by (induction ms) (simp_all add: note_name_def)

theorem newest_name_can_be_missed_witness:
  "stream_ok crowded_stream \<and> read_display_name (the (bm_document newest_message)) = Some (''@a:x'', ''Alice'')
   \<and> display_names [''@a:x''] (crowded_stream, 1001) = [(''@a:x'', None)]"
proof (intro conjI)
  have "filter (\<lambda>x. bm_subject x = inbound_subject \<and> name_window_start crowded_stream \<le> bm_sequence x) crowd = crowd"
    using crowd_spec by (simp add: filter_id_conv name_window_start_def crowded_stream_def display_name_window_def)
  moreover have "length crowd = 1000" by (simp add: crowd_def)
  ultimately have "display_names [''@a:x''] (crowded_stream, 1001)
      = display_names [''@a:x''] (crowded_stream\<lparr>ss_messages := crowd\<rparr>, 1001)"
    by (intro newest_name_can_be_missed [where m = newest_message]) (simp_all add: crowded_stream_def display_name_window_def)
  moreover have "\<forall>m \<in> set (fetched inbound_subject i 1000 1001 (crowded_stream\<lparr>ss_messages := crowd\<rparr>)). bm_document m = None" for i
    using fetched_subset [of inbound_subject i 1000 1001 "crowded_stream\<lparr>ss_messages := crowd\<rparr>"] crowd_spec
    by (auto simp: crowded_stream_def)
  ultimately show "display_names [''@a:x''] (crowded_stream, 1001) = [(''@a:x'', None)]"
    by (simp add: display_names_def note_nothing display_name_window_def)
qed (rule crowded_stream_ok, code_simp)

end
