(* ===== verification/Mail_Rules.thy ===== *)
theory Mail_Rules
  imports Handoff Suggestions "HOL-Library.Monad_Syntax"
begin

text \<open>
  The owner's mail triage rules at the Gateway: \<^verbatim>\<open>companion-gateway/src/mail_rules.rs\<close>, the
  moves of \<^verbatim>\<open>mail_moves.rs\<close>, their tables in \<^verbatim>\<open>store.rs\<close>, the routes of
  \<^verbatim>\<open>settings_http.rs\<close> and the proposals of \<^verbatim>\<open>hermes_answer_http.rs\<close>. The lower-casing of a text,
  which follows the tables of Unicode, is the argument \<open>lower\<close>.
\<close>

section \<open>Rules\<close>

datatype rule_match =
    Sender string
  | Subject string
  | ListId string
  | OlderThanDays nat

fun match_field :: "rule_match \<Rightarrow> string" where
  "match_field (Sender _) = ''sender''"
| "match_field (Subject _) = ''subject''"
| "match_field (ListId _) = ''list_id''"
| "match_field (OlderThanDays _) = ''older_than_days''"

record rule =
  ru_id :: string
  ru_matches :: rule_match
  ru_destination :: string

record triage =
  ta_destinations :: "string list"
  ta_rules :: "rule list"

definition empty_triage :: triage where
  "empty_triage = \<lparr>ta_destinations = [], ta_rules = []\<rparr>"

datatype rule_refusal =
    DestinationNotAllowed
  | DestinationIsDestructive
  | DestinationIsEmpty
  | DestinationTooLong
  | MatchIsEmpty
  | MatchTooLong
  | MatchOutOfRange
  | TooManyRules
  | DuplicateRuleId
  | RuleIdIsEmpty
  | RuleIdTooLong

fun rule_refusal_code :: "rule_refusal \<Rightarrow> string" where
  "rule_refusal_code DestinationNotAllowed = ''destination_not_allowed''"
| "rule_refusal_code DestinationIsDestructive = ''destination_is_destructive''"
| "rule_refusal_code DestinationIsEmpty = ''destination_is_empty''"
| "rule_refusal_code DestinationTooLong = ''destination_too_long''"
| "rule_refusal_code MatchIsEmpty = ''match_is_empty''"
| "rule_refusal_code MatchTooLong = ''match_too_long''"
| "rule_refusal_code MatchOutOfRange = ''match_out_of_range''"
| "rule_refusal_code TooManyRules = ''too_many_rules''"
| "rule_refusal_code DuplicateRuleId = ''duplicate_rule_id''"
| "rule_refusal_code RuleIdIsEmpty = ''rule_id_is_empty''"
| "rule_refusal_code RuleIdTooLong = ''rule_id_too_long''"

definition max_len :: nat where
  "max_len = 200"

definition max_rules :: nat where
  "max_rules = 200"

definition check_match :: "rule_match \<Rightarrow> rule_refusal + unit" where
  "check_match m =
     (case m of
        OlderThanDays days \<Rightarrow> if days = 0 \<or> 3650 < days then Inl MatchOutOfRange else Inr ()
      | Sender s \<Rightarrow> if trim s = [] then Inl MatchIsEmpty else if max_len < chars_count s then Inl MatchTooLong else Inr ()
      | Subject s \<Rightarrow> if trim s = [] then Inl MatchIsEmpty else if max_len < chars_count s then Inl MatchTooLong else Inr ()
      | ListId s \<Rightarrow> if trim s = [] then Inl MatchIsEmpty else if max_len < chars_count s then Inl MatchTooLong else Inr ())"

text \<open>The accented letters are those of the source, in UTF-8.\<close>

definition destructive_names :: "string list" where
  "destructive_names =
     [''trash'', ''junk'', ''bin'', ''deleted'', ''deleted items'', ''deleted messages'', ''spam'', ''junk email'',
      ''corbeille'', ''pourriel'',
      ''ind'' @ [CHR 0xC3, CHR 0xA9] @ ''sirables'',
      [CHR 0xC3, CHR 0xA9] @ ''l'' @ [CHR 0xC3, CHR 0xA9] @ ''ments supprim'' @ [CHR 0xC3, CHR 0xA9] @ ''s'',
      ''papierkorb'',
      ''gel'' @ [CHR 0xC3, CHR 0xB6] @ ''scht'',
      ''gel'' @ [CHR 0xC3, CHR 0xB6] @ ''schte elemente'',
      ''junk-e-mail'', ''papelera'', ''correo no deseado'', ''elementos eliminados'', ''cestino'',
      ''posta indesiderata'', ''posta eliminata'']"

definition is_destructive :: "(string \<Rightarrow> string) \<Rightarrow> string \<Rightarrow> bool" where
  "is_destructive lower name =
     (let whole = lower (trim name); final = trim (last (split_on (CHR ''/'') whole)) in
      whole \<in> set destructive_names \<or> final \<in> set destructive_names)"

definition check_destination :: "(string \<Rightarrow> string) \<Rightarrow> string \<Rightarrow> rule_refusal + unit" where
  "check_destination lower name =
     (if trim name = [] then Inl DestinationIsEmpty
      else if max_len < chars_count name then Inl DestinationTooLong
      else if is_destructive lower name then Inl DestinationIsDestructive
      else Inr ())"

definition triage_allows :: "triage \<Rightarrow> string \<Rightarrow> bool" where
  "triage_allows ta destination = list_ex (\<lambda>allowed. trim allowed = trim destination) (ta_destinations ta)"

fun named :: "string option \<Rightarrow> rule_refusal + 'a \<Rightarrow> (string option \<times> rule_refusal) + 'a" where
  "named who (Inl refused) = Inl (who, refused)"
| "named who (Inr x) = Inr x"

fun check_rules :: "(string \<Rightarrow> string) \<Rightarrow> triage \<Rightarrow> string list \<Rightarrow> rule list \<Rightarrow> (string option \<times> rule_refusal) + unit" where
  "check_rules lower ta earlier [] = Inr ()"
| "check_rules lower ta earlier (r # rs) =
     (if trim (ru_id r) = [] then Inl (None, RuleIdIsEmpty)
      else if max_len < chars_count (ru_id r) then Inl (Some (ru_id r), RuleIdTooLong)
      else if ru_id r \<in> set earlier then Inl (Some (ru_id r), DuplicateRuleId)
      else
        and_then (named (Some (ru_id r)) (check_match (ru_matches r))) (\<lambda>_.
        and_then (named (Some (ru_id r)) (check_destination lower (ru_destination r))) (\<lambda>_.
        if \<not> triage_allows ta (ru_destination r) then Inl (Some (ru_id r), DestinationNotAllowed)
        else check_rules lower ta (ru_id r # earlier) rs)))"

definition check_triage :: "(string \<Rightarrow> string) \<Rightarrow> triage \<Rightarrow> (string option \<times> rule_refusal) + unit" where
  "check_triage lower ta =
     and_then (named None (traverse (check_destination lower) (ta_destinations ta))) (\<lambda>_.
     if max_rules < length (ta_rules ta) then Inl (None, TooManyRules)
     else check_rules lower ta [] (ta_rules ta))"

section \<open>Rules on the wire\<close>

fun match_value :: "rule_match \<Rightarrow> json" where
  "match_value (Sender s) = JStr s"
| "match_value (Subject s) = JStr s"
| "match_value (ListId s) = JStr s"
| "match_value (OlderThanDays n) = JNum (int n)"

definition rule_json :: "rule \<Rightarrow> json" where
  "rule_json r =
     JObj [(''id'', JStr (ru_id r)), (''field'', JStr (match_field (ru_matches r))),
           (''value'', match_value (ru_matches r)), (''destination'', JStr (ru_destination r))]"

definition triage_json :: "triage \<Rightarrow> json" where
  "triage_json ta =
     JObj [(''destinations'', JArr (map JStr (ta_destinations ta))), (''rules'', JArr (map rule_json (ta_rules ta)))]"

definition ju32 :: "json \<Rightarrow> nat option" where
  "ju32 j = (case j of JNum n \<Rightarrow> if 0 \<le> n \<and> n < 2 ^ 32 then Some (nat n) else None | _ \<Rightarrow> None)"

definition read_match :: "json \<Rightarrow> rule_match option" where
  "read_match j =
     do {
       f \<leftarrow> Option.bind (jget j ''field'') jstr;
       v \<leftarrow> jget j ''value'';
       (if f = ''sender'' then map_option Sender (jstr v)
        else if f = ''subject'' then map_option Subject (jstr v)
        else if f = ''list_id'' then map_option ListId (jstr v)
        else if f = ''older_than_days'' then map_option OlderThanDays (ju32 v)
        else None)
     }"

definition read_rule :: "json \<Rightarrow> rule option" where
  "read_rule j =
     do {
       i \<leftarrow> Option.bind (jget j ''id'') jstr;
       m \<leftarrow> read_match j;
       d \<leftarrow> Option.bind (jget j ''destination'') jstr;
       Some \<lparr>ru_id = i, ru_matches = m, ru_destination = d\<rparr>
     }"

fun read_all_of :: "('a \<Rightarrow> 'b option) \<Rightarrow> 'a list \<Rightarrow> 'b list option" where
  "read_all_of f [] = Some []"
| "read_all_of f (x # xs) = (case f x of None \<Rightarrow> None | Some y \<Rightarrow> map_option (Cons y) (read_all_of f xs))"

definition read_triage :: "json \<Rightarrow> triage option" where
  "read_triage j =
     do {
       ds \<leftarrow> Option.bind (jget j ''destinations'') jarr;
       rs \<leftarrow> Option.bind (jget j ''rules'') jarr;
       destinations \<leftarrow> read_all_of jstr ds;
       rules \<leftarrow> read_all_of read_rule rs;
       Some \<lparr>ta_destinations = destinations, ta_rules = rules\<rparr>
     }"

section \<open>The journal of the rules\<close>

text \<open>A row is a whole set, or none on a clearing; the document is the set as JSON.\<close>

record triage_row =
  tr_document :: "json option"
  tr_at :: string
  tr_actor :: string
  tr_reason :: "string option"

datatype proposal_state = Proposed | ProposalApproved | ProposalRefused

record proposal_row =
  pr_sequence :: nat
  pr_rule :: json
  pr_because :: "string option"
  pr_proposed_at :: string
  pr_state :: proposal_state
  pr_decided_at :: "string option"

record rules_store =
  rs_decisions :: "triage_row list"
  rs_proposals :: "proposal_row list"
  rs_last_proposal :: nat

datatype rules_error =
    NotApplicable "string option" rule_refusal
  | UnreadableSet
  | UnreadableRule
  | DecidedOnce

definition mail_triage :: "rules_store \<Rightarrow> rules_error + triage" where
  "mail_triage rs =
     (case rs_decisions rs of
        [] \<Rightarrow> Inr empty_triage
      | _ \<Rightarrow>
          (case tr_document (last (rs_decisions rs)) of
             None \<Rightarrow> Inr empty_triage
           | Some d \<Rightarrow> ok_or UnreadableSet (read_triage d)))"

definition record_mail_triage_decision ::
  "(string \<Rightarrow> string) \<Rightarrow> triage option \<Rightarrow> string \<Rightarrow> string \<Rightarrow> string option \<Rightarrow> rules_store
    \<Rightarrow> (rules_error + triage) \<times> rules_store" where
  "record_mail_triage_decision lower ta at actor refused rs =
     (case (case ta of None \<Rightarrow> Inr () | Some t \<Rightarrow> check_triage lower t) of
        Inl (who, refusal) \<Rightarrow> (Inl (NotApplicable who refusal), rs)
      | Inr _ \<Rightarrow>
          let rs' = rs\<lparr>rs_decisions := rs_decisions rs @
                [\<lparr>tr_document = map_option triage_json ta, tr_at = at, tr_actor = actor, tr_reason = refused\<rparr>]\<rparr>
          in (mail_triage rs', rs'))"

definition record_rule_proposal ::
  "rowids \<Rightarrow> rule \<Rightarrow> string option \<Rightarrow> string \<Rightarrow> rules_store \<Rightarrow> nat \<times> rules_store" where
  "record_rule_proposal sq r because at rs =
     (let s = allocate sq (rs_last_proposal rs) in
      (s, rs\<lparr>rs_proposals := rs_proposals rs @
               [\<lparr>pr_sequence = s, pr_rule = rule_json r, pr_because = because, pr_proposed_at = at,
                 pr_state = Proposed, pr_decided_at = None\<rparr>],
             rs_last_proposal := s\<rparr>))"

text \<open>Newest first; a row that cannot be read is left out.\<close>

definition rule_proposals :: "nat \<Rightarrow> rules_store \<Rightarrow> (proposal_row \<times> rule) list" where
  "rule_proposals limit rs =
     List.map_filter (\<lambda>p. map_option (Pair p) (read_rule (pr_rule p))) (take limit (rev (rs_proposals rs)))"

text \<open>
  The decision on a proposal takes the lock of the store anew for each of its steps: what is
  proposed, the approval through the journal, and the mark on the proposal, which a trigger
  refuses on one already decided.
\<close>

definition proposal_held :: "nat \<Rightarrow> rules_store \<Rightarrow> json option" where
  "proposal_held sequence rs =
     (case List.find (\<lambda>p. pr_sequence p = sequence) (rs_proposals rs) of
        Some p \<Rightarrow> if pr_state p = Proposed then Some (pr_rule p) else None
      | None \<Rightarrow> None)"

definition with_rule :: "rule \<Rightarrow> triage \<Rightarrow> triage" where
  "with_rule r ta = ta\<lparr>ta_rules := filter (\<lambda>held. ru_id held \<noteq> ru_id r) (ta_rules ta) @ [r]\<rparr>"

definition approve_rule ::
  "(string \<Rightarrow> string) \<Rightarrow> json \<Rightarrow> string \<Rightarrow> string \<Rightarrow> rules_store \<Rightarrow> (rules_error + triage) \<times> rules_store" where
  "approve_rule lower document at actor rs =
     (case and_then (ok_or UnreadableRule (read_rule document)) (\<lambda>r.
             and_then (mail_triage rs) (\<lambda>ta. Inr (with_rule r ta))) of
        Inl e \<Rightarrow> (Inl e, rs)
      | Inr ta \<Rightarrow>
          record_mail_triage_decision lower (Some ta) at actor (Some ''approved a rule the assistant proposed'') rs)"

definition mark_decided :: "nat \<Rightarrow> proposal_state \<Rightarrow> string \<Rightarrow> rules_store \<Rightarrow> (rules_error + unit) \<times> rules_store" where
  "mark_decided sequence word at rs =
     (if list_ex (\<lambda>p. pr_sequence p = sequence \<and> pr_state p \<noteq> Proposed) (rs_proposals rs) then (Inl DecidedOnce, rs)
      else (Inr (), rs\<lparr>rs_proposals := map (\<lambda>p. if pr_sequence p = sequence
                                               then p\<lparr>pr_state := word, pr_decided_at := Some at\<rparr> else p)
                                         (rs_proposals rs)\<rparr>))"

definition decide_rule_proposal ::
  "(string \<Rightarrow> string) \<Rightarrow> nat \<Rightarrow> bool \<Rightarrow> string \<Rightarrow> string \<Rightarrow> rules_store
    \<Rightarrow> (rules_error + triage option) \<times> rules_store" where
  "decide_rule_proposal lower sequence approved_it at actor rs =
     (case proposal_held sequence rs of
        None \<Rightarrow> (Inr None, rs)
      | Some document \<Rightarrow>
          if approved_it then
            (case approve_rule lower document at actor rs of
               (Inl e, rs1) \<Rightarrow> (Inl e, rs1)
             | (Inr ta, rs1) \<Rightarrow>
                 (case mark_decided sequence ProposalApproved at rs1 of
                    (Inl e, rs2) \<Rightarrow> (Inl e, rs2)
                  | (Inr _, rs2) \<Rightarrow> (Inr (Some ta), rs2)))
          else
            (case mark_decided sequence ProposalRefused at rs of
               (Inl e, rs1) \<Rightarrow> (Inl e, rs1)
             | (Inr _, rs1) \<Rightarrow>
                 (case mail_triage rs1 of Inl e \<Rightarrow> (Inl e, rs1) | Inr ta \<Rightarrow> (Inr (Some ta), rs1))))"

section \<open>The journal of the moves\<close>

record mail_move =
  mv_connection :: string
  mv_email :: string
  mv_rule :: string
  mv_from_id :: string
  mv_from_name :: string
  mv_to_id :: string
  mv_to_name :: string
  mv_at :: string
  mv_undoes :: "nat option"

definition undo_rule :: string where
  "undo_rule = ''undo''"

record recorded_move =
  rm_sequence :: nat
  rm_move :: mail_move
  rm_undo_requested_at :: "string option"

record move_journal =
  mj_rows :: "recorded_move list"
  mj_last :: nat

definition same_move :: "mail_move \<Rightarrow> mail_move \<Rightarrow> bool" where
  "same_move m m' \<longleftrightarrow> mv_connection m = mv_connection m' \<and> mv_email m = mv_email m' \<and> mv_at m = mv_at m'"

text \<open>
  An insert the unique index ignores, or one the foreign key fails: the move it reverses has
  to be a row. Then the request the undo answers is cleared.
\<close>

definition insert_move :: "rowids \<Rightarrow> mail_move \<Rightarrow> move_journal \<Rightarrow> (store_error + bool) \<times> move_journal" where
  "insert_move sq m mj =
     (if list_ex (\<lambda>r. same_move (rm_move r) m) (mj_rows mj)
      then (Inr False, mj\<lparr>mj_last := after_ignored sq (mj_last mj)\<rparr>)
      else
        let s = allocate sq (mj_last mj) in
        if (case mv_undoes m of None \<Rightarrow> True | Some u \<Rightarrow> u = s \<or> list_ex (\<lambda>r. rm_sequence r = u) (mj_rows mj))
        then (Inr True,
              mj\<lparr>mj_rows := mj_rows mj @ [\<lparr>rm_sequence = s, rm_move = m, rm_undo_requested_at = None\<rparr>],
                 mj_last := s\<rparr>)
        else (Inl ConstraintViolated, mj))"

definition clear_request :: "nat option \<Rightarrow> move_journal \<Rightarrow> move_journal" where
  "clear_request undone mj =
     (case undone of
        None \<Rightarrow> mj
      | Some u \<Rightarrow>
          mj\<lparr>mj_rows := map (\<lambda>r. if rm_sequence r = u then r\<lparr>rm_undo_requested_at := None\<rparr> else r) (mj_rows mj)\<rparr>)"

definition record_mail_move :: "rowids \<Rightarrow> mail_move \<Rightarrow> move_journal \<Rightarrow> (store_error + bool) \<times> move_journal" where
  "record_mail_move sq m mj =
     (case insert_move sq m mj of
        (Inl e, mj') \<Rightarrow> (Inl e, mj')
      | (Inr changed, mj') \<Rightarrow> (Inr changed, clear_request (mv_undoes m) mj'))"

definition mail_moves :: "nat \<Rightarrow> move_journal \<Rightarrow> recorded_move list" where
  "mail_moves limit mj = take limit (rev (mj_rows mj))"

definition default_limit :: nat where
  "default_limit = 50"

definition undoable :: "move_journal \<Rightarrow> recorded_move \<Rightarrow> bool" where
  "undoable mj r \<longleftrightarrow>
     mv_undoes (rm_move r) = None \<and> rm_undo_requested_at r = None
     \<and> \<not> list_ex (\<lambda>back. mv_undoes (rm_move back) = Some (rm_sequence r)) (mj_rows mj)"

definition request_mail_undo :: "nat \<Rightarrow> string \<Rightarrow> move_journal \<Rightarrow> bool \<times> move_journal" where
  "request_mail_undo sequence at mj =
     (let asked = (\<lambda>r. rm_sequence r = sequence \<and> undoable mj r) in
      (list_ex asked (mj_rows mj),
       mj\<lparr>mj_rows := map (\<lambda>r. if asked r then r\<lparr>rm_undo_requested_at := Some at\<rparr> else r) (mj_rows mj)\<rparr>))"

definition pending_mail_undos :: "move_journal \<Rightarrow> recorded_move list" where
  "pending_mail_undos mj = filter (\<lambda>r. rm_undo_requested_at r \<noteq> None) (mj_rows mj)"

fun record_moves :: "rowids \<Rightarrow> mail_move list \<Rightarrow> nat \<Rightarrow> move_journal \<Rightarrow> (store_error + nat) \<times> move_journal" where
  "record_moves sq [] n mj = (Inr n, mj)"
| "record_moves sq (m # ms) n mj =
     (case record_mail_move sq m mj of
        (Inl e, mj') \<Rightarrow> (Inl e, mj')
      | (Inr changed, mj') \<Rightarrow> record_moves sq ms (if changed then n + 1 else n) mj')"

section \<open>The routes\<close>

definition read_mail_triage :: "rules_store option \<Rightarrow> response" where
  "read_mail_triage consent =
     (case consent of
        None \<Rightarrow> ApiError 503 ''consent_not_configured''
      | Some rs \<Rightarrow>
          (case mail_triage rs of
             Inl e \<Rightarrow> ApiError 500 ''store_unavailable''
           | Inr ta \<Rightarrow> Served (JObj [(''triage'', triage_json ta)])))"

text \<open>The body is a set or null, and a reason.\<close>

definition read_triage_body :: "json \<Rightarrow> (triage option \<times> string option) option" where
  "read_triage_body j =
     do {
       members \<leftarrow> jobj j;
       ta \<leftarrow> (case jget j ''triage'' of
                None \<Rightarrow> Some None | Some JNull \<Rightarrow> Some None | Some d \<Rightarrow> map_option Some (read_triage d));
       refused \<leftarrow> optional_text j ''reason'';
       Some (ta, refused)
     }"

definition write_mail_triage ::
  "(string \<Rightarrow> string) \<Rightarrow> string \<Rightarrow> string \<Rightarrow> json option \<Rightarrow> rules_store option \<Rightarrow> response \<times> rules_store option" where
  "write_mail_triage lower at actor body consent =
     (case consent of
        None \<Rightarrow> (ApiError 503 ''consent_not_configured'', None)
      | Some rs \<Rightarrow>
          (case Option.bind body read_triage_body of
             None \<Rightarrow> (ApiError 422 ''malformed_request'', Some rs)
           | Some (ta, refused) \<Rightarrow>
               (case (case ta of None \<Rightarrow> Inr () | Some t \<Rightarrow> check_triage lower t) of
                  Inl (who, refusal) \<Rightarrow> (ApiError 422 (rule_refusal_code refusal), Some rs)
                | Inr _ \<Rightarrow>
                    (case record_mail_triage_decision lower ta at actor refused rs of
                       (Inl e, rs') \<Rightarrow> (ApiError 500 ''store_unavailable'', Some rs')
                     | (Inr t, rs') \<Rightarrow> (Served (JObj [(''triage'', triage_json t)]), Some rs')))))"

definition undo_mail_move :: "nat \<Rightarrow> string \<Rightarrow> move_journal option \<Rightarrow> response \<times> move_journal option" where
  "undo_mail_move sequence at consent =
     (case consent of
        None \<Rightarrow> (ApiError 503 ''consent_not_configured'', None)
      | Some mj \<Rightarrow>
          (case request_mail_undo sequence at mj of
             (True, mj') \<Rightarrow> (Served (JObj [(''undo_requested_at'', JStr at)]), Some mj')
           | (False, mj') \<Rightarrow> (ApiError 409 ''not_undoable'', Some mj')))"

definition report_mail_moves ::
  "rowids \<Rightarrow> bool option \<Rightarrow> mail_move list option \<Rightarrow> move_journal option \<Rightarrow> response \<times> move_journal option" where
  "report_mail_moves sq authenticated body consent =
     (case authenticated of
        None \<Rightarrow> (ApiError 503 ''service_token_not_configured'', consent)
      | Some False \<Rightarrow> (ApiError 401 ''unauthenticated'', consent)
      | Some True \<Rightarrow>
          (case consent of
             None \<Rightarrow> (ApiError 503 ''consent_not_configured'', None)
           | Some mj \<Rightarrow>
               (case body of
                  None \<Rightarrow> (ApiError 422 ''malformed_request'', Some mj)
                | Some ms \<Rightarrow>
                    (case record_moves sq ms 0 mj of
                       (Inl e, mj') \<Rightarrow> (ApiError 500 ''store_unavailable'', Some mj')
                     | (Inr n, mj') \<Rightarrow>
                         (Served (JObj [(''recorded'', JNum (int n)), (''reported'', JNum (int (length ms)))]), Some mj')))))"

definition decide_proposal ::
  "(string \<Rightarrow> string) \<Rightarrow> nat \<Rightarrow> bool \<Rightarrow> string \<Rightarrow> string \<Rightarrow> rules_store option \<Rightarrow> response \<times> rules_store option" where
  "decide_proposal lower sequence approved_it at actor consent =
     (case consent of
        None \<Rightarrow> (ApiError 503 ''consent_not_configured'', None)
      | Some rs \<Rightarrow>
          (case decide_rule_proposal lower sequence approved_it at actor rs of
             (Inl e, rs') \<Rightarrow> (ApiError 422 ''not_applicable'', Some rs')
           | (Inr None, rs') \<Rightarrow> (ApiError 409 ''already_decided'', Some rs')
           | (Inr (Some ta), rs') \<Rightarrow> (Served (JObj [(''triage'', triage_json ta)]), Some rs')))"

text \<open>
  The agent's door. \<open>genuine\<close> is \<open>None\<close> where no secret is configured; \<open>bytes\<close> is the length of
  the body, which is read only when it is signed.
\<close>

definition max_push_bytes :: nat where
  "max_push_bytes = 262144"

definition read_proposal_body :: "json \<Rightarrow> (rule \<times> string option) option" where
  "read_proposal_body j =
     do {
       r \<leftarrow> Option.bind (jget j ''rule'') read_rule;
       because \<leftarrow> optional_text j ''because'';
       Some (r, because)
     }"

definition propose_mail_rule ::
  "(string \<Rightarrow> string) \<Rightarrow> rowids \<Rightarrow> bool option \<Rightarrow> nat \<Rightarrow> string \<Rightarrow> json option \<Rightarrow> rules_store option
    \<Rightarrow> response \<times> rules_store option" where
  "propose_mail_rule lower sq genuine bytes at body consent =
     (case genuine of
        None \<Rightarrow> (ApiError 503 ''hermes_answers_not_configured'', consent)
      | Some ok \<Rightarrow>
          if max_push_bytes < bytes then (ApiError 413 ''push_too_large'', consent)
          else if \<not> ok then (ApiError 401 ''unauthenticated'', consent)
          else
            (case consent of
               None \<Rightarrow> (ApiError 503 ''consent_not_configured'', None)
             | Some rs \<Rightarrow>
                 (case Option.bind body read_proposal_body of
                    None \<Rightarrow> (ApiError 422 ''malformed_request'', Some rs)
                  | Some (r, because) \<Rightarrow>
                      (case and_then (check_destination lower (ru_destination r)) (\<lambda>_. check_match (ru_matches r)) of
                         Inl refused \<Rightarrow> (ApiError 422 (rule_refusal_code refused), Some rs)
                       | Inr _ \<Rightarrow>
                           (case record_rule_proposal sq r (map_option (take_chars 500) because) at rs of
                              (s, rs') \<Rightarrow>
                                (Served (JObj [(''sequence'', JNum (int s)), (''state'', JStr ''proposed'')]), Some rs'))))))"

section \<open>Rules are read back\<close>

definition days_ok :: "rule \<Rightarrow> bool" where
  "days_ok r \<longleftrightarrow> (case ru_matches r of OlderThanDays n \<Rightarrow> n < 2 ^ 32 | _ \<Rightarrow> True)"

lemma read_rule_json: "days_ok r \<Longrightarrow> read_rule (rule_json r) = Some r"
  by (cases r; cases "ru_matches r") (simp_all add: read_rule_def rule_json_def read_match_def days_ok_def ju32_def)

lemma read_all_of_map: "(\<And>x. x \<in> set xs \<Longrightarrow> f (g x) = Some x) \<Longrightarrow> read_all_of f (map g xs) = Some xs"
  by (induction xs) simp_all

lemma read_triage_json:
  assumes "\<forall>r \<in> set (ta_rules ta). days_ok r"
  shows "read_triage (triage_json ta) = Some ta"
proof -
  have "read_all_of jstr (map JStr (ta_destinations ta)) = Some (ta_destinations ta)"
    by (rule read_all_of_map) simp
  moreover have "read_all_of read_rule (map rule_json (ta_rules ta)) = Some (ta_rules ta)"
    using assms by (intro read_all_of_map read_rule_json) simp
  ultimately show ?thesis by (simp add: read_triage_def triage_json_def)
qed

section \<open>What an accepted set is\<close>

definition rule_ok :: "(string \<Rightarrow> string) \<Rightarrow> triage \<Rightarrow> rule \<Rightarrow> bool" where
  "rule_ok lower ta r \<longleftrightarrow>
     trim (ru_id r) \<noteq> [] \<and> chars_count (ru_id r) \<le> max_len
     \<and> check_match (ru_matches r) = Inr () \<and> check_destination lower (ru_destination r) = Inr ()
     \<and> triage_allows ta (ru_destination r)"

definition triage_ok :: "(string \<Rightarrow> string) \<Rightarrow> triage \<Rightarrow> bool" where
  "triage_ok lower ta \<longleftrightarrow>
     (\<forall>d \<in> set (ta_destinations ta). check_destination lower d = Inr ())
     \<and> length (ta_rules ta) \<le> max_rules \<and> distinct (map ru_id (ta_rules ta))
     \<and> (\<forall>r \<in> set (ta_rules ta). rule_ok lower ta r)"

lemma named_Inr_iff [result_simps]: "named who x = Inr y \<longleftrightarrow> x = Inr y"
  by (cases x) simp_all

lemma check_rules_Inr:
  "check_rules lower ta earlier rs = Inr () \<longleftrightarrow>
     (\<forall>r \<in> set rs. rule_ok lower ta r) \<and> distinct (map ru_id rs) \<and> ru_id ` set rs \<inter> set earlier = {}"
proof (induction rs arbitrary: earlier)
  case (Cons r rs)
  show ?case
    using Cons.IH [of "ru_id r # earlier"] by (auto simp: rule_ok_def result_simps not_less)
qed simp

lemma unit_traverse: "(\<exists>us. traverse f xs = Inr us) \<longleftrightarrow> (\<forall>x \<in> set xs. \<exists>u. f x = Inr u)"
proof
  assume "\<exists>us. traverse f xs = Inr us"
  then show "\<forall>x \<in> set xs. \<exists>u. f x = Inr u"
    by (auto simp: traverse_Inr_iff list_all2_conv_all_nth in_set_conv_nth)
next
  assume "\<forall>x \<in> set xs. \<exists>u. f x = Inr u"
  then show "\<exists>us. traverse f xs = Inr us" by (rule traverse_total)
qed

lemma check_triage_Inr: "check_triage lower ta = Inr () \<longleftrightarrow> triage_ok lower ta"
  using unit_traverse [of "check_destination lower" "ta_destinations ta"]
  by (auto simp: check_triage_def triage_ok_def check_rules_Inr and_then_Inr_iff named_Inr_iff not_less)

lemma rule_ok_days: "rule_ok lower ta r \<Longrightarrow> days_ok r"
  by (auto simp: rule_ok_def days_ok_def check_match_def split: rule_match.splits if_splits)

lemma triage_ok_read: "triage_ok lower ta \<Longrightarrow> read_triage (triage_json ta) = Some ta"
  using rule_ok_days by (intro read_triage_json) (auto simp: triage_ok_def)

section \<open>The journal of the rules\<close>

definition rules_wf :: "(string \<Rightarrow> string) \<Rightarrow> rules_store \<Rightarrow> bool" where
  "rules_wf lower rs \<longleftrightarrow>
     (\<forall>row \<in> set (rs_decisions rs). \<forall>d. tr_document row = Some d \<longrightarrow> (\<exists>ta. d = triage_json ta \<and> triage_ok lower ta))"

lemma rules_wf_mail_triage: "rules_wf lower rs \<Longrightarrow> \<exists>ta. mail_triage rs = Inr ta \<and> triage_ok lower ta"
proof (cases "rs_decisions rs = []")
  case True
  then show ?thesis by (simp add: mail_triage_def empty_triage_def triage_ok_def)
next
  case False
  assume wf: "rules_wf lower rs"
  have row: "last (rs_decisions rs) \<in> set (rs_decisions rs)" using False by simp
  show ?thesis
  proof (cases "tr_document (last (rs_decisions rs))")
    case None
    with False show ?thesis by (auto simp: mail_triage_def empty_triage_def triage_ok_def split: list.split)
  next
    case (Some d)
    then obtain ta where "d = triage_json ta" "triage_ok lower ta" using wf row by (auto simp: rules_wf_def)
    then show ?thesis using False Some triage_ok_read [of lower ta]
      by (auto simp: mail_triage_def split: list.split)
  qed
qed

lemma mail_triage_nonempty:
  "rs_decisions rs \<noteq> [] \<Longrightarrow>
     mail_triage rs = (case tr_document (last (rs_decisions rs)) of None \<Rightarrow> Inr empty_triage
                       | Some d \<Rightarrow> ok_or UnreadableSet (read_triage d))"
  by (cases "rs_decisions rs") (simp_all add: mail_triage_def)

lemma mail_triage_after:
  "mail_triage (rs\<lparr>rs_decisions := rs_decisions rs @ [row]\<rparr>) =
     (case tr_document row of None \<Rightarrow> Inr empty_triage | Some d \<Rightarrow> ok_or UnreadableSet (read_triage d))"
  by (simp add: mail_triage_nonempty)

lemma rules_wf_append:
  "rules_wf lower rs \<Longrightarrow> tr_document row = None \<or> (\<exists>ta. tr_document row = Some (triage_json ta) \<and> triage_ok lower ta) \<Longrightarrow>
     rules_wf lower (rs\<lparr>rs_decisions := rs_decisions rs @ [row]\<rparr>)"
  unfolding rules_wf_def by fastforce

lemma record_mail_triage_cases:
  "record_mail_triage_decision lower ta at actor cause rs = (res, rs') \<Longrightarrow>
     rs' = rs \<and> (\<exists>who e. res = Inl (NotApplicable who e) \<and> (\<exists>t. ta = Some t \<and> check_triage lower t = Inl (who, e)))
   \<or> res = Inr (case ta of None \<Rightarrow> empty_triage | Some t \<Rightarrow> t) \<and> (\<forall>t. ta = Some t \<longrightarrow> triage_ok lower t)
     \<and> rs' = rs\<lparr>rs_decisions := rs_decisions rs @
            [\<lparr>tr_document = map_option triage_json ta, tr_at = at, tr_actor = actor, tr_reason = cause\<rparr>]\<rparr>"
proof (cases ta)
  case None
  then show "record_mail_triage_decision lower ta at actor cause rs = (res, rs') \<Longrightarrow> ?thesis"
    by (auto simp: record_mail_triage_decision_def Let_def mail_triage_after)
next
  case (Some t)
  assume r: "record_mail_triage_decision lower ta at actor cause rs = (res, rs')"
  show ?thesis
  proof (cases "check_triage lower t")
    case (Inl e)
    then show ?thesis using r Some by (cases e) (auto simp: record_mail_triage_decision_def)
  next
    case (Inr u)
    then have "triage_ok lower t" using check_triage_Inr by simp
    then show ?thesis using r Some Inr triage_ok_read [of lower t]
      by (auto simp: record_mail_triage_decision_def Let_def mail_triage_after)
  qed
qed

lemma record_mail_triage_wf:
  assumes "rules_wf lower rs" and "record_mail_triage_decision lower ta at actor cause rs = (res, rs')"
  shows "rules_wf lower rs'"
  using record_mail_triage_cases [OF assms(2)] assms(1)
  by (cases ta) (auto intro!: rules_wf_append)

lemma approve_rule_cases:
  assumes "approve_rule lower d at actor rs = (res, rs')"
  shows "rs' = rs \<and> (\<exists>e. res = Inl e)
    \<or> (\<exists>r ta. read_rule d = Some r \<and> mail_triage rs = Inr ta \<and> res = Inr (with_rule r ta) \<and> triage_ok lower (with_rule r ta)
        \<and> rs' = rs\<lparr>rs_decisions := rs_decisions rs @
             [\<lparr>tr_document = Some (triage_json (with_rule r ta)), tr_at = at, tr_actor = actor,
               tr_reason = Some ''approved a rule the assistant proposed''\<rparr>]\<rparr>)"
proof -
  consider e where "and_then (ok_or UnreadableRule (read_rule d)) (\<lambda>r. and_then (mail_triage rs) (\<lambda>ta. Inr (with_rule r ta))) = Inl e"
    | r ta where "read_rule d = Some r" "mail_triage rs = Inr ta"
    by (cases "read_rule d"; cases "mail_triage rs") auto
  then show ?thesis
  proof cases
    case 1
    then have "(Inl e, rs) = (res, rs')" using assms unfolding approve_rule_def 1 by simp
    then show ?thesis by auto
  next
    case 2
    then have "record_mail_triage_decision lower (Some (with_rule r ta)) at actor
        (Some ''approved a rule the assistant proposed'') rs = (res, rs')"
      using assms by (simp add: approve_rule_def)
    from record_mail_triage_cases [OF this] 2 show ?thesis by auto
  qed
qed

lemma approve_rule_wf:
  "rules_wf lower rs \<Longrightarrow> approve_rule lower d at actor rs = (res, rs') \<Longrightarrow> rules_wf lower rs'"
  using approve_rule_cases [of lower d at actor rs res rs'] by (auto intro!: rules_wf_append)

lemma mark_decided_decisions: "rs_decisions (snd (mark_decided s w at rs)) = rs_decisions rs"
  by (simp add: mark_decided_def)

lemma decide_wf:
  assumes "rules_wf lower rs"
  shows "rules_wf lower (snd (decide_rule_proposal lower s ok at actor rs))"
proof -
  have mark: "rules_wf lower (snd (mark_decided s w at x))" if "rules_wf lower x" for w x
    using that by (simp add: rules_wf_def mark_decided_decisions)
  show ?thesis
    using assms mark [of rs ProposalRefused] mark [of _ ProposalApproved] approve_rule_wf [OF assms]
    by (fastforce simp: decide_rule_proposal_def split: option.split sum.split prod.split)
qed

datatype rules_request =
    WriteRules string string "json option"
  | ProposeRule "bool option" nat string "json option"
  | DecideProposal nat bool string string

definition serve_rules :: "(string \<Rightarrow> string) \<Rightarrow> rowids \<Rightarrow> rules_request \<Rightarrow> rules_store \<Rightarrow> rules_store" where
  "serve_rules lower sq rq rs =
     (case rq of
        WriteRules at actor body \<Rightarrow> the (snd (write_mail_triage lower at actor body (Some rs)))
      | ProposeRule genuine bytes at body \<Rightarrow> the (snd (propose_mail_rule lower sq genuine bytes at body (Some rs)))
      | DecideProposal s ok at actor \<Rightarrow> the (snd (decide_proposal lower s ok at actor (Some rs))))"

definition no_rules :: rules_store where
  "no_rules = \<lparr>rs_decisions = [], rs_proposals = [], rs_last_proposal = 0\<rparr>"

lemma propose_decisions:
  "rs_decisions (the (snd (propose_mail_rule lower sq genuine bytes at body (Some rs)))) = rs_decisions rs"
  by (auto simp: propose_mail_rule_def record_rule_proposal_def Let_def split: option.split sum.split)

lemma serve_rules_wf: "rules_wf lower rs \<Longrightarrow> rules_wf lower (serve_rules lower sq rq rs)"
proof (cases rq)
  case (WriteRules at actor body)
  assume "rules_wf lower rs"
  then show ?thesis
    using record_mail_triage_wf [of lower rs]
    by (fastforce simp: WriteRules serve_rules_def write_mail_triage_def split: option.split sum.split prod.split)
next
  case (ProposeRule genuine bytes at body)
  assume "rules_wf lower rs"
  then show ?thesis using propose_decisions by (simp add: ProposeRule serve_rules_def rules_wf_def)
next
  case (DecideProposal s ok at actor)
  assume "rules_wf lower rs"
  from decide_wf [OF this, of s ok at actor] show ?thesis
    by (auto simp: DecideProposal serve_rules_def decide_proposal_def split: prod.split sum.split option.split)
qed

lemma no_rules_wf: "rules_wf lower no_rules"
  by (simp add: rules_wf_def no_rules_def)

text \<open>
  C23. Whatever the owner writes, the assistant proposes and the owner decides, the set in force
  can be read and passes the check: it never files into a mailbox outside the allowlist, into
  one named as the trash, or under two rules of one id.
\<close>

theorem rules_in_force_are_applicable:
  "\<exists>ta. mail_triage (fold (serve_rules lower sq) requests no_rules) = Inr ta \<and> triage_ok lower ta
      \<and> check_triage lower ta = Inr ()"
proof -
  have "rules_wf lower rs \<Longrightarrow> rules_wf lower (fold (serve_rules lower sq) requests rs)" for rs
    by (induction requests arbitrary: rs) (simp_all add: serve_rules_wf)
  from rules_wf_mail_triage [OF this [OF no_rules_wf]] show ?thesis by (auto simp: check_triage_Inr)
qed

section \<open>Decisions on proposals\<close>

lemma find_marked:
  assumes "\<And>p. pr_sequence (g p) = pr_sequence p"
  shows "List.find (\<lambda>p. pr_sequence p = s) (map (\<lambda>p. if pr_sequence p = s then g p else p) ps)
    = map_option g (List.find (\<lambda>p. pr_sequence p = s) ps)"
  using assms by (induction ps) auto

lemma mark_decided_Inr:
  assumes "mark_decided s w at rs = (Inr u, rs')" and "w \<noteq> Proposed"
  shows "proposal_held s rs' = None \<and> rs_decisions rs' = rs_decisions rs"
proof -
  show ?thesis using assms
    by (auto simp: mark_decided_def proposal_held_def find_marked split: if_splits option.split)
qed

lemma mail_triage_cong: "rs_decisions rs = rs_decisions rs' \<Longrightarrow> mail_triage rs = mail_triage rs'"
  by (cases "rs_decisions rs'") (simp_all add: mail_triage_def)

text \<open>
  C27. Approving a proposal puts its rule last, in the place of any rule of that id, and leaves
  the others as they were; refusing it changes no rule; a second decision on it does nothing.
\<close>

theorem proposal_is_decided_once:
  assumes "decide_rule_proposal lower s ok at actor rs = (Inr (Some ta'), rs')"
  shows "mail_triage rs' = Inr ta'
    \<and> (if ok
       then \<exists>d r ta. proposal_held s rs = Some d \<and> read_rule d = Some r \<and> mail_triage rs = Inr ta
         \<and> ta_rules ta' = filter (\<lambda>held. ru_id held \<noteq> ru_id r) (ta_rules ta) @ [r]
         \<and> ta_destinations ta' = ta_destinations ta
       else mail_triage rs = Inr ta')
    \<and> decide_rule_proposal lower s ok2 at2 actor2 rs' = (Inr None, rs')"
proof -
  obtain d where d: "proposal_held s rs = Some d"
    using assms by (auto simp: decide_rule_proposal_def split: option.splits)
  show ?thesis
  proof (cases ok)
    case True
    then obtain rs1 u where a: "approve_rule lower d at actor rs = (Inr ta', rs1)"
        and m: "mark_decided s ProposalApproved at rs1 = (Inr u, rs')"
      using assms d by (auto simp: decide_rule_proposal_def split: prod.splits sum.splits)
    obtain r ta where r: "read_rule d = Some r" "mail_triage rs = Inr ta" "ta' = with_rule r ta" "triage_ok lower ta'"
        and rs1: "mail_triage rs1 = Inr ta'"
      using approve_rule_cases [OF a] triage_ok_read [of lower ta'] by (auto simp: mail_triage_after)
    have "mail_triage rs' = Inr ta'" "proposal_held s rs' = None"
      using mark_decided_Inr [OF m] mail_triage_cong [of rs' rs1] rs1 by simp_all
    then show ?thesis using True d r by (simp add: decide_rule_proposal_def with_rule_def)
  next
    case False
    then obtain u where m: "mark_decided s ProposalRefused at rs = (Inr u, rs')" and t: "mail_triage rs' = Inr ta'"
      using assms d by (auto simp: decide_rule_proposal_def split: prod.splits sum.splits)
    then show ?thesis
      using False d mark_decided_Inr [OF m] mail_triage_cong [of rs' rs] by (simp add: decide_rule_proposal_def)
  qed
qed

text \<open>
  An approval and a refusal of one proposal that overlap: the approval read the proposal, the
  refusal went through, and the approval went on. The rule is in force, the proposal says that
  it was refused, and the approval is answered as one that could not be applied.
\<close>

theorem refused_rule_is_in_force:
  assumes "proposal_held s rs = Some d" and "mark_decided s ProposalRefused at0 rs = (Inr u, rs0)"
    and "approve_rule lower d at actor rs0 = (Inr ta, rs1)"
  shows "mark_decided s ProposalApproved at rs1 = (Inl DecidedOnce, rs1)
    \<and> (\<exists>r. read_rule d = Some r \<and> mail_triage rs1 = Inr ta \<and> last (ta_rules ta) = r)
    \<and> map_option pr_state (List.find (\<lambda>p. pr_sequence p = s) (rs_proposals rs1)) = Some ProposalRefused"
proof -
  obtain r ta0 where r: "read_rule d = Some r" "ta = with_rule r ta0" "triage_ok lower ta"
      and rs1: "mail_triage rs1 = Inr ta" "rs_proposals rs1 = rs_proposals rs0"
    using approve_rule_cases [OF assms(3)] triage_ok_read [of lower ta] by (auto simp: mail_triage_after)
  obtain p where p: "List.find (\<lambda>p. pr_sequence p = s) (rs_proposals rs) = Some p"
    using assms(1) by (auto simp: proposal_held_def split: option.splits)
  have f: "map_option pr_state (List.find (\<lambda>p. pr_sequence p = s) (rs_proposals rs1)) = Some ProposalRefused"
    using assms(2) p rs1(2) by (auto simp: mark_decided_def find_marked split: if_splits)
  then have "list_ex (\<lambda>p. pr_sequence p = s \<and> pr_state p \<noteq> Proposed) (rs_proposals rs1)"
    by (auto simp: list_ex_iff find_Some_iff)
  then show ?thesis using r rs1(1) f by (simp add: mark_decided_def with_rule_def)
qed

text \<open>
  A proposal whose rule has a blank id passes the agent's door and can never be approved.
\<close>

theorem nameless_proposal_is_taken:
  assumes "trim (ru_id r) = []" and "days_ok r"
    and "check_destination lower (ru_destination r) = Inr ()" and "check_match (ru_matches r) = Inr ()"
    and "read_proposal_body body = Some (r, because)" and "bytes \<le> max_push_bytes"
  shows "\<exists>document. fst (propose_mail_rule lower sq (Some True) bytes at (Some body) (Some rs)) = Served document
    \<and> fst (approve_rule lower (rule_json r) at' actor rs') \<noteq> Inr ta"
proof -
  have "\<not> rule_ok lower (with_rule r t) r" for t using assms(1) by (simp add: rule_ok_def)
  then have "\<not> triage_ok lower (with_rule r t)" for t by (simp add: triage_ok_def with_rule_def)
  then have "fst (approve_rule lower (rule_json r) at' actor rs') \<noteq> Inr ta"
    using approve_rule_cases [of lower "rule_json r" at' actor rs'] read_rule_json [OF assms(2)]
    by (cases "approve_rule lower (rule_json r) at' actor rs'") auto
  then show ?thesis
    using assms by (simp add: propose_mail_rule_def record_rule_proposal_def Let_def)
qed

section \<open>The journal of the moves\<close>

definition row_sequences :: "move_journal \<Rightarrow> nat list" where
  "row_sequences mj = map rm_sequence (mj_rows mj)"

definition row_moves :: "move_journal \<Rightarrow> mail_move list" where
  "row_moves mj = map rm_move (mj_rows mj)"

definition move_key :: "mail_move \<Rightarrow> string \<times> string \<times> string" where
  "move_key m = (mv_connection m, mv_email m, mv_at m)"

text \<open>Rows in order, each mail moved once at an instant, and what is asked back is not back.\<close>

definition moves_wf :: "move_journal \<Rightarrow> bool" where
  "moves_wf mj \<longleftrightarrow>
     sorted_wrt (<) (row_sequences mj) \<and> (\<forall>s \<in> set (row_sequences mj). s \<le> mj_last mj)
     \<and> distinct (map move_key (row_moves mj))
     \<and> (\<forall>r \<in> set (pending_mail_undos mj). mv_undoes (rm_move r) = None
           \<and> Some (rm_sequence r) \<notin> mv_undoes ` set (row_moves mj))"

lemma same_move_iff: "same_move m m' \<longleftrightarrow> move_key m = move_key m'"
  by (auto simp: same_move_def move_key_def)

lemma clear_request_simps:
  "row_moves (clear_request u mj) = row_moves mj" "row_sequences (clear_request u mj) = row_sequences mj"
  "mj_last (clear_request u mj) = mj_last mj"
  "pending_mail_undos (clear_request u mj) = filter (\<lambda>r. Some (rm_sequence r) \<noteq> u) (pending_mail_undos mj)"
proof -
  show "row_moves (clear_request u mj) = row_moves mj" "row_sequences (clear_request u mj) = row_sequences mj"
    "mj_last (clear_request u mj) = mj_last mj"
    by (auto simp: clear_request_def row_moves_def row_sequences_def split: option.split)
  have "filter (\<lambda>r. rm_undo_requested_at r \<noteq> None)
      (map (\<lambda>r. if rm_sequence r = v then r\<lparr>rm_undo_requested_at := None\<rparr> else r) rows) =
      filter (\<lambda>r. rm_sequence r \<noteq> v \<and> rm_undo_requested_at r \<noteq> None) rows" for v rows
    by (induction rows) auto
  then show "pending_mail_undos (clear_request u mj) = filter (\<lambda>r. Some (rm_sequence r) \<noteq> u) (pending_mail_undos mj)"
    by (cases u) (auto simp: clear_request_def pending_mail_undos_def conj_commute)
qed

lemma request_simps:
  "row_moves (snd (request_mail_undo s at mj)) = row_moves mj"
  "row_sequences (snd (request_mail_undo s at mj)) = row_sequences mj"
  "mj_last (snd (request_mail_undo s at mj)) = mj_last mj"
  by (simp_all add: request_mail_undo_def row_moves_def row_sequences_def Let_def comp_def if_distrib cong: if_cong)

lemma request_pending:
  assumes "r \<in> set (pending_mail_undos (snd (request_mail_undo s at mj)))"
  shows "r \<in> set (pending_mail_undos mj)
    \<or> (\<exists>r0 \<in> set (mj_rows mj). rm_sequence r0 = s \<and> undoable mj r0 \<and> rm_sequence r = s \<and> rm_move r = rm_move r0)"
  using assms by (auto simp: pending_mail_undos_def request_mail_undo_def Let_def split: if_splits)

lemma undoable_back: "undoable mj r \<Longrightarrow> mv_undoes (rm_move r) = None \<and> Some (rm_sequence r) \<notin> mv_undoes ` set (row_moves mj)"
  by (auto simp: undoable_def list_ex_iff row_moves_def)

lemma moves_wf_request: "moves_wf mj \<Longrightarrow> moves_wf (snd (request_mail_undo s at mj))"
  using request_pending [of _ s at mj] undoable_back [of mj]
  by (fastforce simp: moves_wf_def request_simps)

lemma insert_move_cases:
  assumes "insert_move sq m mj = (res, mj')"
  shows "(\<exists>m' \<in> set (row_moves mj). move_key m' = move_key m) \<and> res = Inr False \<and> mj_rows mj' = mj_rows mj
      \<and> mj_last mj' = after_ignored sq (mj_last mj)
   \<or> res = Inl ConstraintViolated \<and> mj' = mj
   \<or> move_key m \<notin> move_key ` set (row_moves mj) \<and> res = Inr True
      \<and> mj_rows mj' = mj_rows mj @ [\<lparr>rm_sequence = allocate sq (mj_last mj), rm_move = m, rm_undo_requested_at = None\<rparr>]
      \<and> mj_last mj' = allocate sq (mj_last mj)"
  using assms by (auto simp: insert_move_def Let_def list_ex_iff same_move_iff row_moves_def split: if_splits)

lemma record_mail_move_wf:
  assumes "autoincrement sq" and "moves_wf mj" and "record_mail_move sq m mj = (res, mj')"
  shows "moves_wf mj'"
proof -
  obtain res0 mj0 where i: "insert_move sq m mj = (res0, mj0)" by (cases "insert_move sq m mj")
  have last: "mj_last mj \<le> after_ignored sq (mj_last mj)" "mj_last mj < allocate sq (mj_last mj)"
    using assms(1) by (simp_all add: autoincrement_def)
  have mj': "mj' = (case res0 of Inl _ \<Rightarrow> mj0 | Inr _ \<Rightarrow> clear_request (mv_undoes m) mj0)"
    using assms(3) i by (auto simp: record_mail_move_def split: sum.splits)
  from insert_move_cases [OF i] show ?thesis
  proof (elim disjE conjE)
    assume "res0 = Inr False" "mj_rows mj0 = mj_rows mj" "mj_last mj0 = after_ignored sq (mj_last mj)"
    moreover from this have "row_moves mj0 = row_moves mj" "row_sequences mj0 = row_sequences mj"
      "pending_mail_undos mj0 = pending_mail_undos mj"
      by (simp_all add: row_moves_def row_sequences_def pending_mail_undos_def)
    ultimately show ?thesis using assms(2) last
      by (auto simp: mj' moves_wf_def clear_request_simps intro: order_trans)
  next
    assume "res0 = Inl ConstraintViolated" "mj0 = mj"
    then show ?thesis using assms(2) by (simp add: mj')
  next
    assume new: "move_key m \<notin> move_key ` set (row_moves mj)" "res0 = Inr True"
      "mj_rows mj0 = mj_rows mj @ [\<lparr>rm_sequence = allocate sq (mj_last mj), rm_move = m, rm_undo_requested_at = None\<rparr>]"
      "mj_last mj0 = allocate sq (mj_last mj)"
    then have "row_moves mj0 = row_moves mj @ [m]" "row_sequences mj0 = row_sequences mj @ [allocate sq (mj_last mj)]"
      "pending_mail_undos mj0 = pending_mail_undos mj"
      by (simp_all add: row_moves_def row_sequences_def pending_mail_undos_def)
    then show ?thesis using assms(2) last new
      by (fastforce simp: mj' moves_wf_def clear_request_simps sorted_wrt_append)
  qed
qed

lemma moves_wf_sequence:
  assumes "moves_wf mj" and "r \<in> set (mj_rows mj)" and "r' \<in> set (mj_rows mj)" and "rm_sequence r = rm_sequence r'"
  shows "r = r'"
proof -
  have "distinct (row_sequences mj)" using assms(1) by (simp add: moves_wf_def strict_sorted_iff)
  then show ?thesis using assms(2-4) by (simp add: row_sequences_def distinct_map inj_on_def)
qed

lemma list_ex_same_move:
  "list_ex (\<lambda>r. same_move (rm_move r) m) (mj_rows mj) \<longleftrightarrow> move_key m \<in> move_key ` set (row_moves mj)"
proof -
  have "list_ex (\<lambda>r. same_move (rm_move r) m) rows \<longleftrightarrow> move_key m \<in> move_key ` set (map rm_move rows)" for rows
    by (induction rows) (auto simp: same_move_iff)
  then show ?thesis by (simp add: row_moves_def)
qed

lemma record_new_move:
  assumes "move_key m \<notin> move_key ` set (row_moves mj)"
    and "case mv_undoes m of None \<Rightarrow> True | Some u \<Rightarrow> u \<in> set (row_sequences mj)"
  shows "\<exists>mj'. record_mail_move sq m mj = (Inr True, mj') \<and> row_moves mj' = row_moves mj @ [m]
    \<and> row_sequences mj' = row_sequences mj @ [allocate sq (mj_last mj)]
    \<and> pending_mail_undos mj' = filter (\<lambda>r. Some (rm_sequence r) \<noteq> mv_undoes m) (pending_mail_undos mj)"
proof -
  let ?mj0 = "mj\<lparr>mj_rows := mj_rows mj @ [\<lparr>rm_sequence = allocate sq (mj_last mj), rm_move = m, rm_undo_requested_at = None\<rparr>],
                 mj_last := allocate sq (mj_last mj)\<rparr>"
  have "\<not> list_ex (\<lambda>r. same_move (rm_move r) m) (mj_rows mj)"
    using assms(1) by (simp add: list_ex_same_move)
  moreover have "case mv_undoes m of None \<Rightarrow> True | Some u \<Rightarrow> u = allocate sq (mj_last mj) \<or> list_ex (\<lambda>r. rm_sequence r = u) (mj_rows mj)"
    using assms(2) by (auto simp: list_ex_iff row_sequences_def split: option.splits)
  ultimately have "insert_move sq m mj = (Inr True, ?mj0)" by (simp add: insert_move_def Let_def)
  then have "record_mail_move sq m mj = (Inr True, clear_request (mv_undoes m) ?mj0)" by (simp add: record_mail_move_def)
  moreover have "row_moves ?mj0 = row_moves mj @ [m]" "row_sequences ?mj0 = row_sequences mj @ [allocate sq (mj_last mj)]"
    "pending_mail_undos ?mj0 = pending_mail_undos mj"
    by (simp_all add: row_moves_def row_sequences_def pending_mail_undos_def)
  ultimately show ?thesis by (simp add: clear_request_simps)
qed

lemma record_known_move:
  assumes "move_key m \<in> move_key ` set (row_moves mj)"
  shows "\<exists>mj'. record_mail_move sq m mj = (Inr False, mj') \<and> row_moves mj' = row_moves mj \<and> row_sequences mj' = row_sequences mj
    \<and> pending_mail_undos mj' = filter (\<lambda>r. Some (rm_sequence r) \<noteq> mv_undoes m) (pending_mail_undos mj)"
proof -
  let ?mj0 = "mj\<lparr>mj_last := after_ignored sq (mj_last mj)\<rparr>"
  have "list_ex (\<lambda>r. same_move (rm_move r) m) (mj_rows mj)"
    using assms by (simp add: list_ex_same_move)
  then have "insert_move sq m mj = (Inr False, ?mj0)" by (simp add: insert_move_def)
  then have "record_mail_move sq m mj = (Inr False, clear_request (mv_undoes m) ?mj0)" by (simp add: record_mail_move_def)
  moreover have "row_moves ?mj0 = row_moves mj" "row_sequences ?mj0 = row_sequences mj"
    "pending_mail_undos ?mj0 = pending_mail_undos mj"
    by (simp_all add: row_moves_def row_sequences_def pending_mail_undos_def)
  ultimately show ?thesis by (simp add: clear_request_simps)
qed

lemma request_mail_undo_iff:
  "fst (request_mail_undo s at mj) \<longleftrightarrow>
     (\<exists>r \<in> set (mj_rows mj). rm_sequence r = s \<and> undoable mj r)"
  by (auto simp: request_mail_undo_def Let_def list_ex_iff)

lemma request_mail_undo_moves:
  "fst (request_mail_undo s at mj) \<Longrightarrow> s \<in> set (row_sequences mj) \<and> Some s \<notin> mv_undoes ` set (row_moves mj)"
  by (auto simp: request_mail_undo_iff row_sequences_def dest: undoable_back)

text \<open>
  A move asked back is in the queue until an undo that points at it is recorded; then it is
  out of the queue, the undo is the last row of the journal, and it cannot be asked back again.
\<close>

theorem asked_undo_is_answered_by_its_move:
  assumes "request_mail_undo s at mj = (True, mj1)"
    and "mv_undoes m = Some s" and "move_key m \<notin> move_key ` set (row_moves mj)"
  shows "s \<in> rm_sequence ` set (pending_mail_undos mj1)
    \<and> (\<exists>mj2. record_mail_move sq m mj1 = (Inr True, mj2) \<and> s \<notin> rm_sequence ` set (pending_mail_undos mj2)
        \<and> row_moves mj2 = row_moves mj @ [m] \<and> \<not> fst (request_mail_undo s at' mj2))"
proof -
  have mj1: "mj1 = snd (request_mail_undo s at mj)" and ok: "fst (request_mail_undo s at mj)"
    using assms(1) by simp_all
  have k: "row_moves mj1 = row_moves mj" "row_sequences mj1 = row_sequences mj" by (simp_all add: mj1 request_simps)
  obtain r where r: "r \<in> set (mj_rows mj)" "rm_sequence r = s" "undoable mj r"
    using ok by (auto simp: request_mail_undo_iff)
  then have "r\<lparr>rm_undo_requested_at := Some at\<rparr> \<in> set (pending_mail_undos mj1)"
    by (auto simp: mj1 pending_mail_undos_def request_mail_undo_def Let_def image_iff)
  from imageI [OF this, of rm_sequence] have "s \<in> rm_sequence ` set (pending_mail_undos mj1)"
    using r(2) by simp
  moreover obtain mj2 where r: "record_mail_move sq m mj1 = (Inr True, mj2)" "row_moves mj2 = row_moves mj1 @ [m]"
      "pending_mail_undos mj2 = filter (\<lambda>r. Some (rm_sequence r) \<noteq> Some s) (pending_mail_undos mj1)"
    using record_new_move [of m mj1 sq] assms(2,3) request_mail_undo_moves [OF ok] by (auto simp: k)
  moreover have "\<not> fst (request_mail_undo s at' mj2)"
    using request_mail_undo_moves [of s at' mj2] r(2) assms(2) by auto
  ultimately show ?thesis by (auto simp: k)
qed

lemma second_undo_is_ignored:
  assumes "moves_wf mj" and "r1 \<in> set (pending_mail_undos mj)" and "r2 \<in> set (pending_mail_undos mj)"
    and "rm_sequence r1 \<noteq> rm_sequence r2"
    and "mv_undoes m1 = Some (rm_sequence r1)" and "mv_undoes m2 = Some (rm_sequence r2)"
    and "move_key m1 = move_key m2" and "move_key m1 \<notin> move_key ` set (row_moves mj)"
  shows "\<exists>mj'. record_moves sq [m1, m2] 0 mj = (Inr 1, mj') \<and> row_moves mj' = row_moves mj @ [m1]
    \<and> rm_sequence r2 \<notin> rm_sequence ` set (pending_mail_undos mj')
    \<and> Some (rm_sequence r2) \<notin> mv_undoes ` set (row_moves mj')"
proof -
  have rows: "rm_sequence r1 \<in> set (row_sequences mj)" using assms(2) by (simp add: pending_mail_undos_def row_sequences_def)
  obtain mj1 where 1: "record_mail_move sq m1 mj = (Inr True, mj1)" "row_moves mj1 = row_moves mj @ [m1]"
      "pending_mail_undos mj1 = filter (\<lambda>r. Some (rm_sequence r) \<noteq> mv_undoes m1) (pending_mail_undos mj)"
    using record_new_move [of m1 mj sq] assms(5,8) rows by auto
  obtain mj2 where 2: "record_mail_move sq m2 mj1 = (Inr False, mj2)" "row_moves mj2 = row_moves mj1"
      "pending_mail_undos mj2 = filter (\<lambda>r. Some (rm_sequence r) \<noteq> mv_undoes m2) (pending_mail_undos mj1)"
    using record_known_move [of m2 mj1 sq] assms(7) 1(2) by auto
  have "Some (rm_sequence r2) \<notin> mv_undoes ` set (row_moves mj)" using assms(1,3) by (simp add: moves_wf_def)
  then show ?thesis using 1 2 assms(4,5,6) by auto
qed

section \<open>Witnesses\<close>

definition lowercase :: "string \<Rightarrow> string" where
  "lowercase = map ascii_lower"

definition news_rule :: "string \<Rightarrow> rule" where
  "news_rule i = \<lparr>ru_id = i, ru_matches = Sender ''*@news.x'', ru_destination = ''Veille''\<rparr>"

definition one_rule :: triage where
  "one_rule = \<lparr>ta_destinations = [''Veille''], ta_rules = [news_rule ''r1'']\<rparr>"

definition proposed_store :: rules_store where
  "proposed_store =
     fold (serve_rules lowercase bundled_sqlite)
       [WriteRules noon ''@me:x'' (Some (JObj [(''triage'', triage_json one_rule)])),
        ProposeRule (Some True) 80 noon (Some (JObj [(''rule'', rule_json (news_rule ''r2''))]))] no_rules"

lemma proposed_store_eq:
  "proposed_store =
     \<lparr>rs_decisions = [\<lparr>tr_document = Some (triage_json one_rule), tr_at = noon, tr_actor = ''@me:x'', tr_reason = None\<rparr>],
      rs_proposals = [\<lparr>pr_sequence = 1, pr_rule = rule_json (news_rule ''r2''), pr_because = None, pr_proposed_at = noon,
                        pr_state = Proposed, pr_decided_at = None\<rparr>],
      rs_last_proposal = 1\<rparr>"
  by code_simp

definition approved_store :: "(rules_error + triage option) \<times> rules_store" where
  "approved_store = decide_rule_proposal lowercase 1 True one_pm ''@me:x'' proposed_store"

theorem proposal_is_decided_once_witness:
  "mail_triage (snd approved_store) = Inr (with_rule (news_rule ''r2'') one_rule)
   \<and> decide_rule_proposal lowercase 1 False one_pm ''@me:x'' (snd approved_store) = (Inr None, snd approved_store)"
proof -
  have "fst approved_store = Inr (Some (with_rule (news_rule ''r2'') one_rule))" by code_simp
  then have "decide_rule_proposal lowercase 1 True one_pm ''@me:x'' proposed_store
      = (Inr (Some (with_rule (news_rule ''r2'') one_rule)), snd approved_store)"
    by (simp add: approved_store_def prod_eq_iff)
  from proposal_is_decided_once [OF this, of False one_pm "''@me:x''"] show ?thesis by simp
qed

definition raced_store :: "(rules_error + triage) \<times> rules_store" where
  "raced_store = approve_rule lowercase (rule_json (news_rule ''r2'')) one_pm ''@me:x''
     (snd (mark_decided 1 ProposalRefused one_pm proposed_store))"

theorem refused_rule_is_in_force_witness:
  "\<exists>r. read_rule (rule_json (news_rule ''r2'')) = Some r
     \<and> mail_triage (snd raced_store) = Inr (with_rule (news_rule ''r2'') one_rule)
     \<and> map_option pr_state (List.find (\<lambda>p. pr_sequence p = 1) (rs_proposals (snd raced_store))) = Some ProposalRefused"
proof -
  have 1: "proposal_held 1 proposed_store = Some (rule_json (news_rule ''r2''))" by code_simp
  have 2: "fst (mark_decided 1 ProposalRefused one_pm proposed_store) = Inr ()" by code_simp
  have 3: "fst raced_store = Inr (with_rule (news_rule ''r2'') one_rule)" by code_simp
  from refused_rule_is_in_force [OF 1, of one_pm "()" "snd (mark_decided 1 ProposalRefused one_pm proposed_store)"
      lowercase one_pm "''@me:x''" "with_rule (news_rule ''r2'') one_rule" "snd raced_store"]
  show ?thesis using 2 3 by (auto simp: raced_store_def prod_eq_iff)
qed

definition nameless_body :: json where
  "nameless_body = JObj [(''rule'', rule_json (news_rule '' ''))]"

theorem nameless_proposal_is_taken_witness:
  "\<exists>document. fst (propose_mail_rule lowercase bundled_sqlite (Some True) 80 noon (Some nameless_body) (Some no_rules)) = Served document"
proof -
  have "trim (ru_id (news_rule '' '')) = []" by code_simp
  moreover have "days_ok (news_rule '' '')" by (simp add: days_ok_def news_rule_def)
  moreover have "check_destination lowercase (ru_destination (news_rule '' '')) = Inr ()" by code_simp
  moreover have "check_match (ru_matches (news_rule '' '')) = Inr ()" by code_simp
  moreover have "read_proposal_body nameless_body = Some (news_rule '' '', None)" by code_simp
  moreover have "(80 :: nat) \<le> max_push_bytes" by (simp add: max_push_bytes_def)
  ultimately show ?thesis
    using nameless_proposal_is_taken [of "news_rule '' ''" lowercase nameless_body None 80] by blast
qed

definition sample_move :: "string \<Rightarrow> nat option \<Rightarrow> mail_move" where
  "sample_move at u =
     \<lparr>mv_connection = ''mail'', mv_email = ''m1'', mv_rule = ''r1'', mv_from_id = ''in'', mv_from_name = ''INBOX'',
      mv_to_id = ''v'', mv_to_name = ''Veille'', mv_at = at, mv_undoes = u\<rparr>"

definition one_move :: move_journal where
  "one_move = snd (record_mail_move bundled_sqlite (sample_move noon None) \<lparr>mj_rows = [], mj_last = 0\<rparr>)"

theorem asked_undo_is_answered_by_its_move_witness:
  "\<exists>mj2. record_mail_move bundled_sqlite (sample_move one_pm (Some 1)) (snd (request_mail_undo 1 noon one_move)) = (Inr True, mj2)
     \<and> \<not> fst (request_mail_undo 1 one_pm mj2)"
proof -
  have "fst (request_mail_undo 1 noon one_move)" by code_simp
  then have 1: "request_mail_undo 1 noon one_move = (True, snd (request_mail_undo 1 noon one_move))" by (simp add: prod_eq_iff)
  have 2: "move_key (sample_move one_pm (Some 1)) \<notin> move_key ` set (row_moves one_move)" by code_simp
  have "mv_undoes (sample_move one_pm (Some 1)) = Some 1" by (simp add: sample_move_def)
  from asked_undo_is_answered_by_its_move [OF 1 this 2, of bundled_sqlite one_pm] show ?thesis by blast
qed

end
