(* ===== verification/Triage.thy ===== *)
theory Triage
  imports Mail_Rules
begin

text \<open>
  The triage of the owner's mail, \<^verbatim>\<open>collector/src/triage.rs\<close> and the filing of
  \<^verbatim>\<open>collector/src/mails.rs\<close>: which rule a mail matches, where it files, what a round moves and
  reports, and the undos the Gateway keeps. The mailbox server is a parameter: what it lists
  and which updates it takes. The two readers of RFC 3339, \<^verbatim>\<open>time\<close> and \<^verbatim>\<open>chrono\<close>, are
  functions from texts to instants in nanoseconds.
\<close>

section \<open>The rules as the collector reads them\<close>

record mailbox =
  mb_id :: string
  mb_name :: string
  mb_role :: "string option"

definition destructive_roles :: "string list" where
  "destructive_roles = [''trash'', ''junk'']"

text \<open>An absent list is empty; a set that cannot be read is the empty set.\<close>

definition collector_triage :: "json \<Rightarrow> triage option" where
  "collector_triage j =
     do {
       members \<leftarrow> jobj j;
       ds \<leftarrow> (case jget j ''destinations'' of None \<Rightarrow> Some [] | Some v \<Rightarrow> jarr v);
       rs \<leftarrow> (case jget j ''rules'' of None \<Rightarrow> Some [] | Some v \<Rightarrow> jarr v);
       destinations \<leftarrow> read_all_of jstr ds;
       rules \<leftarrow> read_all_of read_rule rs;
       Some \<lparr>ta_destinations = destinations, ta_rules = rules\<rparr>
     }"

definition collected_triage :: "json \<Rightarrow> triage" where
  "collected_triage document =
     (case Option.bind (jget document ''mail_triage'') collector_triage of None \<Rightarrow> empty_triage | Some ta \<Rightarrow> ta)"

record pending_undo =
  pu_sequence :: nat
  pu_connection :: string
  pu_email :: string
  pu_from_id :: string
  pu_from_name :: string
  pu_to_id :: string
  pu_to_name :: string

definition read_pending_undo :: "json \<Rightarrow> pending_undo option" where
  "read_pending_undo j =
     do {
       s \<leftarrow> (case jget j ''sequence'' of Some (JNum n) \<Rightarrow> if 0 \<le> n \<and> n < 2 ^ 63 then Some (nat n) else None | _ \<Rightarrow> None);
       c \<leftarrow> text_at j ''connection'';
       e \<leftarrow> text_at j ''email_id'';
       fi \<leftarrow> text_at j ''from_mailbox_id'';
       fn \<leftarrow> text_at j ''from_mailbox_name'';
       ti \<leftarrow> text_at j ''to_mailbox_id'';
       tn \<leftarrow> text_at j ''to_mailbox_name'';
       Some \<lparr>pu_sequence = s, pu_connection = c, pu_email = e, pu_from_id = fi, pu_from_name = fn,
             pu_to_id = ti, pu_to_name = tn\<rparr>
     }"

definition collected_undos :: "json \<Rightarrow> pending_undo list" where
  "collected_undos document =
     (case Option.bind (jget document ''mail_undos'') jarr of
        None \<Rightarrow> []
      | Some listed \<Rightarrow> List.map_filter read_pending_undo listed)"

text \<open>The two members of the Gateway's collection document.\<close>

definition recorded_move_json :: "recorded_move \<Rightarrow> json" where
  "recorded_move_json r =
     (let m = rm_move r in
      JObj [(''sequence'', JNum (int (rm_sequence r))),
            (''connection'', JStr (mv_connection m)),
            (''email_id'', JStr (mv_email m)),
            (''rule_id'', JStr (mv_rule m)),
            (''from_mailbox_id'', JStr (mv_from_id m)),
            (''from_mailbox_name'', JStr (mv_from_name m)),
            (''to_mailbox_id'', JStr (mv_to_id m)),
            (''to_mailbox_name'', JStr (mv_to_name m)),
            (''occurred_at'', JStr (mv_at m)),
            (''undoes'', case mv_undoes m of None \<Rightarrow> JNull | Some u \<Rightarrow> JNum (int u)),
            (''undo_requested_at'', case rm_undo_requested_at r of None \<Rightarrow> JNull | Some at \<Rightarrow> JStr at)])"

definition collection_mail :: "triage \<Rightarrow> move_journal \<Rightarrow> json" where
  "collection_mail ta mj =
     JObj [(''mail_triage'', triage_json ta),
           (''mail_undos'', JArr (map recorded_move_json (pending_mail_undos mj)))]"

section \<open>Matching\<close>

text \<open>The part of a mail that triage reads.\<close>

record mail =
  ml_id :: string
  ml_mailbox_ids :: "string list"
  ml_received_at :: string
  ml_from :: string
  ml_subject :: string
  ml_list_id :: "string option"

datatype unusable_rule = NoSuchMailbox | RoleIsDestructive | OutsideTheAllowlist

fun unusable_as_str :: "unusable_rule \<Rightarrow> string" where
  "unusable_as_str NoSuchMailbox = ''no_such_mailbox''"
| "unusable_as_str RoleIsDestructive = ''destination_is_destructive''"
| "unusable_as_str OutsideTheAllowlist = ''destination_not_allowed''"

definition resolve_destination ::
  "(string \<Rightarrow> string) \<Rightarrow> mailbox list \<Rightarrow> triage \<Rightarrow> string \<Rightarrow> unusable_rule + mailbox" where
  "resolve_destination lower mailboxes ta destination =
     (if \<not> list_ex (\<lambda>allowed. trim allowed = trim destination) (ta_destinations ta) then Inl OutsideTheAllowlist
      else
        and_then (ok_or NoSuchMailbox (List.find (\<lambda>mb. trim (mb_name mb) = trim destination) mailboxes)) (\<lambda>mb.
        if (case mb_role mb of None \<Rightarrow> False | Some role \<Rightarrow> lower role \<in> set destructive_roles) then Inl RoleIsDestructive
        else Inr mb))"

fun contains_text :: "string \<Rightarrow> string \<Rightarrow> bool" where
  "contains_text sub [] \<longleftrightarrow> sub = []"
| "contains_text sub (c # s) \<longleftrightarrow> strip_prefix sub (c # s) \<noteq> None \<or> contains_text sub s"

definition rsplit_once :: "char \<Rightarrow> string \<Rightarrow> (string \<times> string) option" where
  "rsplit_once c s = map_option (\<lambda>(a, b). (rev b, rev a)) (split_once c (rev s))"

definition sender_matches :: "(string \<Rightarrow> string) \<Rightarrow> string \<Rightarrow> string \<Rightarrow> bool" where
  "sender_matches lower given_pattern given_address =
     (let pattern = lower (trim given_pattern); address = lower (trim given_address) in
      case strip_prefix ''*@'' pattern of
        Some domain \<Rightarrow> (case rsplit_once (CHR ''@'') address of None \<Rightarrow> False | Some (_, held) \<Rightarrow> held = domain)
      | None \<Rightarrow>
          (case strip_suffix ''@*'' pattern of
             Some local_part \<Rightarrow> (case split_once (CHR ''@'') address of None \<Rightarrow> False | Some (held, _) \<Rightarrow> held = local_part)
           | None \<Rightarrow> pattern = address))"

definition nanos :: int where
  "nanos = 1000000000"

definition num_seconds :: "int \<Rightarrow> int" where
  "num_seconds d = (if 0 \<le> d then d div nanos else - ((- d) div nanos))"

definition older_than :: "(string \<Rightarrow> int option) \<Rightarrow> string \<Rightarrow> nat \<Rightarrow> int \<Rightarrow> bool" where
  "older_than chrono received_at days now =
     (case chrono received_at of
        None \<Rightarrow> False
      | Some received \<Rightarrow> num_seconds (now - received) > int days * 86400)"

definition rule_matches ::
  "(string \<Rightarrow> string) \<Rightarrow> (string \<Rightarrow> int option) \<Rightarrow> rule_match \<Rightarrow> mail \<Rightarrow> int \<Rightarrow> bool" where
  "rule_matches lower chrono m ml now =
     (case m of
        Sender pattern \<Rightarrow> sender_matches lower pattern (ml_from ml)
      | Subject fragment \<Rightarrow> contains_text (lower (trim fragment)) (lower (ml_subject ml))
      | ListId wanted \<Rightarrow>
          (case ml_list_id ml of None \<Rightarrow> False | Some held \<Rightarrow> contains_text (lower (trim wanted)) (lower held))
      | OlderThanDays days \<Rightarrow> older_than chrono (ml_received_at ml) days now)"

definition ages_wanted :: "triage \<Rightarrow> nat list" where
  "ages_wanted ta =
     List.map_filter (\<lambda>r. case ru_matches r of OlderThanDays days \<Rightarrow> Some days | _ \<Rightarrow> None) (ta_rules ta)"

definition oldest_age_wanted :: "triage \<Rightarrow> nat option" where
  "oldest_age_wanted ta = (case ages_wanted ta of [] \<Rightarrow> None | d # ds \<Rightarrow> Some (fold min ds d))"

definition days_before ::
  "(string \<Rightarrow> int option) \<Rightarrow> (int \<Rightarrow> string option) \<Rightarrow> string \<Rightarrow> nat \<Rightarrow> string option" where
  "days_before parse render now days = Option.bind (parse now) (\<lambda>t. render (t - int days * 86400 * nanos))"

record filing =
  fi_rule :: string
  fi_mailbox_id :: string
  fi_mailbox_name :: string

fun file_by ::
  "(string \<Rightarrow> string) \<Rightarrow> (string \<Rightarrow> int option) \<Rightarrow> triage \<Rightarrow> mailbox list \<Rightarrow> mail \<Rightarrow> int \<Rightarrow> rule list
    \<Rightarrow> (string \<times> unusable_rule) + filing option" where
  "file_by lower chrono ta mailboxes ml now [] = Inr None"
| "file_by lower chrono ta mailboxes ml now (r # rs) =
     (if \<not> rule_matches lower chrono (ru_matches r) ml now then file_by lower chrono ta mailboxes ml now rs
      else
        (case resolve_destination lower mailboxes ta (ru_destination r) of
           Inr mb \<Rightarrow> Inr (Some \<lparr>fi_rule = ru_id r, fi_mailbox_id = mb_id mb, fi_mailbox_name = mb_name mb\<rparr>)
         | Inl cause \<Rightarrow> Inl (ru_id r, cause)))"

definition file_mail ::
  "(string \<Rightarrow> string) \<Rightarrow> (string \<Rightarrow> int option) \<Rightarrow> triage \<Rightarrow> mailbox list \<Rightarrow> mail \<Rightarrow> int
    \<Rightarrow> (string \<times> unusable_rule) + filing option" where
  "file_mail lower chrono ta mailboxes ml now = file_by lower chrono ta mailboxes ml now (ta_rules ta)"

section \<open>A round\<close>

record filed_mail =
  fl_email :: string
  fl_rule :: string
  fl_from_id :: string
  fl_from_name :: string
  fl_to_id :: string
  fl_to_name :: string
  fl_undoes :: "nat option"

record filed_round =
  fr_moves :: "(string \<times> string) list"
  fr_filed :: "filed_mail list"
  fr_unusable :: "(string \<times> unusable_rule) list"

definition nothing_filed :: filed_round where
  "nothing_filed = \<lparr>fr_moves = [], fr_filed = [], fr_unusable = []\<rparr>"

definition undo_filed :: "pending_undo \<Rightarrow> filed_mail" where
  "undo_filed u =
     \<lparr>fl_email = pu_email u, fl_rule = undo_rule, fl_from_id = pu_to_id u, fl_from_name = pu_to_name u,
      fl_to_id = pu_from_id u, fl_to_name = pu_from_name u, fl_undoes = Some (pu_sequence u)\<rparr>"

definition plan_undos :: "pending_undo list \<Rightarrow> filed_round" where
  "plan_undos undos =
     \<lparr>fr_moves = map (\<lambda>u. (pu_email u, pu_from_id u)) undos, fr_filed = map undo_filed undos, fr_unusable = []\<rparr>"

text \<open>Where a mail is: the first mailbox it is in that the server lists, or else the inbox.\<close>

definition origin_of :: "mailbox list \<Rightarrow> mail \<Rightarrow> string \<times> string" where
  "origin_of mailboxes ml =
     (case (case ml_mailbox_ids ml of [] \<Rightarrow> None | i # _ \<Rightarrow> List.find (\<lambda>mb. mb_id mb = i) mailboxes) of
        Some mb \<Rightarrow> (mb_id mb, mb_name mb)
      | None \<Rightarrow>
          (case List.find (\<lambda>mb. mb_role mb = Some ''inbox'') mailboxes of
             Some mb \<Rightarrow> (mb_id mb, mb_name mb)
           | None \<Rightarrow> ([], [])))"

definition plan_mail ::
  "(string \<Rightarrow> string) \<Rightarrow> (string \<Rightarrow> int option) \<Rightarrow> triage \<Rightarrow> mailbox list \<Rightarrow> int \<Rightarrow> string list \<Rightarrow> mail
    \<Rightarrow> filed_round \<Rightarrow> filed_round" where
  "plan_mail lower chrono ta mailboxes now undone ml fr =
     (if ml_id ml \<in> set undone then fr
      else
        (case file_mail lower chrono ta mailboxes ml now of
           Inr None \<Rightarrow> fr
         | Inr (Some fi) \<Rightarrow>
             fr\<lparr>fr_moves := fr_moves fr @ [(ml_id ml, fi_mailbox_id fi)],
                fr_filed := fr_filed fr @
                  [\<lparr>fl_email = ml_id ml, fl_rule = fi_rule fi,
                    fl_from_id = fst (origin_of mailboxes ml), fl_from_name = snd (origin_of mailboxes ml),
                    fl_to_id = fi_mailbox_id fi, fl_to_name = fi_mailbox_name fi, fl_undoes = None\<rparr>]\<rparr>
         | Inl (r, cause) \<Rightarrow>
             if r \<in> set (map fst (fr_unusable fr)) then fr
             else fr\<lparr>fr_unusable := fr_unusable fr @ [(r, cause)]\<rparr>))"

definition plan_round ::
  "(string \<Rightarrow> string) \<Rightarrow> (string \<Rightarrow> int option) \<Rightarrow> triage \<Rightarrow> pending_undo list \<Rightarrow> mailbox list \<Rightarrow> int \<Rightarrow> mail list
    \<Rightarrow> filed_round" where
  "plan_round lower chrono ta undos mailboxes now mails =
     fold (plan_mail lower chrono ta mailboxes now (map pu_email undos)) mails (plan_undos undos)"

text \<open>
  \<open>listed\<close> is the answer to the request for the mailboxes and \<open>taken\<close> the ids the server says it
  updated, given the moves; \<open>None\<close> is a request that failed. The moves sent, what was filed and
  the rules that could not be used.
\<close>

definition file_round ::
  "(string \<Rightarrow> string) \<Rightarrow> (string \<Rightarrow> int option) \<Rightarrow> string \<Rightarrow> triage \<Rightarrow> pending_undo list \<Rightarrow> mail list
    \<Rightarrow> mailbox list option \<Rightarrow> int \<Rightarrow> ((string \<times> string) list \<Rightarrow> string list option) \<Rightarrow> filed_round" where
  "file_round lower chrono connection ta all_undos mails listed now taken =
     (let undos = filter (\<lambda>u. pu_connection u = connection) all_undos in
      if (ta_rules ta = [] \<or> mails = []) \<and> undos = [] then nothing_filed
      else
        (case listed of
           None \<Rightarrow> nothing_filed
         | Some mailboxes \<Rightarrow>
             let plan = plan_round lower chrono ta undos mailboxes now mails in
             if fr_moves plan = [] then plan
             else
               (case taken (fr_moves plan) of
                  None \<Rightarrow> plan\<lparr>fr_filed := []\<rparr>
                | Some updated \<Rightarrow> plan\<lparr>fr_filed := filter (\<lambda>f. fl_email f \<in> set updated) (fr_filed plan)\<rparr>)))"

definition move_of :: "string \<Rightarrow> string \<Rightarrow> filed_mail \<Rightarrow> mail_move" where
  "move_of connection now f =
     \<lparr>mv_connection = connection, mv_email = fl_email f, mv_rule = fl_rule f, mv_from_id = fl_from_id f,
      mv_from_name = fl_from_name f, mv_to_id = fl_to_id f, mv_to_name = fl_to_name f, mv_at = now,
      mv_undoes = fl_undoes f\<rparr>"

definition round_report :: "string \<Rightarrow> string \<Rightarrow> filed_round \<Rightarrow> mail_move list" where
  "round_report connection now fr = map (move_of connection now) (fr_filed fr)"

section \<open>The sweep\<close>

definition sweep_every :: nat where
  "sweep_every = 3600"

text \<open>
  \<open>elapsed\<close> is the time since the last sweep in seconds; \<open>listed\<close> answers the ids of the inbox
  received before an instant and \<open>mails_of\<close> the mails of ids. What was swept, and whether the
  sweep counts as done.
\<close>

definition sweep ::
  "(string \<Rightarrow> int option) \<Rightarrow> (int \<Rightarrow> string option) \<Rightarrow> triage \<Rightarrow> nat option \<Rightarrow> string
    \<Rightarrow> (string \<Rightarrow> string list option) \<Rightarrow> (string list \<Rightarrow> mail list option) \<Rightarrow> mail list \<times> bool" where
  "sweep parse render ta elapsed now listed mails_of =
     (case oldest_age_wanted ta of
        None \<Rightarrow> ([], False)
      | Some days \<Rightarrow>
          if (case elapsed of None \<Rightarrow> False | Some s \<Rightarrow> s < sweep_every) then ([], False)
          else
            (case days_before parse render now days of
               None \<Rightarrow> ([], True)
             | Some before \<Rightarrow>
                 (case listed before of
                    None \<Rightarrow> ([], True)
                  | Some ids \<Rightarrow>
                      if ids = [] then ([], True)
                      else ((case mails_of ids of None \<Rightarrow> [] | Some ms \<Rightarrow> ms), True))))"

section \<open>What the collector reads is what the Gateway holds\<close>

definition pending_undo_of :: "recorded_move \<Rightarrow> pending_undo" where
  "pending_undo_of r =
     \<lparr>pu_sequence = rm_sequence r, pu_connection = mv_connection (rm_move r), pu_email = mv_email (rm_move r),
      pu_from_id = mv_from_id (rm_move r), pu_from_name = mv_from_name (rm_move r),
      pu_to_id = mv_to_id (rm_move r), pu_to_name = mv_to_name (rm_move r)\<rparr>"

lemma read_recorded_move: "rm_sequence r < 2 ^ 63 \<Longrightarrow> read_pending_undo (recorded_move_json r) = Some (pending_undo_of r)"
  by (simp add: read_pending_undo_def recorded_move_json_def Let_def text_at_def pending_undo_of_def)

lemma collector_triage_json:
  assumes "\<forall>r \<in> set (ta_rules ta). days_ok r"
  shows "collector_triage (triage_json ta) = Some ta"
proof -
  have "read_all_of jstr (map JStr (ta_destinations ta)) = Some (ta_destinations ta)"
    by (rule read_all_of_map) simp
  moreover have "read_all_of read_rule (map rule_json (ta_rules ta)) = Some (ta_rules ta)"
    using assms by (intro read_all_of_map read_rule_json) simp
  ultimately show ?thesis by (simp add: collector_triage_def triage_json_def)
qed

lemma map_filter_all_Some: "\<forall>x \<in> set xs. f x = Some (g x) \<Longrightarrow> List.map_filter f xs = map g xs"
  by (induction xs) (simp_all add: List.map_filter_def)

text \<open>
  C26. The collector reads the set the Gateway has in force and the undos the owner asked for.
\<close>

theorem collector_reads_the_rules_in_force:
  assumes "rules_wf lower rs" and "mail_triage rs = Inr ta" and "\<forall>s \<in> set (row_sequences mj). s < 2 ^ 63"
  shows "collected_triage (collection_mail ta mj) = ta
    \<and> collected_undos (collection_mail ta mj) = map pending_undo_of (pending_mail_undos mj)"
proof -
  have "triage_ok lower ta" using rules_wf_mail_triage [OF assms(1)] assms(2) by auto
  then have "\<forall>r \<in> set (ta_rules ta). days_ok r" using rule_ok_days by (auto simp: triage_ok_def)
  moreover have "\<forall>r \<in> set (pending_mail_undos mj). read_pending_undo (recorded_move_json r) = Some (pending_undo_of r)"
    using assms(3) by (auto simp: pending_mail_undos_def row_sequences_def intro!: read_recorded_move)
  moreover have "List.map_filter read_pending_undo (map recorded_move_json rs)
      = List.map_filter (\<lambda>r. read_pending_undo (recorded_move_json r)) rs" for rs
    by (induction rs) (simp_all add: List.map_filter_def)
  ultimately show ?thesis
    using map_filter_all_Some [of "pending_mail_undos mj" "\<lambda>r. read_pending_undo (recorded_move_json r)" pending_undo_of]
    by (simp add: collected_triage_def collected_undos_def collection_mail_def collector_triage_json)
qed

section \<open>Where rules file\<close>

lemma resolve_Inr:
  "resolve_destination lower mailboxes ta d = Inr mb \<Longrightarrow>
     mb \<in> set mailboxes \<and> trim (mb_name mb) = trim d \<and> triage_allows ta d
     \<and> (\<forall>role. mb_role mb = Some role \<longrightarrow> lower role \<notin> set destructive_roles)"
  by (auto simp: resolve_destination_def triage_allows_def result_simps find_Some_iff split: if_splits option.splits)

lemma triage_allows_trim: "trim a = trim b \<Longrightarrow> triage_allows ta a = triage_allows ta b"
  by (simp add: triage_allows_def)

lemma is_destructive_trim: "trim a = trim b \<Longrightarrow> is_destructive lower a = is_destructive lower b"
  by (simp add: is_destructive_def)

text \<open>A mailbox a rule may file into.\<close>

definition safe_mailbox :: "(string \<Rightarrow> string) \<Rightarrow> triage \<Rightarrow> mailbox \<Rightarrow> bool" where
  "safe_mailbox lower ta mb \<longleftrightarrow>
     triage_allows ta (mb_name mb) \<and> \<not> is_destructive lower (mb_name mb)
     \<and> (case mb_role mb of None \<Rightarrow> True | Some role \<Rightarrow> lower role \<notin> set destructive_roles)"

lemma file_by_Inr:
  assumes "file_by lower chrono ta mailboxes ml now rs = Inr (Some fi)"
  shows "\<exists>us r vs mb. rs = us @ r # vs \<and> ru_id r = fi_rule fi \<and> rule_matches lower chrono (ru_matches r) ml now
    \<and> (\<forall>u \<in> set us. \<not> rule_matches lower chrono (ru_matches u) ml now)
    \<and> resolve_destination lower mailboxes ta (ru_destination r) = Inr mb \<and> mb_id mb = fi_mailbox_id fi \<and> mb_name mb = fi_mailbox_name fi"
  using assms
proof (induction rs)
  case (Cons r rs)
  show ?case
  proof (cases "rule_matches lower chrono (ru_matches r) ml now")
    case True
    then obtain mb where "resolve_destination lower mailboxes ta (ru_destination r) = Inr mb"
        "fi = \<lparr>fi_rule = ru_id r, fi_mailbox_id = mb_id mb, fi_mailbox_name = mb_name mb\<rparr>"
      using Cons.prems by (auto split: sum.splits)
    with True show ?thesis by (intro exI [of _ "[]"]) auto
  next
    case False
    then obtain us q vs mb where "rs = us @ q # vs" and h: "ru_id q = fi_rule fi \<and> rule_matches lower chrono (ru_matches q) ml now
    \<and> (\<forall>u \<in> set us. \<not> rule_matches lower chrono (ru_matches u) ml now)
    \<and> resolve_destination lower mailboxes ta (ru_destination q) = Inr mb \<and> mb_id mb = fi_mailbox_id fi \<and> mb_name mb = fi_mailbox_name fi"
      using Cons by auto
    then have "r # rs = (r # us) @ q # vs" by simp
    with h False show ?thesis by (metis set_ConsD)
  qed
qed simp

text \<open>What one plan holds: the undos, and filings of the first rule that matches a mail of the round.\<close>

definition filed_by_rule ::
  "(string \<Rightarrow> string) \<Rightarrow> (string \<Rightarrow> int option) \<Rightarrow> triage \<Rightarrow> mailbox list \<Rightarrow> int \<Rightarrow> mail list \<Rightarrow> filed_mail \<Rightarrow> bool" where
  "filed_by_rule lower chrono ta mailboxes now mails f \<longleftrightarrow>
     (\<exists>ml fi. ml \<in> set mails \<and> file_mail lower chrono ta mailboxes ml now = Inr (Some fi) \<and> fl_email f = ml_id ml
        \<and> fl_rule f = fi_rule fi \<and> fl_to_id f = fi_mailbox_id fi \<and> fl_to_name f = fi_mailbox_name fi \<and> fl_undoes f = None)"

lemma plan_mails_invariant:
  assumes "fr0 = fold (plan_mail lower chrono ta mailboxes now undone) mails fr"
  shows "fr_moves fr0 = fr_moves fr @ map (\<lambda>f. (fl_email f, fl_to_id f)) (drop (length (fr_filed fr)) (fr_filed fr0))
    \<and> take (length (fr_filed fr)) (fr_filed fr0) = fr_filed fr
    \<and> (\<forall>f \<in> set (drop (length (fr_filed fr)) (fr_filed fr0)).
          filed_by_rule lower chrono ta mailboxes now mails f \<and> fl_email f \<notin> set undone)"
  using assms
proof (induction mails arbitrary: fr)
  case (Cons ml mails)
  let ?fr1 = "plan_mail lower chrono ta mailboxes now undone ml fr"
  have grow: "(fr_filed ?fr1 = fr_filed fr \<and> fr_moves ?fr1 = fr_moves fr)
    \<or> (\<exists>f. fr_filed ?fr1 = fr_filed fr @ [f] \<and> fr_moves ?fr1 = fr_moves fr @ [(fl_email f, fl_to_id f)]
         \<and> filed_by_rule lower chrono ta mailboxes now (ml # mails) f \<and> fl_email f \<notin> set undone)"
    by (auto simp: plan_mail_def filed_by_rule_def split: sum.split option.split prod.split)
  have IH: "fr_moves fr0 = fr_moves ?fr1 @ map (\<lambda>f. (fl_email f, fl_to_id f)) (drop (length (fr_filed ?fr1)) (fr_filed fr0))
    \<and> take (length (fr_filed ?fr1)) (fr_filed fr0) = fr_filed ?fr1
    \<and> (\<forall>f \<in> set (drop (length (fr_filed ?fr1)) (fr_filed fr0)).
          filed_by_rule lower chrono ta mailboxes now mails f \<and> fl_email f \<notin> set undone)"
    using Cons.prems by (intro Cons.IH) simp
  have mono: "filed_by_rule lower chrono ta mailboxes now mails f \<Longrightarrow> filed_by_rule lower chrono ta mailboxes now (ml # mails) f" for f
    by (auto simp: filed_by_rule_def)
  from grow show ?case
  proof
    assume "fr_filed ?fr1 = fr_filed fr \<and> fr_moves ?fr1 = fr_moves fr"
    then show ?thesis using IH mono by simp
  next
    assume "\<exists>f. fr_filed ?fr1 = fr_filed fr @ [f] \<and> fr_moves ?fr1 = fr_moves fr @ [(fl_email f, fl_to_id f)]
         \<and> filed_by_rule lower chrono ta mailboxes now (ml # mails) f \<and> fl_email f \<notin> set undone"
    then obtain f where f: "fr_filed ?fr1 = fr_filed fr @ [f]" "fr_moves ?fr1 = fr_moves fr @ [(fl_email f, fl_to_id f)]"
         "filed_by_rule lower chrono ta mailboxes now (ml # mails) f" "fl_email f \<notin> set undone" by blast
    then obtain rest where rest: "fr_filed fr0 = fr_filed fr @ f # rest"
      using IH by (metis append_Cons append_Nil append_assoc append_take_drop_id)
    then show ?thesis using IH f mono by simp
  qed
qed simp

lemma plan_round_spec:
  assumes "plan = plan_round lower chrono ta undos mailboxes now mails"
  shows "\<exists>fs. fr_filed plan = map undo_filed undos @ fs
    \<and> fr_moves plan = map (\<lambda>u. (pu_email u, pu_from_id u)) undos @ map (\<lambda>f. (fl_email f, fl_to_id f)) fs
    \<and> (\<forall>f \<in> set fs. filed_by_rule lower chrono ta mailboxes now mails f \<and> fl_email f \<notin> pu_email ` set undos)"
proof -
  let ?fs = "drop (length undos) (fr_filed plan)"
  have "plan = fold (plan_mail lower chrono ta mailboxes now (map pu_email undos)) mails (plan_undos undos)"
    using assms by (simp add: plan_round_def)
  note inv = plan_mails_invariant [OF this]
  have u: "fr_filed (plan_undos undos) = map undo_filed undos"
    "fr_moves (plan_undos undos) = map (\<lambda>u. (pu_email u, pu_from_id u)) undos"
    by (simp_all add: plan_undos_def)
  have "take (length undos) (fr_filed plan) = map undo_filed undos" using inv by (simp add: u)
  then have "fr_filed plan = map undo_filed undos @ ?fs" by (metis append_take_drop_id)
  then show ?thesis using inv by (intro exI [of _ ?fs]) (simp add: u)
qed

text \<open>The mails after the server took some of the moves it was sent; the last move of a mail counts.\<close>

definition take_moves :: "string list \<Rightarrow> (string \<times> string) list \<Rightarrow> (string \<Rightarrow> string list) \<Rightarrow> string \<Rightarrow> string list" where
  "take_moves updated sent placed e =
     (if e \<in> set updated then (case map_of (rev sent) e of Some target \<Rightarrow> [target] | None \<Rightarrow> placed e) else placed e)"

text \<open>
  C24. A rule files a mail of the round, by the first rule that matches it, into a mailbox of the
  server whose role is neither the trash nor the junk, that the owner allows, and that, when
  the Gateway accepted the set, is not named as one.
\<close>

theorem rules_never_file_into_the_trash:
  assumes "f \<in> set (fr_filed (file_round lower chrono c ta undos mails (Some mailboxes) now taken))"
    and "fl_undoes f = None" and "triage_ok lower ta"
  shows "\<exists>ml mb us r vs. ml \<in> set mails \<and> fl_email f = ml_id ml
    \<and> mb \<in> set mailboxes \<and> mb_id mb = fl_to_id f \<and> safe_mailbox lower ta mb
    \<and> ta_rules ta = us @ r # vs \<and> ru_id r = fl_rule f \<and> rule_matches lower chrono (ru_matches r) ml now
    \<and> list_all (\<lambda>u. \<not> rule_matches lower chrono (ru_matches u) ml now) us"
proof -
  let ?undos = "filter (\<lambda>u. pu_connection u = c) undos"
  let ?plan = "plan_round lower chrono ta ?undos mailboxes now mails"
  have "f \<in> set (fr_filed ?plan)"
    using assms(1) by (auto simp: file_round_def Let_def nothing_filed_def split: if_splits option.splits)
  moreover obtain fs where fs: "fr_filed ?plan = map undo_filed ?undos @ fs"
      "\<forall>f \<in> set fs. filed_by_rule lower chrono ta mailboxes now mails f"
    using plan_round_spec [OF refl] by blast
  ultimately have "filed_by_rule lower chrono ta mailboxes now mails f"
    using assms(2) by (auto simp: undo_filed_def)
  then obtain ml fi where ml: "ml \<in> set mails" "fl_email f = ml_id ml" "fl_rule f = fi_rule fi" "fl_to_id f = fi_mailbox_id fi"
      and "file_by lower chrono ta mailboxes ml now (ta_rules ta) = Inr (Some fi)"
    by (auto simp: filed_by_rule_def file_mail_def)
  from file_by_Inr [OF this(5)] obtain us r vs mb where r: "ta_rules ta = us @ r # vs" "ru_id r = fi_rule fi"
      "rule_matches lower chrono (ru_matches r) ml now" "\<forall>u \<in> set us. \<not> rule_matches lower chrono (ru_matches u) ml now"
      "resolve_destination lower mailboxes ta (ru_destination r) = Inr mb" "mb_id mb = fi_mailbox_id fi"
    by blast
  have "\<not> is_destructive lower (ru_destination r)"
    using assms(3) r(1) by (auto simp: triage_ok_def rule_ok_def check_destination_def split: if_splits)
  then have "safe_mailbox lower ta mb"
    using resolve_Inr [OF r(5)] triage_allows_trim [of "mb_name mb" "ru_destination r" ta]
      is_destructive_trim [of "mb_name mb" "ru_destination r" lower]
    by (auto simp: safe_mailbox_def split: option.split)
  with ml r resolve_Inr [OF r(5)] show ?thesis by (auto simp: list_all_iff intro!: exI)
qed

section \<open>Undos\<close>

lemma record_move_pending:
  assumes "record_mail_move sq m mj = (Inr b, mj')"
  shows "pending_mail_undos mj' = filter (\<lambda>r. Some (rm_sequence r) \<noteq> mv_undoes m) (pending_mail_undos mj)"
proof -
  obtain res0 mj0 where i: "insert_move sq m mj = (res0, mj0)" by (cases "insert_move sq m mj")
  have "pending_mail_undos mj0 = pending_mail_undos mj"
    using insert_move_cases [OF i] by (auto simp: pending_mail_undos_def)
  then show ?thesis using assms i by (auto simp: record_mail_move_def clear_request_simps split: sum.splits)
qed

lemma record_moves_pending:
  "record_moves sq ms n mj = (Inr k, mj') \<Longrightarrow>
     pending_mail_undos mj' = filter (\<lambda>r. Some (rm_sequence r) \<notin> mv_undoes ` set ms) (pending_mail_undos mj)"
proof (induction ms arbitrary: n mj)
  case (Cons m ms)
  obtain b mj1 where 1: "record_mail_move sq m mj = (Inr b, mj1)" "record_moves sq ms (if b then n + 1 else n) mj1 = (Inr k, mj')"
    using Cons.prems by (auto split: prod.splits sum.splits)
  show ?case unfolding Cons.IH [OF 1(2)] record_move_pending [OF 1(1)] by auto
qed simp

text \<open>
  C25. A round that performs the only undo pending of a mail puts that mail into the mailbox it
  came from, whatever the rules say of it in that round, and its report takes the request off the
  queue. The mail has to be among those the server says it moved, and the report has to be
  recorded. With two undos pending of one mail the object the round sends holds one of them and
  both are reported as done.
\<close>

theorem undo_puts_the_mail_back:
  assumes "r \<in> set (pending_mail_undos mj)" and "mv_connection (rm_move r) = c" and "mv_email (rm_move r) = e"
    and "\<forall>u \<in> set (pending_mail_undos mj). mv_connection (rm_move u) = c \<and> mv_email (rm_move u) = e \<longrightarrow> u = r"
    and "fr = file_round lower chrono c ta (map pending_undo_of (pending_mail_undos mj)) mails (Some mailboxes) now taken"
    and "taken (fr_moves fr) = Some updated" and "e \<in> set updated"
    and "record_moves sq (round_report c at fr) 0 mj = (Inr n, mj')"
  shows "take_moves updated (fr_moves fr) placed e = [mv_from_id (rm_move r)]
    \<and> rm_sequence r \<notin> rm_sequence ` set (pending_mail_undos mj')"
proof -
  let ?undos = "filter (\<lambda>u. pu_connection u = c) (map pending_undo_of (pending_mail_undos mj))"
  let ?plan = "plan_round lower chrono ta ?undos mailboxes now mails"
  have in_undos: "pending_undo_of r \<in> set ?undos" using assms(1,2) by (auto simp: pending_undo_of_def)
  obtain fs where fs: "fr_filed ?plan = map undo_filed ?undos @ fs"
      "fr_moves ?plan = map (\<lambda>u. (pu_email u, pu_from_id u)) ?undos @ map (\<lambda>f. (fl_email f, fl_to_id f)) fs"
      "\<forall>f \<in> set fs. fl_email f \<notin> pu_email ` set ?undos"
    using plan_round_spec [OF refl, of lower chrono ta ?undos mailboxes now mails] by blast
  have "?undos \<noteq> []" using in_undos by (metis empty_iff empty_set)
  moreover from this have "fr_moves ?plan \<noteq> []" by (simp add: fs(2) del: filter_map)
  ultimately have fr: "fr = (case taken (fr_moves ?plan) of None \<Rightarrow> ?plan\<lparr>fr_filed := []\<rparr>
      | Some updated \<Rightarrow> ?plan\<lparr>fr_filed := filter (\<lambda>f. fl_email f \<in> set updated) (fr_filed ?plan)\<rparr>)"
    unfolding assms(5) file_round_def Let_def by simp
  then have moves: "fr_moves fr = fr_moves ?plan" by (auto split: option.split)
  then have filed: "fr_filed fr = filter (\<lambda>f. fl_email f \<in> set updated) (fr_filed ?plan)"
    using fr assms(6) by simp
  have mine: "p = (e, mv_from_id (rm_move r))" if "p \<in> set (fr_moves fr)" "fst p = e" for p
  proof -
    have "p \<in> set (map (\<lambda>u. (pu_email u, pu_from_id u)) ?undos)"
      using that fs(3) in_undos assms(3) by (force simp: moves fs(2) pending_undo_of_def)
    then show ?thesis using that(2) assms(4) by (auto simp: pending_undo_of_def)
  qed
  have there: "(e, mv_from_id (rm_move r)) \<in> set (fr_moves fr)"
    using imageI [OF in_undos, of "\<lambda>u. (pu_email u, pu_from_id u)"] assms(3)
    by (simp add: moves fs(2) pending_undo_of_def)
  have last_move: "map_of (rev (fr_moves fr)) e = Some (mv_from_id (rm_move r))"
  proof (cases "map_of (rev (fr_moves fr)) e")
    case None
    then show ?thesis using there by (force simp: map_of_eq_None_iff)
  next
    case (Some t)
    from map_of_SomeD [OF this] mine [of "(e, t)"] show ?thesis using Some by simp
  qed
  have "undo_filed (pending_undo_of r) \<in> set (map undo_filed ?undos)"
    using in_undos by (metis imageI list.set_map)
  then have "undo_filed (pending_undo_of r) \<in> set (fr_filed ?plan)" unfolding fs(1) set_append by (rule UnI1)
  moreover have "fl_email (undo_filed (pending_undo_of r)) = e"
    using assms(3) by (simp add: undo_filed_def pending_undo_of_def)
  ultimately have "undo_filed (pending_undo_of r) \<in> set (fr_filed fr)"
    using assms(7) by (simp add: filed)
  then have "Some (rm_sequence r) \<in> mv_undoes ` set (round_report c at fr)"
    by (force simp: round_report_def move_of_def undo_filed_def pending_undo_of_def)
  then show ?thesis
    using record_moves_pending [OF assms(8)] assms(7) last_move by (auto simp: take_moves_def)
qed

text \<open>
  Two moves of one mail that the owner asks back and that one round undoes: the journal gets
  the undo of the first only, which says that the mail is where the first move took it from,
  the mail is where the second took it from, and neither is in the queue.
\<close>

theorem two_undos_of_a_mail_leave_one_record:
  assumes "moves_wf mj" and "pending_mail_undos mj = [r1, r2]"
    and "mv_connection (rm_move r1) = c" and "mv_connection (rm_move r2) = c"
    and "mv_email (rm_move r1) = e" and "mv_email (rm_move r2) = e"
    and "fr = file_round lower chrono c ta (map pending_undo_of [r1, r2]) [] (Some mailboxes) now taken"
    and "taken (fr_moves fr) = Some updated" and "e \<in> set updated"
    and "(c, e, at) \<notin> move_key ` set (row_moves mj)"
  shows "take_moves updated (fr_moves fr) placed e = [mv_from_id (rm_move r2)]
    \<and> (\<exists>mj' m. record_moves sq (round_report c at fr) 0 mj = (Inr 1, mj') \<and> row_moves mj' = row_moves mj @ [m]
         \<and> mv_undoes m = Some (rm_sequence r1) \<and> mv_to_id m = mv_from_id (rm_move r1)
         \<and> pending_mail_undos mj' = [] \<and> Some (rm_sequence r2) \<notin> mv_undoes ` set (row_moves mj'))"
proof -
  let ?m1 = "move_of c at (undo_filed (pending_undo_of r1))"
  let ?m2 = "move_of c at (undo_filed (pending_undo_of r2))"
  have moves: "fr_moves fr = [(e, mv_from_id (rm_move r1)), (e, mv_from_id (rm_move r2))]"
    unfolding assms(7) using assms(3-6)
    by (auto simp: file_round_def plan_round_def plan_undos_def Let_def pending_undo_of_def split: option.split)
  have filed: "fr_filed fr = [undo_filed (pending_undo_of r1), undo_filed (pending_undo_of r2)]"
    using assms(8,9) unfolding moves unfolding assms(7) using assms(3-6)
    by (simp add: file_round_def plan_round_def plan_undos_def Let_def pending_undo_of_def undo_filed_def)
  have seq: "rm_sequence r1 \<noteq> rm_sequence r2"
  proof
    assume eq: "rm_sequence r1 = rm_sequence r2"
    have "distinct (row_sequences mj)" using assms(1) by (simp add: moves_wf_def strict_sorted_iff)
    then have "distinct (map rm_sequence (pending_mail_undos mj))"
      by (simp add: row_sequences_def pending_mail_undos_def distinct_map_filter)
    then show False using eq by (simp add: assms(2))
  qed
  have keys: "move_key ?m1 = (c, e, at)" "move_key ?m2 = (c, e, at)"
    using assms(5,6) by (simp_all add: move_key_def move_of_def undo_filed_def pending_undo_of_def)
  have undoes: "mv_undoes ?m1 = Some (rm_sequence r1)" "mv_undoes ?m2 = Some (rm_sequence r2)"
    by (simp_all add: move_of_def undo_filed_def pending_undo_of_def)
  have report: "round_report c at fr = [?m1, ?m2]" by (simp add: round_report_def filed)
  obtain mj' where mj': "record_moves sq [?m1, ?m2] 0 mj = (Inr 1, mj')" "row_moves mj' = row_moves mj @ [?m1]"
      "Some (rm_sequence r2) \<notin> mv_undoes ` set (row_moves mj')"
    using second_undo_is_ignored [OF assms(1), of r1 r2 ?m1 ?m2 sq] assms(10) seq
    by (auto simp: assms(2) keys undoes)
  have "pending_mail_undos mj' = []"
    using record_moves_pending [OF mj'(1)] by (simp add: assms(2) undoes)
  then show ?thesis
    using mj' moves assms(9)
    by (auto simp: report take_moves_def move_of_def undo_filed_def pending_undo_of_def)
qed

section \<open>What a sweep lists\<close>

lemma fold_min_le: "fold min ds (d :: nat) \<le> d \<and> (\<forall>x \<in> set ds. fold min ds d \<le> x)"
proof (induction ds arbitrary: d)
  case (Cons a ds)
  from Cons.IH [of "min a d"] show ?case by auto
qed simp

lemma oldest_age_wanted_le:
  assumes "r \<in> set (ta_rules ta)" and "ru_matches r = OlderThanDays d"
  shows "\<exists>days. oldest_age_wanted ta = Some days \<and> days \<le> d"
proof -
  have "d \<in> set (ages_wanted ta)"
    using assms by (force simp: ages_wanted_def set_map_filter)
  then show ?thesis
    using fold_min_le by (cases "ages_wanted ta") (auto simp: oldest_age_wanted_def)
qed

lemma div_nanos:
  assumes "k \<le> x div nanos"
  shows "k * nanos \<le> x"
proof -
  have "0 < nanos" by (simp add: nanos_def)
  then have "k * nanos \<le> x div nanos * nanos" using assms by (simp add: mult_right_mono)
  also have "\<dots> = x - x mod nanos" by (simp add: minus_mod_eq_div_mult)
  also have "\<dots> \<le> x" using pos_mod_sign [OF \<open>0 < nanos\<close>, of x] by simp
  finally show ?thesis .
qed

text \<open>
  A mail some rule about age matches was received before the instant the sweep asks for: the
  one query of a sweep leaves no such mail of the inbox out.
\<close>

theorem sweep_asks_for_every_old_mail:
  assumes "r \<in> set (ta_rules ta)" and "ru_matches r = OlderThanDays d"
    and "rule_matches lower chrono (ru_matches r) ml now"
    and "parse at = Some now"
  shows "\<exists>days received. oldest_age_wanted ta = Some days \<and> chrono (ml_received_at ml) = Some received
    \<and> days_before parse render at days = render (now - int days * 86400 * nanos)
    \<and> received < now - int days * 86400 * nanos"
proof -
  obtain days where days: "oldest_age_wanted ta = Some days" "days \<le> d"
    using oldest_age_wanted_le [OF assms(1,2)] by blast
  obtain received where received: "chrono (ml_received_at ml) = Some received"
      "int d * 86400 < num_seconds (now - received)"
    using assms(2,3) by (auto simp: rule_matches_def older_than_def split: option.splits)
  have pos: "0 \<le> now - received"
  proof (rule ccontr)
    assume "\<not> 0 \<le> now - received"
    then have "num_seconds (now - received) \<le> 0"
      by (simp add: num_seconds_def nanos_def pos_imp_zdiv_nonneg_iff)
    then show False using received(2) by simp
  qed
  then have "int d * 86400 + 1 \<le> (now - received) div nanos" using received(2) by (simp add: num_seconds_def)
  then have "(int d * 86400 + 1) * nanos \<le> now - received" by (rule div_nanos)
  moreover have "int days * 86400 * nanos \<le> int d * 86400 * nanos" using days(2) by (simp add: nanos_def)
  ultimately have "received < now - int days * 86400 * nanos" by (simp add: algebra_simps nanos_def)
  then show ?thesis using days(1) received(1) assms(4) by (simp add: days_before_def)
qed

section \<open>Witnesses\<close>

lemma one_rule_ok: "triage_ok lowercase one_rule"
  unfolding check_triage_Inr [symmetric] by code_simp

lemma proposed_store_wf: "rules_wf lowercase proposed_store"
  unfolding proposed_store_def by (simp add: serve_rules_wf no_rules_wf)

definition asked_move :: move_journal where
  "asked_move = snd (request_mail_undo 1 noon one_move)"

theorem collector_reads_the_rules_in_force_witness:
  "collected_triage (collection_mail one_rule asked_move) = one_rule
   \<and> length (collected_undos (collection_mail one_rule asked_move)) = 1"
proof -
  have "mail_triage proposed_store = Inr one_rule" by code_simp
  moreover have "\<forall>s \<in> set (row_sequences asked_move). s < 2 ^ 63" by code_simp
  moreover have "length (pending_mail_undos asked_move) = 1" by code_simp
  ultimately show ?thesis
    using collector_reads_the_rules_in_force [OF proposed_store_wf, of one_rule asked_move] by simp
qed

definition two_mailboxes :: "mailbox list" where
  "two_mailboxes =
     [\<lparr>mb_id = ''in'', mb_name = ''INBOX'', mb_role = Some ''inbox''\<rparr>, \<lparr>mb_id = ''v'', mb_name = ''Veille'', mb_role = None\<rparr>]"

definition news_mail :: mail where
  "news_mail =
     \<lparr>ml_id = ''m1'', ml_mailbox_ids = [''in''], ml_received_at = noon, ml_from = ''Letter@News.X'',
      ml_subject = ''Hello'', ml_list_id = None\<rparr>"

definition all_taken :: "(string \<times> string) list \<Rightarrow> string list option" where
  "all_taken sent = Some (map fst sent)"

definition blind_clock :: "string \<Rightarrow> int option" where
  "blind_clock s = None"

definition news_round :: filed_round where
  "news_round = file_round lowercase blind_clock ''mail'' one_rule [] [news_mail] (Some two_mailboxes) 0 all_taken"

theorem rules_never_file_into_the_trash_witness:
  "\<exists>mb \<in> set two_mailboxes. mb_id mb = fl_to_id (hd (fr_filed news_round)) \<and> safe_mailbox lowercase one_rule mb"
proof -
  have ne: "fr_filed news_round \<noteq> []" and u: "fl_undoes (hd (fr_filed news_round)) = None" by code_simp+
  from hd_in_set [OF ne] have "hd (fr_filed news_round)
      \<in> set (fr_filed (file_round lowercase blind_clock ''mail'' one_rule [] [news_mail] (Some two_mailboxes) 0 all_taken))"
    unfolding news_round_def .
  from rules_never_file_into_the_trash [OF this u one_rule_ok] show ?thesis by blast
qed

definition undo_round :: filed_round where
  "undo_round = file_round lowercase blind_clock ''mail'' one_rule (map pending_undo_of (pending_mail_undos asked_move))
     [news_mail] (Some two_mailboxes) 0 all_taken"

theorem undo_puts_the_mail_back_witness:
  "take_moves [''m1''] (fr_moves undo_round) (\<lambda>e. [''v'']) ''m1'' = [''in'']
   \<and> pending_mail_undos (snd (record_moves bundled_sqlite (round_report ''mail'' one_pm undo_round) 0 asked_move)) = []"
proof -
  let ?r = "hd (pending_mail_undos asked_move)"
  have p: "pending_mail_undos asked_move = [?r]" by code_simp
  have n: "fst (record_moves bundled_sqlite (round_report ''mail'' one_pm undo_round) 0 asked_move) = Inr 1" by code_simp
  have "take_moves [''m1''] (fr_moves undo_round) (\<lambda>e. [''v'']) ''m1'' = [mv_from_id (rm_move ?r)]
    \<and> rm_sequence ?r \<notin> rm_sequence ` set (pending_mail_undos
        (snd (record_moves bundled_sqlite (round_report ''mail'' one_pm undo_round) 0 asked_move)))"
  proof (rule undo_puts_the_mail_back)
    show "?r \<in> set (pending_mail_undos asked_move)" by (subst (2) p) simp
    show "mv_connection (rm_move ?r) = ''mail''" "mv_email (rm_move ?r) = ''m1''" by code_simp+
    show "\<forall>u \<in> set (pending_mail_undos asked_move). mv_connection (rm_move u) = ''mail'' \<and> mv_email (rm_move u) = ''m1'' \<longrightarrow> u = ?r"
      by (subst p) simp
    show "all_taken (fr_moves undo_round) = Some [''m1'']" by code_simp
    show "record_moves bundled_sqlite (round_report ''mail'' one_pm undo_round) 0 asked_move
      = (Inr 1, snd (record_moves bundled_sqlite (round_report ''mail'' one_pm undo_round) 0 asked_move))"
      using n by (simp add: prod_eq_iff)
  qed (simp_all add: undo_round_def)
  moreover have "mv_from_id (rm_move ?r) = ''in''" by code_simp
  moreover have "pending_mail_undos (snd (record_moves bundled_sqlite (round_report ''mail'' one_pm undo_round) 0 asked_move)) = []"
    by code_simp
  ultimately show ?thesis by simp
qed

definition moved_row :: "nat \<Rightarrow> string \<Rightarrow> string \<Rightarrow> recorded_move" where
  "moved_row s at origin =
     \<lparr>rm_sequence = s, rm_move = (sample_move at None)\<lparr>mv_from_id := origin\<rparr>, rm_undo_requested_at = Some one_pm\<rparr>"

definition two_asked :: move_journal where
  "two_asked = \<lparr>mj_rows = [moved_row 1 noon ''in'', moved_row 2 one_pm ''work''], mj_last = 2\<rparr>"

definition double_round :: filed_round where
  "double_round = file_round lowercase blind_clock ''mail'' one_rule (map pending_undo_of [moved_row 1 noon ''in'', moved_row 2 one_pm ''work''])
     [] (Some two_mailboxes) 0 all_taken"

theorem two_undos_of_a_mail_leave_one_record_witness:
  "take_moves [''m1'', ''m1''] (fr_moves double_round) (\<lambda>e. [''v'']) ''m1'' = [''work'']
   \<and> (\<exists>mj' m. record_moves bundled_sqlite (round_report ''mail'' ''14h'' double_round) 0 two_asked = (Inr 1, mj')
        \<and> row_moves mj' = row_moves two_asked @ [m] \<and> mv_to_id m = ''in'' \<and> pending_mail_undos mj' = [])"
proof -
  have wf: "moves_wf two_asked"
    by (simp add: moves_wf_def two_asked_def row_sequences_def row_moves_def moved_row_def sample_move_def move_key_def
        pending_mail_undos_def)
  have p: "pending_mail_undos two_asked = [moved_row 1 noon ''in'', moved_row 2 one_pm ''work'']" by code_simp
  have t: "all_taken (fr_moves double_round) = Some [''m1'', ''m1'']" by code_simp
  have k: "(''mail'', ''m1'', ''14h'') \<notin> move_key ` set (row_moves two_asked)" by code_simp
  have "mv_from_id (rm_move (moved_row 1 noon ''in'')) = ''in''" "mv_from_id (rm_move (moved_row 2 one_pm ''work'')) = ''work''"
    by code_simp+
  then show ?thesis
    using two_undos_of_a_mail_leave_one_record [OF wf p _ _ _ _ double_round_def t _ k, of "\<lambda>e. [''v'']" bundled_sqlite]
    by (auto simp: moved_row_def sample_move_def)
qed

definition age_rule :: triage where
  "age_rule = \<lparr>ta_destinations = [''Veille''],
     ta_rules = [\<lparr>ru_id = ''r9'', ru_matches = OlderThanDays 30, ru_destination = ''Veille''\<rparr>,
                 \<lparr>ru_id = ''r8'', ru_matches = OlderThanDays 7, ru_destination = ''Veille''\<rparr>]\<rparr>"

definition epoch_clock :: "string \<Rightarrow> int option" where
  "epoch_clock s = (if s = noon then Some 0 else Some (40 * 86400 * nanos))"

theorem sweep_asks_for_every_old_mail_witness:
  "\<exists>days received. oldest_age_wanted age_rule = Some days \<and> epoch_clock (ml_received_at news_mail) = Some received
    \<and> received < 40 * 86400 * nanos - int days * 86400 * nanos"
proof -
  let ?r = "\<lparr>ru_id = ''r9'', ru_matches = OlderThanDays 30, ru_destination = ''Veille''\<rparr>"
  have "?r \<in> set (ta_rules age_rule)" by (simp add: age_rule_def)
  moreover have "rule_matches lowercase epoch_clock (ru_matches ?r) news_mail (40 * 86400 * nanos)" by code_simp
  moreover have "epoch_clock one_pm = Some (40 * 86400 * nanos)" by code_simp
  ultimately show ?thesis
    using sweep_asks_for_every_old_mail [of ?r age_rule 30 lowercase epoch_clock news_mail "40 * 86400 * nanos" epoch_clock one_pm
        "\<lambda>t. None"] by auto
qed

text \<open>A name that ends in the separator, or a mailbox below the trash, passes the check by name.\<close>

lemma trash_by_another_spelling:
  "check_destination lowercase ''Trash'' = Inl DestinationIsDestructive
   \<and> check_destination lowercase ''Trash/'' = Inr () \<and> check_destination lowercase ''Trash/Clients'' = Inr ()"
  by code_simp

text \<open>An undo the server does not take stays in the queue: nothing is reported.\<close>

lemma refused_undo_stays_asked:
  "(\<And>ms. taken ms = Some []) \<Longrightarrow>
     round_report c at (file_round lower chrono c ta undos [] (Some mailboxes) now taken) = []"
  by (auto simp: file_round_def Let_def round_report_def nothing_filed_def plan_round_def plan_undos_def split: option.split)

end
