(* ===== verification/Hermes_Clock.thy ===== *)
theory Hermes_Clock
  imports Contacts "HOL-Library.Signed_Division"
begin

text \<open>
  What the two seams to Hermes share: the instants of \<^verbatim>\<open>companion-gateway/src/hermes_answer.rs\<close>,
  which has its own calendar, the offsets of \<^verbatim>\<open>hermes_freebusy.rs\<close>, the signature both routes
  verify and the reference an answer is matched by. \<open>hmac\<close>, the keyed digest, is a parameter.
\<close>

section \<open>Instants in seconds\<close>

text \<open>
  \<^verbatim>\<open>value.get(from..to)\<close>: no panic where a bound is beyond the end or inside a code point.
\<close>

definition char_boundary :: "string \<Rightarrow> nat \<Rightarrow> bool" where
  "char_boundary s i \<longleftrightarrow> i = length s \<or> i < length s \<and> \<not> continues (s ! i)"

definition slice_of :: "nat \<Rightarrow> nat \<Rightarrow> string \<Rightarrow> string option" where
  "slice_of a b s =
     (if a \<le> b \<and> b \<le> length s \<and> char_boundary s a \<and> char_boundary s b
      then Some (take (b - a) (drop a s)) else None)"

text \<open>
  \<^verbatim>\<open>str::parse::<i64>\<close>: a sign is allowed. The texts it reads here are of four bytes at most,
  which never overflow.
\<close>

definition parse_signed :: "string \<Rightarrow> int option" where
  "parse_signed s =
     (let (negative, digits) =
        (case s of
           [] \<Rightarrow> (False, [])
         | c # rest \<Rightarrow> if c = CHR ''-'' then (True, rest) else if c = CHR ''+'' then (False, rest) else (False, s)) in
      if digits = [] \<or> \<not> list_all is_ascii_digit digits then None
      else Some (if negative then - int (digits_value digits) else int (digits_value digits)))"

definition number_at :: "nat \<Rightarrow> nat \<Rightarrow> string \<Rightarrow> int option" where
  "number_at a b s = Option.bind (slice_of a b s) parse_signed"

definition days_from_civil :: "int \<Rightarrow> nat \<Rightarrow> nat \<Rightarrow> int" where
  "days_from_civil y0 month day =
     (let y = (if month \<le> 2 then y0 - 1 else y0);
          era = (if 0 \<le> y then y else y - 399) sdiv 400;
          year_of_era = y - era * 400;
          m = int month;
          day_of_year = (153 * (if 2 < m then m - 3 else m + 9) + 2) sdiv 5 + int day - 1;
          day_of_era = year_of_era * 365 + year_of_era sdiv 4 - year_of_era sdiv 100 + day_of_year
      in era * 146097 + day_of_era - 719468)"

definition civil_from_days :: "int \<Rightarrow> int \<times> nat \<times> nat" where
  "civil_from_days since_epoch =
     (let days = since_epoch + 719468;
          era = (if 0 \<le> days then days else days - 146096) sdiv 146097;
          day_of_era = days - era * 146097;
          year_of_era =
            (day_of_era - day_of_era sdiv 1460 + day_of_era sdiv 36524 - day_of_era sdiv 146096) sdiv 365;
          year = year_of_era + era * 400;
          day_of_year = day_of_era - (365 * year_of_era + year_of_era sdiv 4 - year_of_era sdiv 100);
          month_prime = (5 * day_of_year + 2) sdiv 153;
          day = nat (day_of_year - (153 * month_prime + 2) sdiv 5 + 1);
          month = nat (if month_prime < 10 then month_prime + 3 else month_prime - 9)
      in (if month \<le> 2 then year + 1 else year, month, day))"

text \<open>A clock reads as the seconds since the epoch; one before it reads as the epoch.\<close>

definition rfc3339_seconds :: "nat \<Rightarrow> string" where
  "rfc3339_seconds seconds =
     (let (year, month, day) = civil_from_days (int (seconds div 86400)); time_of_day = seconds mod 86400 in
      padded_year year @ ''-'' @ padded 2 month @ ''-'' @ padded 2 day @ ''T'' @
      padded 2 (time_of_day div 3600) @ '':'' @ padded 2 ((time_of_day mod 3600) div 60) @ '':'' @
      padded 2 (time_of_day mod 60) @ ''Z'')"

definition signed_offset :: "string \<Rightarrow> int option" where
  "signed_offset tail =
     (case dropWhile (\<lambda>c. c \<noteq> CHR ''+'' \<and> c \<noteq> CHR ''-'') tail of
        [] \<Rightarrow> Some 0
      | offset \<Rightarrow>
          (case number_at 1 3 offset of
             None \<Rightarrow> None
           | Some hours \<Rightarrow>
               let minutes = (case number_at 4 6 offset of Some m \<Rightarrow> m | None \<Rightarrow> 0) in
               Some ((if hd offset = CHR ''-'' then 1 else -1) * (hours * 3600 + minutes * 60))))"

definition parse_rfc3339_seconds :: "string \<Rightarrow> int option" where
  "parse_rfc3339_seconds s =
     (if length s < 20 then None
      else
        do {
          year \<leftarrow> number_at 0 4 s;
          month \<leftarrow> number_at 5 7 s;
          day \<leftarrow> number_at 8 10 s;
          hour \<leftarrow> number_at 11 13 s;
          minute \<leftarrow> number_at 14 16 s;
          second \<leftarrow> number_at 17 19 s;
          (if \<not> (1 \<le> month \<and> month \<le> 12) \<or> \<not> (1 \<le> day \<and> day \<le> 31) then None
           else
             map_option
               (\<lambda>shift. days_from_civil year (nat month) (nat day) * 86400 + hour * 3600 + minute * 60 + second + shift)
               (signed_offset (drop 19 s)))
        })"

definition clock_skew :: int where
  "clock_skew = 300"

definition is_fresh :: "string \<Rightarrow> nat \<Rightarrow> bool" where
  "is_fresh timestamp now =
     (case parse_rfc3339_seconds timestamp of
        None \<Rightarrow> False
      | Some sent \<Rightarrow> \<bar>int now - sent\<bar> \<le> clock_skew)"

definition covers :: "int \<times> int \<Rightarrow> int \<Rightarrow> bool" where
  "covers r at \<longleftrightarrow> fst r \<le> at \<and> at < snd r"

text \<open>Monday is 1; the epoch was a Thursday.\<close>

definition weekday_at :: "int \<Rightarrow> nat" where
  "weekday_at local_seconds = (nat ((local_seconds div 86400) mod 7) + 3) mod 7 + 1"

text \<open>The offset at the end of an instant; \<open>rfind\<close> is the last sign.\<close>

definition offset_at :: "string \<Rightarrow> (nat \<times> char \<times> string) option" where
  "offset_at s =
     (let after = takeWhile (\<lambda>c. c \<noteq> CHR ''+'' \<and> c \<noteq> CHR ''-'') (rev s); i = length s - length after in
      if i = 0 then None else Some (i - 1, s ! (i - 1), rev after))"

definition offset_seconds :: "string \<Rightarrow> int option" where
  "offset_seconds local_text =
     (if local_text \<noteq> [] \<and> (last local_text = CHR ''Z'' \<or> last local_text = CHR ''z'') then Some 0
      else
        do {
          (i, sign, rest) \<leftarrow> offset_at local_text;
          (if i \<le> 10 then None
           else
             do {
               (h, m) \<leftarrow> split_once (CHR '':'') rest;
               hours \<leftarrow> parse_uint (2 ^ 31) h;
               minutes \<leftarrow> parse_uint (2 ^ 31) m;
               (if hours < 24 \<and> minutes < 60
                then Some ((if sign = CHR ''+'' then 1 else -1) * int (hours * 3600 + minutes * 60))
                else None)
             })
        })"

section \<open>Signatures\<close>

text \<open>
  \<^verbatim>\<open>u8::from_str_radix(pair, 16)\<close>: like every integer parser of the library it takes a plus
  sign before the digits.
\<close>

definition hex_nibble :: "char \<Rightarrow> nat option" where
  "hex_nibble c =
     (let n = of_char c :: nat in
      if 48 \<le> n \<and> n \<le> 57 then Some (n - 48)
      else if 97 \<le> n \<and> n \<le> 102 then Some (n - 87)
      else if 65 \<le> n \<and> n \<le> 70 then Some (n - 55)
      else None)"

definition hex_pair :: "char \<Rightarrow> char \<Rightarrow> 8 word option" where
  "hex_pair a b =
     (if a = CHR ''+'' then map_option of_nat (hex_nibble b)
      else
        do {
          high \<leftarrow> hex_nibble a;
          low \<leftarrow> hex_nibble b;
          Some (of_nat (16 * high + low))
        })"

fun hex_bytes :: "string \<Rightarrow> 8 word list option" where
  "hex_bytes [] = Some []"
| "hex_bytes [c] = None"
| "hex_bytes (a # b # rest) =
     do {
       byte \<leftarrow> hex_pair a b;
       bytes \<leftarrow> hex_bytes rest;
       Some (byte # bytes)
     }"

text \<open>\<open>hmac\<close> is HMAC-SHA256 of the \<^verbatim>\<open>hmac\<close> crate: the secret, then what is signed.\<close>

definition signature_matches ::
  "(string \<Rightarrow> string \<Rightarrow> 8 word list) \<Rightarrow> string \<Rightarrow> string option \<Rightarrow> string \<Rightarrow> bool" where
  "signature_matches hmac secret presented text_signed =
     (case Option.bind presented (\<lambda>value. strip_prefix ''sha256='' (trim value)) of
        None \<Rightarrow> False
      | Some hex \<Rightarrow>
          (case hex_bytes hex of
             None \<Rightarrow> False
           | Some expected \<Rightarrow> expected = hmac secret text_signed))"

section \<open>The reference of an answer\<close>

record reference =
  rf_persona_id :: string
  rf_trigger :: string
  rf_attempt :: nat

definition reference_prefix :: string where
  "reference_prefix = ''TWALK-REF:''"

fun find_after :: "string \<Rightarrow> string \<Rightarrow> string option" where
  "find_after needle [] = strip_prefix needle []"
| "find_after needle (c # s) =
     (case strip_prefix needle (c # s) of Some rest \<Rightarrow> Some rest | None \<Rightarrow> find_after needle s)"

definition persona_char :: "char \<Rightarrow> bool" where
  "persona_char c \<longleftrightarrow> is_ascii_lowercase c \<or> is_ascii_digit c \<or> c = CHR ''_'' \<or> c = CHR ''-''"

text \<open>Only the first token of the text is read, whether or not it has the shape of a reference.\<close>

definition reference_find :: "string \<Rightarrow> reference option" where
  "reference_find haystack =
     do {
       rest \<leftarrow> find_after reference_prefix haystack;
       (persona, rest') \<leftarrow> split_once (CHR '':'') rest;
       (trigger_id, tail) \<leftarrow> split_once (CHR '':'') rest';
       let digits = takeWhile is_ascii_digit tail;
       (if persona = [] \<or> \<not> list_all persona_char persona \<or> \<not> is_event_id trigger_id \<or> digits = [] then None
        else
          do {
            attempt \<leftarrow> parse_uint (2 ^ 64) digits;
            (if attempt < 1 then None
             else Some \<lparr>rf_persona_id = persona, rf_trigger = trigger_id, rf_attempt = attempt\<rparr>)
          })
     }"

definition reference_text :: "reference \<Rightarrow> string" where
  "reference_text r =
     reference_prefix @ rf_persona_id r @ '':'' @ rf_trigger r @ '':'' @ dec (rf_attempt r)"

definition suggestion_event_id :: "(string \<Rightarrow> 8 word list) \<Rightarrow> reference \<Rightarrow> string" where
  "suggestion_event_id digest r =
     concat (map hex_byte (digest (rf_persona_id r @ '':'' @ rf_trigger r @ '':'' @ dec (rf_attempt r))))"

section \<open>The calendar\<close>

lemma sdiv_floor:
  assumes "(0::int) < n" and "m = n - 1"
  shows "(if 0 \<le> x then x else x - m) sdiv n = x div n"
proof (cases "0 \<le> x")
  case True
  then show ?thesis using assms(1) by (simp add: signed_divide_int_def sgn_if)
next
  case False
  define q r where "q = x div n" and "r = x mod n"
  have x: "x = n * q + r" "0 \<le> r" "r < n" using assms by (simp_all add: q_def r_def)
  have "m - x = n * (- q) + (m - r)" using x(1) by simp
  then have "(m - x) div n = - q" by (rule int_div_pos_eq) (use x assms(2) in simp_all)
  moreover have "sgn (x - m) = -1" "\<bar>x - m\<bar> = m - x" using assms False by (simp_all add: sgn_if)
  ultimately show ?thesis using assms(1) False by (simp add: signed_divide_int_def q_def)
qed

lemma div_bounds: "(0::int) < k \<Longrightarrow> k * (n div k) \<le> n \<and> n < k * (n div k) + k"
  using mult_div_mod_eq [of k n] pos_mod_sign [of k n] pos_mod_bound [of k n] by linarith

lemma year_of_era_bounds:
  fixes e :: int
  assumes "0 \<le> e" and "e < 146097"
  defines "y \<equiv> (e - e div 1460 + e div 36524 - e div 146096) div 365"
  shows "0 \<le> y" and "y \<le> 399" 
    and "365 * y + y div 4 - y div 100 \<le> e" and "e \<le> 365 * y + y div 4 - y div 100 + 366"
proof -
  define a b c where abc: "a = e div 1460" "b = e div 36524" "c = e div 146096"
  have y: "365 * y \<le> e - a + b - c" "e - a + b - c < 365 * y + 365"
    unfolding y_def abc [symmetric] using div_bounds [of 365 "e - a + b - c"] by simp_all
  have a: "1460 * a \<le> e" "e < 1460 * a + 1460" unfolding abc using div_bounds [of 1460 e] by simp_all
  have b: "36524 * b \<le> e" "e < 36524 * b + 36524" unfolding abc using div_bounds [of 36524 e] by simp_all
  have last: "c = 1 \<and> a = 100 \<and> b = 4" if "e = 146096" using that by (simp add: abc)
  have c: "c = 0" if "e < 146096" unfolding abc using that assms(1) by simp
  have cases: "b = 0 \<and> c = 0 \<or> b = 1 \<and> c = 0 \<or> b = 2 \<and> c = 0 \<or> b = 3 \<and> c = 0 \<or> b = 4 \<and> c = 1 \<and> a = 100 \<and> e = 146096"
  proof (cases "e < 146096")
    case True
    then have "0 \<le> b" "b < 4" using assms(1) b by linarith+
    then show ?thesis using c [OF True] by arith
  next
    case False
    then show ?thesis using last assms(2) by simp
  qed
  note facts = assms(1,2) y a b
  have "0 \<le> y \<and> y \<le> 399 \<and> y < 4 * a + 4 \<and> 4 * a - 4 \<le> y \<and> 100 * (b - c) \<le> y \<and> y < 100 * b + 100"
    using cases
  proof (elim disjE conjE)
    assume "b = 0" "c = 0" then show ?thesis using facts by simp
  next
    assume "b = 1" "c = 0" then show ?thesis using facts by simp
  next
    assume "b = 2" "c = 0" then show ?thesis using facts by simp
  next
    assume "b = 3" "c = 0" then show ?thesis using facts by simp
  next
    assume "b = 4" "c = 1" "a = 100" "e = 146096" then show ?thesis using facts by simp
  qed
  moreover define p q where "p = y div 4" and "q = y div 100"
  moreover have "4 * p \<le> y" "y < 4 * p + 4" "100 * q \<le> y" "y < 100 * q + 100"
    using div_bounds [of 4 y] div_bounds [of 100 y] unfolding p_def q_def by simp_all
  ultimately have "0 \<le> y \<and> y \<le> 399 \<and> p \<le> a \<and> a - 1 \<le> p \<and> b - c \<le> q \<and> q \<le> b"
    by simp
  then show "0 \<le> y" "y \<le> 399" "365 * y + y div 4 - y div 100 \<le> e" "e \<le> 365 * y + y div 4 - y div 100 + 366"
    unfolding p_def [symmetric] q_def [symmetric] using y cases by linarith+
qed

lemma sdiv_nonneg: "0 \<le> x \<Longrightarrow> (0::int) < n \<Longrightarrow> x sdiv n = x div n"
  by (simp add: signed_divide_int_def sgn_if)

lemma month_day_bounds:
  fixes doy :: int
  assumes "0 \<le> doy" and "doy \<le> 366"
  defines "mp \<equiv> (5 * doy + 2) div 153"
  shows "0 \<le> mp" and "mp \<le> 11" and "0 \<le> doy - (153 * mp + 2) div 5" and "doy - (153 * mp + 2) div 5 \<le> 30"
proof -
  have mp: "153 * mp \<le> 5 * doy + 2" "5 * doy + 2 < 153 * mp + 153"
    unfolding mp_def using div_bounds [of 153 "5 * doy + 2"] by simp_all
  define q where "q = (153 * mp + 2) div 5"
  have q: "5 * q \<le> 153 * mp + 2" "153 * mp + 2 < 5 * q + 5"
    unfolding q_def using div_bounds [of 5 "153 * mp + 2"] by simp_all
  show "0 \<le> mp" "mp \<le> 11" using mp assms(1,2) by linarith+
  show "0 \<le> doy - (153 * mp + 2) div 5" "doy - (153 * mp + 2) div 5 \<le> 30"
    unfolding q_def [symmetric] using mp q by linarith+
qed

lemma civil_round_trip:
  assumes "civil_from_days d = (y, m, n)"
  shows "days_from_civil y m n = d" and "1 \<le> m" and "m \<le> 12" and "1 \<le> n" and "n \<le> 31"
    and "(d + 719468) div 146097 * 400 \<le> y" and "y \<le> (d + 719468) div 146097 * 400 + 400"
proof -
  define era e where "era = (d + 719468) div 146097" and "e = d + 719468 - era * 146097"
  define ye where "ye = (e - e div 1460 + e div 36524 - e div 146096) div 365"
  define doy where "doy = e - (365 * ye + ye div 4 - ye div 100)"
  define mp where "mp = (5 * doy + 2) div 153"
  have e: "0 \<le> e" "e < 146097"
    using div_bounds [of 146097 "d + 719468"] by (simp_all add: e_def era_def algebra_simps)
  note ye = year_of_era_bounds [OF e, folded ye_def]
  have doy: "0 \<le> doy" "doy \<le> 366" using ye by (simp_all add: doy_def)
  note mp = month_day_bounds [OF doy, folded mp_def]
  have era': "(if 0 \<le> d + 719468 then d + 719468 else d + 719468 - 146096) sdiv 146097 = era"
    unfolding era_def by (rule sdiv_floor) simp_all
  have ye': "(e - e sdiv 1460 + e sdiv 36524 - e sdiv 146096) sdiv 365 = ye"
  proof -
    have "0 \<le> e - e div 1460 + e div 36524 - e div 146096"
      using div_bounds [of 1460 e] div_bounds [of 36524 e] div_bounds [of 146096 e] e by simp
    then show ?thesis using e by (simp add: sdiv_nonneg ye_def)
  qed
  have doy5: "0 \<le> 5 * doy + 2" and mp5: "0 \<le> 153 * mp + 2" using doy mp by simp_all
  have civil: "civil_from_days d =
      (if nat (if mp < 10 then mp + 3 else mp - 9) \<le> 2 then ye + era * 400 + 1 else ye + era * 400,
       nat (if mp < 10 then mp + 3 else mp - 9), nat (doy - (153 * mp + 2) div 5 + 1))"
    unfolding civil_from_days_def Let_def era' e_def [symmetric] ye'
      sdiv_nonneg [OF ye(1), of 4, simplified] sdiv_nonneg [OF ye(1), of 100, simplified] doy_def [symmetric]
      sdiv_nonneg [OF doy5, of 153, simplified] mp_def [symmetric] sdiv_nonneg [OF mp5, of 5, simplified]
    by (rule refl)
  have m: "m = nat (if mp < 10 then mp + 3 else mp - 9)" and n': "n = nat (doy - (153 * mp + 2) div 5 + 1)"
    and y': "y = (if nat (if mp < 10 then mp + 3 else mp - 9) \<le> 2 then ye + era * 400 + 1 else ye + era * 400)"
    using assms [unfolded civil, THEN sym] by (simp_all only: prod.inject)
  have n: "int n = doy - (153 * mp + 2) div 5 + 1" unfolding n' using mp(3) by (subst nat_0_le) linarith+
  have y: "y = (if m \<le> 2 then ye + era * 400 + 1 else ye + era * 400)" unfolding m by (rule y')
  show "1 \<le> m" "m \<le> 12" using mp m by (auto split: if_splits)
  show "1 \<le> n" "n \<le> 31" using mp n by linarith+
  show "(d + 719468) div 146097 * 400 \<le> y" "y \<le> (d + 719468) div 146097 * 400 + 400"
    using y ye by (auto simp: era_def)
  have y0: "(if m \<le> 2 then y - 1 else y) = ye + era * 400" using y by simp
  have era_of: "(if 0 \<le> ye + era * 400 then ye + era * 400 else ye + era * 400 - 399) sdiv 400 = era"
    using sdiv_floor [of 400 399 "ye + era * 400"] ye(1,2) by simp
  have mp_of: "(if 2 < int m then int m - 3 else int m + 9) = mp"
    using m mp by (auto split: if_splits)
  show "days_from_civil y m n = d"
    unfolding days_from_civil_def Let_def y0 era_of mp_of n
    using ye(1) mp(1) by (simp add: sdiv_nonneg doy_def e_def)
qed

lemma digit_char_ascii [simp]:
  "d < 10 \<Longrightarrow> is_ascii_digit (digit_char d) \<and> \<not> continues (digit_char d) \<and> digit_value (digit_char d) = d
    \<and> digit_char d \<noteq> CHR ''+'' \<and> digit_char d \<noteq> CHR ''-''"
  using digit_char_byte [of d] by (auto simp: is_ascii_digit_def continues_def digit_value_def simp del: digit_char_byte)

lemma dec_small: "n < 10 \<Longrightarrow> dec n = [digit_char n]"
  by (simp add: dec.simps [of n])

lemma dec_step: "10 \<le> n \<Longrightarrow> dec n = dec (n div 10) @ [digit_char (n mod 10)]"
  by (simp add: dec.simps [of n])

lemma zero_digit: "CHR ''0'' = digit_char 0"
  by code_simp

lemma padded_two: "n < 100 \<Longrightarrow> padded 2 n = [digit_char (n div 10), digit_char (n mod 10)]"
  by (cases "n < 10") (simp_all add: padded_def dec_small dec_step zero_digit)

lemma padded_four:
  assumes "n < 10000"
  shows "padded 4 n = [digit_char (n div 1000), digit_char (n div 100 mod 10), digit_char (n div 10 mod 10), digit_char (n mod 10)]"
proof -
  have n: "n div 10 div 10 = n div 100" "n div 100 div 10 = n div 1000" by (simp_all flip: div_mult2_eq)
  have pads: "replicate 3 c = [c, c, c]" "replicate 2 c = [c, c]" for c :: char
    by (simp_all add: numeral_3_eq_3 numeral_2_eq_2)
  consider "n < 10" | "10 \<le> n" "n < 100" | "100 \<le> n" "n < 1000" | "1000 \<le> n" by linarith
  then show ?thesis
  proof cases
    case 1
    then show ?thesis by (simp add: padded_def dec_small zero_digit pads)
  next
    case 2
    then have "10 \<le> n" "n div 10 < 10" by simp_all
    then show ?thesis using 2 by (simp add: padded_def dec_small dec_step zero_digit pads)
  next
    case 3
    then have "10 \<le> n" "10 \<le> n div 10" "n div 100 < 10" by simp_all
    then show ?thesis using 3 by (simp add: padded_def dec_small dec_step zero_digit n pads)
  next
    case 4
    then have "10 \<le> n" "10 \<le> n div 10" "10 \<le> n div 100" "n div 1000 < 10" using assms by simp_all
    then show ?thesis by (simp add: padded_def dec_small dec_step n)
  qed
qed

lemma parse_signed_two: "a < 10 \<Longrightarrow> b < 10 \<Longrightarrow> parse_signed [digit_char a, digit_char b] = Some (int (10 * a + b))"
  by (simp add: parse_signed_def digits_value_def)

lemma parse_signed_four:
  "a < 10 \<Longrightarrow> b < 10 \<Longrightarrow> c < 10 \<Longrightarrow> d < 10 \<Longrightarrow>
   parse_signed [digit_char a, digit_char b, digit_char c, digit_char d] = Some (int (1000 * a + 100 * b + 10 * c + d))"
  by (simp add: parse_signed_def digits_value_def)

lemma ascii_marks [simp]:
  "\<not> continues (CHR ''-'')" "\<not> continues (CHR '':'')" "\<not> continues (CHR ''T'')" "\<not> continues (CHR ''Z'')"
  by (simp_all add: continues_def)

lemma parse_rendered:
  assumes "y < 10000" and "1 \<le> mo" "mo \<le> 12" and "1 \<le> d" "d \<le> 31" and "h < 100" "mi < 100" "sc < 100"
  shows "parse_rfc3339_seconds
     (padded 4 y @ ''-'' @ padded 2 mo @ ''-'' @ padded 2 d @ ''T'' @
      padded 2 h @ '':'' @ padded 2 mi @ '':'' @ padded 2 sc @ ''Z'') =
     Some (days_from_civil (int y) mo d * 86400 + int h * 3600 + int mi * 60 + int sc)"
proof -
  have parts: "10 * (n div 10) + n mod 10 = n" for n :: nat by simp
  have year: "1000 * (y div 1000) + 100 * (y div 100 mod 10) + 10 * (y div 10 mod 10) + y mod 10 = y"
  proof -
    have "10 * (y div 100) + y div 10 mod 10 = y div 10" "10 * (y div 1000) + y div 100 mod 10 = y div 100"
      using parts [of "y div 10"] parts [of "y div 100"] by (simp_all flip: div_mult2_eq)
    with parts [of y] show ?thesis by linarith
  qed
  have small: "n < 100 \<Longrightarrow> n div 10 < 10" for n :: nat by simp
  have y4: "y div 1000 < 10" using assms(1) by simp
  have low: "mo < 100" "d < 100" using assms by simp_all
  have tail: "signed_offset ''Z'' = Some 0" by code_simp
  have numbers: "number_at 0 4 s = Some (int y)" "number_at 5 7 s = Some (int mo)" "number_at 8 10 s = Some (int d)"
     "number_at 11 13 s = Some (int h)" "number_at 14 16 s = Some (int mi)" "number_at 17 19 s = Some (int sc)"
     "drop 19 s = ''Z''" "length s = 20"
    if "s = padded 4 y @ ''-'' @ padded 2 mo @ ''-'' @ padded 2 d @ ''T'' @
      padded 2 h @ '':'' @ padded 2 mi @ '':'' @ padded 2 sc @ ''Z''" for s
    unfolding that padded_four [OF assms(1)] padded_two [OF low(1)] padded_two [OF low(2)] padded_two [OF assms(6)]
      padded_two [OF assms(7)] padded_two [OF assms(8)]
    using y4 small [OF low(1)] small [OF low(2)] small [OF assms(6)] small [OF assms(7)] small [OF assms(8)]
    by (simp_all add: number_at_def slice_of_def char_boundary_def parse_signed_two parse_signed_four parts year)
  define s where "s = padded 4 y @ ''-'' @ padded 2 mo @ ''-'' @ padded 2 d @ ''T'' @
      padded 2 h @ '':'' @ padded 2 mi @ '':'' @ padded 2 sc @ ''Z''"
  show ?thesis
    unfolding s_def [symmetric]
    using assms(2-5) by (simp add: parse_rfc3339_seconds_def numbers [OF s_def] tail)
qed

lemma seconds_round_trip:
  assumes "t < 2 ^ 37"
  shows "parse_rfc3339_seconds (rfc3339_seconds t) = Some (int t)"
proof -
  obtain y m d where c: "civil_from_days (int (t div 86400)) = (y, m, d)" by (metis prod_cases3)
  note r = civil_round_trip [OF c]
  define era where "era = (int (t div 86400) + 719468) div 146097"
  have "int (t div 86400) \<le> 1590728" using assms by simp
  then have "0 \<le> era" "era \<le> 20"
    using div_bounds [of 146097 "int (t div 86400) + 719468"] unfolding era_def by simp_all
  then have y: "0 \<le> y" "nat y < 10000" using r(6,7) unfolding era_def [symmetric] by linarith+
  define s where "s = t mod 86400"
  have s: "s < 86400" "t = t div 86400 * 86400 + s" by (simp_all add: s_def)
  have clock: "s div 3600 < 100" "s mod 3600 div 60 < 100" "s mod 60 < 100"
    using s(1) by simp_all
  have split: "s div 3600 * 3600 + s mod 3600 div 60 * 60 + s mod 60 = s"
  proof -
    have "s mod 3600 mod 60 = s mod 60" by (rule mod_mod_cancel) simp
    then show ?thesis using div_mult_mod_eq [of s 3600] div_mult_mod_eq [of "s mod 3600" 60] by linarith
  qed
  have "rfc3339_seconds t =
      padded 4 (nat y) @ ''-'' @ padded 2 m @ ''-'' @ padded 2 d @ ''T'' @
      padded 2 (s div 3600) @ '':'' @ padded 2 (s mod 3600 div 60) @ '':'' @ padded 2 (s mod 60) @ ''Z''"
    using y(1) by (simp add: rfc3339_seconds_def c padded_year_def s_def [symmetric] Let_def)
  moreover have "int (t div 86400) * 86400 + int (s div 3600) * 3600 + int (s mod 3600 div 60) * 60 + int (s mod 60) = int t"
    using split s(2) by linarith
  ultimately show ?thesis
    using parse_rendered [OF y(2) r(2-5) clock] y(1) r(1) by simp
qed

section \<open>A reference is found again\<close>

definition reference_ok :: "reference \<Rightarrow> bool" where
  "reference_ok r \<longleftrightarrow>
     rf_persona_id r \<noteq> [] \<and> list_all persona_char (rf_persona_id r) \<and> is_event_id (rf_trigger r)
     \<and> 1 \<le> rf_attempt r \<and> rf_attempt r < 2 ^ 64"

lemma persona_char_not_colon: "list_all persona_char s \<Longrightarrow> CHR '':'' \<notin> set s"
  by (auto simp: persona_char_def is_ascii_lowercase_def is_ascii_digit_def list_all_iff)

lemma event_id_not_colon: "is_event_id s \<Longrightarrow> CHR '':'' \<notin> set s"
  by (auto simp: is_event_id_def is_ascii_digit_def list_all_iff less_eq_char_def)

lemma find_after_prefix: "find_after p (p @ s) = Some s"
proof -
  have "strip_prefix p (p @ s) = Some s" by (simp add: strip_prefix_Some_iff)
  then show ?thesis by (cases "p @ s") simp_all
qed

lemma split_once_append: "c \<notin> set a \<Longrightarrow> split_once c (a @ c # b) = Some (a, b)"
  by (simp add: split_once_Some_iff)

lemma takeWhile_digits:
  assumes "list_all p a" and "b = [] \<or> \<not> p (hd b)"
  shows "takeWhile p (a @ b) = a"
  using assms by (cases b) (simp_all add: list_all_iff)

lemma reference_find_text:
  assumes "reference_ok r" and "tail = [] \<or> \<not> is_ascii_digit (hd tail)"
  shows "reference_find (reference_text r @ tail) = Some r"
proof -
  have "takeWhile is_ascii_digit (dec (rf_attempt r) @ tail) = dec (rf_attempt r)"
    using dec_digits assms(2) by (intro takeWhile_digits) blast+
  then show ?thesis
    using assms(1) dec_digits [of "rf_attempt r"]
    by (simp add: reference_find_def reference_text_def find_after_prefix split_once_append reference_ok_def
        persona_char_not_colon event_id_not_colon parse_uint_dec Let_def)
qed

lemma reference_find_ok: "reference_find s = Some r \<Longrightarrow> reference_ok r"
  by (auto simp: reference_find_def reference_ok_def Let_def parse_uint_def split: bind_splits if_splits prod.splits)

section \<open>An instant is read back\<close>

text \<open>
  C40. The calendar the Gateway wrote for the instants of Hermes: an instant it renders is read back
  as the same second, up to the year 6325, and a message stamped with it is fresh for exactly five
  minutes around it, on either side.
\<close>

theorem seconds_are_read_back:
  assumes "sent < 2 ^ 37"
  shows "parse_rfc3339_seconds (rfc3339_seconds sent) = Some (int sent)
    \<and> (is_fresh (rfc3339_seconds sent) now \<longleftrightarrow> now \<le> sent + 300 \<and> sent \<le> now + 300)"
  using seconds_round_trip [OF assms] by (auto simp: is_fresh_def clock_skew_def abs_le_iff)

theorem seconds_are_read_back_witness:
  "rfc3339_seconds 1800000000 = ''2027-01-15T08:00:00Z''
   \<and> parse_rfc3339_seconds ''2027-01-15T08:00:00Z'' = Some 1800000000
   \<and> is_fresh ''2027-01-15T08:00:00Z'' 1800000300 \<and> \<not> is_fresh ''2027-01-15T08:00:00Z'' 1800000301"
proof -
  have "rfc3339_seconds 1800000000 = ''2027-01-15T08:00:00Z''" by code_simp
  then show ?thesis
    using seconds_are_read_back [of 1800000000 1800000300] seconds_are_read_back [of 1800000000 1800000301] by simp
qed

end
