(* ===== verification/Hermes_Reads.thy ===== *)
theory Hermes_Reads
  imports Hermes_Clock Approvals "HOL-Library.Sublist"
begin

text \<open>
  The reads Hermes makes through the Gateway: \<^verbatim>\<open>companion-gateway/src/hermes_freebusy.rs\<close>, its
  routes in \<^verbatim>\<open>hermes_freebusy_http.rs\<close> and the three journals of \<^verbatim>\<open>store.rs\<close> they and the answers
  write. The collector is a parameter: what it answers to a route and a query.
\<close>

section \<open>The journals\<close>

record hermes_read =
  hr_connection :: string
  hr_from :: string
  hr_to :: string
  hr_requested_at :: string
  hr_delivery :: "string option"
  hr_outcome :: string
  hr_intervals :: "nat option"
  hr_made_by :: "string option"

record hermes_event_read =
  he_connection :: string
  he_uid :: string
  he_requested_at :: string
  he_delivery :: "string option"
  he_outcome :: string
  he_found :: "bool option"

record deferral_row =
  df_trigger :: string
  df_persona_id :: string
  df_attempt :: int
  df_asked :: string
  df_deferred_at :: string

text \<open>Each list is in the order of its sequence.\<close>

record hermes_journal =
  hj_reads :: "hermes_read list"
  hj_event_reads :: "hermes_event_read list"
  hj_deferrals :: "deferral_row list"

definition hermes_journal_open :: hermes_journal where
  "hermes_journal_open = \<lparr>hj_reads = [], hj_event_reads = [], hj_deferrals = []\<rparr>"

definition record_hermes_read :: "hermes_read \<Rightarrow> hermes_journal \<Rightarrow> hermes_journal" where
  "record_hermes_read r j = j\<lparr>hj_reads := hj_reads j @ [r]\<rparr>"

definition record_hermes_event_read :: "hermes_event_read \<Rightarrow> hermes_journal \<Rightarrow> hermes_journal" where
  "record_hermes_event_read r j = j\<lparr>hj_event_reads := hj_event_reads j @ [r]\<rparr>"

text \<open>\<^verbatim>\<open>as i64\<close> of a number of 64 bits.\<close>

definition as_i64 :: "nat \<Rightarrow> int" where
  "as_i64 n = (if n < 2 ^ 63 then int n else int n - 2 ^ 64)"

definition record_hermes_deferral :: "reference \<Rightarrow> string \<Rightarrow> string \<Rightarrow> hermes_journal \<Rightarrow> hermes_journal" where
  "record_hermes_deferral r asked at j =
     j\<lparr>hj_deferrals := hj_deferrals j @
        [\<lparr>df_trigger = rf_trigger r, df_persona_id = rf_persona_id r, df_attempt = as_i64 (rf_attempt r),
          df_asked = asked, df_deferred_at = at\<rparr>]\<rparr>"

text \<open>
  SQLite's \<^verbatim>\<open>LIKE\<close>: \<^verbatim>\<open>%\<close> is any text, \<^verbatim>\<open>_\<close> any code point, and letters of ASCII compare without
  their case. \<open>code_points\<close> cuts a text before every byte that continues none.
\<close>

fun code_points :: "string \<Rightarrow> string list" where
  "code_points [] = []"
| "code_points (c # s) =
     (case code_points s of
        [] \<Rightarrow> [[c]]
      | p # ps \<Rightarrow> if p \<noteq> [] \<and> continues (hd p) then (c # p) # ps else [c] # p # ps)"

fun like :: "string list \<Rightarrow> string list \<Rightarrow> bool" where
  "like [] s = (s = [])"
| "like (p # ps) [] = (p = ''%'' \<and> like ps [])"
| "like (p # ps) (c # s) =
     (if p = ''%'' then like ps (c # s) \<or> like (p # ps) s
      else if p = ''_'' then like ps s
      else map ascii_lower p = map ascii_lower c \<and> like ps s)"

definition names :: "string \<Rightarrow> string option \<Rightarrow> bool" where
  "names i delivery =
     (case delivery of
        None \<Rightarrow> False
      | Some d \<Rightarrow> like (code_points (''%'' @ i @ ''%'')) (code_points d))"

definition windows_read_for :: "hermes_journal \<Rightarrow> string \<Rightarrow> (string \<times> string \<times> string) list" where
  "windows_read_for j i =
     map (\<lambda>r. (hr_connection r, hr_from r, hr_to r))
       (filter (\<lambda>r. names i (hr_delivery r) \<and> hr_outcome r = ''served'') (hj_reads j))"

section \<open>What a draft did\<close>

datatype step =
    FreeBusyStep string string string "nat option" string
  | EventFactsStep string string "bool option" string
  | AskedStep string string

fun step_at :: "step \<Rightarrow> string" where
  "step_at (FreeBusyStep a b how n at) = at"
| "step_at (EventFactsStep uid how known_here at) = at"
| "step_at (AskedStep asked at) = at"

definition made_by_hermes :: string where
  "made_by_hermes = ''hermes''"

definition made_by_gateway :: string where
  "made_by_gateway = ''gateway''"

definition of_attempt :: "nat option \<Rightarrow> string option \<Rightarrow> bool" where
  "of_attempt attempt delivery =
     (case attempt of
        None \<Rightarrow> True
      | Some n \<Rightarrow>
          (case Option.bind delivery reference_find of
             None \<Rightarrow> False
           | Some r \<Rightarrow> rf_attempt r = n))"

definition read_steps :: "hermes_journal \<Rightarrow> string \<Rightarrow> nat option \<Rightarrow> step list" where
  "read_steps j i attempt =
     map (\<lambda>r. FreeBusyStep (hr_from r) (hr_to r) (hr_outcome r) (hr_intervals r) (hr_requested_at r))
       (filter (\<lambda>r. names i (hr_delivery r) \<and> hr_made_by r \<noteq> Some made_by_gateway
                    \<and> of_attempt attempt (hr_delivery r)) (hj_reads j))"

definition event_steps :: "hermes_journal \<Rightarrow> string \<Rightarrow> nat option \<Rightarrow> step list" where
  "event_steps j i attempt =
     map (\<lambda>r. EventFactsStep (he_uid r) (he_outcome r) (he_found r) (he_requested_at r))
       (filter (\<lambda>r. names i (he_delivery r) \<and> of_attempt attempt (he_delivery r)) (hj_event_reads j))"

definition asked_steps :: "hermes_journal \<Rightarrow> string \<Rightarrow> nat option \<Rightarrow> step list" where
  "asked_steps j i attempt =
     map (\<lambda>r. AskedStep (df_asked r) (df_deferred_at r))
       (filter (\<lambda>r. df_trigger r = i
                    \<and> (case attempt of None \<Rightarrow> True | Some n \<Rightarrow> df_attempt r \<le> as_i64 n)) (hj_deferrals j))"

definition hermes_path :: "hermes_journal \<Rightarrow> string \<Rightarrow> nat option \<Rightarrow> step list" where
  "hermes_path j i attempt =
     sort_key step_at (read_steps j i attempt @ event_steps j i attempt @ asked_steps j i attempt)"

section \<open>A request\<close>

record read_request =
  rq_query :: string
  rq_connection :: "string option"
  rq_from :: "string option"
  rq_to :: "string option"
  rq_timestamp :: "string option"
  rq_signature :: "string option"
  rq_delivery :: "string option"
  rq_uid :: "string option"

definition empty_request :: read_request where
  "empty_request =
     \<lparr>rq_query = [], rq_connection = None, rq_from = None, rq_to = None, rq_timestamp = None,
      rq_signature = None, rq_delivery = None, rq_uid = None\<rparr>"

text \<open>
  \<^verbatim>\<open>percent_decode\<close> works on the bytes, and \<^verbatim>\<open>String::from_utf8_lossy\<close> makes a text of them: the longest
  start of a character that the bytes go on with is replaced by one U+FFFD when it is not whole.
\<close>

fun percent_bytes :: "string \<Rightarrow> string" where
  "percent_bytes [] = []"
| "percent_bytes (c # a # b # s) =
     (if c = CHR ''+'' then CHR '' '' # percent_bytes (a # b # s)
      else if c = CHR ''%'' then
        (case (hex_nibble a, hex_nibble b) of
           (Some high, Some low) \<Rightarrow> char_of (16 * high + low) # percent_bytes s
         | _ \<Rightarrow> c # percent_bytes (a # b # s))
      else c # percent_bytes (a # b # s))"
| "percent_bytes (c # s) = (if c = CHR ''+'' then CHR '' '' else c) # percent_bytes s"

definition utf8_width :: "char \<Rightarrow> nat" where
  "utf8_width c =
     (let n = of_char c :: nat in
      if n < 128 then 1 else if n < 194 then 0 else if n < 224 then 2 else if n < 240 then 3
      else if n < 245 then 4 else 0)"

definition may_follow :: "char \<Rightarrow> char \<Rightarrow> bool" where
  "may_follow c d \<longleftrightarrow>
     (let n = of_char c :: nat; k = of_char d :: nat in
      (if n = 224 then 160 else if n = 240 then 144 else 128) \<le> k
      \<and> k < (if n = 237 then 160 else if n = 244 then 144 else 192))"

definition utf8_head :: "char \<Rightarrow> string \<Rightarrow> nat \<times> bool" where
  "utf8_head c s =
     (let w = utf8_width c; k = length (takeWhile continues (take (w - 1) s)) in
      if w = 0 then (1, False)
      else if w = 1 then (1, True)
      else if s = [] \<or> \<not> may_follow c (hd s) then (1, False)
      else (Suc k, k = w - 1))"

function from_utf8_lossy :: "string \<Rightarrow> string" where
  "from_utf8_lossy [] = []"
| "from_utf8_lossy (c # s) =
     (case utf8_head c s of
        (n, whole) \<Rightarrow>
          (if whole then take n (c # s) else [CHR 0xEF, CHR 0xBF, CHR 0xBD]) @ from_utf8_lossy (drop (n - 1) s))"
  by pat_completeness auto
termination by (relation "measure length") (auto simp: less_Suc_eq_le)

definition percent_decode :: "string \<Rightarrow> string" where
  "percent_decode s = from_utf8_lossy (percent_bytes s)"

lemma plain_text_is_not_decoded:
  assumes "list_all (\<lambda>c. (of_char c :: nat) < 128 \<and> c \<noteq> CHR ''+'' \<and> c \<noteq> CHR ''%'') s"
  shows "percent_decode s = s"
proof -
  have "percent_bytes s = s" using assms by (induction s rule: percent_bytes.induct) auto
  moreover have "from_utf8_lossy s = s"
    using assms by (induction s) (auto simp: utf8_head_def utf8_width_def)
  ultimately show ?thesis by (simp add: percent_decode_def)
qed

text \<open>A byte that is no start of a character, and a character cut short, are one U+FFFD each.\<close>

lemma broken_bytes_are_replaced:
  "percent_decode ''a%2Bb+c%zz%2'' = ''a+b c%zz%2''"
  "percent_decode ''%FF%E2%82%C3%A9'' =
     [CHR 0xEF, CHR 0xBF, CHR 0xBD, CHR 0xEF, CHR 0xBF, CHR 0xBD, CHR 0xC3, CHR 0xA9]"
  by code_simp+

text \<open>
  The members of the query, the last of a name counting, and the headers: \<open>header\<close> gives the value
  of a header whose bytes are visible ASCII.
\<close>

definition request_member :: "string \<Rightarrow> read_request \<Rightarrow> read_request" where
  "request_member pair rq =
     (let (name, raw) = (case split_once (CHR ''='') pair of Some nv \<Rightarrow> nv | None \<Rightarrow> (pair, []));
          v = percent_decode raw in
      if name = ''connection'' then rq\<lparr>rq_connection := Some v\<rparr>
      else if name = ''from'' then rq\<lparr>rq_from := Some v\<rparr>
      else if name = ''to'' then rq\<lparr>rq_to := Some v\<rparr>
      else if name = ''uid'' then rq\<lparr>rq_uid := Some v\<rparr>
      else rq)"

definition request_of :: "string option \<Rightarrow> (string \<Rightarrow> string option) \<Rightarrow> read_request" where
  "request_of query header =
     (let q = (case query of None \<Rightarrow> [] | Some x \<Rightarrow> x);
          rq = fold request_member (split_on (CHR ''&'') q) (empty_request\<lparr>rq_query := q\<rparr>)
      in rq\<lparr>rq_timestamp := map_option trim (header ''X-Hermes-Timestamp''),
            rq_signature := map_option trim (header ''X-Hermes-Signature-256''),
            rq_delivery := map_option trim (header ''X-Hermes-Delivery'')\<rparr>)"

definition canonical :: "string \<Rightarrow> string \<Rightarrow> string \<Rightarrow> string \<Rightarrow> string" where
  "canonical method path query timestamp =
     join_with [CHR 0x0A] [method, path, query, timestamp]"

datatype read_refusal =
    SeamNotConfigured
  | CollectorNotConfigured
  | Unsigned
  | BadSignature
  | StaleRead string
  | NoConnection
  | ConnectionNotOfThis string
  | InvalidWindow
  | InvalidUid
  | WindowIsTooWide
  | NotConnected string string "string option"
  | ReadStoreUnavailable
  | CollectorUnreachable
  | CollectorRefused nat string

fun read_refusal_code :: "read_refusal \<Rightarrow> string" where
  "read_refusal_code SeamNotConfigured = ''hermes_answers_not_configured''"
| "read_refusal_code CollectorNotConfigured = ''collector_not_configured''"
| "read_refusal_code Unsigned = ''unsigned''"
| "read_refusal_code BadSignature = ''bad_signature''"
| "read_refusal_code (StaleRead t) = ''stale_timestamp''"
| "read_refusal_code NoConnection = ''invalid_request''"
| "read_refusal_code (ConnectionNotOfThis c) = ''connection_unknown''"
| "read_refusal_code InvalidWindow = ''invalid_window''"
| "read_refusal_code InvalidUid = ''invalid_uid''"
| "read_refusal_code WindowIsTooWide = ''window_too_wide''"
| "read_refusal_code (NotConnected c s h) = ''connection_not_connected''"
| "read_refusal_code ReadStoreUnavailable = ''store_unavailable''"
| "read_refusal_code CollectorUnreachable = ''collector_unreachable''"
| "read_refusal_code (CollectorRefused n c) = ''collector_refused''"

definition read_refusal_status :: "read_refusal \<Rightarrow> nat" where
  "read_refusal_status e =
     (case e of
        SeamNotConfigured \<Rightarrow> 503 | CollectorNotConfigured \<Rightarrow> 503 | ReadStoreUnavailable \<Rightarrow> 503
      | Unsigned \<Rightarrow> 401 | BadSignature \<Rightarrow> 401 | StaleRead t \<Rightarrow> 401
      | NoConnection \<Rightarrow> 400 | InvalidWindow \<Rightarrow> 400 | InvalidUid \<Rightarrow> 400 | WindowIsTooWide \<Rightarrow> 400
      | ConnectionNotOfThis c \<Rightarrow> 404
      | NotConnected c s h \<Rightarrow> 409
      | CollectorUnreachable \<Rightarrow> 502 | CollectorRefused n c \<Rightarrow> 502)"

definition max_window_seconds :: int where
  "max_window_seconds = 14 * 86400"

definition read_window :: "string option \<Rightarrow> string option \<Rightarrow> read_refusal + (string \<times> string)" where
  "read_window from_text to_text =
     (case (from_text, to_text) of
        (Some a, Some b) \<Rightarrow>
          if CHR '' '' \<in> set a \<or> CHR '' '' \<in> set b then Inl InvalidWindow
          else
            and_then (ok_or InvalidWindow (parse_rfc3339_seconds a)) (\<lambda>start.
            and_then (ok_or InvalidWindow (parse_rfc3339_seconds b)) (\<lambda>finish.
              if finish \<le> start then Inl InvalidWindow
              else if max_window_seconds < finish - start then Inl WindowIsTooWide
              else Inr (a, b)))
      | _ \<Rightarrow> Inl InvalidWindow)"

section \<open>The seam\<close>

text \<open>
  What one relayed request gets from the collector: nothing, or a status with its document
  (\<open>None\<close> when it is not JSON).
\<close>

datatype relay_answer = NoAnswer | Relayed nat "json option"

record seam =
  se_secret :: string
  se_registry :: "connection list"
  se_collector :: bool

text \<open>
  The circumstances of one read: the clock, the collector, the states of the connections and
  whether SQLite runs the two statements.
\<close>

record read_call =
  rc_now :: nat
  rc_relay :: "string \<Rightarrow> (string \<times> string) list \<Rightarrow> relay_answer"
  rc_links :: link_store
  rc_links_read :: bool
  rc_recorded :: bool

definition signed_for ::
  "(string \<Rightarrow> string \<Rightarrow> 8 word list) \<Rightarrow> seam \<Rightarrow> nat \<Rightarrow> read_request \<Rightarrow> string \<Rightarrow> read_refusal + string" where
  "signed_for hmac se now rq path =
     (case (rq_timestamp rq, rq_signature rq) of
        (Some timestamp, Some signature) \<Rightarrow>
          if \<not> signature_matches hmac (se_secret se) (Some signature) (canonical ''GET'' path (rq_query rq) timestamp)
          then Inl BadSignature
          else if \<not> is_fresh timestamp now then Inl (StaleRead timestamp)
          else (case rq_connection rq of
                  None \<Rightarrow> Inl NoConnection
                | Some c \<Rightarrow> if c = [] then Inl NoConnection else Inr c)
      | _ \<Rightarrow> Inl Unsigned)"

definition connection_ready :: "seam \<Rightarrow> read_call \<Rightarrow> string \<Rightarrow> read_refusal + unit" where
  "connection_ready se rc c =
     (if map_option conn_kind (registry_get (se_registry se) c) \<noteq> Some ''calendar''
      then Inl (ConnectionNotOfThis c)
      else
        (case connection_can_send (rc_links_read rc) (rc_links rc) (se_registry se) c of
           Inr u \<Rightarrow> if se_collector se then Inr () else Inl CollectorNotConfigured
         | Inl (ConnectionNotConnected c' s h) \<Rightarrow> Inl (NotConnected c' s h)
         | Inl e \<Rightarrow> Inl ReadStoreUnavailable))"

definition relay :: "read_call \<Rightarrow> string \<Rightarrow> (string \<times> string) list \<Rightarrow> read_refusal + json" where
  "relay rc route query =
     (case rc_relay rc route query of
        NoAnswer \<Rightarrow> Inl CollectorUnreachable
      | Relayed n None \<Rightarrow> Inl CollectorUnreachable
      | Relayed n (Some body) \<Rightarrow>
          if n \<noteq> 200
          then Inl (CollectorRefused n (case text_at body ''error'' of Some code \<Rightarrow> code | None \<Rightarrow> ''unknown''))
          else Inr body)"

section \<open>The free/busy read\<close>

record free_busy =
  fb_busy :: "(string \<times> string) list"
  fb_free :: "json list option"
  fb_working_day :: "json option"
  fb_timezone :: "string option"
  fb_timezone_source :: "string option"
  fb_now :: "string option"

definition read_busy_interval :: "json \<Rightarrow> (string \<times> string) option" where
  "read_busy_interval j =
     do {
       a \<leftarrow> text_at j ''start'';
       b \<leftarrow> text_at j ''end'';
       Some (a, b)
     }"

definition read_free_busy_body :: "json \<Rightarrow> read_refusal + free_busy" where
  "read_free_busy_body body =
     (case Option.bind (jget body ''busy'') jarr of
        None \<Rightarrow> Inl CollectorUnreachable
      | Some intervals \<Rightarrow>
          and_then (traverse (\<lambda>i. ok_or CollectorUnreachable (read_busy_interval i)) intervals) (\<lambda>busy_intervals.
            Inr \<lparr>fb_busy = busy_intervals,
                 fb_free = Option.bind (jget body ''free'') jarr,
                 fb_working_day = Option.bind (jget body ''working_day'') (\<lambda>d. map_option JObj (jobj d)),
                 fb_timezone = text_at body ''timezone'',
                 fb_timezone_source = text_at body ''timezone_source'',
                 fb_now = text_at body ''now''\<rparr>))"

definition serve_checked :: "seam \<Rightarrow> read_call \<Rightarrow> string \<Rightarrow> read_request \<Rightarrow> read_refusal + free_busy" where
  "serve_checked se rc c rq =
     and_then (read_window (rq_from rq) (rq_to rq)) (\<lambda>(a, b).
     and_then (connection_ready se rc c) (\<lambda>_.
     and_then (relay rc ''freebusy'' [(''connection'', c), (''from'', a), (''to'', b)])
       read_free_busy_body))"

definition freebusy_path :: string where
  "freebusy_path = ''/_twalk/hermes/freebusy''"

definition serve ::
  "(string \<Rightarrow> string \<Rightarrow> 8 word list) \<Rightarrow> seam \<Rightarrow> read_call \<Rightarrow> read_request \<Rightarrow> read_refusal + free_busy" where
  "serve hmac se rc rq =
     and_then (signed_for hmac se (rc_now rc) rq freebusy_path) (\<lambda>c. serve_checked se rc c rq)"

definition recorded_member_length :: nat where
  "recorded_member_length = 256"

definition cut_member :: "string option \<Rightarrow> string option" where
  "cut_member = map_option (take_chars recorded_member_length)"

definition or_empty :: "string option \<Rightarrow> string" where
  "or_empty s = (case s of None \<Rightarrow> [] | Some x \<Rightarrow> x)"

definition outcome_label :: "read_refusal + 'a \<Rightarrow> string" where
  "outcome_label r = (case r of Inr x \<Rightarrow> ''served'' | Inl e \<Rightarrow> read_refusal_code e)"

text \<open>The record is written whatever came of the read; a failure to write it changes no answer.\<close>

definition record_read ::
  "read_call \<Rightarrow> read_refusal + free_busy \<Rightarrow> read_request \<Rightarrow> string \<Rightarrow> hermes_journal \<Rightarrow> hermes_journal" where
  "record_read rc r rq made_by j =
     (if \<not> rc_recorded rc then j
      else
        record_hermes_read
          \<lparr>hr_connection = or_empty (cut_member (rq_connection rq)), hr_from = or_empty (cut_member (rq_from rq)),
           hr_to = or_empty (cut_member (rq_to rq)), hr_requested_at = rfc3339_seconds (rc_now rc),
           hr_delivery = cut_member (rq_delivery rq), hr_outcome = outcome_label r,
           hr_intervals = (case r of Inr a \<Rightarrow> Some (length (fb_busy a)) | Inl e \<Rightarrow> None),
           hr_made_by = Some made_by\<rparr> j)"

definition free_busy_read ::
  "(string \<Rightarrow> string \<Rightarrow> 8 word list) \<Rightarrow> seam \<Rightarrow> read_call \<Rightarrow> read_request \<Rightarrow> hermes_journal
    \<Rightarrow> (read_refusal + free_busy) \<times> hermes_journal" where
  "free_busy_read hmac se rc rq j =
     (let r = serve hmac se rc rq in (r, record_read rc r rq made_by_hermes j))"

definition checked_read ::
  "seam \<Rightarrow> read_call \<Rightarrow> string \<Rightarrow> read_request \<Rightarrow> hermes_journal \<Rightarrow> (read_refusal + free_busy) \<times> hermes_journal" where
  "checked_read se rc c rq j =
     (let r = serve_checked se rc c rq in (r, record_read rc r rq made_by_gateway j))"

text \<open>The free stretches of a window, as the check of an offered time reads them.\<close>

record hermes_gap =
  hg_start :: int
  hg_end :: int
  hg_offset :: "int option"

definition read_gap :: "json \<Rightarrow> hermes_gap option" where
  "read_gap g =
     do {
       a \<leftarrow> Option.bind (text_at g ''start'') parse_rfc3339_seconds;
       b \<leftarrow> Option.bind (text_at g ''end'') parse_rfc3339_seconds;
       Some \<lparr>hg_start = a, hg_end = b, hg_offset = Option.bind (text_at g ''start_local'') offset_seconds\<rparr>
     }"

definition free_gaps ::
  "seam \<Rightarrow> read_call \<Rightarrow> string \<Rightarrow> string \<times> string \<Rightarrow> string \<Rightarrow> hermes_journal
    \<Rightarrow> (read_refusal + hermes_gap list option) \<times> hermes_journal" where
  "free_gaps se rc c w delivery j =
     (let rq = empty_request\<lparr>rq_connection := Some c, rq_from := Some (fst w), rq_to := Some (snd w),
                             rq_delivery := Some delivery\<rparr>;
          (r, j') = checked_read se rc c rq j
      in (map_sum id (\<lambda>a. map_option (List.map_filter read_gap) (fb_free a)) r, j'))"

section \<open>The read of what an event carries\<close>

record event_facts =
  ef_found :: bool
  ef_conference :: "string option"
  ef_description_characters :: "nat option"
  ef_attachments :: nat

definition optional_u64 :: "json \<Rightarrow> string \<Rightarrow> nat option option" where
  "optional_u64 j k =
     (case jget j k of
        None \<Rightarrow> Some None
      | Some JNull \<Rightarrow> Some None
      | Some v \<Rightarrow> map_option Some (ju64 v))"

definition read_event_facts_body :: "json \<Rightarrow> event_facts option" where
  "read_event_facts_body j =
     do {
       known_here \<leftarrow> Option.bind (jget j ''found'') jbool;
       conference \<leftarrow> optional_text j ''conference'';
       characters \<leftarrow> optional_u64 j ''description_characters'';
       attachments \<leftarrow> Option.bind (jget j ''attachments'') ju64;
       Some \<lparr>ef_found = known_here, ef_conference = conference, ef_description_characters = characters,
             ef_attachments = attachments\<rparr>
     }"

definition event_facts_path :: string where
  "event_facts_path = ''/_twalk/hermes/event-facts''"

definition read_uid :: "string option \<Rightarrow> read_refusal + string" where
  "read_uid given =
     (case map_option trim given of
        None \<Rightarrow> Inl InvalidUid
      | Some uid \<Rightarrow> if uid \<noteq> [] \<and> chars_count uid \<le> 512 then Inr uid else Inl InvalidUid)"

definition serve_event_facts ::
  "(string \<Rightarrow> string \<Rightarrow> 8 word list) \<Rightarrow> seam \<Rightarrow> read_call \<Rightarrow> read_request \<Rightarrow> read_refusal + event_facts" where
  "serve_event_facts hmac se rc rq =
     and_then (signed_for hmac se (rc_now rc) rq event_facts_path) (\<lambda>c.
     and_then (read_uid (rq_uid rq)) (\<lambda>uid.
     and_then (connection_ready se rc c) (\<lambda>_.
     and_then (relay rc ''event-facts'' [(''connection'', c), (''uid'', uid)]) (\<lambda>body.
       ok_or CollectorUnreachable (read_event_facts_body body)))))"

definition event_facts_read ::
  "(string \<Rightarrow> string \<Rightarrow> 8 word list) \<Rightarrow> seam \<Rightarrow> read_call \<Rightarrow> read_request \<Rightarrow> hermes_journal
    \<Rightarrow> (read_refusal + event_facts) \<times> hermes_journal" where
  "event_facts_read hmac se rc rq j =
     (let r = serve_event_facts hmac se rc rq in
      (r, if \<not> rc_recorded rc then j
          else
            record_hermes_event_read
              \<lparr>he_connection = or_empty (cut_member (rq_connection rq)), he_uid = or_empty (cut_member (rq_uid rq)),
               he_requested_at = rfc3339_seconds (rc_now rc), he_delivery = cut_member (rq_delivery rq),
               he_outcome = outcome_label r, he_found = (case r of Inr f \<Rightarrow> Some (ef_found f) | Inl e \<Rightarrow> None)\<rparr> j))"

section \<open>The routes\<close>

definition nullable_number :: "nat option \<Rightarrow> json" where
  "nullable_number n = (case n of None \<Rightarrow> JNull | Some x \<Rightarrow> JNum (int x))"

definition refusal_json :: "read_refusal \<Rightarrow> json" where
  "refusal_json e =
     (let body = JObj [(''error'', JStr (read_refusal_code e))] in
      case e of NotConnected c s h \<Rightarrow> jset body ''state'' (JStr s) | _ \<Rightarrow> body)"

definition free_busy_json :: "read_request \<Rightarrow> free_busy \<Rightarrow> json" where
  "free_busy_json rq a =
     (let body = JObj
            [(''connection'', nullable (rq_connection rq)), (''from'', nullable (rq_from rq)),
             (''to'', nullable (rq_to rq)),
             (''busy'', JArr (map (\<lambda>(s, e). JObj [(''start'', JStr s), (''end'', JStr e)]) (fb_busy a)))];
          gapped = (case fb_free a of None \<Rightarrow> body | Some gs \<Rightarrow> jset body ''free'' (JArr gs));
          day = (case fb_working_day a of None \<Rightarrow> gapped | Some d \<Rightarrow> jset gapped ''working_day'' d)
      in case (fb_timezone a, fb_timezone_source a, fb_now a) of
           (Some z, Some source, Some now) \<Rightarrow>
             jset (jset (jset day ''timezone'' (JStr z)) ''timezone_source'' (JStr source)) ''now'' (JStr now)
         | _ \<Rightarrow> day)"

definition event_facts_json :: "read_request \<Rightarrow> event_facts \<Rightarrow> json" where
  "event_facts_json rq f =
     JObj [(''connection'', nullable (rq_connection rq)), (''uid'', nullable (rq_uid rq)),
           (''found'', JBool (ef_found f)), (''conference'', nullable (ef_conference f)),
           (''description_characters'', nullable_number (ef_description_characters f)),
           (''attachments'', JNum (int (ef_attachments f)))]"

text \<open>A status with its document; the prose of a refusal, its \<^verbatim>\<open>detail\<close>, is left out.\<close>

definition read_route ::
  "(read_request \<Rightarrow> 'a \<Rightarrow> json) \<Rightarrow> (seam \<Rightarrow> read_request \<Rightarrow> hermes_journal \<Rightarrow> (read_refusal + 'a) \<times> hermes_journal)
    \<Rightarrow> seam option \<Rightarrow> read_request \<Rightarrow> hermes_journal \<Rightarrow> (nat \<times> json) \<times> hermes_journal" where
  "read_route render served gateway rq j =
     (case gateway of
        None \<Rightarrow> ((read_refusal_status SeamNotConfigured, refusal_json SeamNotConfigured), j)
      | Some se \<Rightarrow>
          (case served se rq j of
             (Inr a, j') \<Rightarrow> ((200, render rq a), j')
           | (Inl e, j') \<Rightarrow> ((read_refusal_status e, refusal_json e), j')))"

definition read_free_busy_route ::
  "(string \<Rightarrow> string \<Rightarrow> 8 word list) \<Rightarrow> read_call \<Rightarrow> seam option \<Rightarrow> read_request \<Rightarrow> hermes_journal
    \<Rightarrow> (nat \<times> json) \<times> hermes_journal" where
  "read_free_busy_route hmac rc =
     read_route free_busy_json (\<lambda>se. free_busy_read hmac se rc)"

definition read_event_facts_route ::
  "(string \<Rightarrow> string \<Rightarrow> 8 word list) \<Rightarrow> read_call \<Rightarrow> seam option \<Rightarrow> read_request \<Rightarrow> hermes_journal
    \<Rightarrow> (nat \<times> json) \<times> hermes_journal" where
  "read_event_facts_route hmac rc =
     read_route event_facts_json (\<lambda>se. event_facts_read hmac se rc)"

section \<open>Which message a read is for\<close>

lemma like_any: "like [''%''] s"
  by (induction s) auto

lemma like_percent: "like (''%'' # ps) s \<longleftrightarrow> (\<exists>a b. s = a @ b \<and> like ps b)"
proof (induction s)
  case (Cons c s)
  have "(\<exists>a b. c # s = a @ b \<and> like ps b) \<longleftrightarrow> like ps (c # s) \<or> (\<exists>a b. s = a @ b \<and> like ps b)"
    by (metis append_Cons append_Nil list.exhaust list.inject)
  with Cons show ?case by simp
qed simp

lemma like_literal:
  assumes "''%'' \<notin> set m" and "''_'' \<notin> set m"
  shows "like (m @ ps) s \<longleftrightarrow>
    length m \<le> length s \<and> map (map ascii_lower) (take (length m) s) = map (map ascii_lower) m
    \<and> like ps (drop (length m) s)"
  using assms
proof (induction m arbitrary: s)
  case (Cons p m)
  then show ?case by (cases s) auto
qed simp

lemma code_points_single: "list_all (\<lambda>c. \<not> continues c) s \<Longrightarrow> code_points s = map (\<lambda>c. [c]) s"
proof (induction s)
  case (Cons c s)
  then show ?case by (cases s) auto
qed simp

lemma map_singles:
  "map (map f) (map (\<lambda>c. [c]) x) = map (map f) (map (\<lambda>c. [c]) y) \<longleftrightarrow> map f x = map f y"
proof -
  have "map (map f) (map (\<lambda>c. [c]) z) = map (\<lambda>c. [c]) (map f z)" for z by simp
  moreover have "inj (map (\<lambda>c. [c]))" by (auto intro: inj_mapI injI)
  ultimately show ?thesis by (metis injD)
qed

lemma names_iff:
  assumes "list_all (\<lambda>c. \<not> continues c) d" and "list_all (\<lambda>c. \<not> continues c) i"
    and "CHR ''%'' \<notin> set i" and "CHR ''_'' \<notin> set i"
  shows "names i (Some d) \<longleftrightarrow> (\<exists>m. sublist m d \<and> map ascii_lower m = map ascii_lower i)"
proof -
  have pattern: "code_points (''%'' @ i @ ''%'') = ''%'' # map (\<lambda>c. [c]) i @ [''%'']"
    using assms(2) by (subst code_points_single) (simp_all add: continues_def)
  have literal: "like (map (\<lambda>c. [c]) i @ [''%'']) (map (\<lambda>c. [c]) b) \<longleftrightarrow>
      (\<exists>m rest. b = m @ rest \<and> map ascii_lower m = map ascii_lower i)" for b
  proof -
    have "like (map (\<lambda>c. [c]) i @ [''%'']) (map (\<lambda>c. [c]) b) \<longleftrightarrow>
        length i \<le> length b \<and> map ascii_lower (take (length i) b) = map ascii_lower i"
      using assms(3,4)
      by (subst like_literal) (auto simp: like_any take_map map_singles simp del: map_map)
    also have "\<dots> \<longleftrightarrow> (\<exists>m rest. b = m @ rest \<and> map ascii_lower m = map ascii_lower i)"
      by (metis append_eq_conv_conj append_take_drop_id length_map length_append le_add1)
    finally show ?thesis .
  qed
  have "names i (Some d) \<longleftrightarrow> (\<exists>a b. d = a @ b \<and> like (map (\<lambda>c. [c]) i @ [''%'']) (map (\<lambda>c. [c]) b))"
    unfolding names_def option.case pattern like_percent code_points_single [OF assms(1)]
    by (auto simp: map_eq_append_conv)
  then show ?thesis unfolding literal by (auto simp: sublist_def)
qed

lemma event_id_chars:
  assumes "is_event_id i" and "c \<in> set i"
  shows "\<not> continues c" and "ascii_lower c = c" and "c \<noteq> CHR ''%''" and "c \<noteq> CHR ''_''" and "c \<noteq> CHR '':''"
  using assms
  by (auto simp: is_event_id_def list_all_iff is_ascii_digit_def less_eq_char_def continues_def ascii_lower_def Let_def)

lemma length_dec: "n < 10 ^ k \<Longrightarrow> 0 < k \<Longrightarrow> length (dec n) \<le> k"
proof (induction k arbitrary: n)
  case (Suc k)
  show ?case
  proof (cases "n < 10")
    case False
    then have "n div 10 < 10 ^ k" "0 < k" using Suc.prems by (auto intro: gr0I)
    then show ?thesis using Suc.IH [of "n div 10"] False by (simp add: dec_step)
  qed (simp add: dec_small)
qed simp

lemma sublist_apart: "c \<notin> set m \<Longrightarrow> sublist m (a @ c # b) \<longleftrightarrow> sublist m a \<or> sublist m b"
proof
  assume "c \<notin> set m" "sublist m (a @ c # b)"
  then show "sublist m a \<or> sublist m b"
    by (auto simp: sublist_append prefix_Cons sublist_Cons_right dest: suffix_imp_sublist)
next
  assume "sublist m a \<or> sublist m b"
  then show "sublist m (a @ c # b)" by (auto simp: sublist_append sublist_Cons_right)
qed

lemma sublist_same_length: "sublist m s \<Longrightarrow> length m = length s \<Longrightarrow> m = s"
  by (auto simp: sublist_def)

lemma names_reference:
  assumes "reference_ok r" and "length (rf_persona_id r) < 64" and "is_event_id i"
  shows "names i (Some (reference_text r)) \<longleftrightarrow> i = rf_trigger r"
proof -
  note i = event_id_chars [OF assms(3)]
  have lower: "map ascii_lower x = x" if "is_event_id x" for x
    using event_id_chars(2) [OF that] by (intro map_idI) simp
  have t: "is_event_id (rf_trigger r)" using assms(1) by (simp add: reference_ok_def)
  have lengths: "length i = 64" "length (rf_trigger r) = 64" using assms(3) t by (simp_all add: is_event_id_def)
  have digits: "length (dec (rf_attempt r)) < 64"
    using assms(1) length_dec [of "rf_attempt r" 20] by (simp add: reference_ok_def)
  have shape: "reference_text r = ''TWALK-REF'' @ CHR '':'' # rf_persona_id r @ CHR '':'' # rf_trigger r @ CHR '':'' # dec (rf_attempt r)"
    by (simp add: reference_text_def reference_prefix_def)
  have "list_all (\<lambda>c. \<not> continues c) (reference_text r)"
  proof -
    have "\<not> continues c" if "persona_char c \<or> is_ascii_digit c" for c
      using that by (auto simp: persona_char_def is_ascii_lowercase_def is_ascii_digit_def continues_def)
    moreover have "list_all is_ascii_digit (dec (rf_attempt r))" using dec_digits by blast
    ultimately show ?thesis
      using assms(1) event_id_chars(1) [OF t]
      unfolding shape by (auto simp: reference_ok_def list_all_iff continues_def)
  qed
  then have "names i (Some (reference_text r)) \<longleftrightarrow>
      (\<exists>m. sublist m (reference_text r) \<and> map ascii_lower m = map ascii_lower i)"
    using i(1) i(3) [of "CHR ''%''"] i(4) [of "CHR ''_''"] by (intro names_iff) (auto simp: list_all_iff)
  also have "\<dots> \<longleftrightarrow> (\<exists>m. sublist m (rf_trigger r) \<and> map ascii_lower m = map ascii_lower i)"
  proof -
    have "sublist m (reference_text r) \<longleftrightarrow> sublist m (rf_trigger r)" if m: "map ascii_lower m = map ascii_lower i" for m
    proof -
      have "ascii_lower c \<in> set i" if "c \<in> set m" for c
        using that m lower [OF assms(3)] by (metis image_eqI list.set_map)
      moreover have "ascii_lower (CHR '':'') = CHR '':''" by code_simp
      ultimately have colon: "CHR '':'' \<notin> set m" using i(5) by metis
      have "length m = 64" using map_eq_imp_length_eq [OF m] lengths by simp
      then have "\<not> sublist m s" if "length s < 64" for s
        using that sublist_length_le [of m s] by linarith
      then show ?thesis
        unfolding shape sublist_apart [OF colon] using assms(2) digits by simp
    qed
    then show ?thesis by blast
  qed
  also have "\<dots> \<longleftrightarrow> i = rf_trigger r" 
  proof
    assume "\<exists>m. sublist m (rf_trigger r) \<and> map ascii_lower m = map ascii_lower i"
    then obtain m where "sublist m (rf_trigger r)" and m: "map ascii_lower m = map ascii_lower i" by blast
    moreover have "length m = length (rf_trigger r)" using lengths map_eq_imp_length_eq [OF m] by simp
    ultimately show "i = rf_trigger r" using sublist_same_length lower [OF t] lower [OF assms(3)] by metis
  qed blast
  finally show ?thesis .
qed

definition under_references :: "(string option) list \<Rightarrow> bool" where
  "under_references ds \<longleftrightarrow>
     (\<forall>d \<in> set ds. \<forall>s. d = Some s \<longrightarrow>
        (\<exists>r. reference_ok r \<and> length (rf_persona_id r) < 64 \<and> s = reference_text r))"

lemma names_under_references:
  assumes "under_references ds" and "d \<in> set ds" and "is_event_id i"
  shows "names i d \<and> of_attempt (Some n) d \<longleftrightarrow>
    (\<exists>r. reference_ok r \<and> d = Some (reference_text r) \<and> rf_trigger r = i \<and> rf_attempt r = n)"
proof (cases d)
  case None
  then show ?thesis by (simp add: names_def)
next
  case (Some s)
  then obtain r where r: "reference_ok r" "length (rf_persona_id r) < 64" "s = reference_text r"
    using assms(1,2) by (auto simp: under_references_def)
  have found: "reference_find (reference_text r') = Some r'" if "reference_ok r'" for r'
    using reference_find_text [of r' "[]"] that by simp
  have "of_attempt (Some n) d \<longleftrightarrow> rf_attempt r = n"
    using found [OF r(1)] by (simp add: of_attempt_def Some r(3))
  moreover have "names i d \<longleftrightarrow> rf_trigger r = i"
    using names_reference [OF r(1,2) assms(3)] by (auto simp: Some r(3))
  ultimately have left: "names i d \<and> of_attempt (Some n) d \<longleftrightarrow> rf_trigger r = i \<and> rf_attempt r = n"
    by metis
  have same: "r' = r" if "reference_ok r'" "d = Some (reference_text r')" for r'
  proof -
    have "reference_text r' = reference_text r" using that(2) Some r(3) by simp
    then show ?thesis using found [OF r(1)] found [OF that(1)] by simp
  qed
  show ?thesis unfolding left using same r(1) by (metis Some r(3))
qed

text \<open>
  C17. What the approval screen shows a draft did. When every read of the journal, of the agenda or
  of an event, that carries a delivery carries a reference, as the agent is told to, the path of an
  attempt is in the order of the instants and holds a read of the agenda exactly when it was made
  by the agent, a read of an event exactly when it was made, under the reference of that message
  and that attempt, and a question exactly when it was put at that attempt or an earlier one of the
  same message.
\<close>

theorem path_is_of_the_attempt:
  assumes "under_references (map hr_delivery (hj_reads j))" and "under_references (map he_delivery (hj_event_reads j))"
    and "is_event_id i"
  shows "sorted (map step_at (hermes_path j i (Some n)))
    \<and> (FreeBusyStep a b how k at \<in> set (hermes_path j i (Some n)) \<longleftrightarrow>
        (\<exists>row \<in> set (hj_reads j). \<exists>r. reference_ok r \<and> hr_delivery row = Some (reference_text r)
           \<and> rf_trigger r = i \<and> rf_attempt r = n \<and> hr_made_by row \<noteq> Some made_by_gateway
           \<and> hr_from row = a \<and> hr_to row = b \<and> hr_outcome row = how \<and> hr_intervals row = k
           \<and> hr_requested_at row = at))
    \<and> (AskedStep q at \<in> set (hermes_path j i (Some n)) \<longleftrightarrow>
        (\<exists>row \<in> set (hj_deferrals j). df_trigger row = i \<and> df_attempt row \<le> as_i64 n
           \<and> df_asked row = q \<and> df_deferred_at row = at))
    \<and> (EventFactsStep uid how known_here at \<in> set (hermes_path j i (Some n)) \<longleftrightarrow>
        (\<exists>row \<in> set (hj_event_reads j). \<exists>r. reference_ok r \<and> he_delivery row = Some (reference_text r)
           \<and> rf_trigger r = i \<and> rf_attempt r = n \<and> he_uid row = uid \<and> he_outcome row = how
           \<and> he_found row = known_here \<and> he_requested_at row = at))"
proof -
  have event: "names i (he_delivery row) \<and> of_attempt (Some n) (he_delivery row) \<longleftrightarrow>
      (\<exists>r. reference_ok r \<and> he_delivery row = Some (reference_text r) \<and> rf_trigger r = i \<and> rf_attempt r = n)"
    if "row \<in> set (hj_event_reads j)" for row
    using names_under_references [OF assms(2) _ assms(3)] that by simp
  have "EventFactsStep uid how known_here at \<in> set (hermes_path j i (Some n)) \<longleftrightarrow>
      (\<exists>row \<in> set (hj_event_reads j). (names i (he_delivery row) \<and> of_attempt (Some n) (he_delivery row))
         \<and> he_uid row = uid \<and> he_outcome row = how \<and> he_found row = known_here \<and> he_requested_at row = at)"
    by (auto simp: hermes_path_def read_steps_def event_steps_def asked_steps_def)
  also have "\<dots> \<longleftrightarrow> (\<exists>row \<in> set (hj_event_reads j). \<exists>r. reference_ok r \<and> he_delivery row = Some (reference_text r)
           \<and> rf_trigger r = i \<and> rf_attempt r = n \<and> he_uid row = uid \<and> he_outcome row = how
           \<and> he_found row = known_here \<and> he_requested_at row = at)"
    using event by (intro bex_cong refl) blast
  finally have events: "EventFactsStep uid how known_here at \<in> set (hermes_path j i (Some n)) \<longleftrightarrow> \<dots>" .
  have read: "names i (hr_delivery row) \<and> of_attempt (Some n) (hr_delivery row) \<longleftrightarrow>
      (\<exists>r. reference_ok r \<and> hr_delivery row = Some (reference_text r) \<and> rf_trigger r = i \<and> rf_attempt r = n)"
    if "row \<in> set (hj_reads j)" for row
    using names_under_references [OF assms(1) _ assms(3)] that by simp
  have "FreeBusyStep a b how k at \<in> set (hermes_path j i (Some n)) \<longleftrightarrow>
      (\<exists>row \<in> set (hj_reads j). (names i (hr_delivery row) \<and> of_attempt (Some n) (hr_delivery row))
         \<and> hr_made_by row \<noteq> Some made_by_gateway
         \<and> hr_from row = a \<and> hr_to row = b \<and> hr_outcome row = how \<and> hr_intervals row = k \<and> hr_requested_at row = at)"
    by (auto simp: hermes_path_def read_steps_def event_steps_def asked_steps_def)
  also have "\<dots> \<longleftrightarrow> (\<exists>row \<in> set (hj_reads j). \<exists>r. reference_ok r \<and> hr_delivery row = Some (reference_text r)
           \<and> rf_trigger r = i \<and> rf_attempt r = n \<and> hr_made_by row \<noteq> Some made_by_gateway
           \<and> hr_from row = a \<and> hr_to row = b \<and> hr_outcome row = how \<and> hr_intervals row = k
           \<and> hr_requested_at row = at)"
    using read by (intro bex_cong refl) blast
  finally have reads: "FreeBusyStep a b how k at \<in> set (hermes_path j i (Some n)) \<longleftrightarrow> \<dots>" .
  show ?thesis
  proof (intro conjI reads events)
    show "AskedStep q at \<in> set (hermes_path j i (Some n)) \<longleftrightarrow>
        (\<exists>row \<in> set (hj_deferrals j). df_trigger row = i \<and> df_attempt row \<le> as_i64 n
           \<and> df_asked row = q \<and> df_deferred_at row = at)"
      by (auto simp: hermes_path_def read_steps_def event_steps_def asked_steps_def)
  qed (simp add: hermes_path_def)
qed

section \<open>What a read needs\<close>

text \<open>Whether a read got as far as the collector.\<close>

fun reached_collector :: "read_refusal + 'a \<Rightarrow> bool" where
  "reached_collector (Inl CollectorUnreachable) = True"
| "reached_collector (Inl (CollectorRefused n c)) = True"
| "reached_collector (Inl e) = False"
| "reached_collector (Inr a) = True"

lemma connection_ready_cases:
  "(case connection_ready se rc c of
      Inr u \<Rightarrow> (\<exists>k. registry_get (se_registry se) c = Some k \<and> conn_kind k = ''calendar'')
               \<and> (\<exists>cu. connection_status (rc_links rc) c = Some cu \<and> is_connected cu)
    | Inl e \<Rightarrow> \<not> reached_collector (Inl e :: read_refusal + 'a))"
proof (cases "\<exists>k. registry_get (se_registry se) c = Some k \<and> conn_kind k = ''calendar''")
  case True
  then show ?thesis
    by (auto simp: connection_ready_def connection_can_send_def split: option.splits if_splits sum.splits)
next
  case False
  then show ?thesis by (simp add: connection_ready_def)
qed

lemma read_window_cases:
  "(case read_window f t of
      Inr (a, b) \<Rightarrow> f = Some a \<and> t = Some b
        \<and> (\<exists>x y. parse_rfc3339_seconds a = Some x \<and> parse_rfc3339_seconds b = Some y
             \<and> x < y \<and> y - x \<le> max_window_seconds)
    | Inl e \<Rightarrow> \<not> reached_collector (Inl e :: read_refusal + 'a))"
  by (cases f; cases t; cases "parse_rfc3339_seconds (the f)"; cases "parse_rfc3339_seconds (the t)")
    (auto simp: read_window_def)

lemma signed_for_cases:
  "(case signed_for hmac se now rq path of
      Inr c \<Rightarrow> rq_connection rq = Some c
        \<and> (\<exists>timestamp signature. rq_timestamp rq = Some timestamp \<and> rq_signature rq = Some signature
             \<and> signature_matches hmac (se_secret se) (Some signature) (canonical ''GET'' path (rq_query rq) timestamp)
             \<and> is_fresh timestamp now)
    | Inl e \<Rightarrow> \<not> reached_collector (Inl e :: read_refusal + 'a))"
  by (auto simp: signed_for_def split: option.splits)

lemma read_free_busy_body_Inl: "read_free_busy_body b = Inl e \<Longrightarrow> e = CollectorUnreachable"
  by (auto simp: read_free_busy_body_def result_simps split: option.splits)

lemma relay_Inl: "relay rc route q = Inl e \<Longrightarrow> e = CollectorUnreachable \<or> (\<exists>n c. e = CollectorRefused n c)"
  by (auto simp: relay_def split: relay_answer.splits option.splits if_splits)

lemma relayed_reaches: "reached_collector (and_then (relay rc route q) read_free_busy_body)"
proof (cases "and_then (relay rc route q) read_free_busy_body")
  case (Inl e)
  then have "e = CollectorUnreachable \<or> (\<exists>n c. e = CollectorRefused n c)"
    using relay_Inl read_free_busy_body_Inl by (auto simp: result_simps)
  then show ?thesis using Inl by auto
qed simp

definition permitted ::
  "(string \<Rightarrow> string \<Rightarrow> 8 word list) \<Rightarrow> seam \<Rightarrow> read_call \<Rightarrow> read_request
    \<Rightarrow> read_refusal + string \<times> string \<times> string" where
  "permitted hmac se rc rq =
     and_then (signed_for hmac se (rc_now rc) rq freebusy_path) (\<lambda>c.
     and_then (read_window (rq_from rq) (rq_to rq)) (\<lambda>(a, b).
     and_then (connection_ready se rc c) (\<lambda>_. Inr (c, a, b))))"

lemma serve_permitted:
  "serve hmac se rc rq =
     and_then (permitted hmac se rc rq) (\<lambda>(c, a, b).
     and_then (relay rc ''freebusy'' [(''connection'', c), (''from'', a), (''to'', b)]) read_free_busy_body)"
  by (cases "signed_for hmac se (rc_now rc) rq freebusy_path"; cases "read_window (rq_from rq) (rq_to rq)";
      cases "connection_ready se rc (projr (signed_for hmac se (rc_now rc) rq freebusy_path))")
    (auto simp: serve_def serve_checked_def permitted_def split: prod.splits)

lemma permitted_without_the_collector:
  "permitted hmac se (rc\<lparr>rc_relay := other\<rparr>) rq = permitted hmac se rc rq"
proof -
  have same: "rc_links (rc\<lparr>rc_relay := other\<rparr>) = rc_links rc"
    "rc_links_read (rc\<lparr>rc_relay := other\<rparr>) = rc_links_read rc"
    "rc_now (rc\<lparr>rc_relay := other\<rparr>) = rc_now rc"
    by simp_all
  show ?thesis unfolding permitted_def connection_ready_def same by (rule refl)
qed

lemma reached_iff_permitted: "reached_collector (serve hmac se rc rq) \<longleftrightarrow> \<not> isl (permitted hmac se rc rq)"
proof (cases "permitted hmac se rc rq")
  case (Inl e)
  then consider "signed_for hmac se (rc_now rc) rq freebusy_path = Inl e"
    | "read_window (rq_from rq) (rq_to rq) = Inl e" | c where "connection_ready se rc c = Inl e"
    by (auto simp: permitted_def result_simps split: prod.splits)
  then have "\<not> reached_collector (Inl e :: read_refusal + free_busy)"
  proof cases
    case 1
    then show ?thesis
      using signed_for_cases [where hmac = hmac and se = se and now = "rc_now rc" and rq = rq
          and path = freebusy_path and 'a = free_busy] by simp
  next
    case 2
    then show ?thesis
      using read_window_cases [where f = "rq_from rq" and t = "rq_to rq" and 'a = free_busy] by simp
  next
    case 3
    then show ?thesis
      using connection_ready_cases [where se = se and rc = rc and c = c and 'a = free_busy] by simp
  qed
  then show ?thesis using Inl by (simp add: serve_permitted)
next
  case (Inr p)
  then show ?thesis using relayed_reaches by (simp add: serve_permitted split: prod.splits)
qed

lemma permitted_Inr:
  assumes "permitted hmac se rc rq = Inr (c, a, b)"
  shows "signed_for hmac se (rc_now rc) rq freebusy_path = Inr c"
    and "read_window (rq_from rq) (rq_to rq) = Inr (a, b)" and "connection_ready se rc c = Inr ()"
  using assms by (auto simp: permitted_def result_simps)

text \<open>
  C16. The agenda of the owner is read for Hermes only under a signature over that very read,
  fresh, on a connected calendar connection and for a window of at most a fortnight: otherwise the
  collector is not asked, and whatever it would have answered changes nothing. Served or refused,
  the read adds one row to the journal, in its own name, with texts cut to 256 characters.
\<close>

theorem agenda_is_read_under_a_signature:
  shows "(reached_collector (serve hmac se rc rq) \<longrightarrow>
      (\<exists>timestamp signature. rq_timestamp rq = Some timestamp \<and> rq_signature rq = Some signature
         \<and> signature_matches hmac (se_secret se) (Some signature)
             (canonical ''GET'' freebusy_path (rq_query rq) timestamp)
         \<and> is_fresh timestamp (rc_now rc))
      \<and> (\<exists>c k cu. rq_connection rq = Some c \<and> registry_get (se_registry se) c = Some k
           \<and> conn_kind k = ''calendar'' \<and> connection_status (rc_links rc) c = Some cu \<and> is_connected cu)
      \<and> (\<exists>a b x y. rq_from rq = Some a \<and> rq_to rq = Some b \<and> parse_rfc3339_seconds a = Some x
           \<and> parse_rfc3339_seconds b = Some y \<and> x < y \<and> y - x \<le> max_window_seconds))
    \<and> (\<not> reached_collector (serve hmac se rc rq) \<longrightarrow>
        serve hmac se (rc\<lparr>rc_relay := other\<rparr>) rq = serve hmac se rc rq)
    \<and> fst (free_busy_read hmac se rc rq j) = serve hmac se rc rq
    \<and> (rc_recorded rc \<longrightarrow>
        (\<exists>row. hj_reads (snd (free_busy_read hmac se rc rq j)) = hj_reads j @ [row]
           \<and> hr_outcome row = outcome_label (serve hmac se rc rq) \<and> hr_made_by row = Some made_by_hermes
           \<and> chars_count (hr_connection row) \<le> 256 \<and> chars_count (hr_from row) \<le> 256
           \<and> chars_count (hr_to row) \<le> 256 \<and> chars_count (or_empty (hr_delivery row)) \<le> 256))"
proof (intro conjI impI)
  assume "reached_collector (serve hmac se rc rq)"
  then obtain c a b where p: "permitted hmac se rc rq = Inr (c, a, b)"
    unfolding reached_iff_permitted by (cases "permitted hmac se rc rq") auto
  note cases = signed_for_cases [where hmac = hmac and se = se and now = "rc_now rc" and rq = rq
      and path = freebusy_path and 'a = free_busy, unfolded permitted_Inr(1) [OF p] sum.case]
    read_window_cases [where f = "rq_from rq" and t = "rq_to rq" and 'a = free_busy,
      unfolded permitted_Inr(2) [OF p] sum.case prod.case]
    connection_ready_cases [where se = se and rc = rc and c = c and 'a = free_busy,
      unfolded permitted_Inr(3) [OF p] sum.case]
  then show "\<exists>timestamp signature. rq_timestamp rq = Some timestamp \<and> rq_signature rq = Some signature
         \<and> signature_matches hmac (se_secret se) (Some signature)
             (canonical ''GET'' freebusy_path (rq_query rq) timestamp)
         \<and> is_fresh timestamp (rc_now rc)"
    and "\<exists>c k cu. rq_connection rq = Some c \<and> registry_get (se_registry se) c = Some k
           \<and> conn_kind k = ''calendar'' \<and> connection_status (rc_links rc) c = Some cu \<and> is_connected cu"
    and "\<exists>a b x y. rq_from rq = Some a \<and> rq_to rq = Some b \<and> parse_rfc3339_seconds a = Some x
           \<and> parse_rfc3339_seconds b = Some y \<and> x < y \<and> y - x \<le> max_window_seconds"
    by blast+
next
  assume "\<not> reached_collector (serve hmac se rc rq)"
  then obtain e where "permitted hmac se rc rq = Inl e"
    unfolding reached_iff_permitted by (cases "permitted hmac se rc rq") auto
  then show "serve hmac se (rc\<lparr>rc_relay := other\<rparr>) rq = serve hmac se rc rq"
    unfolding serve_permitted permitted_without_the_collector by simp
next
  show "fst (free_busy_read hmac se rc rq j) = serve hmac se rc rq" by (simp add: free_busy_read_def Let_def)
next
  assume "rc_recorded rc"
  have cut: "chars_count (or_empty (cut_member m)) \<le> 256" for m
    by (cases m) (simp_all add: or_empty_def cut_member_def recorded_member_length_def chars_count_take_chars)
  then show "\<exists>row. hj_reads (snd (free_busy_read hmac se rc rq j)) = hj_reads j @ [row]
           \<and> hr_outcome row = outcome_label (serve hmac se rc rq) \<and> hr_made_by row = Some made_by_hermes
           \<and> chars_count (hr_connection row) \<le> 256 \<and> chars_count (hr_from row) \<le> 256
           \<and> chars_count (hr_to row) \<le> 256 \<and> chars_count (or_empty (hr_delivery row)) \<le> 256"
    using \<open>rc_recorded rc\<close>
    by (simp add: free_busy_read_def record_read_def record_hermes_read_def Let_def)
qed

section \<open>Concrete reads\<close>

definition seam_calendars :: "connection list" where
  "seam_calendars =
     map (\<lambda>c. \<lparr>conn_id = c, conn_kind = ''calendar'', conn_label = c, conn_bridge_id = None, conn_bridge_bot = None\<rparr>)
       [''work'', ''home'']"

definition calendars_connected :: link_store where
  "calendars_connected =
     fold (\<lambda>c st. snd (record_connection_status_change bundled_sqlite
         \<lparr>ch_event_id = c, ch_connection = c, ch_kind = ''calendar'', ch_from_state = ''unknown'',
          ch_to_state = ''connected'', ch_occurred_at = ''t'', ch_service = None, ch_hint = None\<rparr> ''t'' st))
       [''work'', ''home''] link_store_open"

definition some_instant :: nat where
  "some_instant = 1800000000"

definition some_hmac :: "string \<Rightarrow> string \<Rightarrow> 8 word list" where
  "some_hmac secret text_signed = [42]"

definition some_seam :: seam where
  "some_seam = \<lparr>se_secret = ''s'', se_registry = seam_calendars, se_collector = True\<rparr>"

definition empty_agenda :: json where
  "empty_agenda = JObj [(''busy'', JArr [])]"

definition some_call_of :: "(string \<Rightarrow> (string \<times> string) list \<Rightarrow> relay_answer) \<Rightarrow> read_call" where
  "some_call_of answers =
     \<lparr>rc_now = some_instant, rc_relay = answers, rc_links = calendars_connected, rc_links_read = True,
      rc_recorded = True\<rparr>"

definition some_reference :: reference where
  "some_reference = \<lparr>rf_persona_id = ''p'', rf_trigger = replicate 64 (CHR ''a''), rf_attempt = 1\<rparr>"

definition some_read :: read_request where
  "some_read =
     \<lparr>rq_query = ''q'', rq_connection = Some ''work'', rq_from = Some ''2027-01-11T00:00:00Z'',
      rq_to = Some ''2027-01-16T00:00:00Z'', rq_timestamp = Some (rfc3339_seconds some_instant),
      rq_signature = Some ''sha256=2a'', rq_delivery = Some (reference_text some_reference), rq_uid = None\<rparr>"

lemma some_reference_ok: "reference_ok some_reference \<and> length (rf_persona_id some_reference) < 64"
  by code_simp

lemma some_read_served:
  "case free_busy_read some_hmac some_seam (some_call_of (\<lambda>route q. Relayed 200 (Some empty_agenda))) some_read
      hermes_journal_open of
     (Inr a, j) \<Rightarrow> map hr_delivery (hj_reads j) = [Some (reference_text some_reference)]
       \<and> map hr_outcome (hj_reads j) = [''served''] \<and> hj_event_reads j = []
   | (Inl e, j) \<Rightarrow> False"
  by code_simp

theorem agenda_is_read_under_a_signature_witness:
  "let rc = some_call_of (\<lambda>route q. Relayed 200 (Some empty_agenda)) in
   reached_collector (serve some_hmac some_seam rc some_read)
   \<and> is_fresh (rfc3339_seconds some_instant) (rc_now rc)
   \<and> (\<exists>row. hj_reads (snd (free_busy_read some_hmac some_seam rc some_read hermes_journal_open)) = [row]
        \<and> hr_outcome row = ''served'' \<and> hr_made_by row = Some made_by_hermes)"
proof -
  let ?rc = "some_call_of (\<lambda>route q. Relayed 200 (Some empty_agenda))"
  have served: "outcome_label (serve some_hmac some_seam ?rc some_read) = ''served''"
    and reached: "reached_collector (serve some_hmac some_seam ?rc some_read)" by code_simp+
  have "rc_recorded ?rc" by (simp add: some_call_of_def)
  moreover have "rq_timestamp some_read = Some (rfc3339_seconds some_instant)" by (simp add: some_read_def)
  ultimately show ?thesis
    using agenda_is_read_under_a_signature
        [where hmac = some_hmac and se = some_seam and rc = ?rc and rq = some_read and j = hermes_journal_open]
      reached served
    by (auto simp: hermes_journal_open_def Let_def)
qed

theorem path_is_of_the_attempt_witness:
  "let j = snd (free_busy_read some_hmac some_seam (some_call_of (\<lambda>route q. Relayed 200 (Some empty_agenda)))
             some_read hermes_journal_open) in
   \<exists>a b k at. FreeBusyStep a b ''served'' k at \<in> set (hermes_path j (rf_trigger some_reference) (Some 1))"
proof -
  let ?j = "snd (free_busy_read some_hmac some_seam (some_call_of (\<lambda>route q. Relayed 200 (Some empty_agenda)))
             some_read hermes_journal_open)"
  obtain row where row: "hj_reads ?j = [row]" "hr_delivery row = Some (reference_text some_reference)"
      "hr_outcome row = ''served''" "hr_made_by row \<noteq> Some made_by_gateway"
  proof -
    have "map hr_delivery (hj_reads ?j) = [Some (reference_text some_reference)]
        \<and> map hr_outcome (hj_reads ?j) = [''served''] \<and> map hr_made_by (hj_reads ?j) = [Some made_by_hermes]"
      by code_simp
    moreover have "made_by_hermes \<noteq> made_by_gateway" by code_simp
    ultimately show thesis using that by (auto simp: map_eq_Cons_conv)
  qed
  have refs: "under_references (map hr_delivery (hj_reads ?j))"
    using row(1,2) some_reference_ok by (auto simp: under_references_def)
  have no_events: "under_references (map he_delivery (hj_event_reads ?j))"
    by (simp add: under_references_def free_busy_read_def record_read_def record_hermes_read_def hermes_journal_open_def Let_def)
  have ids: "is_event_id (rf_trigger some_reference)" "rf_attempt some_reference = 1" by code_simp+
  have "row \<in> set (hj_reads ?j)" using row(1) by simp
  then have "FreeBusyStep (hr_from row) (hr_to row) ''served'' (hr_intervals row) (hr_requested_at row)
      \<in> set (hermes_path ?j (rf_trigger some_reference) (Some 1))"
    using path_is_of_the_attempt [OF refs no_events ids(1), THEN conjunct2, THEN conjunct1] row(2-4) some_reference_ok ids(2)
    by blast
  then show ?thesis unfolding Let_def by blast
qed

end
