(* ===== verification/Hermes_Answers.thy ===== *)
theory Hermes_Answers
  imports Hermes_Reads Mail_Rules
begin

text \<open>
  What Hermes answers to a wake: \<^verbatim>\<open>companion-gateway/src/hermes_answer.rs\<close> and its route in
  \<^verbatim>\<open>hermes_answer_http.rs\<close>. Parameters: \<open>hmac\<close> and \<open>digest\<close>, \<open>read_json\<close> which is
  \<^verbatim>\<open>serde_json\<close> on a text, and the two tables of Unicode a record holds.
\<close>

section \<open>Times in prose\<close>

record unicode =
  uc_lower :: "string \<Rightarrow> string"
  uc_alphanumeric :: "string \<Rightarrow> bool"

fun split_where :: "('a \<Rightarrow> bool) \<Rightarrow> 'a list \<Rightarrow> 'a list list" where
  "split_where p [] = [[]]"
| "split_where p (x # xs) =
     (if p x then [] # split_where p xs
      else (case split_where p xs of [] \<Rightarrow> [[x]] | w # ws \<Rightarrow> (x # w) # ws))"

definition words_of :: "(string \<Rightarrow> bool) \<Rightarrow> string \<Rightarrow> string list" where
  "words_of separates s = map concat (split_where separates (code_points s))"

definition weekday_names :: "(nat \<times> string list) list" where
  "weekday_names =
     [(1, [''lundi'', ''monday'', ''montag'', ''lunes'', ''luned'' @ [CHR 0xC3, CHR 0xAC], ''lunedi'']),
      (2, [''mardi'', ''tuesday'', ''dienstag'', ''martes'', ''marted'' @ [CHR 0xC3, CHR 0xAC], ''martedi'']),
      (3, [''mercredi'', ''wednesday'', ''mittwoch'', ''mi'' @ [CHR 0xC3, CHR 0xA9] @ ''rcoles'', ''miercoles'',
           ''mercoled'' @ [CHR 0xC3, CHR 0xAC], ''mercoledi'']),
      (4, [''jeudi'', ''thursday'', ''donnerstag'', ''jueves'', ''gioved'' @ [CHR 0xC3, CHR 0xAC], ''giovedi'']),
      (5, [''vendredi'', ''friday'', ''freitag'', ''viernes'', ''venerd'' @ [CHR 0xC3, CHR 0xAC], ''venerdi'']),
      (6, [''samedi'', ''saturday'', ''samstag'', ''sonnabend'', ''s'' @ [CHR 0xC3, CHR 0xA1] @ ''bado'',
           ''sabado'', ''sabato'']),
      (7, [''dimanche'', ''sunday'', ''sonntag'', ''domingo'', ''domenica''])]"

definition weekdays_named :: "unicode \<Rightarrow> string \<Rightarrow> nat list" where
  "weekdays_named uc s =
     (let found = words_of (\<lambda>c. \<not> uc_alphanumeric uc c) (uc_lower uc s) in
      map fst (filter (\<lambda>(d, ns). list_ex (\<lambda>n. n \<in> set found) ns) weekday_names))"

definition starts_with :: "(char \<Rightarrow> bool) list \<Rightarrow> string \<Rightarrow> bool" where
  "starts_with ps s \<longleftrightarrow> length ps \<le> length s \<and> list_all2 (\<lambda>p c. p c) ps (take (length ps) s)"

definition hour_mark :: "string \<Rightarrow> bool" where
  "hour_mark = starts_with [\<lambda>c. c = CHR ''h'' \<or> c = CHR ''H'']"

definition meridiem :: "string \<Rightarrow> bool" where
  "meridiem =
     starts_with [\<lambda>c. c \<in> {CHR ''a'', CHR ''A'', CHR ''p'', CHR ''P''}, \<lambda>c. c = CHR ''m'' \<or> c = CHR ''M'']"

text \<open>What may follow one or two digits.\<close>

definition time_mark :: "string \<Rightarrow> bool" where
  "time_mark rest \<longleftrightarrow>
     hour_mark rest \<or> (rest \<noteq> [] \<and> hd rest = CHR '' '' \<and> hour_mark (tl rest))
     \<or> starts_with [\<lambda>c. c = CHR '':'', is_ascii_digit, is_ascii_digit] rest
     \<or> meridiem rest \<or> (rest \<noteq> [] \<and> hd rest = CHR '' '' \<and> meridiem (tl rest))"

fun clock_in :: "bool \<Rightarrow> string \<Rightarrow> bool" where
  "clock_in in_digits [] = False"
| "clock_in in_digits (c # s) =
     (if is_ascii_digit c \<and> \<not> in_digits
         \<and> length (takeWhile is_ascii_digit (c # s)) \<le> 2 \<and> time_mark (dropWhile is_ascii_digit (c # s))
      then True
      else clock_in (is_ascii_digit c) s)"

definition names_a_time :: "unicode \<Rightarrow> string \<Rightarrow> bool" where
  "names_a_time uc s \<longleftrightarrow>
     clock_in False s
     \<or> list_ex (\<lambda>w. w \<in> set [''midi'', ''minuit'', ''noon'', ''midnight''])
         (words_of (\<lambda>c. \<not> uc_alphanumeric uc c \<and> c \<noteq> ''-'') (uc_lower uc s))"

section \<open>What the answer says\<close>

record answer =
  aw_reference :: reference
  aw_reply :: string
  aw_language :: string
  aw_disclosure :: string
  aw_summary :: "string option"
  aw_proposed :: "string list"

datatype outcome_of_wake =
    Drafted answer
  | Deferring reference string

datatype wake_refusal =
    AnswerUnauthenticated
  | AnswerMalformed
  | AnswerStale string
  | AnswerUnreadable
  | NoReference
  | NoLanguage
  | LanguageUnreadable string
  | LanguageUnsupported string
  | EmptyReply
  | ReplyTooLong nat
  | EmptySummary
  | SummaryTooLong nat
  | EmptyDeferral
  | ProposedUnreadable
  | TooManyProposed nat
  | ProposedNotRead string
  | ProposedNotFree string
  | ProposedWrongDay
  | ProposedUncheckable
  | SharedRefusal approval_refusal

fun answer_refusal_code :: "wake_refusal \<Rightarrow> string" where
  "answer_refusal_code AnswerUnauthenticated = ''unauthenticated''"
| "answer_refusal_code AnswerMalformed = ''invalid_request''"
| "answer_refusal_code (AnswerStale t) = ''hermes_answer_stale''"
| "answer_refusal_code AnswerUnreadable = ''hermes_answer_unreadable''"
| "answer_refusal_code NoReference = ''hermes_answer_has_no_reference''"
| "answer_refusal_code NoLanguage = ''hermes_answer_has_no_language''"
| "answer_refusal_code (LanguageUnreadable l) = ''hermes_answer_language_unreadable''"
| "answer_refusal_code (LanguageUnsupported l) = ''hermes_answer_language_unsupported''"
| "answer_refusal_code EmptyReply = ''hermes_answer_is_empty''"
| "answer_refusal_code (ReplyTooLong n) = ''hermes_answer_too_long''"
| "answer_refusal_code EmptySummary = ''hermes_answer_summary_is_empty''"
| "answer_refusal_code (SummaryTooLong n) = ''hermes_answer_summary_too_long''"
| "answer_refusal_code EmptyDeferral = ''hermes_answer_deferral_is_empty''"
| "answer_refusal_code ProposedUnreadable = ''hermes_answer_proposed_unreadable''"
| "answer_refusal_code (TooManyProposed n) = ''hermes_answer_proposed_too_many''"
| "answer_refusal_code (ProposedNotRead t) = ''hermes_answer_proposed_not_read''"
| "answer_refusal_code (ProposedNotFree t) = ''hermes_answer_proposed_not_free''"
| "answer_refusal_code ProposedWrongDay = ''hermes_answer_proposed_wrong_day''"
| "answer_refusal_code ProposedUncheckable = ''hermes_answer_proposed_uncheckable''"
| "answer_refusal_code (SharedRefusal e) = refusal_code e"

definition answer_refusal_status :: "wake_refusal \<Rightarrow> nat" where
  "answer_refusal_status e =
     (case e of
        AnswerUnauthenticated \<Rightarrow> 401
      | AnswerMalformed \<Rightarrow> 400
      | AnswerStale t \<Rightarrow> 400
      | SharedRefusal r \<Rightarrow> refusal_status r
      | _ \<Rightarrow> 422)"

definition max_summary :: nat where
  "max_summary = 280"

definition max_asked :: nat where
  "max_asked = max_summary"

definition max_proposed :: nat where
  "max_proposed = 8"

definition trim_end :: "string \<Rightarrow> string" where
  "trim_end s = rev (trim_with ws_width_rev (rev s))"

definition unfence :: "string \<Rightarrow> string" where
  "unfence s =
     (case strip_prefix ''```'' s of
        None \<Rightarrow> s
      | Some after \<Rightarrow>
          let rest = (case split_once (CHR 0x0A) after of Some (tag, body) \<Rightarrow> body | None \<Rightarrow> []) in
          trim (case strip_suffix ''```'' (trim_end rest) of Some inner \<Rightarrow> inner | None \<Rightarrow> rest))"

definition is_language_tag :: "string \<Rightarrow> bool" where
  "is_language_tag value \<longleftrightarrow>
     (case split_on (CHR ''-'') value of
        [] \<Rightarrow> False
      | primary # subtags \<Rightarrow>
          2 \<le> length primary \<and> length primary \<le> 3 \<and> list_all is_ascii_lowercase primary
          \<and> list_all (\<lambda>t. 1 \<le> length t \<and> length t \<le> 8
                \<and> list_all (\<lambda>c. is_ascii_digit c \<or> is_ascii_lowercase (ascii_lower c)) t) subtags)"

text \<open>A member as trimmed text, empty when it is absent or no text.\<close>

definition trimmed_at :: "json \<Rightarrow> string \<Rightarrow> string" where
  "trimmed_at j k = (case text_at j k of Some s \<Rightarrow> trim s | None \<Rightarrow> [])"

definition answer_reference :: "json \<Rightarrow> string \<Rightarrow> wake_refusal + reference" where
  "answer_reference j whole =
     ok_or NoReference
       (case Option.bind (text_at j ''reference'') reference_find of
          Some r \<Rightarrow> Some r
        | None \<Rightarrow> reference_find whole)"

definition answer_language :: "json \<Rightarrow> wake_refusal + string \<times> string" where
  "answer_language j =
     (let language = trimmed_at j ''language'' in
      if language = [] then Inl NoLanguage
      else if \<not> is_language_tag language then Inl (LanguageUnreadable language)
      else (case sentence_for language of
              None \<Rightarrow> Inl (LanguageUnsupported language)
            | Some sentence \<Rightarrow> Inr (primary_subtag language, sentence)))"

definition answer_reply :: "json \<Rightarrow> wake_refusal + string" where
  "answer_reply j =
     (let reply = trimmed_at j ''reply'' in
      if reply = [] then Inl EmptyReply
      else if max_body < chars_count reply then Inl (ReplyTooLong (chars_count reply))
      else Inr reply)"

definition answer_summary :: "json \<Rightarrow> wake_refusal + string option" where
  "answer_summary j =
     (case jget j ''summary'' of
        None \<Rightarrow> Inr None
      | Some JNull \<Rightarrow> Inr None
      | Some (JStr s) \<Rightarrow>
          if trim s = [] then Inl EmptySummary
          else if max_summary < chars_count (trim s) then Inl (SummaryTooLong (chars_count (trim s)))
          else Inr (Some (trim s))
      | Some _ \<Rightarrow> Inl AnswerUnreadable)"

definition read_offered :: "json \<Rightarrow> wake_refusal + string" where
  "read_offered v =
     (case jstr v of
        None \<Rightarrow> Inl ProposedUnreadable
      | Some s \<Rightarrow> if parse_rfc3339_seconds (trim s) = None then Inl ProposedUnreadable else Inr (trim s))"

definition answer_proposed :: "json \<Rightarrow> wake_refusal + string list" where
  "answer_proposed j =
     (case jget j ''proposed'' of
        None \<Rightarrow> Inr []
      | Some JNull \<Rightarrow> Inr []
      | Some (JArr instants) \<Rightarrow>
          if max_proposed < length instants then Inl (TooManyProposed (length instants))
          else traverse read_offered instants
      | Some _ \<Rightarrow> Inl ProposedUnreadable)"

definition parse_answer :: "(string \<Rightarrow> json option) \<Rightarrow> string \<Rightarrow> wake_refusal + answer" where
  "parse_answer read_json written =
     (let whole = unfence (trim written) in
      and_then (ok_or AnswerUnreadable (Option.bind (read_json whole) (\<lambda>v. map_option JObj (jobj v)))) (\<lambda>j.
      and_then (answer_reference j whole) (\<lambda>r.
      and_then (answer_language j) (\<lambda>(language, sentence).
      and_then (answer_reply j) (\<lambda>reply.
      and_then (answer_summary j) (\<lambda>summary.
      and_then (answer_proposed j) (\<lambda>offered.
        Inr \<lparr>aw_reference = r, aw_reply = reply, aw_language = language, aw_disclosure = sentence,
             aw_summary = summary, aw_proposed = offered\<rparr>)))))))"

definition parse_outcome :: "(string \<Rightarrow> json option) \<Rightarrow> string \<Rightarrow> wake_refusal + outcome_of_wake" where
  "parse_outcome read_json written =
     (let whole = unfence (trim written); draft = map_sum id Drafted (parse_answer read_json written) in
      case Option.bind (read_json whole) (\<lambda>v. map_option JObj (jobj v)) of
        None \<Rightarrow> draft
      | Some j \<Rightarrow>
          (case jget j ''deferred'' of
             None \<Rightarrow> draft
           | Some JNull \<Rightarrow> draft
           | Some (JStr asked) \<Rightarrow>
               if trimmed_at j ''reply'' \<noteq> [] then draft
               else if trim asked = [] then Inl EmptyDeferral
               else
                 and_then (answer_reference j whole) (\<lambda>r.
                   Inr (Deferring r (take_chars max_asked (trim asked))))
           | Some _ \<Rightarrow> Inl AnswerUnreadable))"

section \<open>The times it offers\<close>

record answers =
  an_secret :: string
  an_domain :: string
  an_ttl :: nat
  an_reads :: "seam option"

text \<open>
  The circumstances of one push: those of the calls to the approvals, the clock, whether SQLite
  reads the windows and writes the deferral, and the reads of the calendars.
\<close>

record answer_call =
  ac_approvals :: circumstances
  ac_now :: nat
  ac_windows_read :: bool
  ac_deferred :: bool
  ac_reads :: read_call

definition window_covers :: "string \<times> string \<times> string \<Rightarrow> int \<Rightarrow> bool" where
  "window_covers w at =
     (case (parse_rfc3339_seconds (fst (snd w)), parse_rfc3339_seconds (snd (snd w))) of
        (Some a, Some b) \<Rightarrow> covers (a, b) at
      | _ \<Rightarrow> False)"

text \<open>An offered instant with the index of the first window that covers it.\<close>

definition locate ::
  "(string \<times> string \<times> string) list \<Rightarrow> string \<Rightarrow> wake_refusal + nat \<times> string \<times> int" where
  "locate windows instant =
     and_then (ok_or ProposedUnreadable (parse_rfc3339_seconds instant)) (\<lambda>at.
     case List.find (\<lambda>i. window_covers (windows ! i) at) [0..<length windows] of
       None \<Rightarrow> Inl (ProposedNotRead instant)
     | Some i \<Rightarrow> Inr (i, instant, at))"

fun check_offers :: "hermes_gap list \<Rightarrow> (string \<times> int) list \<Rightarrow> wake_refusal + nat list" where
  "check_offers gaps_found [] = Inr []"
| "check_offers gaps_found ((instant, at) # offers) =
     (case List.find (\<lambda>g. covers (hg_start g, hg_end g) at) gaps_found of
        None \<Rightarrow> Inl (ProposedNotFree instant)
      | Some g \<Rightarrow>
          and_then (check_offers gaps_found offers) (\<lambda>days.
            Inr (case hg_offset g of Some offset \<Rightarrow> weekday_at (at + offset) # days | None \<Rightarrow> days)))"

fun check_windows ::
  "seam \<Rightarrow> read_call \<Rightarrow> string \<Rightarrow> (string \<times> string \<times> string) list \<Rightarrow> (nat \<times> string \<times> int) list \<Rightarrow> nat list
    \<Rightarrow> hermes_journal \<Rightarrow> (wake_refusal + nat list) \<times> hermes_journal" where
  "check_windows se rc delivery windows located [] j = (Inr [], j)"
| "check_windows se rc delivery windows located (i # is) j =
     (case free_gaps se rc (fst (windows ! i)) (snd (windows ! i)) delivery j of
        (Inr (Some gaps_found), j1) \<Rightarrow>
          (case check_offers gaps_found (map snd (filter (\<lambda>p. fst p = i) located)) of
             Inl e \<Rightarrow> (Inl e, j1)
           | Inr days \<Rightarrow>
               (case check_windows se rc delivery windows located is j1 of
                  (r, j2) \<Rightarrow> (and_then r (\<lambda>more_days. Inr (days @ more_days)), j2)))
      | (_, j1) \<Rightarrow> (Inl ProposedUncheckable, j1))"

definition check_the_days :: "unicode \<Rightarrow> answer \<Rightarrow> nat list \<Rightarrow> wake_refusal + unit" where
  "check_the_days uc aw offered_days =
     (let named = weekdays_named uc (aw_reply aw) in
      if named = [] \<or> offered_days = [] \<or> list_ex (\<lambda>d. d \<in> set named) offered_days then Inr ()
      else Inl ProposedWrongDay)"

definition check_proposals ::
  "unicode \<Rightarrow> answers \<Rightarrow> answer_call \<Rightarrow> answer \<Rightarrow> hermes_journal \<Rightarrow> (wake_refusal + unit) \<times> hermes_journal" where
  "check_proposals uc an ac aw j =
     (if aw_proposed aw = [] then (Inr (), j)
      else
        (case an_reads an of
           None \<Rightarrow> (Inl ProposedUncheckable, j)
         | Some se \<Rightarrow>
             if \<not> ac_windows_read ac then (Inl ProposedUncheckable, j)
             else
               let windows = windows_read_for j (rf_trigger (aw_reference aw)) in
               (case traverse (locate windows) (aw_proposed aw) of
                  Inl e \<Rightarrow> (Inl e, j)
                | Inr located \<Rightarrow>
                    (case check_windows se (ac_reads ac) (reference_text (aw_reference aw)) windows located
                            (filter (\<lambda>i. i \<in> fst ` set located) [0..<length windows]) j of
                       (r, j1) \<Rightarrow> (and_then r (check_the_days uc aw), j1)))))"

section \<open>The suggestion\<close>

definition answer_context :: "answer \<Rightarrow> trigger_envelope \<Rightarrow> (string \<times> json) list" where
  "answer_context aw te =
     (case aw_summary aw of
        None \<Rightarrow> []
      | Some summary \<Rightarrow>
          [(''context'', JObj ((''summary'', JStr summary)
              # (case te_display_name te of None \<Rightarrow> [] | Some n \<Rightarrow> [(''contact'', JStr n)])))])"

definition answer_times :: "unicode \<Rightarrow> answer \<Rightarrow> (string \<times> json) list" where
  "answer_times uc aw =
     (if aw_proposed aw \<noteq> []
      then [(''times'', JObj [(''state'', JStr ''checked''), (''count'', JNum (int (length (aw_proposed aw))))])]
      else if names_a_time uc (aw_reply aw) then [(''times'', JObj [(''state'', JStr ''unverified'')])]
      else [])"

definition suggest_type :: string where
  "suggest_type = ''fr.linagora.twalk.persona.suggest.produced.v1''"

definition answer_envelope ::
  "unicode \<Rightarrow> answers \<Rightarrow> answer \<Rightarrow> trigger_envelope \<Rightarrow> string \<Rightarrow> nat \<Rightarrow> json" where
  "answer_envelope uc an aw te i produced_at =
     (let r = aw_reference aw in
      JObj
        ([(''specversion'', JStr ''1.0''),
          (''id'', JStr i),
          (''source'', JStr (''hermes://'' @ an_domain an @ ''/personas/'' @ rf_persona_id r)),
          (''type'', JStr suggest_type),
          (''time'', JStr (rfc3339_seconds produced_at)),
          (''subject'', JStr (te_event_id te)),
          (''datacontenttype'', JStr ''application/json''),
          (''dataschema'', JStr (''https://schemas.twalk.dev/cloudevents/v1/''
             @ ''persona.suggest.produced.schema.json'')),
          (''network'', JStr (network_as_str (te_network te))),
          (''connection'', JStr (te_connection te)),
          (''consent'', JStr (gstate_as_str (te_label te))),
          (''data'', JObj
             ([(''persona_id'', JStr (rf_persona_id r)),
               (''trigger'', JObj [(''event_id'', JStr (te_event_id te)), (''event_type'', JStr (te_event_type te))]),
               (''suggestion'', JObj [(''body'', JStr (aw_reply aw)), (''format'', JStr (format_as_str PlainText))]),
               (''disclosure'', JStr (aw_disclosure aw)),
               (''attempt'', JNum (int (rf_attempt r))),
               (''expires_at'', JStr (rfc3339_seconds (produced_at + an_ttl an)))]
              @ answer_context aw te @ answer_times uc aw))]
         @ (case te_traceparent te of None \<Rightarrow> [] | Some trace \<Rightarrow> [(''traceparent'', JStr trace)])))"

definition publish_answer :: "string \<Rightarrow> json \<Rightarrow> trigger_envelope \<Rightarrow> outgoing" where
  "publish_answer i document te =
     publish_envelope suggest_subject i document
       ([(''network'', network_as_str (te_network te)), (''connection'', te_connection te),
         (''consent'', gstate_as_str (te_label te))]
        @ (case te_traceparent te of None \<Rightarrow> [] | Some trace \<Rightarrow> [(''traceparent'', trace)]))"

section \<open>The act\<close>

record hook_push =
  pu_hook :: string
  pu_timestamp :: string
  pu_response :: string
  pu_platform :: string

definition defaulted_text :: "json \<Rightarrow> string \<Rightarrow> string option" where
  "defaulted_text j k = (case jget j k of None \<Rightarrow> Some [] | Some v \<Rightarrow> jstr v)"

definition read_push :: "json \<Rightarrow> hook_push option" where
  "read_push j =
     do {
       hook \<leftarrow> text_at j ''hook_event_name'';
       delivery_id \<leftarrow> defaulted_text j ''delivery_id'';
       timestamp \<leftarrow> defaulted_text j ''timestamp'';
       extra \<leftarrow> object_at j ''extra'';
       written \<leftarrow> defaulted_text extra ''response_text'';
       session \<leftarrow> defaulted_text extra ''session_id'';
       platform \<leftarrow> defaulted_text extra ''platform'';
       model \<leftarrow> defaulted_text extra ''model'';
       Some \<lparr>pu_hook = hook, pu_timestamp = timestamp, pu_response = written, pu_platform = platform\<rparr>
     }"

datatype received =
    PublishedAnswer string string nat
  | DeferredAnswer string
  | IgnoredPush string

text \<open>The message an answer is about, when the contact may be answered now.\<close>

definition consenting_trigger ::
  "circumstances \<Rightarrow> approvals \<Rightarrow> string \<Rightarrow> wake_refusal + trigger_envelope" where
  "consenting_trigger ci ap i =
     (case and_then (trigger_envelope_of ci i ap) (\<lambda>te.
            and_then (consent_now (ci_consent_read ci) (ap_consent ap) (te_contact te) (te_connection te) (te_network te))
              (\<lambda>_. Inr te)) of
        Inl e \<Rightarrow> Inl (SharedRefusal e)
      | Inr te \<Rightarrow> Inr te)"

definition defer_answer ::
  "answer_call \<Rightarrow> approvals \<Rightarrow> reference \<Rightarrow> string \<Rightarrow> hermes_journal
    \<Rightarrow> (wake_refusal + received) \<times> hermes_journal" where
  "defer_answer ac ap r asked j =
     (case consenting_trigger (ac_approvals ac) ap (rf_trigger r) of
        Inl e \<Rightarrow> (Inl e, j)
      | Inr te \<Rightarrow>
          if \<not> ac_deferred ac then (Inl (SharedRefusal StoreUnavailable), j)
          else (Inr (DeferredAnswer (rf_trigger r)),
                record_hermes_deferral r asked (rfc3339_seconds (ac_now ac)) j))"

definition draft_answer ::
  "(string \<Rightarrow> 8 word list) \<Rightarrow> unicode \<Rightarrow> answers \<Rightarrow> answer_call \<Rightarrow> approvals \<Rightarrow> answer \<Rightarrow> hermes_journal
    \<Rightarrow> (wake_refusal + received) \<times> outgoing list \<times> hermes_journal" where
  "draft_answer digest uc an ac ap aw j =
     (case consenting_trigger (ac_approvals ac) ap (rf_trigger (aw_reference aw)) of
        Inl e \<Rightarrow> (Inl e, [], j)
      | Inr te \<Rightarrow>
          (case check_proposals uc an ac aw j of
             (Inl e, j1) \<Rightarrow> (Inl e, [], j1)
           | (Inr u, j1) \<Rightarrow>
               (let i = suggestion_event_id digest (aw_reference aw);
                    m = publish_answer i (answer_envelope uc an aw te i (ac_now ac)) te
                in case ci_bus (ac_approvals ac) of
                     NotSent \<Rightarrow> (Inl (SharedRefusal BusUnreachable), [], j1)
                   | Unanswered \<Rightarrow> (Inl (SharedRefusal BusUnreachable), [m], j1)
                   | Stored s \<Rightarrow> (Inr (PublishedAnswer i (aw_language aw) s), [m], j1))))"

definition receive_push ::
  "(string \<Rightarrow> string \<Rightarrow> 8 word list) \<Rightarrow> (string \<Rightarrow> 8 word list) \<Rightarrow> (string \<Rightarrow> json option) \<Rightarrow> unicode \<Rightarrow> answers
    \<Rightarrow> answer_call \<Rightarrow> approvals \<Rightarrow> string \<Rightarrow> string option \<Rightarrow> hermes_journal
    \<Rightarrow> (wake_refusal + received) \<times> outgoing list \<times> hermes_journal" where
  "receive_push hmac digest read_json uc an ac ap body signature j =
     (if \<not> signature_matches hmac (an_secret an) signature body then (Inl AnswerUnauthenticated, [], j)
      else
        (case Option.bind (read_json body) read_push of
           None \<Rightarrow> (Inl AnswerMalformed, [], j)
         | Some pu \<Rightarrow>
             if pu_hook pu \<noteq> ''transform_llm_output'' then (Inr (IgnoredPush ''not_our_hook''), [], j)
             else if pu_platform pu \<noteq> ''webhook'' then (Inr (IgnoredPush ''not_a_webhook_run''), [], j)
             else if \<not> is_fresh (pu_timestamp pu) (ac_now ac) then (Inl (AnswerStale (pu_timestamp pu)), [], j)
             else
               (case parse_outcome read_json (pu_response pu) of
                  Inl e \<Rightarrow> (Inl e, [], j)
                | Inr (Deferring r asked) \<Rightarrow>
                    (case defer_answer ac ap r asked j of (res, j1) \<Rightarrow> (res, [], j1))
                | Inr (Drafted aw) \<Rightarrow> draft_answer digest uc an ac ap aw j)))"

text \<open>The route, on the bytes of a body.\<close>

definition error_json :: "string \<Rightarrow> json" where
  "error_json code = JObj [(''error'', JStr code)]"

definition received_json :: "received \<Rightarrow> json" where
  "received_json r =
     (case r of
        PublishedAnswer i language s \<Rightarrow>
          JObj [(''status'', JStr ''published''), (''suggestion_event_id'', JStr i), (''language'', JStr language),
                (''stream_sequence'', JNum (int s))]
      | DeferredAnswer i \<Rightarrow> JObj [(''status'', JStr ''deferred''), (''trigger_event_id'', JStr i)]
      | IgnoredPush why_not \<Rightarrow> JObj [(''status'', JStr ''ignored''), (''reason'', JStr why_not)])"

definition receive_answer ::
  "(string \<Rightarrow> string \<Rightarrow> 8 word list) \<Rightarrow> (string \<Rightarrow> 8 word list) \<Rightarrow> (string \<Rightarrow> json option) \<Rightarrow> unicode
    \<Rightarrow> answers option \<Rightarrow> answer_call \<Rightarrow> approvals \<Rightarrow> string \<Rightarrow> string option \<Rightarrow> hermes_journal
    \<Rightarrow> (nat \<times> json) \<times> outgoing list \<times> hermes_journal" where
  "receive_answer hmac digest read_json uc gateway ac ap body signature j =
     (case gateway of
        None \<Rightarrow> ((503, error_json ''hermes_answers_not_configured''), [], j)
      | Some an \<Rightarrow>
          if max_push_bytes < length body then ((413, error_json ''push_too_large''), [], j)
          else
            (case receive_push hmac digest read_json uc an ac ap body signature j of
               (Inr r, sent, j1) \<Rightarrow> ((200, received_json r), sent, j1)
             | (Inl e, sent, j1) \<Rightarrow> ((answer_refusal_status e, error_json (answer_refusal_code e)), sent, j1)))"

section \<open>What an accepted answer is\<close>

lemma answer_parts:
  assumes "parse_answer read_json written = Inr aw"
  obtains j where "answer_reference j (unfence (trim written)) = Inr (aw_reference aw)"
    and "answer_language j = Inr (aw_language aw, aw_disclosure aw)" and "answer_reply j = Inr (aw_reply aw)"
    and "answer_summary j = Inr (aw_summary aw)" and "answer_proposed j = Inr (aw_proposed aw)"
  using assms by (auto simp: parse_answer_def Let_def result_simps)

lemma answer_reference_ok: "answer_reference j whole = Inr r \<Longrightarrow> reference_ok r"
  by (auto simp: answer_reference_def result_simps intro: reference_find_ok split: option.splits bind_splits)

lemma answer_reply_bounds: "answer_reply j = Inr s \<Longrightarrow> s \<noteq> [] \<and> chars_count s \<le> max_body"
  by (auto simp: answer_reply_def Let_def split: if_splits)

lemma answer_summary_bounds: "answer_summary j = Inr (Some s) \<Longrightarrow> s \<noteq> [] \<and> chars_count s \<le> max_summary"
  by (auto simp: answer_summary_def split: option.splits json.splits if_splits)

lemma answer_proposed_bounds:
  assumes "answer_proposed j = Inr ts"
  shows "length ts \<le> max_proposed \<and> (\<forall>t \<in> set ts. \<exists>at. parse_rfc3339_seconds t = Some at)"
proof -
  have "length ts = length vs \<and> (\<forall>t \<in> set ts. \<exists>at. parse_rfc3339_seconds t = Some at)"
    if "traverse read_offered vs = Inr ts" for vs
  proof -
    from that have all: "list_all2 (\<lambda>v t. read_offered v = Inr t) vs ts" by (simp add: result_simps)
    have offered: "\<exists>at. parse_rfc3339_seconds t = Some at" if "read_offered v = Inr t" for v t
      using that by (auto simp: read_offered_def split: option.splits if_splits)
    have "\<exists>at. parse_rfc3339_seconds t = Some at" if "t \<in> set ts" for t
      using all that offered by (induction rule: list_all2_induct) auto
    then show ?thesis using list_all2_lengthD [OF all] by simp
  qed
  then show ?thesis
    using assms by (auto simp: answer_proposed_def split: option.splits json.splits if_splits)
qed

lemma sentence_for_sentence: "sentence_for l = Some s \<Longrightarrow> is_contract_sentence s"
  unfolding sentence_for_def is_contract_sentence_def list_ex_iff by (metis map_of_SomeD snd_conv)

lemma sentence_fits:
  assumes "is_contract_sentence s" and "chars_count body \<le> max_body"
  shows "fits_with_disclosure body s"
proof -
  have "chars_count s \<le> max_disclosure_chars"
    using assms(1) contract_sentences by (auto simp: is_contract_sentence_def list_ex_iff)
  then show ?thesis
    using assms(2) by (simp add: fits_with_disclosure_def max_body_def max_disclosure_chars_def contract_max_body_def)
qed

lemma answer_refusals:
  "answer_reference j whole = Inl e \<Longrightarrow> answer_refusal_status e = 422"
  "answer_language j = Inl e \<Longrightarrow> answer_refusal_status e = 422"
  "answer_reply j = Inl e \<Longrightarrow> answer_refusal_status e = 422"
  "answer_summary j = Inl e \<Longrightarrow> answer_refusal_status e = 422"
  by (auto simp: answer_reference_def answer_language_def answer_reply_def answer_summary_def Let_def result_simps
      answer_refusal_status_def split: option.splits json.splits if_splits)

lemma answer_proposed_refusal: "answer_proposed j = Inl e \<Longrightarrow> answer_refusal_status e = 422"
  by (auto simp: answer_proposed_def read_offered_def result_simps answer_refusal_status_def
      split: option.splits json.splits if_splits)

lemma answer_language_sentence: "answer_language j = Inr (l, s) \<Longrightarrow> is_contract_sentence s"
  by (auto simp: answer_language_def Let_def intro: sentence_for_sentence split: if_splits option.splits)

lemma take_chars_not_Nil: "s \<noteq> [] \<Longrightarrow> 0 < n \<Longrightarrow> take_chars n s \<noteq> []"
  by (cases s; cases n) auto

lemma map_sum_drafted [result_simps]:
  "map_sum id Drafted x = Inr w \<longleftrightarrow> (\<exists>aw. x = Inr aw \<and> w = Drafted aw)"
  "map_sum id Drafted x = Inl e \<longleftrightarrow> x = Inl e"
  by (cases x; auto)+

text \<open>
  C15. What can come out of the text a model wrote. A draft names one message by an event id and an
  attempt from 1, its reply is not empty and leaves room for its disclosure, which is a sentence of
  the contract, its summary is at most 280 characters and it offers at most 8 instants, each of
  which is one; a question names a message likewise and is cut to 280 characters.
\<close>

theorem accepted_answer_is_bounded:
  shows "case parse_outcome read_json written of
      Inr (Drafted aw) \<Rightarrow>
        reference_ok (aw_reference aw) \<and> aw_reply aw \<noteq> []
        \<and> (\<exists>s. aw_disclosure aw = s \<and> is_contract_sentence s \<and> fits_with_disclosure (aw_reply aw) s)
        \<and> (\<forall>s. aw_summary aw = Some s \<longrightarrow> s \<noteq> [] \<and> chars_count s \<le> 280)
        \<and> length (aw_proposed aw) \<le> 8 \<and> (\<forall>t \<in> set (aw_proposed aw). \<exists>at. parse_rfc3339_seconds t = Some at)
    | Inr (Deferring r asked) \<Rightarrow> reference_ok r \<and> asked \<noteq> [] \<and> chars_count asked \<le> 280
    | Inl e \<Rightarrow> answer_refusal_status e = 422"
proof -
  have draft: "reference_ok (aw_reference aw) \<and> aw_reply aw \<noteq> []
        \<and> (\<exists>s. aw_disclosure aw = s \<and> is_contract_sentence s \<and> fits_with_disclosure (aw_reply aw) s)
        \<and> (\<forall>s. aw_summary aw = Some s \<longrightarrow> s \<noteq> [] \<and> chars_count s \<le> 280)
        \<and> length (aw_proposed aw) \<le> 8 \<and> (\<forall>t \<in> set (aw_proposed aw). \<exists>at. parse_rfc3339_seconds t = Some at)"
    if aw: "parse_answer read_json written = Inr aw" for aw
  proof -
    obtain j where j: "answer_reference j (unfence (trim written)) = Inr (aw_reference aw)"
      "answer_language j = Inr (aw_language aw, aw_disclosure aw)" "answer_reply j = Inr (aw_reply aw)"
      "answer_summary j = Inr (aw_summary aw)" "answer_proposed j = Inr (aw_proposed aw)"
      using answer_parts [OF aw] .
    have "s \<noteq> [] \<and> chars_count s \<le> 280" if "aw_summary aw = Some s" for s
      using answer_summary_bounds [of j s] j(4) that by (simp add: max_summary_def)
    then show ?thesis
      using answer_reference_ok [OF j(1)] answer_language_sentence [OF j(2)] answer_reply_bounds [OF j(3)]
        answer_proposed_bounds [OF j(5)] sentence_fits
      by (auto simp: max_proposed_def)
  qed
  have refused: "answer_refusal_status e = 422" if "parse_answer read_json written = Inl e" for e
    using that answer_refusals answer_proposed_refusal
    by (auto simp: parse_answer_def Let_def result_simps) (simp add: answer_refusal_status_def)
  show ?thesis
  proof (cases "parse_outcome read_json written")
    case (Inl e)
    then have "answer_refusal_status e = 422"
      using refused answer_refusals(1)
      by (auto simp: parse_outcome_def Let_def result_simps answer_refusal_status_def
          split: option.splits json.splits if_splits)
    then show ?thesis using Inl by simp
  next
    case (Inr w)
    show ?thesis
    proof (cases w)
      case (Drafted aw)
      then have "parse_answer read_json written = Inr aw"
        using Inr by (auto simp: parse_outcome_def Let_def result_simps
            split: option.splits json.splits if_splits)
      then show ?thesis using draft Inr Drafted by simp
    next
      case (Deferring r asked)
      then have "reference_ok r \<and> asked \<noteq> [] \<and> chars_count asked \<le> 280"
        using Inr answer_reference_ok
        by (auto simp: parse_outcome_def Let_def result_simps max_asked_def max_summary_def chars_count_take_chars
            take_chars_not_Nil split: option.splits json.splits if_splits)
      then show ?thesis using Inr Deferring by simp
    qed
  qed
qed

section \<open>What a published answer went through\<close>

text \<open>What the collector answers to the check of a window.\<close>

definition gaps_of :: "seam \<Rightarrow> read_call \<Rightarrow> string \<times> string \<times> string \<Rightarrow> hermes_gap list option" where
  "gaps_of se rc w =
     (case serve_checked se rc (fst w)
             (empty_request\<lparr>rq_connection := Some (fst w), rq_from := Some (fst (snd w)), rq_to := Some (snd (snd w))\<rparr>) of
        Inr a \<Rightarrow> map_option (List.map_filter read_gap) (fb_free a)
      | Inl e \<Rightarrow> None)"

lemma serve_checked_delivery:
  "serve_checked se rc c (rq\<lparr>rq_delivery := d\<rparr>) = serve_checked se rc c rq"
  by (simp add: serve_checked_def)

lemma free_gaps_of:
  "free_gaps se rc (fst w) (snd w) delivery j = (r, j') \<Longrightarrow> r = Inr (Some g) \<longleftrightarrow> gaps_of se rc w = Some g"
  by (cases "serve_checked se rc (fst w)
        (empty_request\<lparr>rq_connection := Some (fst w), rq_from := Some (fst (snd w)), rq_to := Some (snd (snd w))\<rparr>)")
    (auto simp: free_gaps_def gaps_of_def checked_read_def Let_def serve_checked_delivery)

lemma free_gaps_deferrals:
  "free_gaps se rc c w delivery j = (r, j') \<Longrightarrow>
     hj_deferrals j' = hj_deferrals j \<and> hj_event_reads j' = hj_event_reads j"
  by (auto simp: free_gaps_def checked_read_def record_read_def record_hermes_read_def Let_def split: if_splits)

definition is_offered_free :: "seam \<Rightarrow> read_call \<Rightarrow> string \<times> string \<times> string \<Rightarrow> int \<Rightarrow> bool" where
  "is_offered_free se rc w at \<longleftrightarrow>
     (\<exists>gs. gaps_of se rc w = Some gs \<and> (\<exists>g \<in> set gs. hg_start g \<le> at \<and> at < hg_end g))"

lemma check_offers_Inr:
  assumes "check_offers gs offers = Inr days" and "(t, at) \<in> set offers"
  shows "\<exists>g \<in> set gs. hg_start g \<le> at \<and> at < hg_end g"
  using assms
proof (induction offers arbitrary: days)
  case (Cons p offers)
  obtain t' at' where p: "p = (t', at')" by (cases p)
  obtain g where g: "List.find (\<lambda>g. covers (hg_start g, hg_end g) at') gs = Some g"
    and rest: "\<exists>ds. check_offers gs offers = Inr ds"
    using Cons.prems(1) by (auto simp: p result_simps split: option.splits)
  from g have "g \<in> set gs \<and> covers (hg_start g, hg_end g) at'"
    by (auto simp: find_Some_iff)
  then show ?case using Cons rest p by (auto simp: covers_def)
qed simp

lemma check_windows_Inr:
  assumes "check_windows se rc delivery windows located is j = (Inr days, j')" and "(i, t, at) \<in> set located"
    and "i \<in> set is"
  shows "is_offered_free se rc (windows ! i) at"
  using assms(1,3)
proof (induction "is" arbitrary: j j' days)
  case (Cons k ks)
  obtain r j1 where g: "free_gaps se rc (fst (windows ! k)) (snd (windows ! k)) delivery j = (r, j1)"
    by (cases "free_gaps se rc (fst (windows ! k)) (snd (windows ! k)) delivery j")
  obtain gs ds where gs: "r = Inr (Some gs)" "check_offers gs (map snd (filter (\<lambda>p. fst p = k) located)) = Inr ds"
    and rest: "\<exists>ds' j2. check_windows se rc delivery windows located ks j1 = (Inr ds', j2)"
    using Cons.prems(1) by (auto simp: g result_simps split: sum.splits option.splits prod.splits)
  show ?case
  proof (cases "i = k")
    case True
    then have offered: "(t, at) \<in> set (map snd (filter (\<lambda>p. fst p = k) located))" using assms(2) by force
    have "gaps_of se rc (windows ! i) = Some gs" using free_gaps_of [OF g, of gs] gs(1) True by simp
    then show ?thesis
      using check_offers_Inr [OF gs(2) offered] by (simp add: is_offered_free_def)
  next
    case False
    then have "i \<in> set ks" using Cons.prems(2) by simp
    then show ?thesis using Cons.IH rest by blast
  qed
qed simp

lemma check_windows_deferrals:
  "check_windows se rc delivery windows located is j = (r, j') \<Longrightarrow> hj_deferrals j' = hj_deferrals j"
proof (induction "is" arbitrary: j r)
  case (Cons k ks)
  then show ?case
    by (fastforce dest: free_gaps_deferrals split: prod.splits sum.splits option.splits)
qed simp

lemma find_SomeD: "List.find p xs = Some x \<Longrightarrow> x \<in> set xs \<and> p x"
  by (induction xs) (auto split: if_splits)

lemma locate_Inr:
  assumes "locate windows t = Inr (i, t', at)"
  shows "t' = t" and "parse_rfc3339_seconds t = Some at" and "i < length windows"
    and "window_covers (windows ! i) at"
proof -
  have parts: "t' = t" "parse_rfc3339_seconds t = Some at"
      "List.find (\<lambda>i. window_covers (windows ! i) at) [0..<length windows] = Some i"
    using assms by (auto simp: locate_def result_simps split: option.splits)
  show "t' = t" "parse_rfc3339_seconds t = Some at" by (rule parts)+
  show "i < length windows" "window_covers (windows ! i) at" using find_SomeD [OF parts(3)] by simp_all
qed

lemma check_proposals_Inr:
  assumes "check_proposals uc an ac aw j = (Inr u, j')" and "t \<in> set (aw_proposed aw)"
  shows "\<exists>se at w. an_reads an = Some se \<and> parse_rfc3339_seconds t = Some at
     \<and> w \<in> set (windows_read_for j (rf_trigger (aw_reference aw))) \<and> window_covers w at
     \<and> is_offered_free se (ac_reads ac) w at"
proof -
  let ?ws = "windows_read_for j (rf_trigger (aw_reference aw))"
  obtain se located where se: "an_reads an = Some se"
    and located: "traverse (locate ?ws) (aw_proposed aw) = Inr located"
    and checked: "\<exists>days j2. check_windows se (ac_reads ac) (reference_text (aw_reference aw)) ?ws located
        (filter (\<lambda>i. i \<in> fst ` set located) [0..<length ?ws]) j = (Inr days, j2)"
    using assms by (auto simp: check_proposals_def Let_def result_simps split: option.splits if_splits sum.splits prod.splits)
  obtain i t' at where i: "locate ?ws t = Inr (i, t', at)" "(i, t', at) \<in> set located"
  proof -
    have "list_all2 (\<lambda>t p. locate ?ws t = Inr p) (aw_proposed aw) located" using located by (simp add: result_simps)
    then obtain p where "locate ?ws t = Inr p" "p \<in> set located"
      using assms(2) by (induction rule: list_all2_induct) auto
    then show thesis using that by (cases p) auto
  qed
  have "i \<in> set (filter (\<lambda>i. i \<in> fst ` set located) [0..<length ?ws])"
    using i(2) locate_Inr(3) [OF i(1)] by force
  then have "is_offered_free se (ac_reads ac) (?ws ! i) at"
    using checked check_windows_Inr i(2) by blast
  then show ?thesis
    using se locate_Inr(2-4) [OF i(1)] by (metis nth_mem)
qed

lemma check_proposals_deferrals: "check_proposals uc an ac aw j = (r, j') \<Longrightarrow> hj_deferrals j' = hj_deferrals j"
  by (auto simp: check_proposals_def Let_def split: if_splits option.splits sum.splits prod.splits
      dest: check_windows_deferrals)

lemma consenting_trigger_Inr:
  "consenting_trigger ci ap i = Inr te \<Longrightarrow>
     trigger_envelope_of ci i ap = Inr te
     \<and> eff_state (store_effective (ap_consent ap) (te_contact te) (te_connection te) (te_network te)) = SGranted"
  by (auto simp: consenting_trigger_def consent_now_def result_simps split: sum.splits if_splits gstate.splits)

lemma draft_answer_sent:
  assumes "draft_answer digest uc an ac ap aw j = (r, sent, j')" and "sent \<noteq> []"
  obtains te j1 where "consenting_trigger (ac_approvals ac) ap (rf_trigger (aw_reference aw)) = Inr te"
    and "check_proposals uc an ac aw j = (Inr (), j1)"
    and "sent = [publish_answer (suggestion_event_id digest (aw_reference aw))
           (answer_envelope uc an aw te (suggestion_event_id digest (aw_reference aw)) (ac_now ac)) te]"
  using assms
  by (auto simp: draft_answer_def Let_def split: sum.splits prod.splits bus_answer.splits)

text \<open>
  C13. What leaves for an answer. A suggestion goes to the bus only for a signed push of a wake that
  is at most five minutes old, about a message that is on the bus, whose contact is effectively
  granted in the store read for that push, and with every time the answer offers inside a window
  read for that message and inside a stretch the collector answers to be free. A question enters
  the journal of the owner under the same conditions, and then nothing is sent.
\<close>

theorem answer_leaves_only_with_consent:
  assumes "receive_push hmac digest read_json uc an ac ap body signature j = (r, sent, j')"
    and "sent \<noteq> [] \<or> hj_deferrals j' \<noteq> hj_deferrals j"
  shows "\<exists>pu reference te.
     signature_matches hmac (an_secret an) signature body
     \<and> Option.bind (read_json body) read_push = Some pu \<and> pu_platform pu = ''webhook''
     \<and> is_fresh (pu_timestamp pu) (ac_now ac)
     \<and> trigger_envelope_of (ac_approvals ac) (rf_trigger reference) ap = Inr te
     \<and> eff_state (store_effective (ap_consent ap) (te_contact te) (te_connection te) (te_network te)) = SGranted
     \<and> (sent = [] \<longrightarrow> (\<exists>asked. parse_outcome read_json (pu_response pu) = Inr (Deferring reference asked)))
     \<and> (sent \<noteq> [] \<longrightarrow>
         (\<exists>aw. parse_outcome read_json (pu_response pu) = Inr (Drafted aw) \<and> aw_reference aw = reference
            \<and> hj_deferrals j' = hj_deferrals j
            \<and> sent = [publish_answer (suggestion_event_id digest reference)
                (answer_envelope uc an aw te (suggestion_event_id digest reference) (ac_now ac)) te]
            \<and> (\<forall>t \<in> set (aw_proposed aw). \<exists>se at w. an_reads an = Some se \<and> parse_rfc3339_seconds t = Some at
                 \<and> w \<in> set (windows_read_for j (rf_trigger reference)) \<and> window_covers w at
                 \<and> is_offered_free se (ac_reads ac) w at)))"
proof -
  obtain pu out where pu: "signature_matches hmac (an_secret an) signature body"
      "Option.bind (read_json body) read_push = Some pu" "pu_platform pu = ''webhook''"
      "is_fresh (pu_timestamp pu) (ac_now ac)" "parse_outcome read_json (pu_response pu) = Inr out"
    and act: "(case out of Deferring f asked \<Rightarrow> (case defer_answer ac ap f asked j of (res, j1) \<Rightarrow> (res, [], j1))
        | Drafted aw \<Rightarrow> draft_answer digest uc an ac ap aw j) = (r, sent, j')"
    using assms by (auto simp: receive_push_def split: if_splits option.splits sum.splits)
  show ?thesis
  proof (cases out)
    case (Deferring f asked)
    then have "sent = []" and d: "defer_answer ac ap f asked j = (r, j')"
      using act by (auto split: prod.splits)
    then have "\<exists>te. consenting_trigger (ac_approvals ac) ap (rf_trigger f) = Inr te"
      using assms(2) by (auto simp: defer_answer_def split: sum.splits)
    then show ?thesis using pu Deferring consenting_trigger_Inr \<open>sent = []\<close> by blast
  next
    case (Drafted aw)
    then have act: "draft_answer digest uc an ac ap aw j = (r, sent, j')" using act by simp
    then have same: "hj_deferrals j' = hj_deferrals j"
      by (auto simp: draft_answer_def Let_def split: sum.splits prod.splits bus_answer.splits
          dest: check_proposals_deferrals)
    then obtain te j1 where te: "consenting_trigger (ac_approvals ac) ap (rf_trigger (aw_reference aw)) = Inr te"
        "check_proposals uc an ac aw j = (Inr (), j1)"
        "sent = [publish_answer (suggestion_event_id digest (aw_reference aw))
           (answer_envelope uc an aw te (suggestion_event_id digest (aw_reference aw)) (ac_now ac)) te]"
      using draft_answer_sent [OF act] assms(2) by blast
    show ?thesis
      using pu Drafted te(3) same consenting_trigger_Inr [OF te(1)] check_proposals_Inr [OF te(2)] by blast
  qed
qed

section \<open>A published answer can be approved\<close>

lemma trigger_envelope_of_Inr:
  assumes "trigger_envelope_of ci i ap = Inr te"
  shows "te_event_id te = i"
    and "\<exists>c. connection_of (ap_registry ap) c (te_network te) = Inr (te_connection te)"
proof -
  obtain d where d: "trigger_lookup (ap_window ap) read_envelope_document ed_id (ci_inbound ci) None i = Inr d"
      "read_trigger_envelope (ap_registry ap) d = Inr te"
    using assms by (auto simp: trigger_envelope_of_def result_simps split: if_splits)
  have "ed_id d = i"
  proof -
    obtain ss given s where "scan (ap_window ap) inbound_subject None (with_id read_envelope_document ed_id i) (ss, given)
        = Match d s"
      using d(1) by (cases "ci_inbound ci") (auto simp: trigger_lookup_def split: found.splits)
    then show ?thesis using scan_Match with_id_SomeD by metis
  qed
  then show "te_event_id te = i" using d(2) by (auto simp: read_trigger_envelope_def result_simps)
  show "\<exists>c. connection_of (ap_registry ap) c (te_network te) = Inr (te_connection te)"
    using d(2) by (auto simp: read_trigger_envelope_def result_simps)
qed

lemma connection_of_again:
  assumes "connection_of registry c n = Inr i" and "\<forall>k \<in> set registry. trim (conn_id k) = conn_id k \<and> conn_id k \<noteq> []"
  shows "connection_of registry (Some i) n = Inr i"
proof -
  obtain k where k: "registry_resolve registry c (network_as_str n) = Inr k" "i = conn_id k"
    using assms(1) by (auto simp: connection_of_def split: sum.splits)
  have "k \<in> set registry"
    using k(1)
    by (auto simp: registry_resolve_def registry_get_def of_kind_def result_simps filter_eq_Cons_iff
        split: option.splits list.splits dest: find_SomeD)
  then have "nonblank (Some i) = Some i" "registry_get registry i \<noteq> None"
    using assms(2) k(2) by (auto simp: nonblank_def registry_get_def find_None_iff)
  then obtain k' where "registry_get registry i = Some k'" "conn_id k' = i"
    by (auto simp: registry_get_def dest: find_SomeD)
  then show ?thesis
    using \<open>nonblank (Some i) = Some i\<close> by (simp add: connection_of_def registry_resolve_def)
qed

lemma envelope_members:
  "text_at (answer_envelope uc an aw te i now) ''id'' = Some i"
  "text_at (answer_envelope uc an aw te i now) ''subject'' = Some (te_event_id te)"
  "text_at (answer_envelope uc an aw te i now) ''network'' = Some (network_as_str (te_network te))"
  "optional_text (answer_envelope uc an aw te i now) ''connection'' = Some (Some (te_connection te))"
  "text_at (answer_envelope uc an aw te i now) ''consent'' = Some (gstate_as_str (te_label te))"
  "text_at (answer_envelope uc an aw te i now) ''source'' =
     Some (''hermes://'' @ an_domain an @ ''/personas/'' @ rf_persona_id (aw_reference aw))"
  "optional_text (answer_envelope uc an aw te i now) ''traceparent'' = Some (te_traceparent te)"
  by (auto simp: answer_envelope_def text_at_def optional_text_def Let_def split: option.splits)

lemma envelope_reads_back:
  "read_suggestion_document (answer_envelope uc an aw te i now) = Some
     \<lparr>sd_id = i, sd_source = ''hermes://'' @ an_domain an @ ''/personas/'' @ rf_persona_id (aw_reference aw),
      sd_subject = te_event_id te, sd_network = network_as_str (te_network te),
      sd_connection = Some (te_connection te), sd_consent = gstate_as_str (te_label te),
      sd_traceparent = te_traceparent te, sd_persona_id = rf_persona_id (aw_reference aw),
      sd_body = aw_reply aw, sd_format = format_as_str PlainText, sd_disclosure = Some (aw_disclosure aw),
      sd_expires_at = Some (rfc3339_seconds (now + an_ttl an))\<rparr>"
proof -
  have data: "object_at (answer_envelope uc an aw te i now) ''data'' =
      Option.bind (jget (answer_envelope uc an aw te i now) ''data'') (\<lambda>v. map_option JObj (jobj v))"
    by (simp add: object_at_def)
  show ?thesis
    unfolding read_suggestion_document_def envelope_members data
    by (simp add: answer_envelope_def Let_def text_at_def optional_text_def object_at_def)
qed

text \<open>
  C14. A suggestion published for an answer is one the owner can approve: the approval path reads the
  document that was handed to the bus as the suggestion of that id for that message, on the same
  connection and with the reply and the sentence of the answer, and the draft as it stands fits
  with its disclosure, so that it is refused neither as unreadable nor as too long.
\<close>

theorem published_answer_can_be_approved:
  assumes "draft_answer digest uc an ac ap aw j = (Inr (PublishedAnswer i l s), sent, j')"
    and "parse_answer read_json written = Inr aw"
    and "\<forall>k \<in> set (ap_registry ap). trim (conn_id k) = conn_id k \<and> conn_id k \<noteq> []"
  shows "\<exists>m d sg. sent = [m] \<and> og_subject m = suggest_subject
     \<and> map_of (og_headers m) ''Nats-Msg-Id'' = Some i
     \<and> read_suggestion_document (og_payload m) = Some d \<and> read_suggestion (ap_registry ap) d s = Inr sg
     \<and> sg_event_id sg = i \<and> sg_stream_sequence sg = s \<and> sg_trigger sg = rf_trigger (aw_reference aw)
     \<and> sg_content sg = \<lparr>ct_body = aw_reply aw, ct_format = PlainText\<rparr>
     \<and> sg_disclosure sg = Some (aw_disclosure aw)
     \<and> sg_expires_at sg = Some (rfc3339_seconds (ac_now ac + an_ttl an))
     \<and> check_fits (ct_body (sg_content sg)) (sg_disclosure sg) = Inr ()"
proof -
  obtain te where te: "consenting_trigger (ac_approvals ac) ap (rf_trigger (aw_reference aw)) = Inr te"
    and i: "i = suggestion_event_id digest (aw_reference aw)"
    and sent: "sent = [publish_answer i (answer_envelope uc an aw te i (ac_now ac)) te]"
    using assms(1) by (auto simp: draft_answer_def Let_def split: sum.splits prod.splits bus_answer.splits)
  have found: "trigger_envelope_of (ac_approvals ac) (rf_trigger (aw_reference aw)) ap = Inr te"
    using consenting_trigger_Inr [OF te] by blast
  note id = trigger_envelope_of_Inr(1) [OF found]
  have c: "connection_of (ap_registry ap) (Some (te_connection te)) (te_network te) = Inr (te_connection te)"
    using trigger_envelope_of_Inr(2) [OF found] connection_of_again assms(3) by blast
  obtain v where v: "answer_language v = Inr (aw_language aw, aw_disclosure aw)" "answer_reply v = Inr (aw_reply aw)"
    using answer_parts [OF assms(2)] by metis
  have sentence: "is_contract_sentence (aw_disclosure aw)" using answer_language_sentence [OF v(1)] .
  have fits: "check_fits (aw_reply aw) (Some (aw_disclosure aw)) = Inr ()"
    using sentence_fits [OF sentence] answer_reply_bounds [OF v(2)] by (simp add: check_fits_def)
  have plain: "format_parse ''text/plain'' = Some PlainText" by code_simp
  show ?thesis
    unfolding sent
    using c sentence fits id plain
    by (simp add: publish_answer_def publish_envelope_def envelope_reads_back read_suggestion_def known_or_def
        contract_sentence_def network.parse_as_str gstate.parse_as_str reply_format.parse_as_str)
qed

section \<open>Concrete answers\<close>

definition some_wake :: json where
  "some_wake = JObj
     [(''id'', JStr (rf_trigger some_reference)), (''type'', JStr ''fr.linagora.twalk.inbound.message.received.v1''),
      (''source'', JStr ''matrix://x/!r:x''), (''subject'', JStr ''@whatsapp_1:x''), (''network'', JStr ''whatsapp''),
      (''connection'', JStr ''whatsapp''), (''consent'', JStr ''granted'')]"

definition some_answer_call :: "(string \<Rightarrow> (string \<times> string) list \<Rightarrow> relay_answer) \<Rightarrow> answer_call" where
  "some_answer_call answers_given =
     \<lparr>ac_approvals = (some_call (Stored 7))\<lparr>ci_inbound := Some
        (\<lparr>ss_first = 1, ss_last = 1, ss_messages =
           [\<lparr>bm_sequence = 1, bm_subject = inbound_subject, bm_document = Some some_wake, bm_headers = []\<rparr>]\<rparr>, 1)\<rparr>,
      ac_now = some_instant, ac_windows_read = True, ac_deferred = True, ac_reads = some_call_of answers_given\<rparr>"

definition some_answers :: answers where
  "some_answers = \<lparr>an_secret = ''s'', an_domain = ''x'', an_ttl = 3600, an_reads = Some some_seam\<rparr>"

definition ascii_only :: unicode where
  "ascii_only =
     \<lparr>uc_lower = map ascii_lower,
      uc_alphanumeric = list_all (\<lambda>c. is_ascii_digit c \<or> is_ascii_lowercase (ascii_lower c))\<rparr>"

definition answer_to :: "(string \<times> json) list \<Rightarrow> string \<Rightarrow> json option" where
  "answer_to members s =
     (if s = ''push''
      then Some (JObj [(''hook_event_name'', JStr ''transform_llm_output''),
                       (''timestamp'', JStr (rfc3339_seconds some_instant)),
                       (''extra'', JObj [(''response_text'', JStr ''answer''), (''platform'', JStr ''webhook'')])])
      else if s = ''answer'' then Some (JObj ((''reference'', JStr (reference_text some_reference)) # members))
      else None)"

definition meeting_offer :: "(string \<times> json) list" where
  "meeting_offer =
     [(''language'', JStr ''en''), (''reply'', JStr ''How about Tuesday at 10:00?''),
      (''proposed'', JArr [JStr ''2027-01-12T10:00:00Z''])]"

definition meeting_answer :: answer where
  "meeting_answer =
     \<lparr>aw_reference = some_reference, aw_reply = ''How about Tuesday at 10:00?'', aw_language = ''en'',
      aw_disclosure = ''Drafted with my AI assistant.'', aw_summary = None,
      aw_proposed = [''2027-01-12T10:00:00Z'']\<rparr>"

text \<open>The agenda of work is free that Tuesday morning, the one of home is not.\<close>

definition work_is_free :: "string \<Rightarrow> (string \<times> string) list \<Rightarrow> relay_answer" where
  "work_is_free route query = Relayed 200 (Some (JObj
     [(''busy'', JArr []),
      (''free'', JArr (if map_of query ''connection'' = Some ''work''
         then [JObj [(''start'', JStr ''2027-01-12T09:00:00Z''), (''end'', JStr ''2027-01-12T12:00:00Z''),
                     (''start_local'', JStr ''2027-01-12T10:00:00+01:00'')]]
         else []))]))"

definition both_read :: hermes_journal where
  "both_read =
     fold (\<lambda>c j. snd (free_busy_read some_hmac some_seam (some_call_of work_is_free)
                         (some_read\<lparr>rq_connection := Some c\<rparr>) j))
       [''work'', ''home''] hermes_journal_open"

lemma meeting_parsed:
  "parse_outcome (answer_to meeting_offer) ''answer'' = Inr (Drafted meeting_answer)"
  "parse_answer (answer_to meeting_offer) ''answer'' = Inr meeting_answer"
  by code_simp+

lemma meeting_read_push:
  "Option.bind (answer_to meeting_offer ''push'') read_push = Some
     \<lparr>pu_hook = ''transform_llm_output'', pu_timestamp = rfc3339_seconds some_instant, pu_response = ''answer'',
      pu_platform = ''webhook''\<rparr>"
  by code_simp

definition meeting_received where
  "meeting_received =
     receive_push some_hmac byte_digest (answer_to meeting_offer) ascii_only some_answers
       (some_answer_call work_is_free) some_approvals ''push'' (Some ''sha256=2a'') both_read"

lemma meeting_published:
  "case meeting_received of
     (Inr (PublishedAnswer i l s), [m], j) \<Rightarrow>
       jpointer (og_payload m) [''data'', ''times'', ''state''] = Some (JStr ''checked'')
       \<and> map hr_connection (drop 2 (hj_reads j)) = [''work'']
   | _ \<Rightarrow> False"
  by code_simp

text \<open>Two collectors that answer alike about the calendars of some windows are alike to their check.\<close>

lemma free_gaps_other:
  assumes "\<And>route q. map_of q ''connection'' = Some c \<Longrightarrow> other route q = rc_relay rc route q"
  shows "free_gaps se (rc\<lparr>rc_relay := other\<rparr>) c w delivery j = free_gaps se rc c w delivery j"
proof -
  have "relay (rc\<lparr>rc_relay := other\<rparr>) ''freebusy'' [(''connection'', c), (''from'', a), (''to'', b)]
      = relay rc ''freebusy'' [(''connection'', c), (''from'', a), (''to'', b)]" for a b
    using assms by (simp add: relay_def)
  moreover have "connection_ready se (rc\<lparr>rc_relay := other\<rparr>) c = connection_ready se rc c"
    by (cases rc) (simp only: connection_ready_def read_call.simps)
  ultimately have "serve_checked se (rc\<lparr>rc_relay := other\<rparr>) c rq = serve_checked se rc c rq" for rq
    unfolding serve_checked_def by (cases "read_window (rq_from rq) (rq_to rq)") auto
  then show ?thesis by (simp add: free_gaps_def checked_read_def record_read_def Let_def)
qed

lemma check_windows_other:
  assumes "\<And>i route q. i \<in> set is \<Longrightarrow> map_of q ''connection'' = Some (fst (windows ! i)) \<Longrightarrow> other route q = rc_relay rc route q"
  shows "check_windows se (rc\<lparr>rc_relay := other\<rparr>) delivery windows located is j
       = check_windows se rc delivery windows located is j"
  using assms
proof (induction "is" arbitrary: j)
  case (Cons i "is")
  have free: "free_gaps se (rc\<lparr>rc_relay := other\<rparr>) (fst (windows ! i)) w delivery j
      = free_gaps se rc (fst (windows ! i)) w delivery j" for w j
    by (rule free_gaps_other) (rule Cons.prems [OF list.set_intros(1)])
  have rest: "check_windows se (rc\<lparr>rc_relay := other\<rparr>) delivery windows located is j
      = check_windows se rc delivery windows located is j" for j
    by (rule Cons.IH) (rule Cons.prems [OF list.set_intros(2)])
  show ?case unfolding check_windows.simps free rest ..
qed simp

lemma locate_first:
  assumes "locate windows t = Inr (i, t', at)" and "w \<in> set (take n windows)" and "window_covers w at"
  shows "i < n" and "i < length windows"
proof -
  have "List.find (\<lambda>i. window_covers (windows ! i) at) [0..<length windows] = Some i"
    using assms(1) by (auto simp: locate_def result_simps split: option.splits)
  then have first: "\<not> window_covers (windows ! k) at" if "k < i" for k
    using that by (auto simp: find_Some_iff)
  obtain k where "k < n" "w = windows ! k" using assms(2) by (auto simp: in_set_conv_nth)
  then show "i < n" using first [of k] assms(3) by (cases "k < i") auto
  show "i < length windows" by (rule locate_Inr(3) [OF assms(1)])
qed

text \<open>
  C39. An offered time is checked on one calendar. When every time an answer offers lies in one of
  the first windows read for its message, the check asks about the calendars of these windows only:
  a collector that answers anything else about another calendar, that the owner is busy at that
  time or nothing at all, gets the same suggestion published as checked. The witness runs it on the
  same week read of two calendars.
\<close>

theorem offered_time_is_checked_on_one_calendar:
  assumes "\<forall>t \<in> set (aw_proposed aw). \<exists>at. parse_rfc3339_seconds t = Some at
      \<and> (\<exists>w \<in> set (take n (windows_read_for j (rf_trigger (aw_reference aw)))). window_covers w at)"
    and "\<forall>w \<in> set (take n (windows_read_for j (rf_trigger (aw_reference aw)))). \<forall>route q.
      map_of q ''connection'' = Some (fst w) \<longrightarrow> other route q = rc_relay (ac_reads ac) route q"
  shows "draft_answer digest uc an (ac\<lparr>ac_reads := ac_reads ac\<lparr>rc_relay := other\<rparr>\<rparr>) ap aw j
       = draft_answer digest uc an ac ap aw j"
proof -
  let ?ws = "windows_read_for j (rf_trigger (aw_reference aw))"
  let ?is = "\<lambda>located. filter (\<lambda>i. i \<in> fst ` set located) [0..<length ?ws]"
  have "check_windows se (ac_reads ac\<lparr>rc_relay := other\<rparr>) delivery ?ws located (?is located) j
      = check_windows se (ac_reads ac) delivery ?ws located (?is located) j"
    if located: "traverse (locate ?ws) (aw_proposed aw) = Inr located" for se delivery located
  proof (rule check_windows_other)
    fix i route and q :: "(string \<times> string) list"
    assume i: "i \<in> set (?is located)" and q: "map_of q ''connection'' = Some (fst (?ws ! i))"
    from i obtain t at k where "k < length located" "located ! k = (i, t, at)"
      by (auto simp: in_set_conv_nth)
    moreover have "list_all2 (\<lambda>t p. locate ?ws t = Inr p) (aw_proposed aw) located" using located by (simp add: result_simps)
    ultimately obtain t' where t': "t' \<in> set (aw_proposed aw)" "locate ?ws t' = Inr (i, t, at)"
      by (auto simp: list_all2_conv_all_nth intro!: that [of "aw_proposed aw ! k"])
    then obtain w where "w \<in> set (take n ?ws)" "window_covers w at"
      using assms(1) locate_Inr(2) [OF t'(2)] by auto
    note locate_first [OF t'(2) this]
    then have "?ws ! i \<in> set (take n ?ws)" by (auto simp: in_set_conv_nth intro!: exI [of _ i])
    then show "other route q = rc_relay (ac_reads ac) route q" using assms(2) q by blast
  qed
  then have "check_proposals uc an (ac\<lparr>ac_reads := ac_reads ac\<lparr>rc_relay := other\<rparr>\<rparr>) aw j = check_proposals uc an ac aw j"
    by (cases "traverse (locate ?ws) (aw_proposed aw)") (simp_all add: check_proposals_def Let_def split: option.split)
  moreover have "ac_approvals (ac\<lparr>ac_reads := x\<rparr>) = ac_approvals ac" "ac_now (ac\<lparr>ac_reads := x\<rparr>) = ac_now ac" for x
    by simp_all
  ultimately show ?thesis unfolding draft_answer_def by presburger
qed

lemma two_windows:
  "windows_read_for both_read (rf_trigger some_reference) =
     [(''work'', ''2027-01-11T00:00:00Z'', ''2027-01-16T00:00:00Z''),
      (''home'', ''2027-01-11T00:00:00Z'', ''2027-01-16T00:00:00Z'')]"
  by code_simp

lemma meeting_is_offered_in_both:
  "parse_rfc3339_seconds ''2027-01-12T10:00:00Z'' = Some 1799748000"
  "window_covers (''work'', ''2027-01-11T00:00:00Z'', ''2027-01-16T00:00:00Z'') 1799748000"
  "window_covers (''home'', ''2027-01-11T00:00:00Z'', ''2027-01-16T00:00:00Z'') 1799748000"
  by code_simp+

definition home_is_silent :: "string \<Rightarrow> (string \<times> string) list \<Rightarrow> relay_answer" where
  "home_is_silent route query =
     (if map_of query ''connection'' = Some ''work'' then work_is_free route query else NoAnswer)"

theorem offered_time_is_checked_on_one_calendar_witness:
  "list_all (\<lambda>w. window_covers w 1799748000) (windows_read_for both_read (rf_trigger some_reference))
   \<and> (case draft_answer byte_digest ascii_only some_answers (some_answer_call home_is_silent) some_approvals
          meeting_answer both_read of
        (Inr (PublishedAnswer i l s), [m], j) \<Rightarrow> jpointer (og_payload m) [''data'', ''times'', ''state''] = Some (JStr ''checked'')
      | _ \<Rightarrow> False)"
proof -
  let ?ac = "some_answer_call work_is_free"
  have trigger: "aw_reference meeting_answer = some_reference" "aw_proposed meeting_answer = [''2027-01-12T10:00:00Z'']"
    by (simp_all add: meeting_answer_def)
  have offered: "\<forall>t \<in> set (aw_proposed meeting_answer). \<exists>at. parse_rfc3339_seconds t = Some at
      \<and> (\<exists>w \<in> set (take 1 (windows_read_for both_read (rf_trigger (aw_reference meeting_answer)))). window_covers w at)"
    unfolding trigger two_windows using meeting_is_offered_in_both by simp
  have alike: "\<forall>w \<in> set (take 1 (windows_read_for both_read (rf_trigger (aw_reference meeting_answer)))). \<forall>route q.
      map_of q ''connection'' = Some (fst w) \<longrightarrow> home_is_silent route q = rc_relay (ac_reads ?ac) route q"
    unfolding trigger two_windows by (simp add: home_is_silent_def some_answer_call_def some_call_of_def)
  have "some_answer_call home_is_silent = ?ac\<lparr>ac_reads := ac_reads ?ac\<lparr>rc_relay := home_is_silent\<rparr>\<rparr>"
    by (simp add: some_answer_call_def some_call_of_def)
  then have same: "draft_answer byte_digest ascii_only some_answers (some_answer_call home_is_silent) some_approvals
        meeting_answer both_read
      = draft_answer byte_digest ascii_only some_answers ?ac some_approvals meeting_answer both_read"
    using offered_time_is_checked_on_one_calendar [OF offered alike] by simp
  have "case draft_answer byte_digest ascii_only some_answers ?ac some_approvals meeting_answer both_read of
        (Inr (PublishedAnswer i l s), [m], j) \<Rightarrow> jpointer (og_payload m) [''data'', ''times'', ''state''] = Some (JStr ''checked'')
      | _ \<Rightarrow> False"
    by code_simp
  then show ?thesis unfolding same two_windows using meeting_is_offered_in_both by simp
qed

theorem answer_leaves_only_with_consent_witness:
  "\<exists>te. trigger_envelope_of (ac_approvals (some_answer_call work_is_free)) (rf_trigger some_reference) some_approvals = Inr te
     \<and> eff_state (store_effective (ap_consent some_approvals) (te_contact te) (te_connection te) (te_network te)) = SGranted
     \<and> is_fresh (rfc3339_seconds some_instant) some_instant"
proof -
  obtain r sent j' where run: "receive_push some_hmac byte_digest (answer_to meeting_offer) ascii_only some_answers
      (some_answer_call work_is_free) some_approvals ''push'' (Some ''sha256=2a'') both_read = (r, sent, j')"
    by (metis prod_cases3)
  have "sent \<noteq> []"
    using meeting_published run by (auto simp: meeting_received_def split: sum.splits received.splits list.splits)
  from answer_leaves_only_with_consent [OF run disjI1 [OF this]] \<open>sent \<noteq> []\<close>
  show ?thesis
    unfolding meeting_read_push
    by (auto simp: meeting_parsed meeting_answer_def some_answer_call_def)
qed

theorem published_answer_can_be_approved_witness:
  "\<exists>i sg d. read_suggestion (ap_registry some_approvals) d 7 = Inr sg \<and> sg_event_id sg = i
     \<and> sg_trigger sg = rf_trigger some_reference
     \<and> sg_disclosure sg = Some ''Drafted with my AI assistant.''
     \<and> check_fits (ct_body (sg_content sg)) (sg_disclosure sg) = Inr ()"
proof -
  have "case draft_answer byte_digest ascii_only some_answers (some_answer_call work_is_free) some_approvals
          meeting_answer both_read of (Inr (PublishedAnswer i l s), sent, j) \<Rightarrow> s = 7 | _ \<Rightarrow> False"
    by code_simp
  then obtain i l sent j' where run: "draft_answer byte_digest ascii_only some_answers (some_answer_call work_is_free)
      some_approvals meeting_answer both_read = (Inr (PublishedAnswer i l 7), sent, j')"
    by (auto split: prod.splits sum.splits received.splits)
  have "\<forall>k \<in> set (ap_registry some_approvals). trim (conn_id k) = conn_id k \<and> conn_id k \<noteq> []"
    by code_simp
  from published_answer_can_be_approved [OF run meeting_parsed(2) this]
  show ?thesis by (auto simp: meeting_answer_def)
qed

theorem accepted_answer_is_bounded_witness:
  "reference_ok some_reference \<and> fits_with_disclosure (aw_reply meeting_answer) ''Drafted with my AI assistant.''
   \<and> length (aw_proposed meeting_answer) \<le> 8"
  using accepted_answer_is_bounded [of "answer_to meeting_offer" "''answer''"]
  by (simp add: meeting_parsed(1)) (simp add: meeting_answer_def)

end
